(* ===== verification/Situ_Prelude.thy ===== *)
theory Situ_Prelude
  imports Main "HOL-Library.Word"
begin

text \<open>
  Shared ground of the development: bytes and buffers, the conversions between byte runs and
  integers that Python's \<open>int.from_bytes\<close> and \<open>int.to_bytes\<close> perform, slices and slice
  assignment, the exceptions a runtime call can raise, and the facts about bit operations on
  unbounded integers that every codec proof uses.

  Python integers are unbounded, so they are \<open>int\<close>; the bit operations of HOL on \<open>int\<close> are
  the two's complement ones Python has (\<open>>>\<close> is \<open>drop_bit\<close>, \<open><<\<close> is \<open>push_bit\<close>).  A byte of
  a \<open>bytes\<close>, \<open>bytearray\<close> or \<open>memoryview\<close> is an \<open>8 word\<close>; reading it gives \<open>uint\<close>.
\<close>

unbundle bit_operations_syntax

type_synonym byte = "8 word"
type_synonym bytes = "byte list"

named_theorems bits_arith "bit operations on integers as arithmetic"

section \<open>Errors as values\<close>

text \<open>
  The class hierarchy under \<open>SituError\<close>, and the built-in exceptions the runtime's operations
  can raise by themselves.  \<open>which\<close> names the refused member and is \<open>NO_CHECK\<close> by default.
\<close>

datatype situ_class =
    SituError | BoundsError | ConstraintError | TruncatedError int | StaleViewError
  | VersionError | DepthError | StageError | ChecksumError | TagError

record situ_error =
  cls :: situ_class
  which :: int

definition NO_CHECK :: int where
  "NO_CHECK = 0xFFFFFFFF"

definition situ_error :: "situ_class \<Rightarrow> situ_error" where
  "situ_error c = \<lparr>cls = c, which = NO_CHECK\<rparr>"

datatype exn = Situ situ_error | PyIndexError | PyValueError | PyOverflowError
  | PyZeroDivisionError | PyAssertionError | PyKeyError

type_synonym 'a res = "exn + 'a"

abbreviation raise :: "situ_class \<Rightarrow> 'a res" where
  "raise c \<equiv> Inl (Situ (situ_error c))"

definition bindE :: "'e + 'a \<Rightarrow> ('a \<Rightarrow> 'e + 'b) \<Rightarrow> 'e + 'b" where
  "bindE m f = (case m of Inl e \<Rightarrow> Inl e | Inr x \<Rightarrow> f x)"

lemma bindE_simps [simp]:
  "bindE (Inl e) f = Inl e"
  "bindE (Inr x) f = f x"
  by (simp_all add: bindE_def)

lemma bindE_eq_Inr [simp]: "bindE m f = Inr y \<longleftrightarrow> (\<exists>x. m = Inr x \<and> f x = Inr y)"
  by (cases m) auto

lemma bindE_eq_Inl: "bindE m f = Inl e \<longleftrightarrow> m = Inl e \<or> (\<exists>x. m = Inr x \<and> f x = Inl e)"
  by (cases m) auto

lemma bindE_assoc: "bindE (bindE m f) g = bindE m (\<lambda>x. bindE (f x) g)"
  by (cases m) auto

section \<open>Bit operations as arithmetic\<close>

lemma int_and_mask: "(x::int) AND (2 ^ n - 1) = x mod 2 ^ n"
  by (simp flip: take_bit_eq_mod mask_eq_exp_minus_1 add: take_bit_eq_mask)

lemma int_and_7F [bits_arith]: "(x::int) AND 0x7F = x mod 128"
  using int_and_mask [of x 7] by simp

lemma int_and_3F [bits_arith]: "(x::int) AND 0x3F = x mod 64"
  using int_and_mask [of x 6] by simp

lemma int_and_FF [bits_arith]: "(x::int) AND 0xFF = x mod 256"
  using int_and_mask [of x 8] by simp

lemma int_and_F [bits_arith]: "(x::int) AND 0xF = x mod 16"
  using int_and_mask [of x 4] by simp

lemma int_and_FFFF [bits_arith]: "(x::int) AND 0xFFFF = x mod 65536"
  using int_and_mask [of x 16] by simp

lemma int_and_1 [bits_arith]: "(x::int) AND 1 = x mod 2"
  using int_and_mask [of x 1] by simp

lemma int_drop_bit [bits_arith]: "drop_bit n (x::int) = x div 2 ^ n"
  by (simp add: drop_bit_eq_div)

lemma int_push_bit [bits_arith]: "push_bit n (x::int) = x * 2 ^ n"
  by (simp add: push_bit_eq_mult)

lemma int_or_disjoint:
  assumes "0 \<le> a" and "a < 2 ^ n"
  shows "a OR (b * 2 ^ n) = a + b * (2::int) ^ n"
proof -
  have a: "take_bit n a = a" using assms by (simp add: take_bit_int_eq_self_iff)
  have "a AND push_bit n b = 0"
  proof (rule bit_eqI)
    fix k
    have "bit a k \<Longrightarrow> k < n"
      using a by (metis bit_take_bit_iff)
    then show "bit (a AND push_bit n b) k \<longleftrightarrow> bit 0 k"
      by (auto simp: bit_simps)
  qed
  then show ?thesis
    by (simp add: disjunctive_add_eq_or push_bit_eq_mult)
qed

lemma int_or_disjoint':
  assumes "0 \<le> a" and "a < 2 ^ n"
  shows "(b * 2 ^ n) OR a = b * (2::int) ^ n + a"
  using int_or_disjoint [OF assms] by (simp add: or.commute add.commute)

lemma int_less_exp_if_bits:
  assumes "\<And>p. n \<le> p \<Longrightarrow> \<not> bit (x::int) p"
  shows "0 \<le> x" "x < 2 ^ n"
proof -
  have "take_bit n x = x"
    by (rule bit_eqI) (metis assms bit_take_bit_iff linorder_not_less)
  then show "0 \<le> x" "x < 2 ^ n"
    by (metis take_bit_nonnegative take_bit_int_less_exp)+
qed

lemma int_not_bit_if_less_exp: "0 \<le> (x::int) \<Longrightarrow> x < 2 ^ n \<Longrightarrow> n \<le> p \<Longrightarrow> \<not> bit x p"
  by (metis bit_take_bit_iff linorder_not_less take_bit_int_eq_self)

lemma int_or_80 [bits_arith]: "0 \<le> (a::int) \<Longrightarrow> a < 128 \<Longrightarrow> a OR 0x80 = a + 128"
  using int_or_disjoint [of a 7 1] by simp

lemma int_and_bit: "(a::int) AND push_bit n 1 = push_bit n (drop_bit n a AND 1)"
  by (rule bit_eqI) (auto simp: bit_simps)

lemma int_and_80: "(a::int) AND 0x80 = (if (a div 128) mod 2 = 1 then 128 else 0)"
  using int_and_bit [of a 7] by (auto simp: bits_arith)

lemma uint_byte_bounds [simp]:
  "0 \<le> uint (b :: byte)"
  "uint (b :: byte) < 256"
  "uint (b :: byte) \<le> 255"
  using uint_lt2p [of b] by auto

lemma byte_and_80 [bits_arith]:
  "uint (b :: byte) AND 0x80 = (if 128 \<le> uint b then 128 else 0)"
proof -
  have "uint b div 128 = (if 128 \<le> uint b then 1 else 0)"
    using uint_byte_bounds [of b] by presburger
  then show ?thesis by (simp add: int_and_80)
qed

lemma mod_128_byte [simp]: "0 \<le> (x::int) mod 128" "(x::int) mod 128 < 128" "(x::int) mod 128 < 256"
    "(x::int) mod 128 \<le> 127" "\<not> 128 \<le> (x::int) mod 128" "\<not> 256 \<le> (x::int) mod 128"
    "\<not> (x::int) mod 128 < 0" "\<not> (x::int) mod 128 + 128 < 0"
  using pos_mod_bound [of 128 x] pos_mod_sign [of 128 x] by linarith+

lemma mod_128_flag [simp]:
  "((x::int) mod 128 + 128) AND 0x80 = 0x80" "(x::int) mod 128 AND 0x80 = 0"
  by (simp_all add: int_and_80 div_add_self2)

definition byte_of :: "int \<Rightarrow> byte" where
  "byte_of v = word_of_int v"

lemma uint_byte_of: "uint (byte_of v) = v mod 256"
  by (simp add: byte_of_def uint_word_of_int)

lemma uint_byte_of_small [simp]: "0 \<le> v \<Longrightarrow> v < 256 \<Longrightarrow> uint (byte_of v) = v"
  by (simp add: uint_byte_of)

lemma byte_of_uint [simp]: "byte_of (uint b) = b"
  by (simp add: byte_of_def)

section \<open>Byte runs and the integers they spell\<close>

text \<open>
  \<open>int.from_bytes(run, "little" | "big", signed=...)\<close> and \<open>int.to_bytes(n, order, signed=...)\<close>,
  with the \<open>OverflowError\<close> the second raises for a value the width cannot hold.
\<close>

fun le_int :: "bytes \<Rightarrow> int" where
  "le_int [] = 0"
| "le_int (b # bs) = uint b + 256 * le_int bs"

fun le_bytes :: "nat \<Rightarrow> int \<Rightarrow> bytes" where
  "le_bytes 0 v = []"
| "le_bytes (Suc n) v = byte_of v # le_bytes n (v div 256)"

definition unsigned_from :: "bool \<Rightarrow> bytes \<Rightarrow> int" where
  "unsigned_from big bs = le_int (if big then rev bs else bs)"

definition from_bytes :: "bool \<Rightarrow> bool \<Rightarrow> bytes \<Rightarrow> int" where
  "from_bytes big sgnd bs =
     (let v = unsigned_from big bs; n = 8 * length bs in
      if sgnd \<and> 0 < n \<and> 2 ^ (n - 1) \<le> v then v - 2 ^ n else v)"

definition order_bytes :: "bool \<Rightarrow> nat \<Rightarrow> int \<Rightarrow> bytes" where
  "order_bytes big n v = (if big then rev (le_bytes n v) else le_bytes n v)"

definition fits :: "bool \<Rightarrow> nat \<Rightarrow> int \<Rightarrow> bool" where
  "fits sgnd n v \<longleftrightarrow>
     (if sgnd then (if n = 0 then v = 0 \<or> v = -1
                      else - (2 ^ (8 * n - 1)) \<le> v \<and> v < 2 ^ (8 * n - 1))
      else 0 \<le> v \<and> v < 2 ^ (8 * n))"

definition to_bytes :: "bool \<Rightarrow> bool \<Rightarrow> nat \<Rightarrow> int \<Rightarrow> bytes res" where
  "to_bytes big sgnd n v = (if fits sgnd n v then Inr (order_bytes big n v) else Inl PyOverflowError)"

lemma from_bytes_unsigned [simp]: "from_bytes big False bs = unsigned_from big bs"
  by (simp add: from_bytes_def Let_def)

lemma length_le_bytes [simp]: "length (le_bytes n v) = n"
  by (induction n arbitrary: v) auto

lemma length_order_bytes [simp]: "length (order_bytes big n v) = n"
  by (simp add: order_bytes_def)

lemma le_int_bounds: "0 \<le> le_int bs" "le_int bs < 2 ^ (8 * length bs)"
proof -
  have "0 \<le> le_int bs \<and> le_int bs < 256 ^ length bs"
  proof (induction bs)
    case (Cons b bs)
    then have "le_int bs + 1 \<le> 256 ^ length bs" by simp
    then show ?case using Cons uint_byte_bounds [of b] by (simp, linarith)
  qed simp
  then show "0 \<le> le_int bs" "le_int bs < 2 ^ (8 * length bs)"
    by (simp_all add: power_mult)
qed

lemma unsigned_from_bounds [simp]:
  "0 \<le> unsigned_from big bs" "unsigned_from big bs < 2 ^ (8 * length bs)"
  using le_int_bounds [of "if big then rev bs else bs"]
  by (auto simp: unsigned_from_def)

lemma le_int_le_bytes: "le_int (le_bytes n v) = v mod 256 ^ n"
proof (induction n arbitrary: v)
  case (Suc n)
  have "v mod (256 * 256 ^ n) = 256 * (v div 256 mod 256 ^ n) + v mod 256"
    by (rule zmod_zmult2_eq) simp
  then show ?case by (simp add: Suc.IH uint_byte_of)
qed simp

lemma le_bytes_le_int: "le_bytes (length bs) (le_int bs) = bs"
proof (induction bs)
  case (Cons b bs)
  have "(uint b + 256 * le_int bs) div 256 = le_int bs"
    by simp
  moreover have "byte_of (uint b + 256 * le_int bs) = b"
    by (metis byte_of_uint byte_of_def mod_mult_self2 uint_byte_of uint_word_of_int_eq
        word_of_int_uint mod_pos_pos_trivial uint_byte_bounds(1,2))
  ultimately show ?case using Cons.IH by simp
qed simp

lemma unsigned_from_order_bytes: "unsigned_from big (order_bytes big n v) = v mod 2 ^ (8 * n)"
  by (simp add: unsigned_from_def order_bytes_def le_int_le_bytes power_mult)

lemma order_bytes_unsigned_from:
  "n = length bs \<Longrightarrow> order_bytes big n (unsigned_from big bs) = bs"
  using le_bytes_le_int [of bs] le_bytes_le_int [of "rev bs"]
  by (auto simp: order_bytes_def unsigned_from_def)

lemma from_to_bytes:
  assumes "to_bytes big sgnd n v = Inr bs" and "0 < n"
  shows "from_bytes big sgnd bs = v"
proof (cases sgnd)
  case True
  obtain h :: int where h: "h = 2 ^ (8 * n - 1)" by simp
  have p: "2 ^ (8 * n) = 2 * h"
    unfolding h using assms(2) by (metis Suc_diff_1 nat_0_less_mult_iff power_Suc zero_less_numeral)
  from assms True have v: "- h \<le> v" "v < h" and bs: "bs = order_bytes big n v"
    by (auto simp: to_bytes_def fits_def h split: if_splits)
  have u: "unsigned_from big bs = (if v < 0 then v + 2 * h else v)"
  proof (cases "v < 0")
    case True
    have "v mod (2 * h) = (v + 2 * h) mod (2 * h)" by simp
    also have "\<dots> = v + 2 * h"
      using v True by (intro mod_pos_pos_trivial) linarith+
    finally show ?thesis
      using True by (simp add: bs unsigned_from_order_bytes p)
  next
    case False
    then show ?thesis
      using v by (simp add: bs unsigned_from_order_bytes p mod_pos_pos_trivial)
  qed
  have "length bs = n" by (simp add: bs)
  then have "from_bytes big sgnd bs
      = (if h \<le> unsigned_from big bs then unsigned_from big bs - 2 * h else unsigned_from big bs)"
    using True assms(2) by (simp add: from_bytes_def Let_def p h [unfolded One_nat_def, symmetric])
  then show ?thesis using v u by auto
next
  case False
  with assms show ?thesis
    by (auto simp: from_bytes_def to_bytes_def fits_def unsigned_from_order_bytes
        split: if_splits)
qed

lemma unsigned_from_big_Cons:
  "unsigned_from True (b # bs) = uint b * 256 ^ length bs + unsigned_from True bs"
proof -
  have "le_int (xs @ [b]) = le_int xs + uint b * 256 ^ length xs" for xs
    by (induction xs) (simp_all add: algebra_simps)
  from this [of "rev bs"] show ?thesis by (simp add: unsigned_from_def)
qed

lemma unsigned_from_Nil [simp]: "unsigned_from big [] = 0"
  by (simp add: unsigned_from_def)

text \<open>The bits of a byte run, read little-endian, are the bits of its bytes in order.\<close>

lemma bit_le_int: "bit (le_int bs) k \<longleftrightarrow> k < 8 * length bs \<and> bit (bs ! (k div 8)) (k mod 8)"
proof (induction bs arbitrary: k)
  case (Cons b bs)
  have "le_int (b # bs) = uint b OR push_bit 8 (le_int bs)"
    by (simp add: push_bit_eq_mult int_or_disjoint [of _ 8, simplified])
  then have eq: "bit (le_int (b # bs)) k \<longleftrightarrow> bit b k \<or> 8 \<le> k \<and> bit (le_int bs) (k - 8)"
    using bit_imp_le_length [of b k]
    by (auto simp: bit_or_iff bit_uint_iff bit_push_bit_iff simp del: le_int.simps push_bit_numeral)
  show ?case
  proof (cases "k < 8")
    case True
    then show ?thesis using eq by simp
  next
    case False
    then have "\<not> bit b k" using bit_imp_le_length [of b k] by auto
    moreover have "k div 8 = Suc ((k - 8) div 8)" "(k - 8) mod 8 = k mod 8"
      using False by (simp_all add: le_div_geq mod_if)
    ultimately show ?thesis using eq Cons.IH [of "k - 8"] False by auto
  qed
qed simp

lemma bit_byte_of: "bit (byte_of v) k \<longleftrightarrow> k < 8 \<and> bit v k"
  by (simp add: byte_of_def bit_word_of_int_iff)

lemma nth_le_bytes: "i < n \<Longrightarrow> le_bytes n v ! i = byte_of (v div 256 ^ i)"
proof (induction n arbitrary: i v)
  case (Suc n)
  then show ?case
    by (cases i) (simp_all add: div_mult2_eq flip: zdiv_zmult2_eq)
qed simp

lemma bit_nth_le_bytes:
  "i < n \<Longrightarrow> bit (le_bytes n v ! i) k \<longleftrightarrow> k < 8 \<and> bit v (8 * i + k)"
  by (simp add: nth_le_bytes bit_byte_of bit_drop_bit_eq power_mult flip: drop_bit_eq_div
      [of "8 * i" v, unfolded power_mult, simplified])

lemma bit_unsigned_from:
  "bit (unsigned_from big bs) k \<longleftrightarrow>
   k < 8 * length bs \<and> bit (bs ! (if big then length bs - 1 - k div 8 else k div 8)) (k mod 8)"
proof (cases "k < 8 * length bs")
  case True
  then have "k div 8 < length bs" by auto
  then show ?thesis
    using True by (auto simp: unsigned_from_def bit_le_int rev_nth)
qed (auto simp: unsigned_from_def bit_le_int)

lemma bit_order_bytes:
  assumes "i < n"
  shows "bit (order_bytes big n v ! i) k \<longleftrightarrow>
     k < 8 \<and> bit v (8 * (if big then n - 1 - i else i) + k)"
  using assms by (auto simp: order_bytes_def rev_nth bit_nth_le_bytes)

lemma mirror_div_mod:
  fixes p n :: nat
  assumes "p < 8 * n"
  shows "(8 * n - Suc p) div 8 = n - Suc (p div 8)" "(8 * n - Suc p) mod 8 = 7 - p mod 8"
proof -
  obtain q r where p: "p = 8 * q + r" and r: "r < 8"
    using mod_less_divisor [of 8 p] by (metis mult_div_mod_eq zero_less_numeral)
  have "q < n" using assms p by simp
  then obtain d where d: "n = q + 1 + d" using less_iff_Suc_add by auto
  have e: "8 * n - Suc p = 8 * d + (7 - r)" using r by (simp add: p d)
  obtain s where s: "7 - r = s" "s < 8" using r by auto
  have m: "(8 * d + s) div 8 = d" "(8 * d + s) mod 8 = s" using s(2) by simp_all
  have "p div 8 = q" "p mod 8 = r" using r by (simp_all add: p)
  then show "(8 * n - Suc p) div 8 = n - Suc (p div 8)" "(8 * n - Suc p) mod 8 = 7 - p mod 8"
    unfolding e s(1) using m s(1) by (simp_all add: d)
qed

section \<open>Slices, slice assignment and single stores\<close>

text \<open>
  \<open>slice buf s n\<close> is \<open>buf[s:s + n]\<close>, short where the buffer ends; \<open>slice_store\<close> is the
  assignment to a slice of a \<open>memoryview\<close>, which raises \<open>ValueError\<close> unless the right-hand side
  is exactly as long as the slice; \<open>byte_store\<close> is \<open>buf[i] = v\<close>.
\<close>

definition slice :: "'a list \<Rightarrow> nat \<Rightarrow> nat \<Rightarrow> 'a list" where
  "slice buf s n = take n (drop s buf)"

definition splice :: "'a list \<Rightarrow> nat \<Rightarrow> 'a list \<Rightarrow> 'a list" where
  "splice buf s bs = take s buf @ bs @ drop (s + length bs) buf"

definition slice_store :: "'a list \<Rightarrow> nat \<Rightarrow> nat \<Rightarrow> 'a list \<Rightarrow> 'a list res" where
  "slice_store buf s n bs =
     (if length (slice buf s n) = length bs then Inr (splice buf s bs) else Inl PyValueError)"

definition byte_store :: "bytes \<Rightarrow> nat \<Rightarrow> int \<Rightarrow> bytes res" where
  "byte_store buf i v =
     (if length buf \<le> i then Inl PyIndexError
      else if v < 0 \<or> 256 \<le> v then Inl PyValueError
      else Inr (buf[i := byte_of v]))"

lemma length_slice [simp]: "length (slice buf s n) = min n (length buf - s)"
  by (simp add: slice_def)

lemma length_splice [simp]: "s + length bs \<le> length buf \<Longrightarrow> length (splice buf s bs) = length buf"
  by (simp add: splice_def)

lemma slice_splice_same [simp]:
  "s + length bs \<le> length buf \<Longrightarrow> n = length bs \<Longrightarrow> slice (splice buf s bs) s n = bs"
  by (simp add: slice_def splice_def)

lemma nth_splice:
  assumes "s + length bs \<le> length buf" and "i < length buf"
  shows "splice buf s bs ! i = (if s \<le> i \<and> i < s + length bs then bs ! (i - s) else buf ! i)"
  using assms by (auto simp: splice_def nth_append)

lemma splice_slice_same [simp]: "s + n \<le> length buf \<Longrightarrow> splice buf s (slice buf s n) = buf"
  by (auto intro!: nth_equalityI simp: nth_splice) (auto simp: slice_def)

lemma splice_splice_same [simp]:
  "s + length bs \<le> length buf \<Longrightarrow> length cs = length bs \<Longrightarrow>
   splice (splice buf s bs) s cs = splice buf s cs"
  by (simp add: splice_def)

lemma slice_store_Inr:
  assumes "slice_store buf s n bs = Inr buf'"
  shows "length buf' = length buf" "buf' = splice buf s bs" "length bs = min n (length buf - s)"
  using assms by (auto simp: slice_store_def splice_def min_def split: if_splits)

lemma byte_store_Inr:
  "byte_store buf i v = Inr buf' \<longleftrightarrow>
   i < length buf \<and> 0 \<le> v \<and> v < 256 \<and> buf' = buf[i := byte_of v]"
  by (auto simp: byte_store_def)

lemma splice_update: "a < length out \<Longrightarrow> splice out a [x] = out[a := x]"
  by (simp add: splice_def upd_conv_take_nth_drop)

lemma splice_Cons:
  "a + Suc (length bs) \<le> length out \<Longrightarrow> splice (out[a := b]) (Suc a) bs = splice out a (b # bs)"
  by (auto intro!: nth_equalityI simp: nth_splice nth_list_update nth_Cons')

lemma splice_snoc:
  "a + Suc (length bs) \<le> length out \<Longrightarrow>
   splice (out[a + length bs := b]) a bs = splice out a (bs @ [b])"
  by (auto intro!: nth_equalityI simp: nth_splice nth_list_update nth_append)

lemma slice_nth: "s + n \<le> length buf \<Longrightarrow> i < n \<Longrightarrow> slice buf s n ! i = buf ! (s + i)"
  by (simp add: slice_def)

lemma slice_eq_iff:
  "s + n \<le> length buf \<Longrightarrow> s + n \<le> length buf' \<Longrightarrow>
   slice buf s n = slice buf' s n \<longleftrightarrow> (\<forall>i < n. buf ! (s + i) = buf' ! (s + i))"
  by (auto simp: list_eq_iff_nth_eq slice_nth)

lemma slice_Suc: "s < length buf \<Longrightarrow> slice buf s (Suc n) = buf ! s # slice buf (Suc s) n"
  by (simp add: slice_def Cons_nth_drop_Suc [symmetric])

lemma slice_cong:
  "s + n \<le> length buf \<Longrightarrow> s + n \<le> length buf' \<Longrightarrow> (\<And>i. i < n \<Longrightarrow> buf ! (s + i) = buf' ! (s + i)) \<Longrightarrow>
   slice buf s n = slice buf' s n"
  by (simp add: slice_eq_iff)

section \<open>Searching a sequence\<close>

text \<open>
  \<open>xs.index(x)\<close>, which raises \<open>ValueError\<close> where \<open>x\<close> is not there; \<open>dict.fromkeys(xs)\<close> as the
  keys in the order they first occur.
\<close>

fun list_index :: "'a list \<Rightarrow> 'a \<Rightarrow> nat res" where
  "list_index [] x = Inl PyValueError"
| "list_index (y # ys) x = (if y = x then Inr 0 else bindE (list_index ys x) (\<lambda>i. Inr (i + 1)))"

definition remdups_first :: "'a list \<Rightarrow> 'a list" where
  "remdups_first xs = rev (remdups (rev xs))"

definition index_in :: "'a list \<Rightarrow> 'a \<Rightarrow> nat" where
  "index_in xs x = length (takeWhile (\<lambda>y. y \<noteq> x) xs)"

lemma list_index_eq: "list_index xs x = (if x \<in> set xs then Inr (index_in xs x) else Inl PyValueError)"
  by (induction xs) (auto simp: index_in_def)

lemma index_in_less: "x \<in> set xs \<Longrightarrow> index_in xs x < length xs \<and> xs ! index_in xs x = x"
  by (induction xs) (auto simp: index_in_def)

lemma index_in_inj: "x \<in> set xs \<Longrightarrow> y \<in> set xs \<Longrightarrow> index_in xs x = index_in xs y \<Longrightarrow> x = y"
  by (metis index_in_less)

lemma list_index_nth: "distinct xs \<Longrightarrow> i < length xs \<Longrightarrow> list_index xs (xs ! i) = Inr i"
proof (induction xs arbitrary: i)
  case (Cons x xs)
  then show ?case by (cases i) auto
qed simp

lemma set_remdups_first [simp]: "set (remdups_first xs) = set xs"
  by (simp add: remdups_first_def)

lemma distinct_remdups_first [simp]: "distinct (remdups_first xs)"
  by (simp add: remdups_first_def)

section \<open>Storing into the low bits of a byte\<close>

text \<open>\<open>merge_low k b x\<close> is \<open>b\<close> with its low \<open>k\<close> bits replaced by \<open>x\<close>.\<close>

definition merge_low :: "nat \<Rightarrow> byte \<Rightarrow> int \<Rightarrow> byte" where
  "merge_low k b x = byte_of (uint b div 2 ^ k * 2 ^ k + x)"

lemma merge_low_expr:
  assumes "0 \<le> x" and "x < 2 ^ k" and "k \<le> 8"
  shows "((uint (b :: byte) AND NOT (2 ^ k - 1)) AND 0xFF) OR x = uint b div 2 ^ k * 2 ^ k + x"
    "uint b div 2 ^ k * 2 ^ k + x < 256" "0 \<le> uint b div 2 ^ k * 2 ^ k + x"
proof -
  let ?u = "uint b"
  have "?u AND NOT (2 ^ k - 1) = push_bit k (drop_bit k ?u)"
    unfolding mask_eq_exp_minus_1 [symmetric]
    by (rule bit_eqI) (auto simp: bit_simps)
  then have q: "?u AND NOT (2 ^ k - 1) = ?u div 2 ^ k * 2 ^ k"
    by (simp add: int_push_bit int_drop_bit)
  have "0 \<le> ?u div 2 ^ k * 2 ^ k" by (simp add: pos_imp_zdiv_nonneg_iff)
  moreover have le: "?u div 2 ^ k * 2 ^ k \<le> ?u"
    using minus_mod_eq_div_mult [of ?u "2 ^ k", symmetric] by simp
  moreover have "?u div 2 ^ k * 2 ^ k < 256" using le uint_byte_bounds(2) [of b] by linarith
  ultimately have q': "(?u AND NOT (2 ^ k - 1)) AND 0xFF = ?u div 2 ^ k * 2 ^ k"
    unfolding q int_and_FF by simp
  show eq: "((?u AND NOT (2 ^ k - 1)) AND 0xFF) OR x = ?u div 2 ^ k * 2 ^ k + x"
    unfolding q' by (rule int_or_disjoint' [OF assms(1,2)])
  have "x < 2 ^ 8"
    using assms(2) power_increasing [OF assms(3), of "2::int"] by linarith
  then have "?u div 2 ^ k * 2 ^ k OR x < 2 ^ 8"
    using \<open>0 \<le> ?u div 2 ^ k * 2 ^ k\<close> \<open>?u div 2 ^ k * 2 ^ k < 256\<close>
    by (intro OR_upper) simp_all
  then show "?u div 2 ^ k * 2 ^ k + x < 256"
    using int_or_disjoint' [OF assms(1,2), of "?u div 2 ^ k"] by simp
  show "0 \<le> ?u div 2 ^ k * 2 ^ k + x"
    using \<open>0 \<le> ?u div 2 ^ k * 2 ^ k\<close> assms(1) by simp
qed

lemma merge_low_store:
  assumes "0 \<le> x" and "x < 2 ^ k" and "k \<le> 8" and "a < length out"
  shows "byte_store out a (((uint (out ! a) AND NOT (2 ^ k - 1)) AND 0xFF) OR x)
       = Inr (out[a := merge_low k (out ! a) x])"
  using merge_low_expr [OF assms(1-3), of "out ! a"] assms(4)
  by (simp add: byte_store_def merge_low_def)

lemma merge_low_parts:
  assumes "0 \<le> x" and "x < 2 ^ k" and "k \<le> 8"
  shows "uint (merge_low k b x) mod 2 ^ k = x" "uint (merge_low k b x) div 2 ^ k = uint b div 2 ^ k"
proof -
  have "uint (merge_low k b x) = uint b div 2 ^ k * 2 ^ k + x"
    using merge_low_expr [OF assms, of b] by (simp add: merge_low_def)
  then show "uint (merge_low k b x) mod 2 ^ k = x"
    "uint (merge_low k b x) div 2 ^ k = uint b div 2 ^ k"
    using assms(1,2) by simp_all
qed

lemma merge_low_ones_store:
  assumes "k \<le> 8" and "a < length out"
  shows "byte_store out a (uint (out ! a) OR (2 ^ k - 1)) = Inr (out[a := merge_low k (out ! a) (2 ^ k - 1)])"
proof -
  let ?u = "uint (out ! a)"
  have "?u OR (2 ^ k - 1) = push_bit k (drop_bit k ?u) OR (2 ^ k - 1)"
    unfolding mask_eq_exp_minus_1 [symmetric]
    by (rule bit_eqI) (auto simp: bit_simps)
  also have "\<dots> = ?u div 2 ^ k * 2 ^ k + (2 ^ k - 1)"
    using int_or_disjoint' [of "2 ^ k - 1" k "?u div 2 ^ k"] by (simp add: int_push_bit int_drop_bit)
  finally show ?thesis
    using merge_low_expr [of "2 ^ k - 1" k "out ! a"] assms
    by (simp add: byte_store_def merge_low_def)
qed

section \<open>Bit length\<close>

text \<open>\<open>int.bit_length\<close>: the bits of the magnitude.\<close>

fun nat_bit_length :: "nat \<Rightarrow> nat" where
  "nat_bit_length n = (if n = 0 then 0 else Suc (nat_bit_length (n div 2)))"

declare nat_bit_length.simps [simp del]

definition bit_length :: "int \<Rightarrow> nat" where
  "bit_length v = nat_bit_length (nat \<bar>v\<bar>)"

lemma nat_bit_length_le_iff: "nat_bit_length n \<le> k \<longleftrightarrow> n < 2 ^ k"
proof (induction n arbitrary: k rule: nat_bit_length.induct)
  case (1 n)
  show ?case
  proof (cases "n = 0")
    case False
    with 1 show ?thesis
      by (cases k) (auto simp: nat_bit_length.simps [of n] div_less_iff_less_mult mult.commute)
  qed (simp add: nat_bit_length.simps)
qed

lemma bit_length_le_iff: "0 \<le> v \<Longrightarrow> bit_length v \<le> k \<longleftrightarrow> v < 2 ^ k"
  by (simp add: bit_length_def nat_bit_length_le_iff nat_less_iff)

end
