(* ===== verification/Runtime_State.thy ===== *)
theory Runtime_State
  imports Situ_Prelude
begin

text \<open>
  \<open>runtime/python/situ_runtime.py\<close>, first half: the message a generated accessor works on
  (buffer, generation, obligation bits), the views over it, bounds acquisition, byte and bit
  field access, the stage gate and the register composition.

  A \<open>View\<close> of the code holds a reference to its \<open>Message\<close>.  Here the message is passed along
  explicitly and the view keeps its own three numbers, so one message and any number of views of
  it is the state.  Offsets and widths are natural numbers: generated code passes constants and
  sums of lengths, and a bit field is at least one bit wide (\<open>types.lookup\<close>).
\<close>

section \<open>Messages: generation and obligations\<close>

record message =
  buffer :: bytes
  generation :: nat
  dirty :: int

definition new_message :: "bytes \<Rightarrow> message" where
  "new_message buf = \<lparr>buffer = buf, generation = 0, dirty = 0\<rparr>"

definition mark_dirty :: "message \<Rightarrow> int \<Rightarrow> message" where
  "mark_dirty m b = m\<lparr>dirty := dirty m OR b\<rparr>"

definition clear_dirty :: "message \<Rightarrow> int \<Rightarrow> message" where
  "clear_dirty m b = m\<lparr>dirty := dirty m AND NOT b\<rparr>"

definition transmittable :: "message \<Rightarrow> unit res" where
  "transmittable m = (if dirty m \<noteq> 0 then raise TagError else Inr ())"

definition touch :: "message \<Rightarrow> message" where
  "touch m = m\<lparr>generation := generation m + 1\<rparr>"

section \<open>Views\<close>

record view =
  at :: nat
  len :: nat
  gen :: nat

definition new_view :: "message \<Rightarrow> nat \<Rightarrow> nat \<Rightarrow> view" where
  "new_view m a n = \<lparr>at = a, len = n, gen = generation m\<rparr>"

definition view_check :: "message \<Rightarrow> view \<Rightarrow> unit res" where
  "view_check m v = (if gen v \<noteq> generation m then raise StaleViewError else Inr ())"

definition view_bytes :: "message \<Rightarrow> view \<Rightarrow> bytes res" where
  "view_bytes m v = bindE (view_check m v) (\<lambda>_. Inr (slice (buffer m) (at v) (len v)))"

definition view_span :: "message \<Rightarrow> view \<Rightarrow> bytes res" where
  "view_span m v = bindE (view_check m v) (\<lambda>_. Inr (slice (buffer m) (at v) (len v)))"

definition view_read :: "message \<Rightarrow> view \<Rightarrow> nat \<Rightarrow> nat \<Rightarrow> bool \<Rightarrow> bool \<Rightarrow> int res" where
  "view_read m v offset width sgnd big =
     bindE (view_check m v) (\<lambda>_.
       let start = at v + offset
       in Inr (from_bytes big sgnd (slice (buffer m) start width)))"

definition view_write ::
    "message \<Rightarrow> view \<Rightarrow> nat \<Rightarrow> nat \<Rightarrow> int \<Rightarrow> bool \<Rightarrow> bool \<Rightarrow> message res" where
  "view_write m v offset width val sgnd big =
     bindE (view_check m v) (\<lambda>_.
       let start = at v + offset
       in bindE (to_bytes big sgnd width val) (\<lambda>bs.
          bindE (slice_store (buffer m) start width bs) (\<lambda>buf.
            Inr (m\<lparr>buffer := buf\<rparr>))))"

definition view_bits :: "message \<Rightarrow> view \<Rightarrow> nat \<Rightarrow> nat \<Rightarrow> bool \<Rightarrow> bool \<Rightarrow> int res" where
  "view_bits m v offset_bits width msb sgnd =
     bindE (view_check m v) (\<lambda>_.
       let first = offset_bits div 8;
           last = (offset_bits + width - 1) div 8;
           span = (last - first + 1) * 8;
           raw = from_bytes msb False (slice (buffer m) (at v + first) (last + 1 - first));
           skip = offset_bits - first * 8;
           shift = (if msb then span - skip - width else skip);
           val = drop_bit shift raw AND (push_bit width 1 - 1)
       in Inr (if sgnd \<and> drop_bit (width - 1) val \<noteq> 0 then val - push_bit width 1 else val))"

definition view_set_bits ::
    "message \<Rightarrow> view \<Rightarrow> nat \<Rightarrow> nat \<Rightarrow> int \<Rightarrow> bool \<Rightarrow> message res" where
  "view_set_bits m v offset_bits width val msb =
     bindE (view_check m v) (\<lambda>_.
       let first = offset_bits div 8;
           last = (offset_bits + width - 1) div 8;
           span = (last - first + 1) * 8;
           raw = from_bytes msb False (slice (buffer m) (at v + first) (last + 1 - first));
           skip = offset_bits - first * 8;
           shift = (if msb then span - skip - width else skip);
           mask = push_bit shift (push_bit width 1 - 1);
           raw' = (raw AND NOT mask) OR push_bit shift (val AND (push_bit width 1 - 1))
       in bindE (to_bytes msb False (last - first + 1) raw') (\<lambda>bs.
          bindE (slice_store (buffer m) (at v + first) (last + 1 - first) bs) (\<lambda>buf.
            Inr (m\<lparr>buffer := buf\<rparr>))))"

definition acquire :: "message \<Rightarrow> int \<Rightarrow> int \<Rightarrow> view res" where
  "acquire m a n =
     (if a < 0 \<or> n < 0 \<or> a + n > int (length (buffer m)) then raise BoundsError
      else Inr (new_view m (nat a) (nat n)))"

section \<open>The stage gate\<close>

text \<open>
  The key is one object of a class nothing exports, compared by identity: any other object is
  another token.
\<close>

datatype token = KEY | Other_Object nat

record gate =
  gate_view :: view

definition new_gate :: "view \<Rightarrow> token \<Rightarrow> gate res" where
  "new_gate v t = (if t \<noteq> KEY then raise StageError else Inr \<lparr>gate_view = v\<rparr>)"

definition open_gate :: "view \<Rightarrow> bool \<Rightarrow> gate res" where
  "open_gate v verified = (if \<not> verified then raise TagError else new_gate v KEY)"

section \<open>Registers and enums\<close>

text \<open>
  \<open>read_word\<close> and \<open>write_word\<close> are the caller's transport, so the register is a record of two
  parameters and an address.
\<close>

record ('r, 'w) register =
  read_word :: 'r
  write_word :: 'w
  address :: int

definition compose :: "int \<Rightarrow> int \<Rightarrow> nat \<Rightarrow> int \<Rightarrow> int" where
  "compose raw val shift msk =
     (raw AND NOT (push_bit shift msk)) OR push_bit shift (val AND msk)"

text \<open>
  An enum class is its members with their values, in declaration order.  \<open>cls(raw)\<close> is the first
  member with that value (a later one with the same value is an alias) or \<open>ValueError\<close>.
\<close>

type_synonym enum_class = "(string \<times> int) list"

definition enum_call :: "enum_class \<Rightarrow> int \<Rightarrow> string res" where
  "enum_call c raw =
     (case find (\<lambda>(_, v). v = raw) c of None \<Rightarrow> Inl PyValueError | Some (n, _) \<Rightarrow> Inr n)"

definition as_enum :: "enum_class \<Rightarrow> int \<Rightarrow> string + int" where
  "as_enum c raw = (case enum_call c raw of Inr n \<Rightarrow> Inl n | Inl _ \<Rightarrow> Inr raw)"

definition known_enum :: "enum_class \<Rightarrow> int \<Rightarrow> bool" where
  "known_enum c raw = (case enum_call c raw of Inr _ \<Rightarrow> True | Inl _ \<Rightarrow> False)"

lemma known_enum_iff: "known_enum c raw \<longleftrightarrow> raw \<in> snd ` set c"
proof -
  have "find (\<lambda>(_, v). v = raw) c = None \<longleftrightarrow> raw \<notin> snd ` set c"
    by (force simp: find_None_iff)
  then show ?thesis
    by (auto simp: known_enum_def enum_call_def split: option.splits)
qed

section \<open>Bounds\<close>

definition within :: "message \<Rightarrow> view \<Rightarrow> bool" where
  "within m v \<longleftrightarrow> at v + len v \<le> length (buffer m)"

definition fresh :: "message \<Rightarrow> view \<Rightarrow> bool" where
  "fresh m v \<longleftrightarrow> gen v = generation m"

lemma view_check_fresh [simp]: "fresh m v \<Longrightarrow> view_check m v = Inr ()"
  by (simp add: view_check_def fresh_def)

lemma view_check_stale: "\<not> fresh m v \<Longrightarrow> view_check m v = raise StaleViewError"
  by (simp add: view_check_def fresh_def)

lemma acquire_Inr:
  "acquire m a n = Inr v \<longleftrightarrow>
   0 \<le> a \<and> 0 \<le> n \<and> a + n \<le> int (length (buffer m)) \<and> v = new_view m (nat a) (nat n)"
  by (auto simp: acquire_def)

lemma acquire_within: "acquire m a n = Inr v \<Longrightarrow> within m v \<and> fresh m v \<and> int (len v) = n"
  by (auto simp: acquire_Inr within_def fresh_def new_view_def)

text \<open>A write through a fresh view keeps the message's length, generation and obligations.\<close>

lemma view_write_frame:
  assumes "view_write m v off w x sgnd big = Inr m'"
  shows "length (buffer m') = length (buffer m)" "generation m' = generation m" "dirty m' = dirty m"
proof -
  from assms obtain bs where bs: "to_bytes big sgnd w x = Inr bs"
    and s: "slice_store (buffer m) (at v + off) w bs = Inr (buffer m')"
    and m': "m' = m\<lparr>buffer := buffer m'\<rparr>"
    by (auto simp: view_write_def Let_def)
  from s show "length (buffer m') = length (buffer m)"
    by (rule slice_store_Inr)
  show "generation m' = generation m" "dirty m' = dirty m"
    by (subst m', simp)+
qed

section \<open>Bit fields over the message as an array of bits\<close>

text \<open>
  Bit \<open>k\<close> of a buffer under a numbering: \<open>msb\<close> numbers from the most significant bit of each
  byte, the other from the least significant one.  A field's value is the bits
  \<open>off .. off + width\<close> of that array, the first one the most significant under \<open>msb\<close>.
\<close>

definition buf_bit :: "bool \<Rightarrow> bytes \<Rightarrow> nat \<Rightarrow> bool" where
  "buf_bit msb buf k = bit (buf ! (k div 8)) (if msb then 7 - k mod 8 else k mod 8)"

definition field_index :: "bool \<Rightarrow> nat \<Rightarrow> nat \<Rightarrow> nat \<Rightarrow> nat" where
  "field_index msb off width j = (if msb then off + width - 1 - j else off + j)"

lemma raw_bit:
  assumes "p < 8 * n" and "s + n \<le> length buf"
  shows "bit (unsigned_from msb (slice buf s n)) p \<longleftrightarrow>
         buf_bit msb buf (8 * s + (if msb then 8 * n - Suc p else p))"
proof -
  have q: "p div 8 < n" using assms(1) by auto
  have nth: "slice buf s n ! i = buf ! (s + i)" if "i < n" for i
    using that assms(2) by (simp add: slice_def)
  have len: "length (slice buf s n) = n" using assms(2) by simp
  show ?thesis
  proof (cases msb)
    case True
    obtain r where r: "8 * n - Suc p = r" by simp
    have "7 - (7 - p mod 8) = p mod 8"
      by (simp add: less_Suc_eq_le [symmetric])
    with mirror_div_mod [OF assms(1)] show ?thesis
      unfolding r using True q
      by (simp add: bit_unsigned_from buf_bit_def len nth assms(1) del: length_slice)
  next
    case False
    then show ?thesis
      using q by (simp add: bit_unsigned_from buf_bit_def len nth assms(1) del: length_slice)
  qed
qed

text \<open>The byte range of a field, as the code computes it.\<close>

lemma field_bytes:
  fixes w off lst :: nat
  assumes "0 < w"
  defines "first \<equiv> off div 8" and "lst \<equiv> (off + w - 1) div 8"
  shows "first \<le> lst" "8 * first \<le> off" "off < 8 * first + 8" "off + w \<le> 8 * lst + 8"
proof -
  show "first \<le> lst" unfolding first_def lst_def using assms(1) by (intro div_le_mono) simp
  show "8 * first \<le> off" "off < 8 * first + 8" unfolding first_def by presburger+
  have "off + w - 1 < 8 * lst + 8" unfolding lst_def by presburger
  then show "off + w \<le> 8 * lst + 8" by simp
qed

lemma ones_mask: "push_bit w 1 - 1 = (mask w :: int)"
  by (simp add: mask_eq_exp_minus_1 push_bit_eq_mult)

lemma view_bits_value:
  assumes "fresh m v" and "0 < w" and "8 * at v + off + w \<le> 8 * length (buffer m)"
  obtains x where "view_bits m v off w msb False = Inr x" "0 \<le> x" "x < 2 ^ w"
    "\<And>j. j < w \<Longrightarrow> bit x j \<longleftrightarrow> buf_bit msb (buffer m) (8 * at v + field_index msb off w j)"
proof -
  define first where "first = off div 8"
  define lst where "lst = (off + w - 1) div 8"
  define n where "n = lst + 1 - first"
  define shift where "shift = (if msb then n * 8 - (off - first * 8) - w else off - first * 8)"
  define raw where "raw = unsigned_from msb (slice (buffer m) (at v + first) n)"
  define x where "x = drop_bit shift raw AND mask w"
  note r = field_bytes [OF assms(2), of off, folded first_def lst_def]
  have n: "lst - first + 1 = n" "0 < n" using r(1) by (simp_all add: n_def)
  have lb: "lst < length (buffer m) - at v"
    using assms(2,3) unfolding lst_def by presburger
  then have inb: "at v + first + n \<le> length (buffer m)"
    using r(1) by (simp add: n_def)
  have "view_bits m v off w msb False = Inr x"
    by (simp only: view_bits_def Let_def view_check_fresh [OF assms(1)] bindE_simps
        first_def [symmetric] lst_def [symmetric] n(1) n_def [symmetric] shift_def [symmetric]
        from_bytes_unsigned raw_def [symmetric] ones_mask x_def [symmetric] if_False simp_thms)
  moreover have "0 \<le> x" "x < 2 ^ w"
    by (simp_all add: x_def flip: take_bit_eq_mask)
  moreover have "bit x j \<longleftrightarrow> buf_bit msb (buffer m) (8 * at v + field_index msb off w j)"
    if "j < w" for j
  proof -
    have p: "shift + j < 8 * n" and
      q: "8 * (at v + first) + (if msb then 8 * n - Suc (shift + j) else shift + j)
         = 8 * at v + field_index msb off w j"
      using that r by (auto simp: shift_def n_def field_index_def)
    have "bit x j \<longleftrightarrow> bit raw (shift + j)"
      using that by (simp add: x_def bit_and_iff bit_mask_iff bit_drop_bit_eq add.commute)
    also have "\<dots> \<longleftrightarrow> buf_bit msb (buffer m) (8 * at v + field_index msb off w j)"
      unfolding raw_def using raw_bit [OF p inb] q by metis
    finally show ?thesis .
  qed
  ultimately show thesis by (rule that)
qed

text \<open>
  A bit store: every bit of the buffer outside the field keeps its value, the field's bits are
  the value's, and nothing else of the message moves.
\<close>

lemma nat_bits_range:
  fixes i s n :: nat
  shows "s \<le> i div 8 \<and> i div 8 < s + n \<longleftrightarrow> 8 * s \<le> i \<and> i < 8 * (s + n)"
  by (simp add: less_eq_div_iff_mult_less_eq div_less_iff_less_mult algebra_simps)

lemma buf_bit_splice:
  assumes "length bs = n" and "s + n \<le> length buf" and "k < 8 * length buf"
  shows "buf_bit msb (splice buf s bs) k \<longleftrightarrow>
     (if 8 * s \<le> k \<and> k < 8 * (s + n) then buf_bit msb bs (k - 8 * s) else buf_bit msb buf k)"
proof -
  have d: "(k - 8 * s) div 8 = k div 8 - s" "(k - 8 * s) mod 8 = k mod 8" if "8 * s \<le> k"
  proof -
    from that obtain r where "k = 8 * s + r" using le_Suc_ex by blast
    then show "(k - 8 * s) div 8 = k div 8 - s" "(k - 8 * s) mod 8 = k mod 8" by simp_all
  qed
  show ?thesis
    using assms nat_bits_range [of s k n] d
    by (auto simp: buf_bit_def nth_splice)
qed

lemma buf_bit_order_bytes:
  assumes "k < 8 * n"
  shows "buf_bit msb (order_bytes msb n x) k \<longleftrightarrow> bit x (if msb then 8 * n - Suc k else k)"
proof -
  have q: "k div 8 < n" using assms by auto
  have e: "8 * (n - Suc (k div 8)) + (7 - k mod 8) = 8 * n - Suc k"
    using mirror_div_mod [OF assms] by (metis mult_div_mod_eq)
  show ?thesis
    using q by (auto simp: buf_bit_def bit_order_bytes e)
qed

lemma raw_store_bits:
  fixes msb :: bool and buf :: bytes and val :: int and shift w n s k p :: nat
  assumes "shift + w \<le> 8 * n" and inb: "s + n \<le> length buf"
  defines "raw \<equiv> unsigned_from msb (slice buf s n)"
  defines "new \<equiv> (raw AND NOT (push_bit shift (mask w))) OR push_bit shift (val AND mask w)"
  shows "0 \<le> new" "new < 2 ^ (8 * n)"
    "k < 8 * length buf \<Longrightarrow> p = (if msb then 8 * n - Suc (k - 8 * s) else k - 8 * s) \<Longrightarrow>
     buf_bit msb (splice buf s (order_bytes msb n new)) k \<longleftrightarrow>
       (if 8 * s \<le> k \<and> k < 8 * (s + n) \<and> shift \<le> p \<and> p < shift + w
        then bit val (p - shift) else buf_bit msb buf k)"
proof -
  have bits: "bit new q \<longleftrightarrow>
      (if shift \<le> q \<and> q < shift + w then bit val (q - shift) else bit raw q)" for q
    by (auto simp: new_def bit_simps)
  have "\<not> bit raw q" if "8 * n \<le> q" for q
    using that inb int_not_bit_if_less_exp [OF unsigned_from_bounds] by (simp add: raw_def)
  then have "\<not> bit new q" if "8 * n \<le> q" for q
    using that assms(1) by (auto simp: bits)
  then show "0 \<le> new" "new < 2 ^ (8 * n)"
    using int_less_exp_if_bits [of "8 * n" new] by blast+
  assume k: "k < 8 * length buf" and p: "p = (if msb then 8 * n - Suc (k - 8 * s) else k - 8 * s)"
  show "buf_bit msb (splice buf s (order_bytes msb n new)) k \<longleftrightarrow>
       (if 8 * s \<le> k \<and> k < 8 * (s + n) \<and> shift \<le> p \<and> p < shift + w
        then bit val (p - shift) else buf_bit msb buf k)"
  proof (cases "8 * s \<le> k \<and> k < 8 * (s + n)")
    case True
    then have pn: "p < 8 * n" and bk: "8 * s + (if msb then 8 * n - Suc p else p) = k"
      by (auto simp: p)
    have "buf_bit msb (splice buf s (order_bytes msb n new)) k \<longleftrightarrow> bit new p"
      using True k inb by (auto simp: p buf_bit_splice [where n = n] buf_bit_order_bytes)
    moreover have "bit raw p \<longleftrightarrow> buf_bit msb buf k"
      using raw_bit [OF pn inb] by (simp add: raw_def bk)
    ultimately show ?thesis using True by (simp add: bits)
  next
    case False
    then show ?thesis using k inb by (auto simp: buf_bit_splice [where n = n])
  qed
qed

lemma view_set_bits_store:
  assumes "fresh m v" and "0 < w" and "8 * at v + off + w \<le> 8 * length (buffer m)"
  obtains m' where "view_set_bits m v off w val msb = Inr m'"
    "m' = m\<lparr>buffer := buffer m'\<rparr>" "length (buffer m') = length (buffer m)"
    "\<And>k. k < 8 * length (buffer m) \<Longrightarrow> buf_bit msb (buffer m') k \<longleftrightarrow>
       (if 8 * at v + off \<le> k \<and> k < 8 * at v + off + w
        then bit val (field_index msb 0 w (k - (8 * at v + off)))
        else buf_bit msb (buffer m) k)"
proof -
  define first where "first = off div 8"
  define lst where "lst = (off + w - 1) div 8"
  define n where "n = lst + 1 - first"
  define shift where "shift = (if msb then n * 8 - (off - first * 8) - w else off - first * 8)"
  define raw where "raw = unsigned_from msb (slice (buffer m) (at v + first) n)"
  define new where "new = (raw AND NOT (push_bit shift (mask w))) OR push_bit shift (val AND mask w)"
  define buf where "buf = splice (buffer m) (at v + first) (order_bytes msb n new)"
  note r = field_bytes [OF assms(2), of off, folded first_def lst_def]
  have n: "lst - first + 1 = n" "0 < n" using r(1) by (simp_all add: n_def)
  have "lst < length (buffer m) - at v"
    using assms(2,3) unfolding lst_def by presburger
  then have inb: "at v + first + n \<le> length (buffer m)"
    using r(1) by (simp add: n_def)
  have sw: "shift + w \<le> 8 * n" using r by (auto simp: shift_def n_def)
  note st = raw_store_bits [OF sw inb, where msb = msb and val = val, folded raw_def, folded new_def, folded buf_def]
  have "to_bytes msb False n new = Inr (order_bytes msb n new)"
    using st(1,2) by (simp add: to_bytes_def fits_def)
  moreover have "slice_store (buffer m) (at v + first) n (order_bytes msb n new) = Inr buf"
    using inb by (simp add: slice_store_def buf_def)
  ultimately have eq: "view_set_bits m v off w val msb = Inr (m\<lparr>buffer := buf\<rparr>)"
    by (simp only: view_set_bits_def Let_def view_check_fresh [OF assms(1)] bindE_simps
        first_def [symmetric] lst_def [symmetric] n(1) n_def [symmetric] shift_def [symmetric]
        from_bytes_unsigned raw_def [symmetric] ones_mask new_def [symmetric])
  have "buf_bit msb buf k \<longleftrightarrow>
       (if 8 * at v + off \<le> k \<and> k < 8 * at v + off + w
        then bit val (field_index msb 0 w (k - (8 * at v + off)))
        else buf_bit msb (buffer m) k)" if k: "k < 8 * length (buffer m)" for k
  proof -
    define p where "p = (if msb then 8 * n - Suc (k - 8 * (at v + first)) else k - 8 * (at v + first))"
    have "8 * (at v + first) \<le> k \<and> k < 8 * (at v + first + n) \<and> shift \<le> p \<and> p < shift + w
        \<longleftrightarrow> 8 * at v + off \<le> k \<and> k < 8 * at v + off + w"
      using r by (auto simp: shift_def p_def n_def)
    moreover have "p - shift = field_index msb 0 w (k - (8 * at v + off))"
      if "8 * at v + off \<le> k \<and> k < 8 * at v + off + w"
      using that r by (auto simp: shift_def p_def n_def field_index_def)
    ultimately show ?thesis using st(3) [OF k p_def] by auto
  qed
  then show thesis
    using that [OF eq] inb by (simp add: buf_def)
qed

text \<open>Reading the written field gives the value's low bits; a disjoint field reads as before.\<close>

lemma int_eqI_bits:
  assumes "0 \<le> x" "x < 2 ^ w" "0 \<le> y" "y < (2::int) ^ w"
    and "\<And>j. j < w \<Longrightarrow> bit x j \<longleftrightarrow> bit y j"
  shows "x = y"
proof (rule bit_eqI)
  fix j
  show "bit x j \<longleftrightarrow> bit y j"
    using assms int_not_bit_if_less_exp by (cases "j < w") (auto simp: not_less)
qed

lemma field_index_range: "j < w \<Longrightarrow> off \<le> field_index msb off w j \<and> field_index msb off w j < off + w"
  by (auto simp: field_index_def)

lemma field_index_involutive: "j < w \<Longrightarrow> field_index msb 0 w (field_index msb off w j - off) = j"
  by (auto simp: field_index_def)

lemma view_bits_after_set_same:
  assumes v: "fresh m v" and w: "0 < w" and inb: "8 * at v + off + w \<le> 8 * length (buffer m)"
    and set: "view_set_bits m v off w val msb = Inr m'"
  shows "view_bits m' v off w msb False = Inr (val mod 2 ^ w)"
proof -
  obtain m2 where m2: "view_set_bits m v off w val msb = Inr m2" "m2 = m\<lparr>buffer := buffer m2\<rparr>"
      "length (buffer m2) = length (buffer m)"
      "\<And>k. k < 8 * length (buffer m) \<Longrightarrow> buf_bit msb (buffer m2) k \<longleftrightarrow>
         (if 8 * at v + off \<le> k \<and> k < 8 * at v + off + w
          then bit val (field_index msb 0 w (k - (8 * at v + off))) else buf_bit msb (buffer m) k)"
    using view_set_bits_store [OF v w inb] by metis
  with set have m': "m' = m2" by simp
  have f': "fresh m' v" using v m2(2) unfolding m' by (metis fresh_def message.select_convs(2)
        message.update_convs(1) message.surjective)
  obtain x where x: "view_bits m' v off w msb False = Inr x" "0 \<le> x" "x < 2 ^ w"
      "\<And>j. j < w \<Longrightarrow> bit x j \<longleftrightarrow> buf_bit msb (buffer m') (8 * at v + field_index msb off w j)"
    using view_bits_value [OF f' w] inb m2(3) m' by metis
  have "x = val mod 2 ^ w"
  proof (rule int_eqI_bits [OF x(2,3)])
    fix j assume j: "j < w"
    then show "bit x j \<longleftrightarrow> bit (val mod 2 ^ w) j"
      using x(4) [OF j] m2(4) [of "8 * at v + field_index msb off w j"] inb
        field_index_range [OF j, of off msb] field_index_involutive [OF j, of msb off]
      by (simp add: m' bit_take_bit_iff flip: take_bit_eq_mod)
  qed simp_all
  with x(1) show ?thesis by simp
qed

text \<open>A signed read is the unsigned one, with the top bit's weight turned negative.\<close>

lemma view_bits_signed:
  assumes "fresh m v"
  shows "view_bits m v off w msb sgnd = bindE (view_bits m v off w msb False)
    (\<lambda>x. Inr (if sgnd \<and> drop_bit (w - 1) x \<noteq> 0 then x - push_bit w 1 else x))"
  by (simp only: view_bits_def Let_def view_check_fresh [OF assms] bindE_simps simp_thms if_False)

lemma view_bits_cong:
  assumes "fresh m v" and "fresh m' v" and w: "0 < w"
    and inb: "8 * at v + off + w \<le> 8 * length (buffer m)" "length (buffer m') = length (buffer m)"
    and eq: "\<And>j. j < w \<Longrightarrow> buf_bit msb (buffer m') (8 * at v + off + j)
                        = buf_bit msb (buffer m) (8 * at v + off + j)"
  shows "view_bits m' v off w msb sgnd = view_bits m v off w msb sgnd"
proof -
  obtain x where x: "view_bits m v off w msb False = Inr x" "0 \<le> x" "x < 2 ^ w"
      "\<And>j. j < w \<Longrightarrow> bit x j \<longleftrightarrow> buf_bit msb (buffer m) (8 * at v + field_index msb off w j)"
    using view_bits_value [OF assms(1) w inb(1)] by metis
  obtain y where y: "view_bits m' v off w msb False = Inr y" "0 \<le> y" "y < 2 ^ w"
      "\<And>j. j < w \<Longrightarrow> bit y j \<longleftrightarrow> buf_bit msb (buffer m') (8 * at v + field_index msb off w j)"
    using view_bits_value [OF assms(2) w] inb by metis
  have "y = x"
  proof (rule int_eqI_bits [OF y(2,3) x(2,3)])
    fix j assume j: "j < w"
    obtain i where i: "field_index msb off w j = off + i" "i < w"
      using field_index_range [OF j, of off msb] by (metis add_less_cancel_left le_Suc_ex)
    show "bit y j \<longleftrightarrow> bit x j"
      using eq [OF i(2)] by (simp add: x(4) [OF j] y(4) [OF j] i(1) add.assoc)
  qed
  then show ?thesis
    unfolding view_bits_signed [OF assms(1), of off w msb sgnd]
      view_bits_signed [OF assms(2), of off w msb sgnd]
    using x(1) y(1) by simp
qed

section \<open>Steps of a message\<close>

text \<open>
  What generated code does to a message: mark and clear obligations, bump the generation, and
  write through a view.  A write through a view that fails leaves no step.
\<close>

inductive msg_step :: "message \<Rightarrow> message \<Rightarrow> bool" where
  ms_mark: "msg_step m (mark_dirty m b)"
| ms_clear: "msg_step m (clear_dirty m b)"
| ms_touch: "msg_step m (touch m)"
| ms_write: "view_write m v off w x sgnd big = Inr m' \<Longrightarrow> msg_step m m'"
| ms_set_bits: "view_set_bits m v off w x msb = Inr m' \<Longrightarrow> msg_step m m'"

abbreviation msg_steps :: "message \<Rightarrow> message \<Rightarrow> bool" where
  "msg_steps \<equiv> msg_step\<^sup>*\<^sup>*"

lemma view_set_bits_frame:
  assumes "view_set_bits m v off w x msb = Inr m'"
  shows "length (buffer m') = length (buffer m)" "generation m' = generation m" "dirty m' = dirty m"
proof -
  from assms obtain s n bs where s: "slice_store (buffer m) s n bs = Inr (buffer m')"
    and m': "m' = m\<lparr>buffer := buffer m'\<rparr>"
    by (auto simp: view_set_bits_def Let_def)
  from s show "length (buffer m') = length (buffer m)"
    by (rule slice_store_Inr)
  show "generation m' = generation m" "dirty m' = dirty m"
    by (subst m', simp)+
qed

lemma msg_step_monotone:
  "msg_step m m' \<Longrightarrow>
   generation m \<le> generation m' \<and> length (buffer m') = length (buffer m)"
  by (induction rule: msg_step.induct)
    (auto simp: mark_dirty_def clear_dirty_def touch_def view_write_frame view_set_bits_frame)

lemma msg_steps_monotone:
  "msg_steps m m' \<Longrightarrow>
   generation m \<le> generation m' \<and> length (buffer m') = length (buffer m)"
  by (induction rule: rtranclp_induct) (auto dest: msg_step_monotone)

text \<open>A stale view raises at every entry point.\<close>

lemma stale_raises:
  assumes "\<not> fresh m v"
  shows "view_bytes m v = raise StaleViewError"
    "view_span m v = raise StaleViewError"
    "view_read m v off w sg big = raise StaleViewError"
    "view_write m v off w x sg big = raise StaleViewError"
    "view_bits m v off w msb sg = raise StaleViewError"
    "view_set_bits m v off w x msb = raise StaleViewError"
  by (simp_all add: view_bytes_def view_span_def view_read_def view_write_def view_bits_def
      view_set_bits_def view_check_stale [OF assms])

section \<open>Obligations over a run\<close>

datatype obligation = Mark int | Clear int

fun discharge_run :: "message \<Rightarrow> obligation list \<Rightarrow> message" where
  "discharge_run m [] = m"
| "discharge_run m (Mark b # os) = discharge_run (mark_dirty m b) os"
| "discharge_run m (Clear b # os) = discharge_run (clear_dirty m b) os"

text \<open>Whether bit \<open>k\<close> is owed after a run: the last event that names it decides.\<close>

fun owed :: "nat \<Rightarrow> bool \<Rightarrow> obligation list \<Rightarrow> bool" where
  "owed k start [] = start"
| "owed k start (Mark b # os) = owed k (start \<or> bit b k) os"
| "owed k start (Clear b # os) = owed k (start \<and> \<not> bit b k) os"

lemma dirty_discharge_run: "bit (dirty (discharge_run m os)) k \<longleftrightarrow> owed k (bit (dirty m) k) os"
proof (induction os arbitrary: m)
  case (Cons o' os)
  then show ?case
    by (cases o') (simp_all add: mark_dirty_def clear_dirty_def bit_simps)
qed simp

lemma open_gate_iff: "open_gate v ok = Inr g \<longleftrightarrow> ok \<and> gate_view g = v"
  by (auto simp: open_gate_def new_gate_def)

lemma new_gate_iff: "new_gate v t = Inr g \<longleftrightarrow> t = KEY \<and> gate_view g = v"
  by (auto simp: new_gate_def)

section \<open>Properties\<close>

text \<open>
  C36: A bit field store through a fresh view that fits the message succeeds, reads back as the
  value's low bits, and leaves every bit field that does not overlap it reading as it did, in
  either bit numbering, signed or not.
\<close>

theorem set_bits_roundtrip_and_frame:
  assumes "fresh m v" and "0 < w" and "8 * at v + off + w \<le> 8 * length (buffer m)"
  shows "\<exists>m'. view_set_bits m v off w x msb = Inr m'
    \<and> view_bits m' v off w msb False = Inr (x mod 2 ^ w)
    \<and> (\<forall>off2 w2 sg. 0 < w2 \<longrightarrow> 8 * at v + off2 + w2 \<le> 8 * length (buffer m) \<longrightarrow>
         off2 + w2 \<le> off \<or> off + w \<le> off2 \<longrightarrow>
         view_bits m' v off2 w2 msb sg = view_bits m v off2 w2 msb sg)"
proof -
  obtain m' where m': "view_set_bits m v off w x msb = Inr m'" "m' = m\<lparr>buffer := buffer m'\<rparr>"
      "length (buffer m') = length (buffer m)"
      "\<And>k. k < 8 * length (buffer m) \<Longrightarrow> buf_bit msb (buffer m') k \<longleftrightarrow>
         (if 8 * at v + off \<le> k \<and> k < 8 * at v + off + w
          then bit x (field_index msb 0 w (k - (8 * at v + off))) else buf_bit msb (buffer m) k)"
    using view_set_bits_store [OF assms] by metis
  have f: "fresh m' v"
    using assms(1) view_set_bits_frame(2) [OF m'(1)] by (simp add: fresh_def)
  have "view_bits m' v off2 w2 msb sg = view_bits m v off2 w2 msb sg"
    if "0 < w2" "8 * at v + off2 + w2 \<le> 8 * length (buffer m)"
      "off2 + w2 \<le> off \<or> off + w \<le> off2" for off2 w2 sg
    using that by (intro view_bits_cong [OF assms(1) f]) (auto simp: m'(3,4))
  then show ?thesis
    using m'(1) view_bits_after_set_same [OF assms m'(1)] by blast
qed

theorem set_bits_roundtrip_and_frame_witness:
  "fresh (new_message [0x15, 0xEF, 7]) \<lparr>at = 0, len = 3, gen = 0\<rparr>
   \<and> (\<exists>m'. view_set_bits (new_message [0x15, 0xEF, 7]) \<lparr>at = 0, len = 3, gen = 0\<rparr> 7 4 9 False = Inr m'
      \<and> view_bits m' \<lparr>at = 0, len = 3, gen = 0\<rparr> 7 4 False False = Inr 9)"
proof -
  have f: "fresh (new_message [0x15, 0xEF, 7]) \<lparr>at = 0, len = 3, gen = 0\<rparr>"
    by (simp add: fresh_def new_message_def)
  have inb: "8 * at \<lparr>at = 0, len = 3, gen = 0\<rparr> + 7 + 4
      \<le> 8 * length (buffer (new_message [0x15, 0xEF, 7]))"
    by (simp add: new_message_def)
  have "(9::int) mod 2 ^ 4 = 9" by simp
  then show ?thesis
    using f set_bits_roundtrip_and_frame [OF f _ inb, of 9 False] by fastforce
qed

text \<open>
  A whole-byte field write either raises \<open>OverflowError\<close> for a value the width cannot hold, or
  \<open>ValueError\<close> for a field past the end of the message, or succeeds; and then the field reads back
  as exactly the value written, signed or unsigned and in either byte order, while every byte
  outside the field, the generation and the obligations are untouched.
\<close>

theorem write_outcome:
  assumes "fresh m v" and "0 < w"
  shows "view_write m v off w x sg big =
    (if \<not> fits sg w x then Inl PyOverflowError
     else if length (buffer m) < at v + off + w then Inl PyValueError
     else Inr (m\<lparr>buffer := splice (buffer m) (at v + off) (order_bytes big w x)\<rparr>))
   \<and> (\<forall>m'. view_write m v off w x sg big = Inr m' \<longrightarrow>
        view_read m' v off w sg big = Inr x
        \<and> (\<forall>i < length (buffer m). i < at v + off \<or> at v + off + w \<le> i \<longrightarrow>
             buffer m' ! i = buffer m ! i)
        \<and> generation m' = generation m \<and> dirty m' = dirty m)"
proof -
  have eq: "view_write m v off w x sg big =
    (if \<not> fits sg w x then Inl PyOverflowError
     else if length (buffer m) < at v + off + w then Inl PyValueError
     else Inr (m\<lparr>buffer := splice (buffer m) (at v + off) (order_bytes big w x)\<rparr>))"
    using assms by (auto simp: view_write_def Let_def to_bytes_def slice_store_def min_def)
  have "view_read m' v off w sg big = Inr x
        \<and> (\<forall>i < length (buffer m). i < at v + off \<or> at v + off + w \<le> i \<longrightarrow>
             buffer m' ! i = buffer m ! i)
        \<and> generation m' = generation m \<and> dirty m' = dirty m"
    if w: "view_write m v off w x sg big = Inr m'" for m'
  proof -
    from w eq have fit: "to_bytes big sg w x = Inr (order_bytes big w x)"
      and inb: "at v + off + w \<le> length (buffer m)"
      and m': "m' = m\<lparr>buffer := splice (buffer m) (at v + off) (order_bytes big w x)\<rparr>"
      by (auto simp: to_bytes_def split: if_splits)
    have "fresh m' v" using assms(1) by (simp add: m' fresh_def)
    then show ?thesis
      using from_to_bytes [OF fit assms(2)] inb
      by (auto simp: view_read_def m' nth_splice)
  qed
  with eq show ?thesis by blast
qed

theorem write_outcome_witness:
  "fresh (new_message [1, 2, 3, 4]) \<lparr>at = 1, len = 3, gen = 0\<rparr> \<and>
   view_read (new_message [1, 0xFE, 0xFF, 4]) \<lparr>at = 1, len = 3, gen = 0\<rparr> 0 2 True False = Inr (- 2)"
proof -
  have f: "fresh (new_message [1, 2, 3, 4]) \<lparr>at = 1, len = 3, gen = 0\<rparr>"
    by (simp add: fresh_def new_message_def)
  have b: "order_bytes False 2 (- 2) = [0xFE, 0xFF]"
    by code_simp
  show ?thesis
    using f write_outcome [OF f, of 2 0 "- 2" True False]
    by (simp add: new_message_def fits_def b splice_def)
qed

text \<open>
  C37: Invalidation holds end to end: once a message has been touched after a view was taken,
  then whatever steps follow, every accessor of that view raises \<open>StaleViewError\<close> and no write
  through it changes the message.
\<close>

theorem stale_views_stay_stale:
  assumes "acquire m a n = Inr v" and "msg_steps m m1" and "msg_steps (touch m1) m2"
  shows "view_bytes m2 v = raise StaleViewError \<and> view_span m2 v = raise StaleViewError
    \<and> view_read m2 v off w sg big = raise StaleViewError
    \<and> view_write m2 v off w x sg big = raise StaleViewError
    \<and> view_bits m2 v off w msb sg = raise StaleViewError
    \<and> view_set_bits m2 v off w x msb = raise StaleViewError"
proof -
  have "gen v = generation m" using assms(1) by (auto simp: acquire_Inr new_view_def)
  also have "\<dots> < generation (touch m1)"
    using msg_steps_monotone [OF assms(2)] by (simp add: touch_def)
  also have "\<dots> \<le> generation m2"
    using msg_steps_monotone [OF assms(3)] by simp
  finally have "\<not> fresh m2 v" by (simp add: fresh_def)
  then show ?thesis by (simp add: stale_raises)
qed

theorem stale_views_stay_stale_witness:
  "view_read (touch (new_message [1, 2])) \<lparr>at = 0, len = 2, gen = 0\<rparr> 0 1 False True
     = raise StaleViewError"
proof -
  have a: "acquire (new_message [1, 2]) 0 2 = Inr \<lparr>at = 0, len = 2, gen = 0\<rparr>"
    by (simp add: acquire_def new_view_def new_message_def)
  show ?thesis
    using stale_views_stay_stale [OF a rtranclp.rtrancl_refl rtranclp.rtrancl_refl, of 0 1 False True]
    by blast
qed

text \<open>
  The one bounds check is enough: a view is handed out exactly when its extent lies in the
  message, and after any run of steps that has not bumped the generation its bytes are exactly
  as many as were asked for.
\<close>

theorem acquired_extent:
  assumes "msg_steps m m'" and "generation m' = generation m"
  shows "if 0 \<le> a \<and> 0 \<le> n \<and> a + n \<le> int (length (buffer m))
    then \<exists>v bs. acquire m a n = Inr v \<and> view_span m' v = Inr bs \<and> int (length bs) = n
      \<and> (\<forall>i < length bs. bs ! i = buffer m' ! (nat a + i))
    else acquire m a n = raise BoundsError"
proof (cases "0 \<le> a \<and> 0 \<le> n \<and> a + n \<le> int (length (buffer m))")
  case True
  define v where "v = new_view m (nat a) (nat n)"
  have l: "length (buffer m') = length (buffer m)" using msg_steps_monotone [OF assms(1)] by simp
  have "acquire m a n = Inr v" using True by (auto simp: acquire_Inr v_def)
  moreover have "view_span m' v = Inr (slice (buffer m') (nat a) (nat n))"
    using assms(2) by (simp add: view_span_def v_def new_view_def fresh_def)
  moreover have "int (length (slice (buffer m') (nat a) (nat n))) = n"
    using True l by auto
  moreover have "\<forall>i < length (slice (buffer m') (nat a) (nat n)).
      slice (buffer m') (nat a) (nat n) ! i = buffer m' ! (nat a + i)"
    by (auto simp: slice_def)
  ultimately show ?thesis using True by auto
next
  case False
  then show ?thesis by (auto simp: acquire_def)
qed

theorem acquired_extent_witness:
  "acquire (new_message [5, 6, 7]) 2 2 = raise BoundsError
   \<and> (\<exists>v bs. acquire (new_message [5, 6, 7]) 1 2 = Inr v
        \<and> view_span (new_message [5, 6, 7]) v = Inr bs \<and> length bs = 2)"
proof -
  note th = acquired_extent [of "new_message [5, 6, 7]", OF rtranclp.rtrancl_refl refl]
  have "buffer (new_message [5, 6, 7]) = [5, 6, 7]" by (simp add: new_message_def)
  then show ?thesis
    using th [of 2 2] th [of 1 2] by auto
qed

text \<open>
  A message may be sent exactly when every obligation is discharged: after any run of marks
  and clears, \<open>transmittable\<close> raises \<open>TagError\<close> iff some bit was marked and not cleared since.
\<close>

theorem transmittable_after_run:
  "transmittable (discharge_run (new_message buf) os) =
     (if \<exists>k. owed k False os then raise TagError else Inr ())"
proof -
  have "dirty (discharge_run (new_message buf) os) = 0 \<longleftrightarrow> (\<forall>k. \<not> owed k False os)"
    by (simp add: bit_eq_iff dirty_discharge_run) (simp add: new_message_def)
  then show ?thesis by (simp add: transmittable_def)
qed

end
