(* ===== verification/Codec_Interface.thy ===== *)
theory Codec_Interface
  imports Situ_Prelude
begin

text \<open>
  The contract every variable-length integer of the runtime offers to generated code: a decoder
  that answers a value and the bytes it occupied, an encoder that answers the written buffer and
  the bytes written (0 for want of room), and a measure.  The lemmas a caller relies on are proved
  here once from the laws, and each encoding is an interpretation.
\<close>

locale varint_codec =
  fixes get :: "bytes \<Rightarrow> nat \<Rightarrow> (int \<times> nat) option"
    and put :: "bytes \<Rightarrow> nat \<Rightarrow> int \<Rightarrow> (bytes \<times> nat) res"
    and sz :: "int \<Rightarrow> nat"
    and valid :: "int \<Rightarrow> bool"
  assumes put_room: "valid v \<Longrightarrow> a + sz v \<le> length out \<Longrightarrow>
      \<exists>bs. length bs = sz v \<and> put out a v = Inr (splice out a bs, sz v)
        \<and> get (splice out a bs) a = Some (v, sz v)"
    and put_no_room: "valid v \<Longrightarrow> length out < a + sz v \<Longrightarrow> put out a v = Inr (out, 0)"
    and get_extent: "get d a = Some (v, n) \<Longrightarrow> 0 < n \<and> a + n \<le> length d \<and> sz v \<le> n"
    and get_local: "get d a = Some (v, n) \<Longrightarrow> a + n \<le> length d' \<Longrightarrow>
      slice d' a n = slice d a n \<Longrightarrow> get d' a = Some (v, n)"
    and get_short: "get d a = Some (v, n) \<Longrightarrow> k < n \<Longrightarrow> get (take (a + k) d) a = None"
begin

text \<open>Encoding never raises, and what it wrote decodes to the same value and count.\<close>

lemma roundtrip:
  assumes "valid v"
  obtains (no_room) "length out < a + sz v" "put out a v = Inr (out, 0)"
  | (room) out' where "a + sz v \<le> length out" "0 < sz v" "put out a v = Inr (out', sz v)"
      "get out' a = Some (v, sz v)" "length out' = length out"
      "\<And>i. i < length out \<Longrightarrow> i < a \<or> a + sz v \<le> i \<Longrightarrow> out' ! i = out ! i"
proof (cases "a + sz v \<le> length out")
  case True
  from put_room [OF assms True] obtain bs where bs: "length bs = sz v"
      "put out a v = Inr (splice out a bs, sz v)" "get (splice out a bs) a = Some (v, sz v)"
    by blast
  show thesis
    by (rule room [OF True _ bs(2,3)])
      (use get_extent [OF bs(3)] bs(1) True in \<open>auto simp: nth_splice\<close>)
next
  case False
  then show thesis using no_room put_no_room [OF assms] by auto
qed

lemma roundtrip_outcome:
  assumes "valid v"
  shows "if length out < a + sz v then put out a v = Inr (out, 0)
    else \<exists>out'. put out a v = Inr (out', sz v) \<and> get out' a = Some (v, sz v)
       \<and> length out' = length out
       \<and> (\<forall>i < length out. i < a \<or> a + sz v \<le> i \<longrightarrow> out' ! i = out ! i)"
  by (rule roundtrip [OF assms, of out a]) auto

text \<open>A second value written right behind the first leaves the first readable.\<close>

lemma adjacent:
  assumes v: "valid v" and w: "valid w"
    and p1: "put out a v = Inr (o1, n1)" "0 < n1"
    and p2: "put o1 (a + n1) w = Inr (o2, n2)" "0 < n2"
  shows "get o2 a = Some (v, n1) \<and> get o2 (a + n1) = Some (w, n2)"
proof -
  have g1: "get o1 a = Some (v, n1)" and len1: "a + n1 \<le> length o1"
    using p1 by (cases rule: roundtrip [OF v, of out a]; auto dest: get_extent)+
  have g2: "get o2 (a + n1) = Some (w, n2)" and len2: "length o2 = length o1"
    and keep: "\<And>i. i < length o1 \<Longrightarrow> i < a + n1 \<Longrightarrow> o2 ! i = o1 ! i"
    using p2 by (cases rule: roundtrip [OF w, of o1 "a + n1"]; auto)+
  have "slice o2 a n1 = slice o1 a n1"
    using len1 len2 keep by (simp add: slice_eq_iff)
  then show ?thesis
    using get_local [OF g1, of o2] len1 len2 g2 by simp
qed

text \<open>No encoding of a value is shorter than the one the encoder writes.\<close>

lemma shortest:
  assumes "valid v" and "put out a v = Inr (out', m)" and "get d b = Some (v, n)"
  shows "m \<le> n"
  using assms get_extent [OF assms(3)] by (cases rule: roundtrip [OF assms(1), of out a]) auto

text \<open>The encoding is self-delimiting: two buffers that agree as far as the shorter reads alike.\<close>

lemma self_delimiting:
  assumes g: "get d a = Some (v, n)" "get d' a = Some (w, m)"
    and same: "slice d' a (min n m) = slice d a (min n m)"
  shows "w = v \<and> m = n"
proof (cases "n \<le> m")
  case True
  then have "get d' a = Some (v, n)"
    using get_local [OF g(1), of d'] get_extent [OF g(2)] same by (simp add: min_def)
  with g(2) show ?thesis by simp
next
  case False
  then have "get d a = Some (w, m)"
    using get_local [OF g(2), of d] get_extent [OF g(1)] same by (simp add: min_def)
  with g(1) show ?thesis by simp
qed

end

end
