(* ===== verification/Varint_Leb.thy ===== *)
theory Varint_Leb
  imports Codec_Interface
begin

text \<open>
  leb128 (\<open>varint_get\<close>, \<open>varint_len\<close>, \<open>varint_put\<close>) and ZigZag of
  \<open>runtime/python/situ_runtime.py\<close>, with the codec laws for them.

  Here and in the other \<open>Varint\<close> theories a buffer is passed in and the written one returned with
  the count, inside \<open>res\<close>, so every \<open>IndexError\<close>, \<open>ValueError\<close> or \<open>OverflowError\<close> the stores
  could raise is a value; that none is raised for the values an encoding holds is part of what is
  proved.
\<close>

section \<open>leb128\<close>

fun varint_get_loop :: "bytes \<Rightarrow> nat \<Rightarrow> nat \<Rightarrow> nat \<Rightarrow> int \<Rightarrow> nat \<Rightarrow> (int \<times> nat) option" where
  "varint_get_loop data a 0 i acc shift = None"
| "varint_get_loop data a (Suc k) i acc shift =
     (if length data \<le> a + i then None
      else let byte = uint (data ! (a + i));
               acc' = (if shift < 64 then acc OR push_bit shift (byte AND 0x7F) else acc)
           in if byte AND 0x80 = 0 then Some (acc', i + 1)
              else varint_get_loop data a k (i + 1) acc' (shift + 7))"

definition varint_get :: "bytes \<Rightarrow> nat \<Rightarrow> nat \<Rightarrow> (int \<times> nat) option" where
  "varint_get data a max_bytes = varint_get_loop data a max_bytes 0 0 0"

function varint_len_loop :: "int \<Rightarrow> nat \<Rightarrow> nat" where
  "varint_len_loop val n = (if 0x80 \<le> val then varint_len_loop (drop_bit 7 val) (n + 1) else n)"
  by pat_completeness auto
termination
  by (relation "measure (\<lambda>(v, n). nat v)") (auto simp: int_drop_bit)

declare varint_len_loop.simps [simp del]

definition varint_len :: "int \<Rightarrow> nat" where
  "varint_len val = varint_len_loop val 1"

fun varint_put_loop :: "nat \<Rightarrow> bytes \<Rightarrow> nat \<Rightarrow> int \<Rightarrow> (bytes \<times> int) res" where
  "varint_put_loop 0 out i val = Inr (out, val)"
| "varint_put_loop (Suc k) out i val =
     bindE (byte_store out i ((val AND 0x7F) OR 0x80)) (\<lambda>out'.
       varint_put_loop k out' (i + 1) (drop_bit 7 val))"

definition varint_put :: "bytes \<Rightarrow> nat \<Rightarrow> int \<Rightarrow> (bytes \<times> nat) res" where
  "varint_put out a val =
     (let n = varint_len val in
      if int (length out) - int a < int n then Inr (out, 0)
      else bindE (varint_put_loop (n - 1) out a val) (\<lambda>(out', val').
           bindE (byte_store out' (a + n - 1) (val' AND 0x7F)) (\<lambda>out''.
             Inr (out'', n))))"

definition zigzag_decode :: "int \<Rightarrow> int" where
  "zigzag_decode raw = drop_bit 1 raw XOR (- (raw AND 1))"

definition zigzag_encode :: "int \<Rightarrow> int" where
  "zigzag_encode val = (if val < 0 then push_bit 1 val XOR drop_bit 63 val else push_bit 1 val)"

section \<open>leb128: the laws\<close>

lemma varint_len_loop_le:
  "varint_len_loop v n \<le> k \<longleftrightarrow> n \<le> k \<and> v < 2 ^ (7 * (k - n + 1))"
proof (induction v n rule: varint_len_loop.induct)
  case (1 v n)
  show ?case
  proof (cases "0x80 \<le> v")
    case True
    have "varint_len_loop v n \<le> k \<longleftrightarrow> n + 1 \<le> k \<and> v div 128 < 2 ^ (7 * (k - (n + 1) + 1))"
      using 1 [OF True] True by (simp add: varint_len_loop.simps [of v n] int_drop_bit)
    also have "\<dots> \<longleftrightarrow> n + 1 \<le> k \<and> v < 2 ^ (7 * (k - n + 1))"
    proof (cases "n + 1 \<le> k")
      case True
      then obtain j where "k = n + 1 + j" using le_Suc_ex by blast
      then show ?thesis by (simp add: power_add) linarith
    qed simp
    also have "\<dots> \<longleftrightarrow> n \<le> k \<and> v < 2 ^ (7 * (k - n + 1))"
      using True by (cases "n = k") auto
    finally show ?thesis .
  next
    case False
    have "(128::int) \<le> 2 ^ (7 * (k - n + 1))"
      by (simp add: power_add)
    with False show ?thesis by (simp add: varint_len_loop.simps [of v n])
  qed
qed

lemma varint_len_le: "varint_len v \<le> k \<longleftrightarrow> 0 < k \<and> v < 2 ^ (7 * k)"
  using varint_len_loop_le [of v 1 k] by (cases k) (simp_all add: varint_len_def)

lemma varint_len_pos [simp]: "0 < varint_len v"
  using varint_len_le [of v 0] by simp

text \<open>The bytes of the minimal encoding, low group first.\<close>

function leb_bytes :: "int \<Rightarrow> bytes" where
  "leb_bytes v = (if 128 \<le> v then byte_of (v mod 128 + 128) # leb_bytes (v div 128) else [byte_of v])"
  by pat_completeness auto
termination
  by (relation "measure nat") auto

declare leb_bytes.simps [simp del]

lemma varint_len_loop_leb_bytes: "varint_len_loop v (Suc n) = n + length (leb_bytes v)"
proof (induction v arbitrary: n rule: leb_bytes.induct)
  case (1 v)
  then show ?case
    by (simp add: varint_len_loop.simps [of v] leb_bytes.simps [of v] int_drop_bit)
qed

lemma length_leb_bytes: "length (leb_bytes v) = varint_len v"
  using varint_len_loop_leb_bytes [of v 0] by (simp add: varint_len_def)

lemma leb_bytes_ne [simp]: "leb_bytes v \<noteq> []"
  by (subst leb_bytes.simps) simp

lemma varint_put_loop_leb_bytes:
  assumes "0 \<le> v" and "a + length (leb_bytes v) \<le> length out"
  shows "\<exists>out' v'. varint_put_loop (length (leb_bytes v) - 1) out a v = Inr (out', v')
    \<and> length out' = length out
    \<and> out'[a + length (leb_bytes v) - 1 := byte_of (v' mod 128)] = splice out a (leb_bytes v)"
  using assms
proof (induction v arbitrary: a out rule: leb_bytes.induct)
  case (1 v)
  show ?case
  proof (cases "128 \<le> v")
    case True
    define b where "b = byte_of (v mod 128 + 128)"
    let ?bs = "leb_bytes (v div 128)"
    have lv: "leb_bytes v = b # ?bs"
      using True by (simp add: leb_bytes.simps [of v] b_def)
    obtain l where l: "length ?bs = Suc l" by (cases ?bs) auto
    have "a + 1 + length ?bs \<le> length (out[a := b])" using 1(3) lv by simp
    moreover have "0 \<le> v div 128" using True by simp
    ultimately obtain out' v' where
      IH: "varint_put_loop (length ?bs - 1) (out[a := b]) (a + 1) (v div 128) = Inr (out', v')"
      "length out' = length out"
      "out'[a + 1 + length ?bs - 1 := byte_of (v' mod 128)] = splice (out[a := b]) (a + 1) ?bs"
      using 1(1) [OF True] by (metis length_list_update)
    have "byte_store out a (v AND 127 OR 128) = Inr (out[a := b])"
      using 1(3) lv by (simp add: byte_store_def bits_arith b_def)
    then have "varint_put_loop (length (leb_bytes v) - 1) out a v = Inr (out', v')"
      using IH(1) by (simp add: lv l int_drop_bit)
    then show ?thesis
      using IH(2,3) 1(3) by (simp add: lv splice_Cons)
  next
    case False
    then show ?thesis
      using 1(2,3) by (auto simp: leb_bytes.simps [of v] splice_update)
  qed
qed

lemma varint_put_leb_bytes:
  assumes "0 \<le> v" and "a + varint_len v \<le> length out"
  shows "varint_put out a v = Inr (splice out a (leb_bytes v), varint_len v)"
proof -
  have "a + length (leb_bytes v) \<le> length out" using assms by (simp add: length_leb_bytes)
  from varint_put_loop_leb_bytes [OF assms(1) this] obtain out' v' where
    "varint_put_loop (varint_len v - 1) out a v = Inr (out', v')" "length out' = length out"
    "out'[a + varint_len v - 1 := byte_of (v' mod 128)] = splice out a (leb_bytes v)"
    by (auto simp: length_leb_bytes)
  moreover have "a + varint_len v - 1 < length out"
    using assms(2) varint_len_pos [of v] by linarith
  ultimately show ?thesis
    using assms(2) by (simp add: varint_put_def Let_def byte_store_def int_and_7F)
qed

lemma leb_step_value:
  assumes "0 \<le> acc" and "acc < 2 ^ sh"
  shows "acc OR push_bit sh (uint (b :: byte) AND 0x7F) = acc + uint b mod 128 * 2 ^ sh"
  using int_or_disjoint [OF assms] by (simp add: bits_arith)

lemma leb_step_bound:
  fixes acc x :: int
  assumes "0 \<le> acc" and "acc < 2 ^ sh"
  shows "0 \<le> acc + x mod 128 * 2 ^ sh" "acc + x mod 128 * 2 ^ sh < 2 ^ (sh + 7)"
proof -
  have "x mod 128 * 2 ^ sh \<le> 127 * 2 ^ sh" by (rule mult_right_mono) simp_all
  moreover have "(2::int) ^ (sh + 7) = 128 * 2 ^ sh" by (simp add: power_add)
  ultimately show "acc + x mod 128 * 2 ^ sh < 2 ^ (sh + 7)"
    using assms(2) by linarith
  show "0 \<le> acc + x mod 128 * 2 ^ sh" using assms(1) by simp
qed

lemma varint_get_loop_leb_bytes:
  assumes "0 \<le> v" and "v * 2 ^ sh < 2 ^ 64" and "sh < 64" and "0 \<le> acc" and "acc < 2 ^ sh"
    and "a + i + length (leb_bytes v) \<le> length d"
    and "\<forall>j < length (leb_bytes v). d ! (a + i + j) = leb_bytes v ! j"
    and "length (leb_bytes v) \<le> k"
  shows "varint_get_loop d a k i acc sh = Some (acc + v * 2 ^ sh, i + length (leb_bytes v))"
  using assms
proof (induction v arbitrary: sh acc i k rule: leb_bytes.induct)
  case (1 v)
  obtain k' where k: "k = Suc k'" using 1(9) by (cases k) auto
  show ?case
  proof (cases "128 \<le> v")
    case True
    let ?bs = "leb_bytes (v div 128)" and ?b = "byte_of (v mod 128 + 128)"
    have lv: "leb_bytes v = ?b # ?bs"
      using True by (simp add: leb_bytes.simps [of v])
    have ub: "uint ?b = v mod 128 + 128" by simp
    have b: "d ! (a + i) = ?b" using 1(8) lv by auto
    have "v div 128 * 2 ^ (sh + 7) \<le> v * 2 ^ sh"
      using mult_right_mono [of "v div 128 * 128" v "2 ^ sh"] 1(2) by (simp add: power_add mult.assoc)
    moreover have "(2::int) ^ (sh + 7) \<le> v div 128 * 2 ^ (sh + 7)"
      using True by simp
    ultimately have less: "v div 128 * 2 ^ (sh + 7) < 2 ^ 64" "(2::int) ^ (sh + 7) < 2 ^ 64"
      using 1(3) by linarith+
    then have sh: "sh + 7 < 64"
      by (intro power_less_imp_less_exp [of "2::int", OF _ less(2)]) simp
    have step: "acc OR push_bit sh (uint ?b AND 0x7F) = acc + v mod 128 * 2 ^ sh"
      using leb_step_value [OF 1(5,6), of ?b] ub by simp
    note acc = leb_step_bound [OF 1(5,6), of v]
    have "varint_get_loop d a k' (i + 1) (acc + v mod 128 * 2 ^ sh) (sh + 7)
        = Some (acc + v mod 128 * 2 ^ sh + v div 128 * 2 ^ (sh + 7), i + 1 + length ?bs)"
      by (rule 1(1) [OF True]) (use 1 True less sh acc lv k in \<open>auto simp: nth_Cons'\<close>)
    moreover have "v mod 128 * 2 ^ sh + v div 128 * 2 ^ (sh + 7) = v * 2 ^ sh"
    proof -
      have "v * 2 ^ sh = (v mod 128 + v div 128 * 128) * 2 ^ sh" by simp
      then show ?thesis by (simp only: distrib_right power_add) simp
    qed
    moreover have "uint ?b AND 0x80 \<noteq> 0" by simp
    ultimately show ?thesis
      using 1(7) step 1(4) lv by (simp add: k b Let_def)
  next
    case False
    then have lv: "leb_bytes v = [byte_of v]" by (simp add: leb_bytes.simps [of v])
    have b: "d ! (a + i) = byte_of v" and u: "uint (byte_of v) = v"
      using 1(8) lv False 1(2) by auto
    have "acc OR push_bit sh (uint (byte_of v) AND 0x7F) = acc + v * 2 ^ sh"
      using leb_step_value [OF 1(5,6), of "byte_of v"] u False 1(2) by simp
    moreover have "uint (byte_of v) AND 0x80 = 0"
      using False 1(2) by (simp add: int_and_80)
    ultimately show ?thesis
      using 1(7) 1(4) lv by (simp add: k b Let_def)
  qed
qed

text \<open>What the decoder reads: extent, locality, truncation and the size of the value.\<close>

lemma varint_get_loop_extent:
  "varint_get_loop d a k i acc sh = Some (v, n) \<Longrightarrow> i < n \<and> a + n \<le> length d \<and> n \<le> i + k"
  by (induction k arbitrary: i acc sh) (fastforce simp: Let_def split: if_splits)+

lemma varint_get_loop_local:
  "varint_get_loop d a k i acc sh = Some (v, n) \<Longrightarrow> a + n \<le> length d' \<Longrightarrow>
   \<forall>j. i \<le> j \<and> j < n \<longrightarrow> d' ! (a + j) = d ! (a + j) \<Longrightarrow>
   varint_get_loop d' a k i acc sh = Some (v, n)"
proof (induction k arbitrary: i acc sh)
  case (Suc k)
  have "i < n" using varint_get_loop_extent [OF Suc.prems(1)] by simp
  moreover from this have "d' ! (a + i) = d ! (a + i)" using Suc.prems(3) by simp
  ultimately show ?case
    using Suc by (auto simp: Let_def split: if_splits)
qed simp

lemma varint_get_loop_short:
  "varint_get_loop d a k i acc sh = Some (v, n) \<Longrightarrow> m < n \<Longrightarrow>
   varint_get_loop (take (a + m) d) a k i acc sh = None"
proof (induction k arbitrary: i acc sh)
  case (Suc k)
  note ext = varint_get_loop_extent [OF Suc.prems(1)]
  show ?case
  proof (cases "m \<le> i")
    case False
    have "uint (d ! (a + i)) AND 0x80 \<noteq> 0"
      using Suc.prems False ext by (auto simp: Let_def split: if_splits)
    then show ?thesis
      using Suc False ext by (auto simp: Let_def split: if_splits)
  next
    case True
    then have "length (take (a + m) d) \<le> a + i" by simp
    then show ?thesis by (simp del: length_take)
  qed
qed simp

lemma varint_get_loop_bound:
  "varint_get_loop d a k i acc sh = Some (v, n) \<Longrightarrow> 0 \<le> acc \<Longrightarrow> acc < 2 ^ (7 * i) \<Longrightarrow>
   sh = 7 * i \<Longrightarrow> 0 \<le> v \<and> v < 2 ^ (7 * n)"
proof (induction k arbitrary: i acc sh)
  case (Suc k)
  define byte where "byte = uint (d ! (a + i))"
  define acc' where "acc' = (if sh < 64 then acc OR push_bit sh (byte AND 0x7F) else acc)"
  have "acc' = (if sh < 64 then acc + byte mod 128 * 2 ^ (7 * i) else acc)"
    using leb_step_value [of acc "7 * i" "d ! (a + i)"] Suc.prems by (simp add: acc'_def byte_def)
  moreover have "acc < 2 ^ (7 * i + 7)"
    by (rule less_le_trans [OF Suc.prems(3)], rule power_increasing) simp_all
  ultimately have acc': "0 \<le> acc'" "acc' < 2 ^ (7 * (i + 1))"
    using leb_step_bound [OF Suc.prems(2,3), of byte] Suc.prems(2,3)
    by (auto simp: add.commute split: if_splits)
  show ?case
    using Suc.prems(1,4) Suc.IH [of "i + 1" acc' "sh + 7"] acc'
    by (auto simp: Let_def byte_def acc'_def split: if_splits)
qed simp

definition leb_valid :: "nat \<Rightarrow> int \<Rightarrow> bool" where
  "leb_valid max_bytes v \<longleftrightarrow> 0 \<le> v \<and> v < 2 ^ 64 \<and> varint_len v \<le> max_bytes"

interpretation leb: varint_codec
  "\<lambda>d a. varint_get d a max_bytes" varint_put varint_len "leb_valid max_bytes"
  for max_bytes
proof unfold_locales
  fix v :: int and a :: nat and out :: bytes
  assume v: "leb_valid max_bytes v"
  show "a + varint_len v \<le> length out \<Longrightarrow> \<exists>bs. length bs = varint_len v \<and>
      varint_put out a v = Inr (splice out a bs, varint_len v) \<and>
      varint_get (splice out a bs) a max_bytes = Some (v, varint_len v)"
  proof (intro exI [of _ "leb_bytes v"] conjI)
    assume room: "a + varint_len v \<le> length out"
    show "length (leb_bytes v) = varint_len v" by (rule length_leb_bytes)
    show "varint_put out a v = Inr (splice out a (leb_bytes v), varint_len v)"
      using v room by (simp add: varint_put_leb_bytes leb_valid_def)
    show "varint_get (splice out a (leb_bytes v)) a max_bytes = Some (v, varint_len v)"
      using varint_get_loop_leb_bytes [of v 0 0 a 0 "splice out a (leb_bytes v)" max_bytes] v room
      by (simp add: varint_get_def leb_valid_def length_leb_bytes nth_splice)
  qed
  show "length out < a + varint_len v \<Longrightarrow> varint_put out a v = Inr (out, 0)"
    by (simp add: varint_put_def Let_def)
next
  fix d d' :: bytes and a n k :: nat and v :: int
  assume g: "varint_get d a max_bytes = Some (v, n)"
  note ext = varint_get_loop_extent [OF g [unfolded varint_get_def]]
  show "0 < n \<and> a + n \<le> length d \<and> varint_len v \<le> n"
    using ext varint_get_loop_bound [OF g [unfolded varint_get_def]] by (simp add: varint_len_le)
  show "a + n \<le> length d' \<Longrightarrow> slice d' a n = slice d a n \<Longrightarrow>
      varint_get d' a max_bytes = Some (v, n)"
    using varint_get_loop_local [OF g [unfolded varint_get_def], of d'] ext
    by (simp add: varint_get_def slice_eq_iff)
  show "k < n \<Longrightarrow> varint_get (take (a + k) d) a max_bytes = None"
    using varint_get_loop_short [OF g [unfolded varint_get_def]] by (simp add: varint_get_def)
qed

section \<open>Properties\<close>

text \<open>
  C38: encoding a 64-bit value with \<open>varint_put\<close> never raises.  Where the minimal encoding does not
  fit the buffer from \<open>at\<close> on, it answers 0 and changes nothing; otherwise it answers the minimal
  length, touches no byte outside the encoding, and \<open>varint_get\<close> reads the same value and the same
  count back.
\<close>

theorem varint_put_get:
  assumes "0 \<le> v" and "v < 2 ^ 64" and "varint_len v \<le> max_bytes"
  shows "if length out < a + varint_len v then varint_put out a v = Inr (out, 0)
    else \<exists>out'. varint_put out a v = Inr (out', varint_len v)
       \<and> varint_get out' a max_bytes = Some (v, varint_len v)
       \<and> length out' = length out
       \<and> (\<forall>i < length out. i < a \<or> a + varint_len v \<le> i \<longrightarrow> out' ! i = out ! i)"
  using leb.roundtrip_outcome [of max_bytes v out a] assms by (simp add: leb_valid_def)

theorem varint_put_get_witness:
  "\<exists>out'. varint_put [1, 2, 3, 4, 5] 1 300 = Inr (out', 2) \<and> varint_get out' 1 10 = Some (300, 2)"
proof -
  have "varint_len 300 = 2" by code_simp
  then show ?thesis using varint_put_get [of 300 10 "[1, 2, 3, 4, 5]" 1] by auto
qed

text \<open>
  a stream of varints is readable.  A value written right behind another leaves the first one
  readable with the count it was written with; the two decode in order; no cut of the first
  value's bytes decodes; and no encoding of a value that decodes at all is shorter than what
  \<open>varint_put\<close> wrote.
\<close>

theorem varint_stream:
  assumes "0 \<le> v" and "v < 2 ^ 64" and "varint_len v \<le> m"
    and "0 \<le> w" and "w < 2 ^ 64" and "varint_len w \<le> m"
    and "varint_put out a v = Inr (o1, n1)" and "0 < n1"
    and "varint_put o1 (a + n1) w = Inr (o2, n2)" and "0 < n2"
  shows "varint_get o2 a m = Some (v, n1) \<and> varint_get o2 (a + n1) m = Some (w, n2)
    \<and> (\<forall>k < n1. varint_get (take (a + k) o2) a m = None)
    \<and> (\<forall>d b n. varint_get d b m = Some (v, n) \<longrightarrow> n1 \<le> n)"
proof -
  have v: "leb_valid m v" and w: "leb_valid m w" using assms(1-6) by (simp_all add: leb_valid_def)
  note both = leb.adjacent [OF v w assms(7-10)]
  show ?thesis
    using both leb.get_short [of o2 a m v n1] leb.shortest [OF v assms(7)] by blast
qed

theorem varint_stream_witness:
  "varint_get [0xAC, 0x02, 0x07] 0 10 = Some (300, 2)
    \<and> varint_get [0xAC, 0x02, 0x07] (0 + 2) 10 = Some (7, 1)"
proof -
  have "varint_len 300 = 2" "varint_len 7 = 1" by code_simp+
  moreover have "varint_put [0, 0, 0] 0 300 = Inr ([0xAC, 0x02, 0], 2)" by code_simp
  moreover have "varint_put [0xAC, 0x02, 0] (0 + 2) 7 = Inr ([0xAC, 0x02, 0x07], 1)" by code_simp
  ultimately show ?thesis
    using varint_stream [of 300 10 7 "[0, 0, 0]" 0 "[0xAC, 0x02, 0]" 2 "[0xAC, 0x02, 0x07]" 1] by simp
qed

text \<open>
  ZigZag is a bijection between the signed 64-bit values and the unsigned ones: encoding a
  value of either sign stays within 64 bits, keeps small magnitudes small, and decodes back.
\<close>

theorem zigzag_roundtrip:
  assumes "- (2 ^ 63) \<le> v" and "v < 2 ^ 63"
  shows "zigzag_decode (zigzag_encode v) = v \<and> 0 \<le> zigzag_encode v \<and> zigzag_encode v < 2 ^ 64
    \<and> zigzag_encode v \<le> 2 * \<bar>v\<bar>"
proof -
  show ?thesis
  proof (cases "v < 0")
    case True
    then have "v div 2 ^ 63 = - 1" using assms(1) by (intro int_div_pos_eq [of _ _ _ "v + 2 ^ 63"]) simp_all
    then have "zigzag_encode v = - (2 * v) - 1"
      using True by (simp add: zigzag_encode_def int_drop_bit int_push_bit not_eq_complement)
    moreover have "(- (2 * v) - 1) mod 2 = 1" "(- (2 * v) - 1) div 2 = - v - 1" by presburger+
    ultimately show ?thesis
      using True assms(1) by (simp add: zigzag_decode_def int_drop_bit int_and_1 not_eq_complement)
  next
    case False
    then have "zigzag_encode v = 2 * v" by (simp add: zigzag_encode_def int_push_bit)
    then show ?thesis
      using False assms(2) by (simp add: zigzag_decode_def int_drop_bit int_and_1)
  qed
qed

theorem zigzag_roundtrip_witness:
  "zigzag_decode (zigzag_encode (- 64)) = - 64 \<and> 0 \<le> zigzag_encode (- 64)
    \<and> zigzag_encode (- 64) < 2 ^ 64 \<and> zigzag_encode (- 64) \<le> 2 * \<bar>- 64\<bar>"
  by (rule zigzag_roundtrip) simp_all

text \<open>
  a decoded varint lies below \<open>2 ^ (7 * n)\<close> for its \<open>n\<close> bytes, and consumes no byte past the
  buffer.  Nothing bounds it by 64 bits: ten bytes \<open>FF\<close>...\<open>7F\<close> decode to \<open>2 ^ 70 - 1\<close>, since
  only the shift is tested against 64 and the accumulator of the Python runtime is unbounded.
\<close>

theorem varint_get_bounds:
  "(varint_get d a m = Some (v, n) \<longrightarrow> 0 \<le> v \<and> v < 2 ^ (7 * n) \<and> 0 < n \<and> n \<le> m \<and> a + n \<le> length d)
   \<and> varint_get (replicate 9 0xFF @ [0x7F]) 0 10 = Some (2 ^ 70 - 1, 10)"
proof
  show "varint_get d a m = Some (v, n) \<longrightarrow> 0 \<le> v \<and> v < 2 ^ (7 * n) \<and> 0 < n \<and> n \<le> m \<and> a + n \<le> length d"
    using varint_get_loop_bound [of d a m 0 0 0 v n] varint_get_loop_extent [of d a m 0 0 0 v n]
    by (simp add: varint_get_def)
  show "varint_get (replicate 9 0xFF @ [0x7F]) 0 10 = Some (2 ^ 70 - 1, 10)"
    by code_simp
qed

theorem varint_get_bounds_witness:
  "varint_get [0xAC, 0x02] 0 10 = Some (300, 2) \<and> (300::int) < 2 ^ (7 * 2)"
proof -
  have "varint_get [0xAC, 0x02] 0 10 = Some (300, 2)" by code_simp
  with varint_get_bounds [of "[0xAC, 0x02]" 0 10 300 2] show ?thesis by blast
qed

end
