(* ===== verification/Varint_Be.thy ===== *)
theory Varint_Be
  imports Varint_Leb
begin

text \<open>
  The big-endian base-128 integers (\<open>varint_be_*\<close>) of \<open>runtime/python/situ_runtime.py\<close>: ASN.1
  identifiers, MIDI delta times and SQLite varints.  The last permitted byte of a format with
  \<open>terminal_bits = 8\<close> carries eight value bits and no continuation flag.
\<close>

section \<open>be128\<close>

fun varint_be_get_loop ::
    "bytes \<Rightarrow> nat \<Rightarrow> nat \<Rightarrow> nat \<Rightarrow> nat \<Rightarrow> nat \<Rightarrow> int \<Rightarrow> (int \<times> nat) option" where
  "varint_be_get_loop data a max_bytes terminal_bits 0 i acc = None"
| "varint_be_get_loop data a max_bytes terminal_bits (Suc k) i acc =
     (if length data \<le> a + i then None
      else let byte = uint (data ! (a + i))
           in if terminal_bits = 8 \<and> i + 1 = max_bytes then Some (push_bit 8 acc OR byte, i + 1)
              else let acc' = push_bit 7 acc OR (byte AND 0x7F)
                   in if byte AND 0x80 = 0 then Some (acc', i + 1)
                      else varint_be_get_loop data a max_bytes terminal_bits k (i + 1) acc')"

definition varint_be_get :: "bytes \<Rightarrow> nat \<Rightarrow> nat \<Rightarrow> nat \<Rightarrow> (int \<times> nat) option" where
  "varint_be_get data a max_bytes terminal_bits =
     varint_be_get_loop data a max_bytes terminal_bits max_bytes 0 0"

definition varint_be_len :: "int \<Rightarrow> nat \<Rightarrow> nat \<Rightarrow> nat" where
  "varint_be_len val max_bytes terminal_bits =
     (let n = varint_len_loop val 1
      in if terminal_bits = 8 \<and> max_bytes < n then max_bytes else n)"

fun varint_be_put_loop :: "nat \<Rightarrow> bytes \<Rightarrow> nat \<Rightarrow> int \<Rightarrow> (bytes \<times> int) res" where
  \<comment> \<open>\<open>for i in range(n - 1, 0, -1)\<close>, by the \<open>i\<close> of the next pass\<close>
  "varint_be_put_loop 0 out a rest = Inr (out, rest)"
| "varint_be_put_loop (Suc i) out a rest =
     bindE (byte_store out (a + i) ((rest AND 0x7F) OR 0x80)) (\<lambda>out'.
       varint_be_put_loop i out' a (drop_bit 7 rest))"

definition varint_be_put :: "bytes \<Rightarrow> nat \<Rightarrow> int \<Rightarrow> nat \<Rightarrow> nat \<Rightarrow> (bytes \<times> nat) res" where
  "varint_be_put out a val max_bytes terminal_bits =
     (let n = varint_be_len val max_bytes terminal_bits in
      if int (length out) - int a < int n \<or> max_bytes < n then Inr (out, 0)
      else bindE (if terminal_bits = 8 \<and> n = max_bytes
                  then bindE (byte_store out (a + n - 1) (val AND 0xFF)) (\<lambda>o'. Inr (o', drop_bit 8 val))
                  else bindE (byte_store out (a + n - 1) (val AND 0x7F)) (\<lambda>o'. Inr (o', drop_bit 7 val)))
           (\<lambda>(out', rest).
           bindE (varint_be_put_loop (n - 1) out' a rest) (\<lambda>(out'', rest').
             Inr (out'', if rest' = 0 then n else 0))))"

section \<open>The laws\<close>

text \<open>\<open>n\<close> groups of seven bits, high group first, each with the continuation flag.\<close>

fun be_groups :: "nat \<Rightarrow> int \<Rightarrow> bytes" where
  "be_groups 0 v = []"
| "be_groups (Suc n) v = be_groups n (v div 128) @ [byte_of (v mod 128 + 128)]"

definition be_last :: "nat \<Rightarrow> nat \<Rightarrow> nat \<Rightarrow> nat" where
  \<comment> \<open>the bits of the last of \<open>n\<close> bytes\<close>
  "be_last max_bytes terminal_bits n = (if terminal_bits = 8 \<and> n = max_bytes then 8 else 7)"

definition be_bytes :: "nat \<Rightarrow> nat \<Rightarrow> nat \<Rightarrow> int \<Rightarrow> bytes" where
  "be_bytes max_bytes terminal_bits n v =
     (let l = 2 ^ be_last max_bytes terminal_bits n
      in be_groups (n - 1) (v div l) @ [byte_of (v mod l)])"

lemma length_be_groups [simp]: "length (be_groups n v) = n"
  by (induction n arbitrary: v) auto

lemma be_groups_front:
  "be_groups (Suc n) v = byte_of (v div 128 ^ n mod 128 + 128) # be_groups n v"
proof (induction n arbitrary: v)
  case (Suc n)
  have "be_groups (Suc (Suc n)) v = be_groups (Suc n) (v div 128) @ [byte_of (v mod 128 + 128)]"
    by simp
  also have "\<dots> = byte_of (v div 128 div 128 ^ n mod 128 + 128)
      # (be_groups n (v div 128) @ [byte_of (v mod 128 + 128)])"
    by (simp only: Suc.IH append_Cons)
  finally show ?case
    by (simp add: zdiv_zmult2_eq)
qed simp

lemma varint_be_put_loop_groups:
  "a + n \<le> length out \<Longrightarrow>
   varint_be_put_loop n out a rest = Inr (splice out a (be_groups n rest), rest div 128 ^ n)"
proof (induction n arbitrary: out rest)
  case 0
  then show ?case by (simp add: splice_def)
next
  case (Suc n)
  define b where "b = byte_of (rest mod 128 + 128)"
  have st: "byte_store out (a + n) ((rest AND 0x7F) OR 0x80) = Inr (out[a + n := b])"
    using Suc.prems by (simp add: byte_store_def bits_arith b_def)
  have "varint_be_put_loop n (out[a + n := b]) a (rest div 128)
      = Inr (splice (out[a + n := b]) a (be_groups n (rest div 128)), rest div 128 div 128 ^ n)"
    using Suc.prems by (intro Suc.IH) simp
  then show ?case
    using Suc.prems splice_snoc [of a "be_groups n (rest div 128)" out b]
    by (simp add: st int_drop_bit b_def zdiv_zmult2_eq)
qed

lemma varint_be_get_loop_groups:
  assumes "0 \<le> acc" and "i + m < max_bytes" and "m \<le> k" and "a + i + m \<le> length d"
    and "\<forall>j < m. d ! (a + i + j) = be_groups m r ! j"
  shows "varint_be_get_loop d a max_bytes t k i acc
       = varint_be_get_loop d a max_bytes t (k - m) (i + m) (acc * 128 ^ m + r mod 128 ^ m)"
  using assms
proof (induction m arbitrary: i k acc)
  case (Suc m)
  obtain k' where k: "k = Suc k'" using Suc.prems(3) by (cases k) auto
  define g where "g = r div 128 ^ m mod 128"
  have b: "d ! (a + i) = byte_of (g + 128)"
    using Suc.prems(5) [rule_format, of 0] by (simp only: be_groups_front g_def) simp
  have rest: "d ! (a + (i + 1) + j) = be_groups m r ! j" if "j < m" for j
    using Suc.prems(5) [rule_format, of "Suc j"] that by (simp only: be_groups_front) simp
  have g: "0 \<le> g" "g < 128" by (simp_all add: g_def)
  have "push_bit 7 acc OR (uint (byte_of (g + 128)) AND 0x7F) = acc * 128 + g"
    using int_or_disjoint' [of g 7 acc] g by (simp add: bits_arith)
  moreover have "uint (byte_of (g + 128)) AND 0x80 \<noteq> 0"
    using g by (simp add: int_and_80)
  ultimately have "varint_be_get_loop d a max_bytes t k i acc
      = varint_be_get_loop d a max_bytes t k' (i + 1) (acc * 128 + g)"
    using Suc.prems(2,4) by (simp add: k b Let_def)
  also have "\<dots> = varint_be_get_loop d a max_bytes t (k' - m) (i + 1 + m)
      ((acc * 128 + g) * 128 ^ m + r mod 128 ^ m)"
    by (rule Suc.IH) (use Suc.prems k g rest in auto)
  also have "(acc * 128 + g) * 128 ^ m + r mod 128 ^ m = acc * 128 ^ Suc m + r mod 128 ^ Suc m"
  proof -
    have "r mod 128 ^ Suc m = 128 ^ m * g + r mod 128 ^ m"
      using zmod_zmult2_eq [of 128 r "128 ^ m"] by (simp add: g_def mult.commute)
    then show ?thesis by (simp add: algebra_simps)
  qed
  finally show ?case by (simp add: k)
qed simp

text \<open>The measure clamps, so what a format holds is the values its longest form holds.\<close>

definition be_capacity :: "nat \<Rightarrow> nat \<Rightarrow> int" where
  "be_capacity max_bytes terminal_bits =
     2 ^ (7 * (max_bytes - 1) + be_last max_bytes terminal_bits max_bytes)"

definition be_valid :: "nat \<Rightarrow> nat \<Rightarrow> int \<Rightarrow> bool" where
  "be_valid max_bytes terminal_bits v \<longleftrightarrow>
     0 < max_bytes \<and> 0 \<le> v \<and> v < be_capacity max_bytes terminal_bits"

lemma be_len_le:
  assumes "0 < max_bytes"
  shows "varint_be_len v max_bytes t \<le> n \<longleftrightarrow>
     varint_len v \<le> n \<or> t = 8 \<and> max_bytes < varint_len v \<and> max_bytes \<le> n"
  by (auto simp: varint_be_len_def varint_len_def Let_def)

lemma be_len_pos: "0 < max_bytes \<Longrightarrow> 0 < varint_be_len v max_bytes t"
  using varint_len_pos [of v] by (simp add: varint_be_len_def Let_def varint_len_def)

lemma be_valid_len:
  assumes "be_valid max_bytes t v"
  shows "varint_be_len v max_bytes t \<le> max_bytes"
    "v < 2 ^ (7 * (varint_be_len v max_bytes t - 1) + be_last max_bytes t (varint_be_len v max_bytes t))"
proof -
  let ?n = "varint_be_len v max_bytes t"
  have m: "0 < max_bytes" and v: "v < be_capacity max_bytes t"
    using assms by (auto simp: be_valid_def)
  obtain m' where m': "max_bytes = Suc m'" using m by (cases max_bytes) auto
  show le: "?n \<le> max_bytes"
  proof (cases "t = 8")
    case True
    then show ?thesis by (auto simp: varint_be_len_def Let_def)
  next
    case False
    then have "v < 2 ^ (7 * max_bytes)"
      using v by (simp add: be_capacity_def be_last_def m' power_add)
    then show ?thesis using m by (simp add: be_len_le varint_len_le)
  qed
  show "v < 2 ^ (7 * (?n - 1) + be_last max_bytes t ?n)"
  proof (cases "?n = max_bytes")
    case True
    then show ?thesis using v by (simp add: be_capacity_def)
  next
    case False
    then have n: "?n = varint_len v"
      using le by (auto simp: varint_be_len_def varint_len_def Let_def split: if_splits)
    obtain n' where n': "varint_len v = Suc n'" using varint_len_pos [of v] by (cases "varint_len v") auto
    have "v < 2 ^ (7 * varint_len v)" using varint_len_le [of v "varint_len v"] by simp
    then show ?thesis
      using False by (simp add: n be_last_def n' algebra_simps)
  qed
qed

lemma be_rest_zero:
  assumes "be_valid max_bytes t v"
  defines "n \<equiv> varint_be_len v max_bytes t"
  shows "v div 2 ^ be_last max_bytes t n div 128 ^ (n - 1) = 0"
proof -
  let ?l = "be_last max_bytes t n"
  have "v < 2 ^ ?l * 128 ^ (n - 1)"
    using be_valid_len(2) [OF assms(1)] by (simp add: n_def power_add power_mult mult.commute)
  moreover have "0 \<le> v" using assms(1) by (simp add: be_valid_def)
  ultimately have "v div (2 ^ ?l * 128 ^ (n - 1)) = 0" by simp
  then show ?thesis by (simp add: zdiv_zmult2_eq)
qed

lemma varint_be_put_eq:
  assumes "0 < max_bytes" and "varint_be_len v max_bytes t \<le> max_bytes"
    and "a + varint_be_len v max_bytes t \<le> length out"
  defines "n \<equiv> varint_be_len v max_bytes t"
  shows "varint_be_put out a v max_bytes t = Inr (splice out a (be_bytes max_bytes t n v),
    if v div 2 ^ be_last max_bytes t n div 128 ^ (n - 1) = 0 then n else 0)"
proof -
  let ?l = "be_last max_bytes t n"
  have n: "0 < n" using be_len_pos [OF assms(1)] by (simp add: n_def)
  have l: "?l = 7 \<or> ?l = 8" by (simp add: be_last_def)
  define b where "b = byte_of (v mod 2 ^ ?l)"
  have idx: "a + n - 1 = a + (n - 1)" "a + n - 1 < length out" using n assms(3) by (simp_all add: n_def)
  have st: "(if t = 8 \<and> n = max_bytes
        then bindE (byte_store out (a + n - 1) (v AND 0xFF)) (\<lambda>o'. Inr (o', drop_bit 8 v))
        else bindE (byte_store out (a + n - 1) (v AND 0x7F)) (\<lambda>o'. Inr (o', drop_bit 7 v)))
      = Inr (out[a + (n - 1) := b], v div 2 ^ ?l)"
    using idx by (auto simp: be_last_def byte_store_def bits_arith b_def)
  have "varint_be_put_loop (n - 1) (out[a + (n - 1) := b]) a (v div 2 ^ ?l)
      = Inr (splice (out[a + (n - 1) := b]) a (be_groups (n - 1) (v div 2 ^ ?l)),
             v div 2 ^ ?l div 128 ^ (n - 1))"
    using n assms(3) by (intro varint_be_put_loop_groups) (simp add: n_def)
  moreover have "splice (out[a + (n - 1) := b]) a (be_groups (n - 1) (v div 2 ^ ?l))
      = splice out a (be_bytes max_bytes t n v)"
    using splice_snoc [of a "be_groups (n - 1) (v div 2 ^ ?l)" out b] n assms(3)
    by (simp add: be_bytes_def Let_def b_def n_def)
  ultimately show ?thesis
    using assms(2,3) st
    by (simp add: varint_be_put_def Let_def flip: n_def)
qed

lemma length_be_bytes [simp]: "0 < n \<Longrightarrow> length (be_bytes max_bytes t n v) = n"
  by (simp add: be_bytes_def Let_def)

lemma varint_be_get_be_bytes:
  assumes v: "be_valid max_bytes t v"
  defines "n \<equiv> varint_be_len v max_bytes t"
  assumes d: "a + n \<le> length d" "\<forall>j < n. d ! (a + j) = be_bytes max_bytes t n v ! j"
  shows "varint_be_get d a max_bytes t = Some (v, n)"
proof -
  let ?l = "be_last max_bytes t n"
  have m: "0 < max_bytes" and v0: "0 \<le> v" using v by (auto simp: be_valid_def)
  have n: "0 < n" "n \<le> max_bytes" using be_len_pos [OF m] be_valid_len(1) [OF v] by (simp_all add: n_def)
  define r where "r = v div 2 ^ ?l"
  define b where "b = v mod 2 ^ ?l"
  have rb: "r * 2 ^ ?l + b = v" unfolding r_def b_def by (rule div_mult_mod_eq)
  have "r div 128 ^ (n - 1) = 0"
    using be_rest_zero [OF v] by (simp add: r_def n_def)
  then have r: "0 \<le> r" "r mod 128 ^ (n - 1) = r"
    using v0 div_mult_mod_eq [of r "128 ^ (n - 1)"] by (simp_all add: r_def pos_imp_zdiv_nonneg_iff)
  have groups: "\<forall>j < n - 1. d ! (a + 0 + j) = be_groups (n - 1) r ! j"
    using d(2) n by (simp add: be_bytes_def Let_def nth_append r_def)
  have last: "d ! (a + (n - 1)) = byte_of b"
    using d(2) [rule_format, of "n - 1"] n by (simp add: be_bytes_def Let_def nth_append b_def)
  obtain k where k: "max_bytes - (n - 1) = Suc k" using n by (cases "max_bytes - (n - 1)") auto
  have "varint_be_get d a max_bytes t
      = varint_be_get_loop d a max_bytes t (Suc k) (n - 1) r"
    unfolding varint_be_get_def
    by (subst varint_be_get_loop_groups [OF _ _ _ _ groups]) (use n d(1) r k in auto)
  also have "\<dots> = Some (v, n)"
  proof (cases "t = 8 \<and> n = max_bytes")
    case True
    then have "?l = 8" by (simp add: be_last_def)
    then have "push_bit 8 r OR uint (byte_of b) = v"
      using int_or_disjoint' [of b 8 r] rb by (simp add: b_def push_bit_eq_mult)
    with True n d(1) last show ?thesis by auto
  next
    case False
    then have l: "?l = 7" by (auto simp: be_last_def)
    then have "push_bit 7 r OR (uint (byte_of b) AND 0x7F) = v"
      using int_or_disjoint' [of b 7 r] rb by (simp add: b_def push_bit_eq_mult int_and_7F)
    moreover have "uint (byte_of b) AND 0x80 = 0" using l by (simp add: b_def)
    moreover have "\<not> (t = 8 \<and> Suc (n - 1) = max_bytes)" using False n by simp
    ultimately show ?thesis using n d(1) last by (auto simp: Let_def)
  qed
  finally show ?thesis .
qed

text \<open>What the decoder reads.\<close>

lemma varint_be_get_loop_extent:
  "varint_be_get_loop d a m t k i acc = Some (v, n) \<Longrightarrow> i < n \<and> a + n \<le> length d \<and> n \<le> i + k"
  by (induction k arbitrary: i acc) (fastforce simp: Let_def split: if_splits)+

lemma varint_be_get_loop_local:
  "varint_be_get_loop d a m t k i acc = Some (v, n) \<Longrightarrow> a + n \<le> length d' \<Longrightarrow>
   \<forall>j. i \<le> j \<and> j < n \<longrightarrow> d' ! (a + j) = d ! (a + j) \<Longrightarrow>
   varint_be_get_loop d' a m t k i acc = Some (v, n)"
proof (induction k arbitrary: i acc)
  case (Suc k)
  have "i < n" using varint_be_get_loop_extent [OF Suc.prems(1)] by simp
  moreover from this have "d' ! (a + i) = d ! (a + i)" using Suc.prems(3) by simp
  ultimately show ?case
    using Suc by (auto simp: Let_def split: if_splits)
qed simp

lemma varint_be_get_loop_short:
  "varint_be_get_loop d a m t k i acc = Some (v, n) \<Longrightarrow> c < n \<Longrightarrow>
   varint_be_get_loop (take (a + c) d) a m t k i acc = None"
proof (induction k arbitrary: i acc)
  case (Suc k)
  note ext = varint_be_get_loop_extent [OF Suc.prems(1)]
  show ?case
  proof (cases "c \<le> i")
    case False
    then show ?thesis
      using Suc ext by (auto simp: Let_def split: if_splits)
  next
    case True
    then have "length (take (a + c) d) \<le> a + i" by simp
    then show ?thesis by (simp del: length_take)
  qed
qed simp

lemma varint_be_get_loop_bound:
  "varint_be_get_loop d a m t k i acc = Some (v, n) \<Longrightarrow> 0 \<le> acc \<Longrightarrow> acc < 2 ^ (7 * i) \<Longrightarrow>
   0 \<le> v \<and> v < 2 ^ (7 * (n - 1) + be_last m t n)"
proof (induction k arbitrary: i acc)
  case (Suc k)
  define byte where "byte = uint (d ! (a + i))"
  have byte: "0 \<le> byte" "byte < 2 ^ 8" by (simp_all add: byte_def)
  have "0 \<le> byte mod 128" "byte mod 128 < 2 ^ 7" by simp_all
  then have step7: "push_bit 7 acc OR (byte AND 127) = acc * 128 + byte mod 128"
    using int_or_disjoint' [of "byte mod 128" 7 acc] by (simp add: int_push_bit int_and_7F)
  have step8: "push_bit 8 acc OR byte = acc * 256 + byte"
    using int_or_disjoint' [OF byte, of acc] by (simp add: int_push_bit)
  have le: "acc + 1 \<le> 2 ^ (7 * i)" using Suc.prems(3) by simp
  have b7: "acc * 128 + byte mod 128 < 2 ^ (7 * (i + 1))"
    using le mod_128_byte(2) [of byte] by (simp add: power_add)
  have b8: "acc * 256 + byte < 2 ^ (7 * i + 8)"
    using le byte by (simp add: power_add)
  consider (term8) "t = 8 \<and> i + 1 = m" "v = acc * 256 + byte" "n = i + 1"
    | (stop) "\<not> (t = 8 \<and> i + 1 = m)" "v = acc * 128 + byte mod 128" "n = i + 1"
    | (more) "varint_be_get_loop d a m t k (i + 1) (acc * 128 + byte mod 128) = Some (v, n)"
    using Suc.prems(1) by (auto simp: Let_def step7 step8 simp flip: byte_def split: if_splits)
  then show ?case
  proof cases
    case more
    then show ?thesis using Suc.prems(2) b7 by (intro Suc.IH [OF more]) simp_all
  qed (use b7 b8 Suc.prems(2) byte in \<open>auto simp: be_last_def add.commute\<close>)
qed simp

interpretation be: varint_codec
  "\<lambda>d a. varint_be_get d a max_bytes terminal_bits"
  "\<lambda>out a v. varint_be_put out a v max_bytes terminal_bits"
  "\<lambda>v. varint_be_len v max_bytes terminal_bits" "be_valid max_bytes terminal_bits"
  for max_bytes terminal_bits
proof unfold_locales
  fix v :: int and a :: nat and out :: bytes
  assume v: "be_valid max_bytes terminal_bits v"
  let ?n = "varint_be_len v max_bytes terminal_bits"
  let ?bs = "be_bytes max_bytes terminal_bits ?n v"
  have m: "0 < max_bytes" using v by (simp add: be_valid_def)
  have n: "0 < ?n" by (rule be_len_pos [OF m])
  show "a + ?n \<le> length out \<Longrightarrow> \<exists>bs. length bs = ?n \<and>
      varint_be_put out a v max_bytes terminal_bits = Inr (splice out a bs, ?n) \<and>
      varint_be_get (splice out a bs) a max_bytes terminal_bits = Some (v, ?n)"
  proof (intro exI [of _ ?bs] conjI)
    assume room: "a + ?n \<le> length out"
    show "length ?bs = ?n" using n by simp
    show "varint_be_put out a v max_bytes terminal_bits = Inr (splice out a ?bs, ?n)"
      using varint_be_put_eq [OF m be_valid_len(1) [OF v] room] be_rest_zero [OF v] by simp
    show "varint_be_get (splice out a ?bs) a max_bytes terminal_bits = Some (v, ?n)"
      by (rule varint_be_get_be_bytes [OF v]) (use n room in \<open>simp_all add: nth_splice\<close>)
  qed
  show "length out < a + ?n \<Longrightarrow> varint_be_put out a v max_bytes terminal_bits = Inr (out, 0)"
    by (simp add: varint_be_put_def Let_def)
next
  fix d d' :: bytes and a n k :: nat and v :: int
  assume g: "varint_be_get d a max_bytes terminal_bits = Some (v, n)"
  note g' = g [unfolded varint_be_get_def]
  note ext = varint_be_get_loop_extent [OF g']
  have m: "0 < max_bytes" using ext by simp
  have "varint_len v \<le> n \<or> terminal_bits = 8 \<and> n = max_bytes"
    using varint_be_get_loop_bound [OF g'] ext
    by (cases n) (auto simp: varint_len_le be_last_def algebra_simps split: if_splits)
  then have "varint_be_len v max_bytes terminal_bits \<le> n"
    by (auto simp: be_len_le [OF m])
  then show "0 < n \<and> a + n \<le> length d \<and> varint_be_len v max_bytes terminal_bits \<le> n"
    using ext by simp
  show "a + n \<le> length d' \<Longrightarrow> slice d' a n = slice d a n \<Longrightarrow>
      varint_be_get d' a max_bytes terminal_bits = Some (v, n)"
    using varint_be_get_loop_local [OF g', of d'] ext
    by (simp add: varint_be_get_def slice_eq_iff)
  show "k < n \<Longrightarrow> varint_be_get (take (a + k) d) a max_bytes terminal_bits = None"
    using varint_be_get_loop_short [OF g'] by (simp add: varint_be_get_def)
qed

section \<open>Properties\<close>

text \<open>
  for every value a big-endian base-128 format holds (seven bits a byte, eight in the last of
  a format with \<open>terminal_bits = 8\<close>), \<open>varint_be_put\<close> answers 0 and changes nothing where its
  length does not fit the buffer, and otherwise writes exactly \<open>varint_be_len\<close> bytes that
  \<open>varint_be_get\<close> reads back to the same value and count.
\<close>

theorem varint_be_put_get:
  assumes "0 < max_bytes" and "0 \<le> v" and "v < be_capacity max_bytes terminal_bits"
  shows "if length out < a + varint_be_len v max_bytes terminal_bits
    then varint_be_put out a v max_bytes terminal_bits = Inr (out, 0)
    else \<exists>out'. varint_be_put out a v max_bytes terminal_bits
           = Inr (out', varint_be_len v max_bytes terminal_bits)
       \<and> varint_be_get out' a max_bytes terminal_bits = Some (v, varint_be_len v max_bytes terminal_bits)
       \<and> length out' = length out
       \<and> (\<forall>i < length out. i < a \<or> a + varint_be_len v max_bytes terminal_bits \<le> i \<longrightarrow> out' ! i = out ! i)"
  using be.roundtrip_outcome [of max_bytes terminal_bits v out a] assms by (simp add: be_valid_def)

theorem varint_be_put_get_witness:
  "\<exists>out'. varint_be_put (replicate 9 0) 0 (2 ^ 64 - 1) 9 8 = Inr (out', 9)
    \<and> varint_be_get out' 0 9 8 = Some (2 ^ 64 - 1, 9)"
proof -
  have len: "varint_be_len (2 ^ 64 - 1) 9 8 = 9" by code_simp
  have "(2::int) ^ 64 - 1 < be_capacity 9 8" by code_simp
  then show ?thesis
    using varint_be_put_get [of 9 "2 ^ 64 - 1" 8 "replicate 9 0" 0] unfolding len by auto
qed

text \<open>
  a value too wide for its format is refused.  Past the format's capacity \<open>varint_be_put\<close>
  answers 0 whatever the buffer, rather than writing the number its clamped length would hold.
\<close>

theorem varint_be_put_refuses:
  assumes "0 < max_bytes" and "be_capacity max_bytes terminal_bits \<le> v"
  shows "\<exists>out'. varint_be_put out a v max_bytes terminal_bits = Inr (out', 0) \<and> length out' = length out"
proof (cases "varint_be_len v max_bytes terminal_bits \<le> max_bytes
    \<and> a + varint_be_len v max_bytes terminal_bits \<le> length out")
  case False
  then show ?thesis by (auto simp: varint_be_put_def Let_def)
next
  case True
  let ?n = "varint_be_len v max_bytes terminal_bits"
  let ?l = "be_last max_bytes terminal_bits ?n"
  have n: "0 < ?n" by (rule be_len_pos [OF assms(1)])
  have "(2::int) ^ (?l + 7 * (?n - 1)) \<le> be_capacity max_bytes terminal_bits"
    unfolding be_capacity_def using True n
    by (intro power_increasing) (auto simp: be_last_def)
  then have v: "2 ^ ?l * 128 ^ (?n - 1) \<le> v"
    using assms(2) by (simp add: power_add power_mult)
  have "1 \<le> v div (2 ^ ?l * 128 ^ (?n - 1))"
    using zdiv_mono1 [OF v, of "2 ^ ?l * 128 ^ (?n - 1)"] by simp
  then have "v div 2 ^ ?l div 128 ^ (?n - 1) \<noteq> 0"
    by (simp add: zdiv_zmult2_eq)
  then show ?thesis
    using varint_be_put_eq [OF assms(1), of v terminal_bits a out] True n by simp
qed

theorem varint_be_put_refuses_witness:
  "\<exists>out'. varint_be_put [0, 0, 0] 0 (2 ^ 14) 2 7 = Inr (out', 0) \<and> length out' = length [0, 0, 0 :: byte]"
proof -
  have "be_capacity 2 7 \<le> 2 ^ 14" by code_simp
  then show ?thesis by (intro varint_be_put_refuses) simp_all
qed

end
