(* ===== verification/Varint_Quic.thy ===== *)
theory Varint_Quic
  imports Codec_Interface
begin

text \<open>
  QUIC's integers (RFC 9000, section 16) of \<open>runtime/python/situ_runtime.py\<close>.
\<close>

section \<open>QUIC\<close>

fun quic_loop :: "bytes \<Rightarrow> nat \<Rightarrow> nat \<Rightarrow> nat \<Rightarrow> int \<Rightarrow> int" where
  "quic_loop data a 0 i acc = acc"
| "quic_loop data a (Suc k) i acc =
     quic_loop data a k (i + 1) (push_bit 8 acc OR uint (data ! (a + i)))"

definition varint_quic_get :: "bytes \<Rightarrow> nat \<Rightarrow> nat \<Rightarrow> (int \<times> nat) option" where
  "varint_quic_get data a max_bytes =
     (if length data \<le> a then None
      else let n = 2 ^ nat (drop_bit 6 (uint (data ! a)))
           in if max_bytes < n \<or> length data < a + n then None
              else Some (quic_loop data a (n - 1) 1 (uint (data ! a) AND 0x3F), n))"

definition varint_quic_len :: "int \<Rightarrow> nat" where
  "varint_quic_len val =
     (if val < push_bit 6 1 then 1 else if val < push_bit 14 1 then 2
      else if val < push_bit 30 1 then 4 else 8)"

definition varint_quic_put :: "bytes \<Rightarrow> nat \<Rightarrow> int \<Rightarrow> (bytes \<times> nat) res" where
  "varint_quic_put out a val =
     (let n = varint_quic_len val in
      if length out < a + n \<or> push_bit 62 1 \<le> val then Inr (out, 0)
      else bindE (to_bytes True False n val) (\<lambda>bs.
           let out' = splice out a bs
           in bindE (byte_store out' a (uint (out' ! a) OR push_bit 6 (int (bit_length (int n)) - 1)))
              (\<lambda>out''. Inr (out'', n))))"

section \<open>The laws\<close>

lemma quic_loop_value:
  "a + i + k \<le> length d \<Longrightarrow>
   quic_loop d a k i acc = acc * 256 ^ k + unsigned_from True (slice d (a + i) k)"
proof (induction k arbitrary: i acc)
  case 0
  then show ?case by (simp add: slice_def)
next
  case (Suc k)
  have "push_bit 8 acc OR uint (d ! (a + i)) = acc * 256 + uint (d ! (a + i))"
    using int_or_disjoint' [of "uint (d ! (a + i))" 8 acc] by (simp add: int_push_bit)
  moreover have "slice d (a + i) (Suc k) = d ! (a + i) # slice d (a + (i + 1)) k"
    using Suc.prems by (simp add: slice_Suc)
  moreover have "length (slice d (a + (i + 1)) k) = k" using Suc.prems by simp
  ultimately show ?case
    using Suc.IH [of "i + 1" "acc * 256 + uint (d ! (a + i))"] Suc.prems
    by (simp add: unsigned_from_big_Cons algebra_simps)
qed

lemma quic_len_cases:
  obtains c where "c < 4" "varint_quic_len v = 2 ^ c"
    "int (bit_length (int (varint_quic_len v))) - 1 = int c"
proof -
  have "bit_length 1 = 1" "bit_length 2 = 2" "bit_length 4 = 3" "bit_length 8 = 4"
    by (simp_all add: bit_length_def nat_bit_length.simps)
  then have "\<exists>c < 4. n = 2 ^ c \<and> int (bit_length (int n)) - 1 = int c" if "n \<in> {1, 2, 4, 8}" for n
    using that by (auto intro: exI [of _ 0] exI [of _ 1] exI [of _ 2] exI [of _ 3])
  moreover have "varint_quic_len v \<in> {1, 2, 4, 8}" by (simp add: varint_quic_len_def)
  ultimately show thesis using that by blast
qed

lemma quic_len_le:
  assumes "c < 4" and "v < 64 * 256 ^ (2 ^ c - 1)"
  shows "varint_quic_len v \<le> 2 ^ c"
proof -
  consider "c = 0" | "c = 1" | "c = 2" | "c = 3" using assms(1) by linarith
  then show ?thesis
    by cases (use assms(2) in \<open>auto simp: varint_quic_len_def\<close>)
qed

lemma quic_len_value:
  assumes "v < 2 ^ 62"
  shows "v < 64 * 256 ^ (varint_quic_len v - 1)"
  using assms by (simp add: varint_quic_len_def)

text \<open>The bytes of a value: big-endian, the length's logarithm above the first six bits.\<close>

definition quic_bytes :: "int \<Rightarrow> bytes" where
  "quic_bytes v =
     (let n = varint_quic_len v; bs = order_bytes True n v
      in bs[0 := byte_of (uint (bs ! 0) + (int (bit_length (int n)) - 1) * 64)])"

definition quic_valid :: "nat \<Rightarrow> int \<Rightarrow> bool" where
  "quic_valid max_bytes v \<longleftrightarrow> 0 \<le> v \<and> v < 2 ^ 62 \<and> varint_quic_len v \<le> max_bytes"

lemma quic_len_pos [simp]: "0 < varint_quic_len v"
  by (simp add: varint_quic_len_def)

lemma quic_head:
  assumes "0 \<le> v" and "v < 2 ^ 62"
  obtains f rest c where "order_bytes True (varint_quic_len v) v = f # rest" "uint f < 64"
    "c < 4" "varint_quic_len v = 2 ^ c" "length rest = 2 ^ c - 1"
    "int (bit_length (int (varint_quic_len v))) - 1 = int c"
    "uint f * 256 ^ (2 ^ c - 1) + unsigned_from True rest = v"
proof -
  obtain c where c: "c < 4" "varint_quic_len v = 2 ^ c"
    "int (bit_length (int (varint_quic_len v))) - 1 = int c" by (rule quic_len_cases)
  have n: "0 < varint_quic_len v" by simp
  have "order_bytes True (varint_quic_len v) v \<noteq> []"
    using n by (metis length_order_bytes less_irrefl list.size(3))
  then obtain f rest where fr: "order_bytes True (varint_quic_len v) v = f # rest"
    by (meson list.exhaust)
  have len: "length rest = 2 ^ c - 1"
    using arg_cong [OF fr, of length] c(2) by simp
  have "v < 2 ^ (8 * varint_quic_len v)"
    using assms by (simp add: varint_quic_len_def)
  then have val: "uint f * 256 ^ (2 ^ c - 1) + unsigned_from True rest = v"
    using unsigned_from_order_bytes [of True "varint_quic_len v" v] assms(1)
    by (simp add: fr unsigned_from_big_Cons len)
  have "uint f < 64"
  proof (rule ccontr)
    assume "\<not> ?thesis"
    then have "64 * 256 ^ (2 ^ c - 1) \<le> uint f * 256 ^ (2 ^ c - 1)" by simp
    moreover have "v < 64 * 256 ^ (2 ^ c - 1)"
      using quic_len_value [OF assms(2)] c(2) by simp
    ultimately show False
      using val unsigned_from_bounds(1) [of True rest] by linarith
  qed
  then show thesis using that fr c len val by blast
qed

lemma varint_quic_put_bytes:
  assumes "0 \<le> v" and "v < 2 ^ 62" and "a + varint_quic_len v \<le> length out"
  shows "varint_quic_put out a v = Inr (splice out a (quic_bytes v), varint_quic_len v)"
proof -
  obtain f rest c where h: "order_bytes True (varint_quic_len v) v = f # rest" "uint f < 64"
    "c < 4" "varint_quic_len v = 2 ^ c" "length rest = 2 ^ c - 1"
    "int (bit_length (int (varint_quic_len v))) - 1 = int c"
    by (rule quic_head [OF assms(1,2)])
  let ?n = "varint_quic_len v" and ?g = "byte_of (uint f + int c * 64)"
  have "v < 2 ^ (8 * ?n)" using assms(1,2) by (simp add: varint_quic_len_def)
  then have tb: "to_bytes True False ?n v = Inr (f # rest)"
    using assms(1) h(1) by (simp add: to_bytes_def fits_def)
  have len: "Suc (length rest) = ?n" using h(4,5) by simp
  have "splice out a (f # rest) ! a = f"
    using len assms(3) by (simp add: nth_splice)
  moreover have "uint f OR push_bit 6 (int c) = uint f + int c * 64"
    using int_or_disjoint [of "uint f" 6 "int c"] h(2) by (simp add: int_push_bit)
  moreover have "\<not> uint f + int c * 64 < 0" "uint f + int c * 64 < 256"
    using h(2,3) uint_byte_bounds(1) [of f] by linarith+
  ultimately have "byte_store (splice out a (f # rest)) a
      (uint (splice out a (f # rest) ! a) OR push_bit 6 (int c)) = Inr ((splice out a (f # rest))[a := ?g])"
    using len assms(3) by (simp add: byte_store_def)
  moreover have "(splice out a (f # rest))[a := ?g] = splice out a (?g # rest)"
    using len assms(3) by (auto intro!: nth_equalityI simp: nth_splice nth_list_update nth_Cons')
  moreover have "?g # rest = quic_bytes v"
    by (simp only: quic_bytes_def Let_def h(1,6)) simp
  ultimately show ?thesis
    using assms(2,3) tb h(6) by (simp add: varint_quic_put_def Let_def int_push_bit)
qed

lemma length_quic_bytes [simp]: "length (quic_bytes v) = varint_quic_len v"
  by (simp add: quic_bytes_def Let_def)

lemma varint_quic_get_bytes:
  assumes v: "quic_valid max_bytes v" and room: "a + varint_quic_len v \<le> length out"
  shows "varint_quic_get (splice out a (quic_bytes v)) a max_bytes = Some (v, varint_quic_len v)"
proof -
  have v': "0 \<le> v" "v < 2 ^ 62" using v by (auto simp: quic_valid_def)
  obtain f rest c where h: "order_bytes True (varint_quic_len v) v = f # rest" "uint f < 64"
    "c < 4" "varint_quic_len v = 2 ^ c" "length rest = 2 ^ c - 1"
    "int (bit_length (int (varint_quic_len v))) - 1 = int c"
    "uint f * 256 ^ (2 ^ c - 1) + unsigned_from True rest = v"
    by (rule quic_head [OF v'])
  let ?g = "byte_of (uint f + int c * 64)" and ?d = "splice out a (quic_bytes v)"
  have u: "uint ?g = uint f + int c * 64" using h(2,3) by simp
  have g: "quic_bytes v = ?g # rest"
    by (simp only: quic_bytes_def Let_def h(1,6)) simp
  have one: "(1::nat) \<le> 2 ^ c" by simp
  have len: "a + 2 ^ c \<le> length out" "length ?d = length out"
    using room h(4) by simp_all
  have fit: "a + length (?g # rest) \<le> length out" using len(1) one h(5) by simp
  then have ga: "?d ! a = ?g"
    by (simp add: g nth_splice)
  have "slice ?d (a + 1) (2 ^ c - 1) = rest"
    using fit h(5) by (intro nth_equalityI) (auto simp: g slice_nth nth_splice)
  moreover have room: "\<not> length out \<le> a" using len(1) one by linarith
  moreover have "(uint f + int c * 64) mod 64 = uint f" "(uint f + int c * 64) div 64 = int c"
    using h(2) by simp_all
  ultimately show ?thesis
    using len one v h(4,7) quic_loop_value [of a 1 "2 ^ c - 1" ?d "uint f"]
    by (simp add: varint_quic_get_def Let_def ga u int_drop_bit int_and_3F quic_valid_def room)
qed

lemma varint_quic_get_SomeE:
  assumes "varint_quic_get d a max_bytes = Some (v, n)"
  obtains c where "c < 4" "n = 2 ^ c" "n \<le> max_bytes" "a + n \<le> length d" "a < length d"
    "nat (uint (d ! a) div 64) = c"
    "v = uint (d ! a) mod 64 * 256 ^ (n - 1) + unsigned_from True (slice d (a + 1) (n - 1))"
proof -
  define c where "c = nat (uint (d ! a) div 64)"
  have a: "a < length d" and le: "2 ^ c \<le> max_bytes" "a + 2 ^ c \<le> length d" and n: "n = 2 ^ c"
    and v: "v = quic_loop d a (2 ^ c - 1) 1 (uint (d ! a) mod 64)"
    using assms by (auto simp: varint_quic_get_def Let_def int_drop_bit int_and_3F c_def split: if_splits)
  have "u div 64 < 4" if "u < 256" for u :: int using that by presburger
  from this [OF uint_byte_bounds(2), of "d ! a"] have "c < 4" by (simp add: c_def)
  moreover have "a + 1 + (2 ^ c - 1) \<le> length d" using le a by simp
  ultimately show thesis
    using that [OF \<open>c < 4\<close> n _ _ a c_def [symmetric]] le v quic_loop_value [of a 1 "2 ^ c - 1" d] by (simp add: n)
qed

interpretation quic: varint_codec
  "\<lambda>d a. varint_quic_get d a max_bytes" varint_quic_put varint_quic_len "quic_valid max_bytes"
  for max_bytes
proof unfold_locales
  fix v :: int and a :: nat and out :: bytes
  assume v: "quic_valid max_bytes v"
  show "a + varint_quic_len v \<le> length out \<Longrightarrow> \<exists>bs. length bs = varint_quic_len v \<and>
      varint_quic_put out a v = Inr (splice out a bs, varint_quic_len v) \<and>
      varint_quic_get (splice out a bs) a max_bytes = Some (v, varint_quic_len v)"
    using varint_quic_put_bytes [of v a out] varint_quic_get_bytes [OF v, of a out] v
    by (intro exI [of _ "quic_bytes v"]) (simp add: quic_valid_def)
  show "length out < a + varint_quic_len v \<Longrightarrow> varint_quic_put out a v = Inr (out, 0)"
    by (simp add: varint_quic_put_def Let_def)
next
  fix d d' :: bytes and a n k :: nat and v :: int
  assume g: "varint_quic_get d a max_bytes = Some (v, n)"
  then obtain c where c: "c < 4" "n = 2 ^ c" "n \<le> max_bytes" "a + n \<le> length d" "a < length d"
    "nat (uint (d ! a) div 64) = c"
    "v = uint (d ! a) mod 64 * 256 ^ (n - 1) + unsigned_from True (slice d (a + 1) (n - 1))"
    by (rule varint_quic_get_SomeE)
  let ?r = "slice d (a + 1) (n - 1)"
  have n: "0 < n" by (simp add: c(2))
  have "length ?r = n - 1" using c(4) n by simp
  then have "unsigned_from True ?r < 256 ^ (n - 1)"
    using unsigned_from_bounds(2) [of True ?r] by (simp add: power_mult)
  moreover have "uint (d ! a) mod 64 + 1 \<le> 64"
    using pos_mod_bound [of 64 "uint (d ! a)"] by simp
  then have "(uint (d ! a) mod 64 + 1) * 256 ^ (n - 1) \<le> 64 * 256 ^ (n - 1)"
    by (rule mult_right_mono) simp
  then have "uint (d ! a) mod 64 * 256 ^ (n - 1) + 256 ^ (n - 1) \<le> 64 * 256 ^ (n - 1)"
    by (simp only: distrib_right mult_1_left)
  ultimately have "v < 64 * 256 ^ (n - 1)"
    unfolding c(7) by linarith
  then show "0 < n \<and> a + n \<le> length d \<and> varint_quic_len v \<le> n"
    using quic_len_le [OF c(1), of v] c(2,4) by simp
  show "varint_quic_get d' a max_bytes = Some (v, n)"
    if len: "a + n \<le> length d'" and same: "slice d' a n = slice d a n"
  proof -
    have at: "d' ! (a + i) = d ! (a + i)" if "i < n" for i
      using same len c(4) that by (simp add: slice_eq_iff)
    have "slice d' (a + 1) (n - 1) = ?r"
      using len c(4) n by (intro slice_cong) (auto simp: at [of "Suc i" for i, simplified])
    moreover have "d' ! a = d ! a" using at [of 0] n by simp
    moreover have "a + 1 + (n - 1) \<le> length d'" and room: "\<not> length d' \<le> a"
      using len n by simp_all
    ultimately show ?thesis
      using len n c(2,3,6,7) quic_loop_value [of a 1 "n - 1" d']
      by (simp add: varint_quic_get_def Let_def int_drop_bit int_and_3F room)
  qed
  show "k < n \<Longrightarrow> varint_quic_get (take (a + k) d) a max_bytes = None"
    using c(2,4,5,6) by (cases k) (simp_all add: varint_quic_get_def Let_def int_drop_bit)
qed

section \<open>Properties\<close>

text \<open>
  QUIC integers round trip below \<open>2 ^ 62\<close>: \<open>varint_quic_put\<close> never raises, answers 0 and
  changes nothing for want of room, and otherwise writes one, two, four or eight bytes that
  \<open>varint_quic_get\<close> reads back; from \<open>2 ^ 62\<close> on it answers 0 and changes nothing.
\<close>

theorem varint_quic_put_get:
  assumes "0 \<le> v" and "varint_quic_len v \<le> max_bytes"
  shows "if length out < a + varint_quic_len v \<or> 2 ^ 62 \<le> v then varint_quic_put out a v = Inr (out, 0)
    else \<exists>out'. varint_quic_put out a v = Inr (out', varint_quic_len v)
       \<and> varint_quic_get out' a max_bytes = Some (v, varint_quic_len v)
       \<and> length out' = length out
       \<and> (\<forall>i < length out. i < a \<or> a + varint_quic_len v \<le> i \<longrightarrow> out' ! i = out ! i)"
proof (cases "2 ^ 62 \<le> v")
  case True
  then show ?thesis by (simp add: varint_quic_put_def Let_def push_bit_eq_mult)
next
  case False
  then show ?thesis
    using quic.roundtrip_outcome [of max_bytes v out a] assms by (simp add: quic_valid_def)
qed

theorem varint_quic_put_get_witness:
  "\<exists>out'. varint_quic_put [0, 0, 0, 0] 0 494878333 = Inr (out', 4)
    \<and> varint_quic_get out' 0 8 = Some (494878333, 4)"
proof -
  have "varint_quic_len 494878333 = 4" by code_simp
  then show ?thesis using varint_quic_put_get [of 494878333 8 "[0, 0, 0, 0]" 0] by auto
qed

end
