(* ===== verification/Varint_Marked.thy ===== *)
theory Varint_Marked
  imports Codec_Interface
begin

text \<open>
  The marked integers of \<open>runtime/python/situ_runtime.py\<close>: DER lengths, Bitcoin's CompactSize,
  MySQL's length-encoded integers and CBOR heads are one algorithm over four tables.
\<close>

section \<open>Marked integers\<close>

record marked =
  direct :: int
  first :: int
  widths :: "nat list"
  big :: bool
  msk :: int

definition DER :: marked where
  "DER = \<lparr>direct = 0x80, first = 0x81, widths = [1, 2, 3, 4, 5, 6, 7, 8], big = True, msk = 0xFF\<rparr>"

definition COMPACTSIZE :: marked where
  "COMPACTSIZE = \<lparr>direct = 0xFD, first = 0xFD, widths = [2, 4, 8], big = False, msk = 0xFF\<rparr>"

definition LENENC :: marked where
  "LENENC = \<lparr>direct = 0xFB, first = 0xFC, widths = [2, 3, 8], big = False, msk = 0xFF\<rparr>"

definition CBOR :: marked where
  "CBOR = \<lparr>direct = 24, first = 24, widths = [1, 2, 4, 8], big = True, msk = 0x1F\<rparr>"

definition marked_get :: "marked \<Rightarrow> bytes \<Rightarrow> nat \<Rightarrow> nat \<Rightarrow> (int \<times> nat) option" where
  "marked_get form data a max_bytes =
     (if length data \<le> a then None
      else let byte = uint (data ! a) AND msk form
           in if byte < direct form then Some (byte, 1)
              else if \<not> (0 \<le> byte - first form \<and> byte - first form < int (length (widths form))) then None
              else let n = widths form ! nat (byte - first form)
                   in if max_bytes < n + 1 \<or> length data < a + 1 + n then None
                      else Some (from_bytes (big form) False (slice data (a + 1) n), n + 1))"

definition marked_len :: "marked \<Rightarrow> int \<Rightarrow> nat" where
  "marked_len form val =
     (if val < direct form then 1
      else case find (\<lambda>n. val < push_bit (8 * n) 1) (widths form) of Some n \<Rightarrow> n + 1 | None \<Rightarrow> 0)"

definition marked_put :: "marked \<Rightarrow> bytes \<Rightarrow> nat \<Rightarrow> int \<Rightarrow> (bytes \<times> nat) res" where
  "marked_put form out a val =
     (let tot = marked_len form val in
      if tot = 0 \<or> length out < a + tot then Inr (out, 0)
      else if tot = 1 then
        bindE (byte_store out a (((uint (out ! a) AND NOT (msk form)) AND 0xFF) OR val)) (\<lambda>out'.
          Inr (out', 1))
      else bindE (list_index (widths form) (tot - 1)) (\<lambda>i.
           bindE (byte_store out a (((uint (out ! a) AND NOT (msk form)) AND 0xFF) OR (first form + int i))) (\<lambda>out'.
           bindE (to_bytes (big form) False (tot - 1) val) (\<lambda>bs.
             Inr (splice out' (a + 1) bs, tot)))))"

section \<open>The laws\<close>

text \<open>
  A table is well formed when direct values, markers and the mask do not run into each other and
  the widths ascend.
\<close>

definition marked_wf :: "marked \<Rightarrow> nat \<Rightarrow> bool" where
  "marked_wf form k \<longleftrightarrow> k \<le> 8 \<and> msk form = 2 ^ k - 1 \<and> 0 \<le> direct form \<and> direct form \<le> first form
     \<and> first form + int (length (widths form)) \<le> 2 ^ k \<and> sorted_wrt (<) (0 # widths form)"

definition marked_valid :: "marked \<Rightarrow> nat \<Rightarrow> int \<Rightarrow> bool" where
  "marked_valid form max_bytes v \<longleftrightarrow>
     0 \<le> v \<and> 0 < marked_len form v \<and> marked_len form v \<le> max_bytes"

lemma marked_and: "marked_wf form k \<Longrightarrow> x AND msk form = x mod 2 ^ k"
  by (simp add: marked_wf_def int_and_mask)

lemma marked_len_cases:
  assumes "marked_wf form k" and "0 < marked_len form v"
  obtains (direct) "v < direct form" "marked_len form v = 1"
  | (wide) i where "direct form \<le> v" "i < length (widths form)" "v < 2 ^ (8 * widths form ! i)"
      "marked_len form v = widths form ! i + 1" "0 < widths form ! i"
proof (cases "v < direct form")
  case True
  then show thesis by (intro direct) (simp_all add: marked_len_def)
next
  case False
  then obtain n where "find (\<lambda>n. v < push_bit (8 * n) 1) (widths form) = Some n" "marked_len form v = n + 1"
    using assms(2) by (auto simp: marked_len_def split: option.splits)
  then obtain i where "i < length (widths form)" "v < push_bit (8 * widths form ! i) 1"
      "marked_len form v = widths form ! i + 1"
    by (auto simp: find_Some_iff)
  moreover from this(1) have "0 < widths form ! i" using assms(1) by (simp add: marked_wf_def)
  ultimately show thesis using False by (intro wide) (simp_all add: push_bit_eq_mult)
qed

lemma marked_len_le:
  assumes "marked_wf form k" and "i < length (widths form)" and "v < 2 ^ (8 * widths form ! i)"
  shows "marked_len form v \<le> widths form ! i + 1"
proof (cases "find (\<lambda>n. v < push_bit (8 * n) 1) (widths form)")
  case None
  then show ?thesis by (simp add: marked_len_def)
next
  case (Some n)
  then obtain j where j: "j < length (widths form)" "n = widths form ! j"
    "\<forall>j' < j. \<not> v < push_bit (8 * widths form ! j') 1"
    by (auto simp: find_Some_iff)
  have "sorted_wrt (<) (widths form)" using assms(1) by (simp add: marked_wf_def)
  moreover have "\<not> i < j" using j(3) assms(3) by (auto simp: push_bit_eq_mult)
  ultimately have "widths form ! j \<le> widths form ! i"
    using assms(2) by (metis linorder_neqE_nat order.refl order.strict_implies_order
        sorted_wrt_nth_less)
  then show ?thesis using Some j(2) by (simp add: marked_len_def)
qed

text \<open>The bytes a value takes over what stood in the first byte.\<close>

definition marked_bytes :: "marked \<Rightarrow> nat \<Rightarrow> byte \<Rightarrow> nat option \<Rightarrow> int \<Rightarrow> bytes" where
  "marked_bytes form k b wide v = (case wide of
     None \<Rightarrow> [merge_low k b v]
   | Some i \<Rightarrow> merge_low k b (first form + int i) # order_bytes (big form) (widths form ! i) v)"

lemma marked_put_direct:
  assumes wf: "marked_wf form k" and v: "0 \<le> v" "v < direct form" and "a < length out"
  shows "marked_put form out a v = Inr (splice out a (marked_bytes form k (out ! a) None v), 1)"
proof -
  have "v < 2 ^ k" "k \<le> 8" using wf v by (auto simp: marked_wf_def)
  note st = merge_low_store [OF v(1) this assms(4)]
  have "marked_len form v = 1" using v by (simp add: marked_len_def)
  then show ?thesis
    using wf st assms(4) by (simp add: marked_put_def Let_def marked_wf_def marked_bytes_def splice_update)
qed

lemma marked_put_wide:
  assumes wf: "marked_wf form k" and v: "0 \<le> v" "direct form \<le> v"
    and i: "i < length (widths form)" "v < 2 ^ (8 * widths form ! i)"
      "marked_len form v = widths form ! i + 1" "0 < widths form ! i"
    and room: "a + marked_len form v \<le> length out"
  shows "marked_put form out a v
    = Inr (splice out a (marked_bytes form k (out ! a) (Some i) v), marked_len form v)"
proof -
  have x: "0 \<le> first form + int i" "first form + int i < 2 ^ k" "k \<le> 8"
    using wf i(1) by (auto simp: marked_wf_def)
  have a: "a < length out" using room i(3) by simp
  have "distinct (widths form)"
    using wf strict_sorted_iff by (auto simp: marked_wf_def)
  then have idx: "list_index (widths form) (widths form ! i) = Inr i"
    using i(1) by (rule list_index_nth)
  have tb: "to_bytes (big form) False (widths form ! i) v
      = Inr (order_bytes (big form) (widths form ! i) v)"
    using v(1) i(2) by (simp add: to_bytes_def fits_def)
  have sp: "splice (out[a := b]) (Suc a) (order_bytes (big form) (widths form ! i) v)
      = splice out a (b # order_bytes (big form) (widths form ! i) v)" for b
    using room i(3) by (intro splice_Cons) simp
  have m: "msk form = 2 ^ k - 1" using wf by (simp add: marked_wf_def)
  show ?thesis
    using room i(3,4) merge_low_store [OF x a]
    by (simp add: marked_put_def Let_def idx tb sp marked_bytes_def m)
qed

lemma marked_get_bytes:
  assumes wf: "marked_wf form k" and v: "0 \<le> v"
    and at: "a < length d" "d ! a = merge_low k b x" "0 \<le> x" "x < 2 ^ k"
  shows "x < direct form \<Longrightarrow> marked_get form d a max_bytes = Some (x, 1)"
    "x = first form + int i \<Longrightarrow> i < length (widths form) \<Longrightarrow> v < 2 ^ (8 * widths form ! i) \<Longrightarrow>
     a + 1 + widths form ! i \<le> length d \<Longrightarrow> widths form ! i + 1 \<le> max_bytes \<Longrightarrow>
     slice d (a + 1) (widths form ! i) = order_bytes (big form) (widths form ! i) v \<Longrightarrow>
     marked_get form d a max_bytes = Some (v, widths form ! i + 1)"
proof -
  have "k \<le> 8" using wf by (simp add: marked_wf_def)
  then have x: "uint (d ! a) AND msk form = x"
    using merge_low_parts(1) [OF at(3,4)] by (simp add: marked_and [OF wf] at(2))
  show "x < direct form \<Longrightarrow> marked_get form d a max_bytes = Some (x, 1)"
    using at(1) x by (simp add: marked_get_def Let_def)
  assume i: "x = first form + int i" "i < length (widths form)" "v < 2 ^ (8 * widths form ! i)"
    "a + 1 + widths form ! i \<le> length d" "widths form ! i + 1 \<le> max_bytes"
    "slice d (a + 1) (widths form ! i) = order_bytes (big form) (widths form ! i) v"
  then have "\<not> x < direct form" using wf by (simp add: marked_wf_def)
  then show "marked_get form d a max_bytes = Some (v, widths form ! i + 1)"
    using i at(1) x v by (simp add: marked_get_def Let_def unsigned_from_order_bytes)
qed

lemma marked_get_SomeE:
  assumes "marked_wf form k" and "marked_get form d a max_bytes = Some (v, n)"
  obtains (direct) "a < length d" "n = 1" "v = uint (d ! a) mod 2 ^ k" "v < direct form"
  | (wide) i where "a < length d" "i < length (widths form)" "uint (d ! a) mod 2 ^ k = first form + int i"
      "n = widths form ! i + 1" "n \<le> max_bytes" "a + n \<le> length d"
      "v = unsigned_from (big form) (slice d (a + 1) (n - 1))"
proof -
  define x where "x = uint (d ! a) mod 2 ^ k"
  have a: "a < length d" using assms(2) by (auto simp: marked_get_def split: if_splits)
  show thesis
  proof (cases "x < direct form")
    case True
    then show thesis
      using direct a assms(2) by (simp add: marked_get_def marked_and [OF assms(1)] Let_def x_def)
  next
    case False
    then show thesis
      using assms(2) a
      by (intro wide [of "nat (x - first form)"])
        (auto simp: marked_get_def marked_and [OF assms(1)] Let_def simp flip: x_def split: if_splits)
  qed
qed

section \<open>The named marked forms\<close>

definition varint_cbor_get :: "bytes \<Rightarrow> nat \<Rightarrow> nat \<Rightarrow> (int \<times> nat) option" where
  "varint_cbor_get data a max_bytes = marked_get CBOR data a max_bytes"

definition varint_cbor_len :: "int \<Rightarrow> nat" where
  "varint_cbor_len val = marked_len CBOR val"

definition varint_cbor_put :: "bytes \<Rightarrow> nat \<Rightarrow> int \<Rightarrow> (bytes \<times> nat) res" where
  "varint_cbor_put out a val = marked_put CBOR out a val"

definition varint_der_get :: "bytes \<Rightarrow> nat \<Rightarrow> nat \<Rightarrow> (int \<times> nat) option" where
  "varint_der_get data a max_bytes = marked_get DER data a max_bytes"

definition varint_der_len :: "int \<Rightarrow> nat" where
  "varint_der_len val = marked_len DER val"

definition varint_der_put :: "bytes \<Rightarrow> nat \<Rightarrow> int \<Rightarrow> (bytes \<times> nat) res" where
  "varint_der_put out a val = marked_put DER out a val"

definition varint_compactsize_get :: "bytes \<Rightarrow> nat \<Rightarrow> nat \<Rightarrow> (int \<times> nat) option" where
  "varint_compactsize_get data a max_bytes = marked_get COMPACTSIZE data a max_bytes"

definition varint_compactsize_len :: "int \<Rightarrow> nat" where
  "varint_compactsize_len val = marked_len COMPACTSIZE val"

definition varint_compactsize_put :: "bytes \<Rightarrow> nat \<Rightarrow> int \<Rightarrow> (bytes \<times> nat) res" where
  "varint_compactsize_put out a val = marked_put COMPACTSIZE out a val"

definition varint_lenenc_get :: "bytes \<Rightarrow> nat \<Rightarrow> nat \<Rightarrow> (int \<times> nat) option" where
  "varint_lenenc_get data a max_bytes = marked_get LENENC data a max_bytes"

definition varint_lenenc_len :: "int \<Rightarrow> nat" where
  "varint_lenenc_len val = marked_len LENENC val"

definition varint_lenenc_put :: "bytes \<Rightarrow> nat \<Rightarrow> int \<Rightarrow> (bytes \<times> nat) res" where
  "varint_lenenc_put out a val = marked_put LENENC out a val"

section \<open>Each form is a codec\<close>

lemma length_marked_bytes:
  "length (marked_bytes form k b w v) = (case w of None \<Rightarrow> 1 | Some i \<Rightarrow> widths form ! i + 1)"
  by (simp add: marked_bytes_def split: option.split)

lemma marked_bytes_top:
  assumes wf: "marked_wf form k" and "length (marked_bytes form k b w v) = marked_len form v" and "0 \<le> v"
    and "(case w of None \<Rightarrow> v < direct form | Some i \<Rightarrow> i < length (widths form))"
  shows "uint (marked_bytes form k b w v ! 0) div 2 ^ k = uint b div 2 ^ k"
  using assms by (auto simp: marked_bytes_def marked_wf_def split: option.splits intro!: merge_low_parts(2))

lemma marked_put_get:
  assumes wf: "marked_wf form k" and v: "marked_valid form max_bytes v"
    and room: "a + marked_len form v \<le> length out"
  shows "\<exists>w. let bs = marked_bytes form k (out ! a) w v in length bs = marked_len form v
    \<and> marked_put form out a v = Inr (splice out a bs, marked_len form v)
    \<and> marked_get form (splice out a bs) a max_bytes = Some (v, marked_len form v)
    \<and> (case w of None \<Rightarrow> v < direct form | Some i \<Rightarrow> i < length (widths form))"
proof -
  have v': "0 \<le> v" "0 < marked_len form v" "marked_len form v \<le> max_bytes"
    using v by (auto simp: marked_valid_def)
  have a: "a < length out" using room v'(2) by simp
  from wf v'(2) show ?thesis
  proof (cases rule: marked_len_cases)
    case direct
    let ?bs = "marked_bytes form k (out ! a) None v"
    have "v < 2 ^ k" using wf direct(1) by (simp add: marked_wf_def)
    then have "marked_get form (splice out a ?bs) a max_bytes = Some (v, 1)"
      using a direct(1) v'(1)
      by (intro marked_get_bytes(1) [OF wf v'(1), where b = "out ! a"])
        (simp_all add: marked_bytes_def nth_splice)
    then show ?thesis
      using marked_put_direct [OF wf v'(1) direct(1) a] direct
      by (intro exI [of _ None]) (simp add: length_marked_bytes Let_def)
  next
    case (wide i)
    let ?bs = "marked_bytes form k (out ! a) (Some i) v"
    have len: "length ?bs = widths form ! i + 1" by (simp add: length_marked_bytes)
    have fit: "a + Suc (widths form ! i) \<le> length out" using room wide(4) by simp
    have "first form + int i < 2 ^ k" "0 \<le> first form + int i" using wf wide(2) by (auto simp: marked_wf_def)
    moreover have "slice (splice out a ?bs) (a + 1) (widths form ! i)
        = order_bytes (big form) (widths form ! i) v"
      using fit len by (intro nth_equalityI) (auto simp: slice_nth nth_splice marked_bytes_def)
    ultimately have "marked_get form (splice out a ?bs) a max_bytes = Some (v, widths form ! i + 1)"
      using a wide fit len v'(3)
      by (intro marked_get_bytes(2) [OF wf v'(1), where b = "out ! a" and x = "first form + int i"])
        (simp_all add: marked_bytes_def nth_splice)
    then show ?thesis
      using marked_put_wide [OF wf v'(1) wide(1-3) _ _ room] wide(2,4,5) len
      by (intro exI [of _ "Some i"]) (simp add: Let_def)
  qed
qed

lemma marked_codec:
  assumes wf: "marked_wf form k"
  shows "varint_codec (\<lambda>d a. marked_get form d a max_bytes) (marked_put form) (marked_len form)
    (marked_valid form max_bytes)"
proof
  fix v :: int and a :: nat and out :: bytes
  assume v: "marked_valid form max_bytes v"
  show "a + marked_len form v \<le> length out \<Longrightarrow> \<exists>bs. length bs = marked_len form v \<and>
      marked_put form out a v = Inr (splice out a bs, marked_len form v) \<and>
      marked_get form (splice out a bs) a max_bytes = Some (v, marked_len form v)"
    using marked_put_get [OF wf v, of a out] by (auto simp: Let_def)
  show "length out < a + marked_len form v \<Longrightarrow> marked_put form out a v = Inr (out, 0)"
    by (simp add: marked_put_def Let_def)
next
  fix d d' :: bytes and a n c :: nat and v :: int
  assume g: "marked_get form d a max_bytes = Some (v, n)"
  have *: "(0 < n \<and> a + n \<le> length d \<and> marked_len form v \<le> n)
    \<and> (a + n \<le> length d' \<longrightarrow> slice d' a n = slice d a n \<longrightarrow> marked_get form d' a max_bytes = Some (v, n))
    \<and> (c < n \<longrightarrow> marked_get form (take (a + c) d) a max_bytes = None)"
    using wf g
  proof (cases rule: marked_get_SomeE)
    case direct
    then have "d' ! a = d ! a" if "a + 1 \<le> length d'" "slice d' a 1 = slice d a 1"
      using that by (auto simp: slice_eq_iff)
    then show ?thesis
      using direct by (auto simp: marked_get_def Let_def marked_and [OF wf] marked_len_def)
  next
    case (wide i)
    have len: "length (slice d (a + 1) (n - 1)) = widths form ! i" using wide(4,6) by simp
    have "v < 2 ^ (8 * widths form ! i)"
      using unsigned_from_bounds(2) [of "big form" "slice d (a + 1) (n - 1)"] unfolding len wide(7) .
    then have le: "marked_len form v \<le> n" using marked_len_le [OF wf wide(2)] wide(4) by simp
    have nd: "\<not> first form + int i < direct form" using wf by (simp add: marked_wf_def)
    have "marked_get form d' a max_bytes = Some (v, n)"
      if l: "a + n \<le> length d'" and same: "slice d' a n = slice d a n"
    proof -
      have at: "\<forall>i < n. d' ! (a + i) = d ! (a + i)"
        using same l wide(6) by (simp add: slice_eq_iff)
      have "slice d' (a + 1) (n - 1) = slice d (a + 1) (n - 1)"
        using l wide(4,6) at by (intro slice_cong) (auto dest: spec [of _ "Suc i" for i])
      moreover have "d' ! a = d ! a" using at wide(4) by (auto dest: spec [of _ 0])
      ultimately show ?thesis
        using wide nd l by (simp add: marked_get_def marked_and [OF wf] Let_def)
    qed
    moreover have "marked_get form (take (a + c) d) a max_bytes = None" if "c < n"
      using that wide nd by (cases c) (simp_all add: marked_get_def marked_and [OF wf] Let_def)
    ultimately show ?thesis using wide(4,6) le by simp
  qed
  show "0 < n \<and> a + n \<le> length d \<and> marked_len form v \<le> n" using * by blast
  show "a + n \<le> length d' \<Longrightarrow> slice d' a n = slice d a n \<Longrightarrow> marked_get form d' a max_bytes = Some (v, n)"
    using * by blast
  show "c < n \<Longrightarrow> marked_get form (take (a + c) d) a max_bytes = None" using * by blast
qed

lemma marked_forms_wf:
  "marked_wf DER 8" "marked_wf COMPACTSIZE 8" "marked_wf LENENC 8" "marked_wf CBOR 5"
  by (simp_all add: marked_wf_def DER_def COMPACTSIZE_def LENENC_def CBOR_def)

text \<open>The named forms reach the whole of a 64-bit value.\<close>

lemma marked_valid_64:
  "marked_valid DER 9 v \<longleftrightarrow> 0 \<le> v \<and> v < 2 ^ 64" "marked_valid COMPACTSIZE 9 v \<longleftrightarrow> 0 \<le> v \<and> v < 2 ^ 64"
  "marked_valid LENENC 9 v \<longleftrightarrow> 0 \<le> v \<and> v < 2 ^ 64" "marked_valid CBOR 9 v \<longleftrightarrow> 0 \<le> v \<and> v < 2 ^ 64"
  by (auto simp: marked_valid_def marked_len_def DER_def COMPACTSIZE_def LENENC_def CBOR_def push_bit_eq_mult)

interpretation der: varint_codec "\<lambda>d a. varint_der_get d a max_bytes" varint_der_put varint_der_len
  "marked_valid DER max_bytes" for max_bytes
  unfolding varint_der_get_def varint_der_put_def varint_der_len_def
  by (rule marked_codec [OF marked_forms_wf(1)])

interpretation compactsize: varint_codec "\<lambda>d a. varint_compactsize_get d a max_bytes"
  varint_compactsize_put varint_compactsize_len "marked_valid COMPACTSIZE max_bytes" for max_bytes
  unfolding varint_compactsize_get_def varint_compactsize_put_def varint_compactsize_len_def
  by (rule marked_codec [OF marked_forms_wf(2)])

interpretation lenenc: varint_codec "\<lambda>d a. varint_lenenc_get d a max_bytes" varint_lenenc_put
  varint_lenenc_len "marked_valid LENENC max_bytes" for max_bytes
  unfolding varint_lenenc_get_def varint_lenenc_put_def varint_lenenc_len_def
  by (rule marked_codec [OF marked_forms_wf(3)])

interpretation cbor: varint_codec "\<lambda>d a. varint_cbor_get d a max_bytes" varint_cbor_put
  varint_cbor_len "marked_valid CBOR max_bytes" for max_bytes
  unfolding varint_cbor_get_def varint_cbor_put_def varint_cbor_len_def
  by (rule marked_codec [OF marked_forms_wf(4)])

section \<open>Properties\<close>

text \<open>
  C39: the four marked forms (DER lengths, CompactSize, MySQL's length-encoded integers, CBOR heads)
  round trip over the whole of a 64-bit value.  Encoding never raises; for want of room it answers
  0 and changes nothing; otherwise it writes the shortest form, which decodes to the same value
  and count, touches no byte outside it, and keeps the bits of the first byte above the form's
  mask, which are another field's.
\<close>

theorem marked_forms_roundtrip:
  assumes "(form, k) \<in> {(DER, 8), (COMPACTSIZE, 8), (LENENC, 8), (CBOR, 5)}"
    and "0 \<le> v" and "v < 2 ^ 64"
  shows "0 < marked_len form v \<and> (if length out < a + marked_len form v then marked_put form out a v = Inr (out, 0)
    else \<exists>out'. marked_put form out a v = Inr (out', marked_len form v)
       \<and> marked_get form out' a 9 = Some (v, marked_len form v)
       \<and> length out' = length out
       \<and> uint (out' ! a) div 2 ^ k = uint (out ! a) div 2 ^ k
       \<and> (\<forall>i < length out. i < a \<or> a + marked_len form v \<le> i \<longrightarrow> out' ! i = out ! i))"
proof -
  have wf: "marked_wf form k" and v: "marked_valid form 9 v"
    using assms marked_forms_wf marked_valid_64 [of v] by auto
  have pos: "0 < marked_len form v" using v by (simp add: marked_valid_def)
  show ?thesis
  proof (cases "length out < a + marked_len form v")
    case True
    then show ?thesis using pos by (simp add: marked_put_def Let_def)
  next
    case False
    then obtain w where w: "length (marked_bytes form k (out ! a) w v) = marked_len form v"
      "marked_put form out a v = Inr (splice out a (marked_bytes form k (out ! a) w v), marked_len form v)"
      "marked_get form (splice out a (marked_bytes form k (out ! a) w v)) a 9 = Some (v, marked_len form v)"
      "case w of None \<Rightarrow> v < direct form | Some i \<Rightarrow> i < length (widths form)"
      using marked_put_get [OF wf v, of a out] by (auto simp: Let_def)
    have top: "uint (marked_bytes form k (out ! a) w v ! 0) div 2 ^ k = uint (out ! a) div 2 ^ k"
      by (rule marked_bytes_top [OF wf w(1) assms(2) w(4)])
    then show ?thesis
      using False pos w by (auto simp: nth_splice)
  qed
qed

theorem marked_forms_roundtrip_witness:
  "\<exists>out'. marked_put CBOR [0xA0, 0, 0] 0 500 = Inr (out', 3) \<and> marked_get CBOR out' 0 9 = Some (500, 3)
     \<and> uint (out' ! 0) div 2 ^ 5 = 5"
proof -
  have "marked_len CBOR 500 = 3" by code_simp
  then show ?thesis
    using marked_forms_roundtrip [of CBOR 5 500 "[0xA0, 0, 0]" 0] by auto
qed

end
