(* ===== verification/Varint_Prefixed.thy ===== *)
theory Varint_Prefixed
  imports Codec_Interface
begin

text \<open>
  The prefixed integers of \<open>runtime/python/situ_runtime.py\<close>: HPACK integers (RFC 7541, 5.1) and
  BER tag numbers (X.690, 8.1.2) are one algorithm, low group first or high group first.
\<close>

section \<open>Prefixed integers\<close>

fun prefixed_get_loop :: "bytes \<Rightarrow> nat \<Rightarrow> int \<Rightarrow> bool \<Rightarrow> nat \<Rightarrow> nat \<Rightarrow> int \<Rightarrow> (int \<times> nat) option" where
  "prefixed_get_loop data a ones bg 0 i acc = None"
| "prefixed_get_loop data a ones bg (Suc k) i acc =
     (let byte = uint (data ! (a + i));
          acc' = (if bg then push_bit 7 acc OR (byte AND 0x7F)
                  else acc OR push_bit (7 * (i - 1)) (byte AND 0x7F))
      in if drop_bit 64 acc' \<noteq> 0 then None
         else if byte AND 0x80 = 0 then
           (let acc'' = (if bg then acc' else acc' + ones)
            in if drop_bit 64 acc'' \<noteq> 0 then None else Some (acc'', i + 1))
         else prefixed_get_loop data a ones bg k (i + 1) acc')"

definition prefixed_get :: "bytes \<Rightarrow> nat \<Rightarrow> nat \<Rightarrow> bool \<Rightarrow> nat \<Rightarrow> (int \<times> nat) option" where
  "prefixed_get data a prefix bg max_bytes =
     (let ones = push_bit prefix 1 - 1 in
      if length data \<le> a then None
      else if uint (data ! a) AND ones \<noteq> ones then Some (uint (data ! a) AND ones, 1)
      else prefixed_get_loop data a ones bg (min max_bytes (length data - a) - 1) 1 0)"

definition prefixed_len :: "int \<Rightarrow> nat \<Rightarrow> bool \<Rightarrow> nat" where
  "prefixed_len val prefix bg =
     (let ones = push_bit prefix 1 - 1 in
      if val < ones then 1
      else let rest = (if bg then val else val - ones)
           in 1 + max 1 ((bit_length rest + 6) div 7))"

fun prefixed_store :: "bytes \<Rightarrow> nat \<Rightarrow> nat \<Rightarrow> nat \<Rightarrow> int list \<Rightarrow> bytes res" where
  "prefixed_store out a tot i [] = Inr out"
| "prefixed_store out a tot i (g # gs) =
     bindE (byte_store out (a + 1 + i) (g OR (if i + 2 < tot then 0x80 else 0))) (\<lambda>out'.
       prefixed_store out' a tot (i + 1) gs)"

definition prefixed_put :: "bytes \<Rightarrow> nat \<Rightarrow> int \<Rightarrow> nat \<Rightarrow> bool \<Rightarrow> (bytes \<times> nat) res" where
  "prefixed_put out a val prefix bg =
     (let ones = push_bit prefix 1 - 1;
          tot = prefixed_len val prefix bg in
      if length out < a + tot then Inr (out, 0)
      else if tot = 1 then
        bindE (byte_store out a (((uint (out ! a) AND NOT ones) AND 0xFF) OR val)) (\<lambda>out'. Inr (out', 1))
      else bindE (byte_store out a (uint (out ! a) OR ones)) (\<lambda>out'.
           let rest = (if bg then val else val - ones);
               groups = map (\<lambda>i. drop_bit (7 * i) rest AND 0x7F) [0..<tot - 1];
               groups' = (if bg then rev groups else groups)
           in bindE (prefixed_store out' a tot 0 groups') (\<lambda>out''. Inr (out'', tot))))"

section \<open>The laws\<close>

text \<open>Groups of seven bits with the continuation flag on all but the last.\<close>

fun flagged :: "int list \<Rightarrow> bytes" where
  "flagged [] = []"
| "flagged (g # gs) = byte_of (if gs = [] then g else g + 128) # flagged gs"

definition group_step :: "bool \<Rightarrow> nat \<Rightarrow> int \<Rightarrow> int \<Rightarrow> int" where
  "group_step bg i acc g = (if bg then acc * 128 + g else acc + g * 2 ^ (7 * (i - 1)))"

fun group_value :: "bool \<Rightarrow> nat \<Rightarrow> int \<Rightarrow> int list \<Rightarrow> int" where
  "group_value bg i acc [] = acc"
| "group_value bg i acc (g # gs) = group_value bg (i + 1) (group_step bg i acc g) gs"

definition is_group :: "int \<Rightarrow> bool" where
  "is_group g \<longleftrightarrow> 0 \<le> g \<and> g < 128"

lemma length_flagged [simp]: "length (flagged gs) = length gs"
  by (induction gs) auto

lemma flagged_eq_Nil [simp]: "flagged gs = [] \<longleftrightarrow> gs = []"
  by (cases gs) auto

lemma prefixed_store_flagged:
  "\<forall>g \<in> set gs. is_group g \<Longrightarrow> a + 1 + i + length gs \<le> length out \<Longrightarrow> tot = i + length gs + 1 \<Longrightarrow>
   prefixed_store out a tot i gs = Inr (splice out (a + 1 + i) (flagged gs))"
proof (induction gs arbitrary: out i)
  case Nil
  then show ?case by (simp add: splice_def)
next
  case (Cons g gs)
  let ?b = "byte_of (if gs = [] then g else g + 128)"
  have g: "0 \<le> g" "g < 128" using Cons.prems(1) by (auto simp: is_group_def)
  have "byte_store out (a + 1 + i) (g OR (if i + 2 < tot then 0x80 else 0)) = Inr (out[a + 1 + i := ?b])"
    using g Cons.prems(2,3) by (auto simp: byte_store_def int_or_80)
  moreover have "prefixed_store (out[a + 1 + i := ?b]) a tot (i + 1) gs
      = Inr (splice (out[a + 1 + i := ?b]) (a + 1 + (i + 1)) (flagged gs))"
    using Cons.prems by (intro Cons.IH) auto
  moreover have "splice (out[a + 1 + i := ?b]) (Suc (a + 1 + i)) (flagged gs)
      = splice out (a + 1 + i) (?b # flagged gs)"
    using Cons.prems(2) by (intro splice_Cons) simp
  ultimately show ?case by simp
qed

lemma group_step_expr:
  assumes "0 \<le> acc" and "acc < 2 ^ (7 * (i - 1))" and "is_group g"
  shows "(if bg then push_bit 7 acc OR g else acc OR push_bit (7 * (i - 1)) g) = group_step bg i acc g"
  using int_or_disjoint [OF assms(1,2), of g] int_or_disjoint' [of g 7 acc] assms(3)
  by (simp add: group_step_def int_push_bit is_group_def)

lemma group_step_bounds:
  assumes "0 < i" and "0 \<le> acc" and "acc < 2 ^ (7 * (i - 1))" and "is_group g"
  shows "acc \<le> group_step bg i acc g" "group_step bg i acc g < 2 ^ (7 * (i + 1 - 1))"
proof -
  obtain j where i: "i = Suc j" using assms(1) by (cases i) auto
  have g: "0 \<le> g" "g \<le> 127" using assms(4) by (simp_all add: is_group_def)
  then show "acc \<le> group_step bg i acc g" using assms(2) by (simp add: group_step_def)
  have "g * 2 ^ (7 * j) \<le> 127 * 2 ^ (7 * j)" using g(2) by (rule mult_right_mono) simp
  moreover have "acc + 1 \<le> 2 ^ (7 * j)" using assms(3) by (simp add: i)
  ultimately have "acc + g * 2 ^ (7 * j) < 128 * 2 ^ (7 * j)" "acc * 128 + g < 128 * 2 ^ (7 * j)"
    using g by linarith+
  then show "group_step bg i acc g < 2 ^ (7 * (i + 1 - 1))"
    by (simp add: group_step_def i power_add)
qed

lemma group_value_bounds:
  "0 < i \<Longrightarrow> 0 \<le> acc \<Longrightarrow> acc < 2 ^ (7 * (i - 1)) \<Longrightarrow> \<forall>g \<in> set gs. is_group g \<Longrightarrow>
   acc \<le> group_value bg i acc gs \<and> group_value bg i acc gs < 2 ^ (7 * (i + length gs - 1))"
proof (induction gs arbitrary: i acc)
  case (Cons g gs)
  have g: "is_group g" "\<forall>g \<in> set gs. is_group g" using Cons.prems(4) by auto
  note step = group_step_bounds [OF Cons.prems(1-3) g(1), of bg]
  have "0 \<le> group_step bg i acc g" using step(1) Cons.prems(2) by simp
  from Cons.IH [OF _ this step(2) g(2)] show ?case using step(1) by simp
qed simp

lemma int_drop_64: "0 \<le> x \<Longrightarrow> drop_bit 64 (x :: int) = 0 \<longleftrightarrow> x < 2 ^ 64"
  by (auto simp: int_drop_bit div_eq_0_iff zdiv_eq_0_iff)

text \<open>The decoder accepts exactly the flagged groups whose value stays under sixty-four bits.\<close>

lemma prefixed_get_loop_flagged:
  assumes "0 < i" and "0 \<le> acc" and "acc < 2 ^ (7 * (i - 1))" and "\<forall>g \<in> set gs. is_group g"
    and "gs \<noteq> []" and "length gs \<le> k" and "0 \<le> ones"
    and "group_value bg i acc gs + (if bg then 0 else ones) < 2 ^ 64"
    and "\<forall>j < length gs. d ! (a + i + j) = flagged gs ! j"
  shows "prefixed_get_loop d a ones bg k i acc
    = Some (group_value bg i acc gs + (if bg then 0 else ones), i + length gs)"
  using assms
proof (induction gs arbitrary: i k acc)
  case (Cons g gs)
  obtain k' where k: "k = Suc k'" using Cons.prems(6) by (cases k) auto
  let ?b = "byte_of (if gs = [] then g else g + 128)" and ?acc = "group_step bg i acc g"
  have g: "is_group g" "0 \<le> g" "g < 128" using Cons.prems(4) by (auto simp: is_group_def)
  have b: "d ! (a + i) = ?b" using Cons.prems(9) by auto
  have u: "uint ?b AND 0x7F = g" "uint ?b AND 0x80 = 0 \<longleftrightarrow> gs = []"
    using g by (auto simp: int_and_7F int_and_80)
  have acc': "(if bg then push_bit 7 acc OR (uint ?b AND 0x7F)
      else acc OR push_bit (7 * (i - 1)) (uint ?b AND 0x7F)) = ?acc"
    using group_step_expr [OF Cons.prems(2,3) g(1)] by (simp only: u)
  note step = group_step_bounds [OF Cons.prems(1-3) g(1), of bg]
  have acc0: "0 \<le> ?acc" using step(1) Cons.prems(2) by simp
  have le: "?acc \<le> group_value bg (i + 1) ?acc gs"
    using group_value_bounds [of "i + 1" ?acc gs bg] step Cons.prems(1,4) acc0 by simp
  then have "?acc < 2 ^ 64"
    using Cons.prems(7,8) by (auto split: if_splits)
  then have d64: "drop_bit 64 ?acc = 0" using acc0 by (simp add: int_drop_64)
  show ?case
  proof (cases "gs = []")
    case True
    have "drop_bit 64 (if bg then ?acc else ?acc + ones) = 0"
      using Cons.prems(7,8) acc0 True by (subst int_drop_64) (auto split: if_splits)
    then show ?thesis
      using True d64 u(2) unfolding k prefixed_get_loop.simps Let_def b acc' by auto
  next
    case False
    have "prefixed_get_loop d a ones bg k' (i + 1) ?acc
        = Some (group_value bg (i + 1) ?acc gs + (if bg then 0 else ones), i + 1 + length gs)"
      using Cons.prems step acc0 False k by (intro Cons.IH) auto
    then show ?thesis
      using False d64 u(2) unfolding k prefixed_get_loop.simps Let_def b acc' by auto
  qed
qed simp

lemma prefixed_get_loop_SomeE:
  assumes "prefixed_get_loop d a ones bg k i acc = Some (v, n)"
    and "0 < i" and "0 \<le> acc" and "acc < 2 ^ (7 * (i - 1))" and "0 \<le> ones"
  shows "\<exists>gs. (\<forall>g \<in> set gs. is_group g) \<and> gs \<noteq> [] \<and> length gs \<le> k \<and> n = i + length gs
    \<and> v = group_value bg i acc gs + (if bg then 0 else ones) \<and> v < 2 ^ 64
    \<and> (\<forall>j < length gs. d ! (a + i + j) = flagged gs ! j)"
  using assms
proof (induction k arbitrary: i acc)
  case (Suc k)
  define byte where "byte = uint (d ! (a + i))"
  define g where "g = byte mod 128"
  let ?acc = "group_step bg i acc g"
  have g: "is_group g" by (simp add: is_group_def g_def)
  have low: "byte AND 0x7F = g" by (simp add: int_and_7F g_def)
  have acc': "(if bg then push_bit 7 acc OR (byte AND 0x7F)
      else acc OR push_bit (7 * (i - 1)) (byte AND 0x7F)) = ?acc"
    using group_step_expr [OF Suc.prems(3,4) g, of bg] by (simp only: low)
  note step = group_step_bounds [OF Suc.prems(2-4) g, of bg]
  have acc0: "0 \<le> ?acc" using step(1) Suc.prems(3) by simp
  have fin0: "0 \<le> (if bg then ?acc else ?acc + ones)" using acc0 Suc.prems(5) by (cases bg) simp_all
  have bits: "byte AND 0x80 = 0 \<longleftrightarrow> byte < 128"
    by (simp add: byte_def byte_and_80)
  have eq: "byte = (if byte < 128 then g else g + 128)"
  proof -
    have "0 \<le> byte" "byte < 256" by (simp_all add: byte_def)
    then show ?thesis unfolding g_def by presburger
  qed
  note loop = Suc.prems(1) [unfolded prefixed_get_loop.simps Let_def, folded byte_def, unfolded acc']
  show ?case
  proof (cases "byte < 128")
    case True
    then have "v = (if bg then ?acc else ?acc + ones)" "n = i + 1" "v < 2 ^ 64"
      using loop bits int_drop_64 [OF fin0] by (auto split: if_splits)
    moreover have "d ! (a + i) = byte_of g" using eq True by (metis byte_def byte_of_uint)
    ultimately show ?thesis
      using g by (intro exI [of _ "[g]"]) simp
  next
    case False
    then have "prefixed_get_loop d a ones bg k (i + 1) ?acc = Some (v, n)"
      using loop bits by (auto split: if_splits)
    from Suc.IH [OF this] obtain gs where gs: "\<forall>g \<in> set gs. is_group g" "gs \<noteq> []" "length gs \<le> k"
      "n = i + 1 + length gs" "v = group_value bg (i + 1) ?acc gs + (if bg then 0 else ones)"
      "v < 2 ^ 64" "\<forall>j < length gs. d ! (a + (i + 1) + j) = flagged gs ! j"
      using step acc0 Suc.prems(2,5) by auto
    have "d ! (a + i) = byte_of (g + 128)" using eq False by (metis byte_def byte_of_uint)
    then have "\<forall>j < length (g # gs). d ! (a + i + j) = flagged (g # gs) ! j"
      using gs(2,7) by (auto simp: nth_Cons split: nat.split)
    then show ?thesis
      using g gs by (intro exI [of _ "g # gs"]) simp
  qed
qed simp

text \<open>The groups the encoder cuts spell the value back, in either order.\<close>

lemma group_value_low:
  "0 < i \<Longrightarrow> group_value False i acc gs = acc + foldr (\<lambda>g r. r * 128 + g) gs 0 * 2 ^ (7 * (i - 1))"
proof (induction gs arbitrary: i acc)
  case (Cons g gs)
  then obtain j where "i = Suc j" by (cases i) auto
  then show ?case using Cons.IH [of "i + 1"] by (simp add: group_step_def power_add algebra_simps)
qed simp

lemma group_value_high: "group_value True i acc gs = foldl (\<lambda>r g. r * 128 + g) acc gs"
  by (induction gs arbitrary: i acc) (simp_all add: group_step_def)

definition cut_groups :: "int \<Rightarrow> nat \<Rightarrow> int list" where
  "cut_groups r m = map (\<lambda>i. drop_bit (7 * i) r AND 0x7F) [0..<m]"

lemma foldr_cut_groups: "foldr (\<lambda>g r. r * 128 + g) (cut_groups r m) 0 = r mod 128 ^ m"
proof (induction m arbitrary: r)
  case (Suc m)
  have "cut_groups r (Suc m) = r mod 128 # cut_groups (r div 128) m"
    by (simp add: cut_groups_def map_upt_Suc int_drop_bit int_and_7F power_mult power_add
        zdiv_zmult2_eq del: upt_Suc)
  moreover have "r mod 128 ^ Suc m = 128 * (r div 128 mod 128 ^ m) + r mod 128"
    by (simp add: zmod_zmult2_eq)
  ultimately show ?case by (simp add: Suc.IH)
qed (simp add: cut_groups_def)

lemma group_value_cut:
  "group_value bg 1 0 (if bg then rev (cut_groups r m) else cut_groups r m) = r mod 128 ^ m"
  by (simp add: group_value_low group_value_high foldl_conv_foldr foldr_cut_groups)

lemma cut_groups_props [simp]:
  "length (cut_groups r m) = m" "g \<in> set (cut_groups r m) \<Longrightarrow> is_group g"
  by (auto simp: cut_groups_def is_group_def int_and_7F)

definition prefixed_rest :: "nat \<Rightarrow> bool \<Rightarrow> int \<Rightarrow> int" where
  "prefixed_rest p bg v = (if bg then v else v - (2 ^ p - 1))"

definition prefixed_groups :: "nat \<Rightarrow> bool \<Rightarrow> int \<Rightarrow> int list" where
  "prefixed_groups p bg v =
     (let gs = cut_groups (prefixed_rest p bg v) (prefixed_len v p bg - 1)
      in if bg then rev gs else gs)"

definition prefixed_bytes :: "nat \<Rightarrow> bool \<Rightarrow> byte \<Rightarrow> int \<Rightarrow> bytes" where
  "prefixed_bytes p bg b v =
     (if v < 2 ^ p - 1 then [merge_low p b v]
      else merge_low p b (2 ^ p - 1) # flagged (prefixed_groups p bg v))"

definition prefixed_valid :: "nat \<Rightarrow> bool \<Rightarrow> nat \<Rightarrow> int \<Rightarrow> bool" where
  "prefixed_valid p bg max_bytes v \<longleftrightarrow>
     p \<le> 8 \<and> 0 \<le> v \<and> v < 2 ^ 64 \<and> prefixed_len v p bg \<le> max_bytes"

lemma prefixed_len_eq:
  "prefixed_len v p bg = (if v < 2 ^ p - 1 then 1
     else 1 + max 1 ((bit_length (prefixed_rest p bg v) + 6) div 7))"
  by (simp add: prefixed_len_def prefixed_rest_def push_bit_eq_mult Let_def)

lemma prefixed_len_le:
  assumes "0 \<le> prefixed_rest p bg v" and "prefixed_rest p bg v < 2 ^ (7 * m)" and "0 < m"
  shows "prefixed_len v p bg \<le> m + 1"
proof -
  have "bit_length (prefixed_rest p bg v) \<le> 7 * m"
    using assms(1,2) by (simp add: bit_length_le_iff)
  then show ?thesis using assms(3) by (auto simp: prefixed_len_eq)
qed

lemma prefixed_rest_groups:
  assumes "0 \<le> v" and "\<not> v < 2 ^ p - 1"
  shows "group_value bg 1 0 (prefixed_groups p bg v) = prefixed_rest p bg v"
    "\<forall>g \<in> set (prefixed_groups p bg v). is_group g"
    "length (prefixed_groups p bg v) + 1 = prefixed_len v p bg" "prefixed_groups p bg v \<noteq> []"
proof -
  let ?r = "prefixed_rest p bg v" and ?m = "prefixed_len v p bg - 1"
  have r: "0 \<le> ?r" using assms by (simp add: prefixed_rest_def)
  have "bit_length ?r \<le> 7 * ?m" using assms(2) by (simp add: prefixed_len_eq)
  then have "?r < 2 ^ (7 * ?m)" using r by (simp add: bit_length_le_iff)
  then have "?r mod 128 ^ ?m = ?r" using r by (simp add: power_mult)
  then show "group_value bg 1 0 (prefixed_groups p bg v) = ?r"
    using group_value_cut [of bg ?r ?m] unfolding prefixed_groups_def Let_def by (rule trans [rotated])
  have len: "1 < prefixed_len v p bg" using assms(2) by (simp add: prefixed_len_eq)
  then show *: "length (prefixed_groups p bg v) + 1 = prefixed_len v p bg"
    by (cases bg) (simp_all add: prefixed_groups_def Let_def)
  show "prefixed_groups p bg v \<noteq> []" using * len by auto
  show "\<forall>g \<in> set (prefixed_groups p bg v). is_group g"
    by (auto simp: prefixed_groups_def Let_def)
qed

lemma length_prefixed_bytes:
  assumes "0 \<le> v"
  shows "length (prefixed_bytes p bg b v) = prefixed_len v p bg"
proof (cases "v < 2 ^ p - 1")
  case False
  then show ?thesis using prefixed_rest_groups(3) [OF assms False] by (simp add: prefixed_bytes_def)
qed (simp add: prefixed_bytes_def prefixed_len_eq)

lemma prefixed_put_bytes:
  assumes "p \<le> 8" and "0 \<le> v" and room: "a + prefixed_len v p bg \<le> length out"
  shows "prefixed_put out a v p bg = Inr (splice out a (prefixed_bytes p bg (out ! a) v), prefixed_len v p bg)"
proof (cases "v < 2 ^ p - 1")
  case True
  then have one: "prefixed_len v p bg = 1" by (simp add: prefixed_len_eq)
  have "v < 2 ^ p" "a < length out" using True room one by simp_all
  from merge_low_store [OF assms(2) this(1) assms(1) this(2)] show ?thesis
    using room True one
    by (simp add: prefixed_put_def Let_def prefixed_bytes_def push_bit_eq_mult splice_update)
next
  case False
  note gs = prefixed_rest_groups [OF assms(2) False, of bg]
  let ?gs = "prefixed_groups p bg v" and ?b = "merge_low p (out ! a) (2 ^ p - 1)"
  have a: "a < length out" using room gs(3) by simp
  have many: "prefixed_len v p bg \<noteq> 1" using gs(3,4) by (cases ?gs) auto
  have "prefixed_store (out[a := ?b]) a (prefixed_len v p bg) 0 ?gs
      = Inr (splice (out[a := ?b]) (a + 1 + 0) (flagged ?gs))"
    using gs(2,3) room by (intro prefixed_store_flagged) auto
  moreover have "splice (out[a := ?b]) (Suc a) (flagged ?gs) = splice out a (?b # flagged ?gs)"
    using gs(3) room by (intro splice_Cons) simp
  ultimately have "prefixed_store (out[a := ?b]) a (prefixed_len v p bg) 0 ?gs
      = Inr (splice out a (prefixed_bytes p bg (out ! a) v))"
    using False by (simp add: prefixed_bytes_def)
  then show ?thesis
    using room many merge_low_ones_store [OF assms(1) a]
    by (simp add: prefixed_put_def Let_def push_bit_eq_mult prefixed_groups_def prefixed_rest_def
        cut_groups_def)
qed

lemma prefixed_get_bytes:
  assumes v: "prefixed_valid p bg max_bytes v" and room: "a + prefixed_len v p bg \<le> length out"
  shows "prefixed_get (splice out a (prefixed_bytes p bg b v)) a p bg max_bytes
    = Some (v, prefixed_len v p bg)"
proof -
  have v': "p \<le> 8" "0 \<le> v" "v < 2 ^ 64" "prefixed_len v p bg \<le> max_bytes"
    using v by (auto simp: prefixed_valid_def)
  let ?bs = "prefixed_bytes p bg b v" and ?ones = "2 ^ p - 1 :: int"
  let ?d = "splice out a ?bs"
  note len = length_prefixed_bytes [OF v'(2), of p bg b]
  have fit: "a + length ?bs \<le> length out" using room len by simp
  have pos: "0 < prefixed_len v p bg" by (simp add: prefixed_len_eq)
  have ld: "length ?d = length out" using fit by simp
  have at: "?d ! (a + j) = ?bs ! j" if "j < length ?bs" for j
    using fit that by (simp add: nth_splice)
  have head: "?d ! a = ?bs ! 0" using at [of 0] pos len by simp
  show ?thesis
  proof (cases "v < ?ones")
    case True
    have "uint (merge_low p b v) mod 2 ^ p = v"
      using True v' by (intro merge_low_parts(1)) simp_all
    then show ?thesis
      using True head pos room ld
      by (simp add: prefixed_get_def Let_def push_bit_eq_mult int_and_mask prefixed_bytes_def
          prefixed_len_eq)
  next
    case False
    note gs = prefixed_rest_groups [OF v'(2) False, of bg]
    let ?gs = "prefixed_groups p bg v"
    have h: "uint (?d ! a) mod 2 ^ p = ?ones"
      using False merge_low_parts(1) [of ?ones p b] v'(1) unfolding head by (simp add: prefixed_bytes_def)
    have sum: "prefixed_rest p bg v + (if bg then 0 else ?ones) = v" by (simp add: prefixed_rest_def)
    have "prefixed_get_loop ?d a ?ones bg (min max_bytes (length ?d - a) - 1) 1 0
        = Some (group_value bg 1 0 ?gs + (if bg then 0 else ?ones), 1 + length ?gs)"
    proof (rule prefixed_get_loop_flagged)
      show "\<forall>j < length ?gs. ?d ! (a + 1 + j) = flagged ?gs ! j"
        using at [of "Suc j" for j] gs(3) len False by (auto simp: prefixed_bytes_def)
    qed (use gs v' room ld sum in auto)
    then show ?thesis
      using h gs(1,3) sum room pos ld
      by (simp add: prefixed_get_def Let_def push_bit_eq_mult int_and_mask)
  qed
qed

section \<open>The named prefixed forms\<close>

definition varint_hpack_get :: "bytes \<Rightarrow> nat \<Rightarrow> nat \<Rightarrow> nat \<Rightarrow> (int \<times> nat) option" where
  "varint_hpack_get data a prefix max_bytes = prefixed_get data a prefix False max_bytes"

definition varint_hpack_len :: "int \<Rightarrow> nat \<Rightarrow> nat" where
  "varint_hpack_len val prefix = prefixed_len val prefix False"

definition varint_hpack_put :: "bytes \<Rightarrow> nat \<Rightarrow> int \<Rightarrow> nat \<Rightarrow> (bytes \<times> nat) res" where
  "varint_hpack_put out a val prefix = prefixed_put out a val prefix False"

definition varint_bertag_get :: "bytes \<Rightarrow> nat \<Rightarrow> nat \<Rightarrow> (int \<times> nat) option" where
  "varint_bertag_get data a max_bytes = prefixed_get data a 5 True max_bytes"

definition varint_bertag_len :: "int \<Rightarrow> nat" where
  "varint_bertag_len val = prefixed_len val 5 True"

definition varint_bertag_put :: "bytes \<Rightarrow> nat \<Rightarrow> int \<Rightarrow> (bytes \<times> nat) res" where
  "varint_bertag_put out a val = prefixed_put out a val 5 True"

section \<open>Each form is a codec\<close>

lemma prefixed_get_cases:
  "prefixed_get d a p bg max_bytes =
     (if length d \<le> a then None
      else if uint (d ! a) mod 2 ^ p \<noteq> 2 ^ p - 1 then Some (uint (d ! a) mod 2 ^ p, 1)
      else prefixed_get_loop d a (2 ^ p - 1) bg (min max_bytes (length d - a) - 1) 1 0)"
  by (simp add: prefixed_get_def Let_def push_bit_eq_mult int_and_mask)

lemma prefixed_get_loop_short:
  "prefixed_get_loop d a ones bg k i acc = Some (v, n) \<Longrightarrow> i + k' < n \<Longrightarrow>
   \<forall>j. i \<le> j \<and> j < i + k' \<longrightarrow> d' ! (a + j) = d ! (a + j) \<Longrightarrow>
   prefixed_get_loop d' a ones bg k' i acc = None"
proof (induction k' arbitrary: i acc k)
  case (Suc k')
  obtain l where k: "k = Suc l" using Suc.prems(1) by (cases k) auto
  have "d' ! (a + i) = d ! (a + i)" using Suc.prems(3) by simp
  then show ?case
    using Suc.prems Suc.IH [of l "i + 1"]
    by (auto simp: k Let_def split: if_splits)
qed simp

lemma prefixed_codec:
  "varint_codec (\<lambda>d a. prefixed_get d a p bg max_bytes) (\<lambda>out a v. prefixed_put out a v p bg)
     (\<lambda>v. prefixed_len v p bg) (prefixed_valid p bg max_bytes)"
proof
  fix v :: int and a :: nat and out :: bytes
  assume v: "prefixed_valid p bg max_bytes v"
  then have v': "p \<le> 8" "0 \<le> v" by (auto simp: prefixed_valid_def)
  show "a + prefixed_len v p bg \<le> length out \<Longrightarrow> \<exists>bs. length bs = prefixed_len v p bg \<and>
      prefixed_put out a v p bg = Inr (splice out a bs, prefixed_len v p bg) \<and>
      prefixed_get (splice out a bs) a p bg max_bytes = Some (v, prefixed_len v p bg)"
    using prefixed_put_bytes [OF v', of a bg out] prefixed_get_bytes [OF v, of a out]
      length_prefixed_bytes [OF v'(2)]
    by (intro exI [of _ "prefixed_bytes p bg (out ! a) v"]) simp
  show "length out < a + prefixed_len v p bg \<Longrightarrow> prefixed_put out a v p bg = Inr (out, 0)"
    by (simp add: prefixed_put_def Let_def)
next
  fix d d' :: bytes and a n c :: nat and v :: int
  assume g: "prefixed_get d a p bg max_bytes = Some (v, n)"
  have a: "a < length d" using g by (auto simp: prefixed_get_cases split: if_splits)
  have *: "(0 < n \<and> a + n \<le> length d \<and> prefixed_len v p bg \<le> n)
    \<and> (a + n \<le> length d' \<longrightarrow> slice d' a n = slice d a n \<longrightarrow>
        prefixed_get d' a p bg max_bytes = Some (v, n))
    \<and> (c < n \<longrightarrow> prefixed_get (take (a + c) d) a p bg max_bytes = None)"
  proof (cases "uint (d ! a) mod 2 ^ p = 2 ^ p - 1")
    case False
    have "uint (d ! a) mod 2 ^ p < 2 ^ p" by simp
    with False have "uint (d ! a) mod 2 ^ p < 2 ^ p - 1" by linarith
    moreover have "v = uint (d ! a) mod 2 ^ p" "n = 1"
      using g False by (simp_all add: prefixed_get_cases split: if_splits)
    ultimately show ?thesis
      using a False
      by (auto simp: prefixed_get_cases prefixed_len_eq slice_eq_iff)
  next
    case True
    let ?k = "min max_bytes (length d - a) - 1"
    have loop: "prefixed_get_loop d a (2 ^ p - 1) bg ?k 1 0 = Some (v, n)"
      using g True by (simp add: prefixed_get_cases split: if_splits)
    obtain gs where gs: "\<forall>g \<in> set gs. is_group g" "gs \<noteq> []" "length gs \<le> ?k" "n = 1 + length gs"
      "v = group_value bg 1 0 gs + (if bg then 0 else 2 ^ p - 1)" "v < 2 ^ 64"
      "\<forall>j < length gs. d ! (a + 1 + j) = flagged gs ! j"
      using prefixed_get_loop_SomeE [OF loop] by auto
    have "0 < length gs" using gs(2) by simp
    then have ext: "a + n \<le> length d" "n \<le> max_bytes" using gs(3,4) a by linarith+
    have "prefixed_len v p bg \<le> length gs + 1"
    proof (rule prefixed_len_le)
      show "0 \<le> prefixed_rest p bg v" "prefixed_rest p bg v < 2 ^ (7 * length gs)"
        using group_value_bounds [of 1 0 gs bg] gs(1,5) by (auto simp: prefixed_rest_def)
    qed (use gs(2) in simp)
    moreover have "prefixed_get d' a p bg max_bytes = Some (v, n)"
      if l: "a + n \<le> length d'" and same: "slice d' a n = slice d a n"
    proof -
      have at: "d' ! (a + j) = d ! (a + j)" if "j < n" for j
        using same l ext that by (simp add: slice_eq_iff)
      have "prefixed_get_loop d' a (2 ^ p - 1) bg (min max_bytes (length d' - a) - 1) 1 0
          = Some (group_value bg 1 0 gs + (if bg then 0 else 2 ^ p - 1), 1 + length gs)"
      proof (rule prefixed_get_loop_flagged)
        show "\<forall>j < length gs. d' ! (a + 1 + j) = flagged gs ! j"
          using gs(4,7) at [of "1 + j" for j] by (auto simp: add.assoc)
      qed (use gs l ext in auto)
      then show ?thesis
        using l gs(4,5) True at [of 0] by (simp add: prefixed_get_cases)
    qed
    moreover have "prefixed_get (take (a + c) d) a p bg max_bytes = None" if c: "c < n"
    proof (cases c)
      case (Suc c')
      have "prefixed_get_loop (take (a + c) d) a (2 ^ p - 1) bg
          (min max_bytes (length (take (a + c) d) - a) - 1) 1 0 = None"
        using c Suc ext by (intro prefixed_get_loop_short [OF loop]) auto
      then show ?thesis using True Suc by (simp add: prefixed_get_cases)
    qed (simp add: prefixed_get_cases)
    ultimately show ?thesis using gs(4) ext by simp
  qed
  show "0 < n \<and> a + n \<le> length d \<and> prefixed_len v p bg \<le> n" using * by blast
  show "a + n \<le> length d' \<Longrightarrow> slice d' a n = slice d a n \<Longrightarrow>
      prefixed_get d' a p bg max_bytes = Some (v, n)" using * by blast
  show "c < n \<Longrightarrow> prefixed_get (take (a + c) d) a p bg max_bytes = None" using * by blast
qed

interpretation hpack: varint_codec "\<lambda>d a. varint_hpack_get d a prefix max_bytes"
  "\<lambda>out a v. varint_hpack_put out a v prefix" "\<lambda>v. varint_hpack_len v prefix"
  "prefixed_valid prefix False max_bytes" for prefix max_bytes
  unfolding varint_hpack_get_def varint_hpack_put_def varint_hpack_len_def
  by (rule prefixed_codec)

interpretation bertag: varint_codec "\<lambda>d a. varint_bertag_get d a max_bytes" varint_bertag_put
  varint_bertag_len "prefixed_valid 5 True max_bytes" for max_bytes
  unfolding varint_bertag_get_def varint_bertag_put_def varint_bertag_len_def
  by (rule prefixed_codec)

section \<open>Properties\<close>

text \<open>
  the prefixed forms (HPACK integers of any prefix up to eight bits, BER tag numbers) round trip
  over the 64-bit values: no raise, 0 and no change for want of room, otherwise the encoding of
  \<open>_prefixed_len\<close> bytes that decodes to the same value and count and leaves the bits of the first
  byte above the prefix, and every byte outside, as they were.
\<close>

theorem prefixed_roundtrip:
  assumes "prefix \<le> 8" and "0 \<le> v" and "v < 2 ^ 64" and "prefixed_len v prefix bg \<le> max_bytes"
  shows "if length out < a + prefixed_len v prefix bg then prefixed_put out a v prefix bg = Inr (out, 0)
    else \<exists>out'. prefixed_put out a v prefix bg = Inr (out', prefixed_len v prefix bg)
       \<and> prefixed_get out' a prefix bg max_bytes = Some (v, prefixed_len v prefix bg)
       \<and> length out' = length out
       \<and> uint (out' ! a) div 2 ^ prefix = uint (out ! a) div 2 ^ prefix
       \<and> (\<forall>i < length out. i < a \<or> a + prefixed_len v prefix bg \<le> i \<longrightarrow> out' ! i = out ! i)"
proof (cases "length out < a + prefixed_len v prefix bg")
  case True
  then show ?thesis by (simp add: prefixed_put_def Let_def)
next
  case False
  let ?bs = "prefixed_bytes prefix bg (out ! a) v"
  have v: "prefixed_valid prefix bg max_bytes v" using assms by (simp add: prefixed_valid_def)
  have len: "length ?bs = prefixed_len v prefix bg" by (rule length_prefixed_bytes [OF assms(2)])
  have pos: "0 < prefixed_len v prefix bg" by (simp add: prefixed_len_eq)
  have "uint (?bs ! 0) div 2 ^ prefix = uint (out ! a) div 2 ^ prefix"
    using assms(1,2) merge_low_parts(2) [of v prefix "out ! a"]
      merge_low_parts(2) [of "2 ^ prefix - 1" prefix "out ! a"]
    by (simp add: prefixed_bytes_def)
  then show ?thesis
    using False prefixed_put_bytes [OF assms(1,2), of a bg out] prefixed_get_bytes [OF v, of a out] len pos
    by (intro if_not_P [THEN iffD2] exI [of _ "splice out a ?bs"] conjI) (auto simp: nth_splice)
qed

theorem prefixed_roundtrip_witness:
  "\<exists>out'. prefixed_put [0x40, 0, 0, 9] 0 1337 5 False = Inr (out', 3)
     \<and> prefixed_get out' 0 5 False 10 = Some (1337, 3) \<and> out' ! 3 = 9 \<and> uint (out' ! 0) div 2 ^ 5 = 2"
proof -
  have "prefixed_len 1337 5 False = 3" by code_simp
  then show ?thesis using prefixed_roundtrip [of 5 1337 False 10 "[0x40, 0, 0, 9]" 0] by auto
qed

end
