(* ===== verification/Runtime_Scan.thy ===== *)
theory Runtime_Scan
  imports Situ_Prelude
begin

text \<open>
  Offsets and delimiters of \<open>runtime/python/situ_runtime.py\<close>: the bounded leaves of a size
  expression, \<open>advance\<close>, \<open>pad_to\<close> and \<open>align_up\<close>, the summed run, and the scans that find where
  a delimited member stops.  Buffer lengths and limits are natural numbers (generated code passes
  \<open>len\<close> results and clamped offsets); the numbers a message supplies are \<open>int\<close>.
\<close>

section \<open>Size arithmetic\<close>

definition LEAF_MAX :: int where
  "LEAF_MAX = 0x7FFFFFFF"

definition leaf :: "int \<Rightarrow> int" where
  "leaf val = max (- LEAF_MAX) (min val LEAF_MAX)"

definition nonneg :: "int \<Rightarrow> int" where
  "nonneg val = (if val \<le> 0 then 0 else if 0xFFFFFFFF < val then 0xFFFFFFFF else val)"

fun sum_run_loop :: "bytes \<Rightarrow> nat \<Rightarrow> bool \<Rightarrow> nat \<Rightarrow> nat \<Rightarrow> int \<Rightarrow> int" where
  "sum_run_loop data width big 0 i tot = tot"
| "sum_run_loop data width big (Suc k) i tot =
     sum_run_loop data width big k (i + 1) (tot + from_bytes big False (slice data (i * width) width))"

definition sum_run :: "bytes \<Rightarrow> int \<Rightarrow> nat \<Rightarrow> bool \<Rightarrow> int \<Rightarrow> int res" where
  "sum_run data count width big room =
     (if width = 0 then Inl PyZeroDivisionError
      else let n = nat (min count (max room 0 div int width))
           in Inr (min (sum_run_loop data width big n 0 0) 0xFFFFFFFF))"

definition advance :: "int \<Rightarrow> int \<Rightarrow> int \<Rightarrow> int" where
  "advance a amount limit =
     (let room = (if a < limit then limit - a else 0)
      in a + (if amount < room then amount else room))"

definition pad_to :: "int \<Rightarrow> int \<Rightarrow> int res" where
  "pad_to a n = (if n = 0 then Inl PyZeroDivisionError else Inr ((n - a mod n) mod n))"

definition align_up :: "int \<Rightarrow> int \<Rightarrow> int \<Rightarrow> int res" where
  "align_up a n limit = bindE (pad_to a n) (\<lambda>p. Inr (advance a p limit))"

section \<open>Finding delimiters\<close>

definition NO_BYTE :: int where
  "NO_BYTE = -1"

text \<open>\<open>bytes.find\<close>: the first index at which \<open>pat\<close> stands in \<open>raw\<close>.\<close>

fun find_sub :: "bytes \<Rightarrow> bytes \<Rightarrow> nat option" where
  "find_sub pat raw =
     (if take (length pat) raw = pat then Some 0
      else case raw of [] \<Rightarrow> None | _ # rest \<Rightarrow> map_option Suc (find_sub pat rest))"

declare find_sub.simps [simp del]

definition nul_len :: "bytes \<Rightarrow> nat \<Rightarrow> nat" where
  "nul_len data capacity =
     (case find_sub [0] (take capacity data) of None \<Rightarrow> capacity | Some e \<Rightarrow> e)"

fun skip_run_loop :: "int list \<Rightarrow> nat \<Rightarrow> bytes \<Rightarrow> nat option" where
  "skip_run_loop lead i [] = None"
| "skip_run_loop lead i (b # bs) =
     (if uint b \<notin> set lead then Some i else skip_run_loop lead (i + 1) bs)"

definition skip_run :: "bytes \<Rightarrow> nat \<Rightarrow> int list \<Rightarrow> nat" where
  "skip_run data limit lead =
     (let raw = take limit data
      in case skip_run_loop lead 0 raw of Some i \<Rightarrow> i | None \<Rightarrow> length raw)"

fun scan_any_loop :: "bytes \<Rightarrow> nat \<Rightarrow> bytes list \<Rightarrow> nat \<times> nat \<Rightarrow> nat \<times> nat" where
  "scan_any_loop raw limit [] (found, took) = (found, took)"
| "scan_any_loop raw limit (one # delims) (found, took) =
     scan_any_loop raw limit delims
       (if one = [] \<or> limit < length one then (found, took)
        else case find_sub one raw of
          None \<Rightarrow> (found, took)
        | Some a \<Rightarrow> if found < a then (found, took)
                   else if a < found \<or> took < length one then (a, length one)
                   else (found, took))"

definition scan_any :: "bytes \<Rightarrow> nat \<Rightarrow> bytes list \<Rightarrow> nat \<times> nat" where
  "scan_any data limit delims =
     (let (found, took) = scan_any_loop (take limit data) limit delims (limit, 0)
      in if took \<noteq> 0 then (found, took) else (limit, 0))"

function scan_loop :: "bytes \<Rightarrow> nat \<Rightarrow> bytes \<Rightarrow> int \<Rightarrow> int \<Rightarrow> nat \<Rightarrow> bool \<Rightarrow> nat res" where
  "scan_loop raw limit delim quote escape i quoted =
     (if \<not> i + length delim \<le> limit then Inr limit
      else if length raw \<le> i then Inl PyIndexError
      else let byte = uint (raw ! i)
           in if escape \<noteq> NO_BYTE \<and> byte = escape then scan_loop raw limit delim quote escape (i + 2) quoted
              else if quote \<noteq> NO_BYTE \<and> byte = quote then
                scan_loop raw limit delim quote escape (i + 1) (\<not> quoted)
              else if \<not> quoted \<and> slice raw i (length delim) = delim then Inr i
              else scan_loop raw limit delim quote escape (i + 1) quoted)"
  by pat_completeness auto
termination
  by (relation "measure (\<lambda>(raw, limit, delim, quote, escape, i, quoted). Suc limit - i)")
    (auto simp: Suc_diff_le)

declare scan_loop.simps [simp del]

definition scan :: "bytes \<Rightarrow> nat \<Rightarrow> bytes \<Rightarrow> int \<Rightarrow> int \<Rightarrow> nat res" where
  "scan data limit delim quote escape =
     (let raw = take limit data in
      if delim = [] \<or> limit < length delim then Inr limit
      else if quote = NO_BYTE \<and> escape = NO_BYTE then
        (case find_sub delim raw of None \<Rightarrow> Inr limit | Some found \<Rightarrow> Inr found)
      else scan_loop raw limit delim quote escape 0 False)"

section \<open>Trimming\<close>

text \<open>\<open>bytes.strip\<close>: the bytes of the set removed from both ends.\<close>

definition OWS :: bytes where
  "OWS = [0x20, 0x09]"

definition trim :: "bytes \<Rightarrow> bytes \<Rightarrow> bytes" where
  "trim data chars =
     (let in_set = (\<lambda>b. b \<in> set chars)
      in rev (dropWhile in_set (rev (dropWhile in_set data))))"

section \<open>Facts about the substring search\<close>

definition stands :: "bytes \<Rightarrow> bytes \<Rightarrow> nat \<Rightarrow> bool" where
  "stands pat raw i \<longleftrightarrow> slice raw i (length pat) = pat"

lemma stands_Suc [simp]: "stands pat (b # raw) (Suc i) \<longleftrightarrow> stands pat raw i"
  by (simp add: stands_def slice_def)

lemma stands_0: "stands pat raw 0 \<longleftrightarrow> take (length pat) raw = pat"
  by (simp add: stands_def slice_def)

lemma stands_extent: "stands pat raw i \<Longrightarrow> pat \<noteq> [] \<Longrightarrow> i + length pat \<le> length raw"
proof -
  assume "stands pat raw i" and ne: "pat \<noteq> []"
  then have "min (length pat) (length raw - i) = length pat" "0 < length pat"
    unfolding stands_def by (metis length_slice) (simp add: ne)
  then show ?thesis by linarith
qed

lemma find_sub_Some:
  "find_sub pat raw = Some i \<longleftrightarrow> stands pat raw i \<and> (\<forall>j < i. \<not> stands pat raw j) \<and> i \<le> length raw"
proof (induction raw arbitrary: i)
  case Nil
  then show ?case by (auto simp: find_sub.simps stands_def slice_def)
next
  case (Cons b raw)
  show ?case
  proof (cases i)
    case 0
    then show ?thesis
      by (simp add: find_sub.simps [of pat "b # raw"] stands_0)
  next
    case (Suc j)
    have "(\<forall>k < Suc j. \<not> stands pat (b # raw) k)
        \<longleftrightarrow> \<not> stands pat (b # raw) 0 \<and> (\<forall>k < j. \<not> stands pat raw k)"
      by (auto simp: less_Suc_eq_0_disj)
    then show ?thesis
      using Suc Cons.IH [of j] by (auto simp: find_sub.simps [of pat "b # raw"] stands_0)
  qed
qed

lemma find_sub_None:
  assumes "pat \<noteq> []"
  shows "find_sub pat raw = None \<longleftrightarrow> (\<forall>i. \<not> stands pat raw i)"
proof
  assume none: "find_sub pat raw = None"
  show "\<forall>i. \<not> stands pat raw i"
  proof (rule ccontr)
    assume "\<not> ?thesis"
    then obtain i where i: "stands pat raw i" "\<forall>j < i. \<not> stands pat raw j"
      by (metis exists_least_iff)
    then have "i \<le> length raw" using stands_extent [OF _ assms] by fastforce
    with i none show False using find_sub_Some [of pat raw i] by simp
  qed
next
  assume "\<forall>i. \<not> stands pat raw i"
  then show "find_sub pat raw = None" using find_sub_Some [of pat raw] by (cases "find_sub pat raw") auto
qed

text \<open>A cut buffer holds the occurrences that end within the cut.\<close>

lemma stands_take:
  "pat \<noteq> [] \<Longrightarrow> stands pat (take n raw) i \<longleftrightarrow> stands pat raw i \<and> i + length pat \<le> n"
  using stands_extent [of pat "take n raw" i]
  by (auto simp: stands_def slice_def drop_take min_def split: if_splits)

section \<open>Facts about the scans\<close>

text \<open>The slow path never indexes past a buffer that holds the limit.\<close>

lemma scan_loop_total:
  "limit \<le> length raw \<Longrightarrow> delim \<noteq> [] \<Longrightarrow> i \<le> limit + 1 \<Longrightarrow>
   \<exists>r. scan_loop raw limit delim quote escape i quoted = Inr r \<and>
     (r < limit \<longrightarrow> i \<le> r \<and> stands delim raw r \<and> r + length delim \<le> limit) \<and> r \<le> limit"
proof (induction raw limit delim quote escape i quoted rule: scan_loop.induct)
  case (1 raw limit delim quote escape i quoted)
  show ?case
  proof (cases "i + length delim \<le> limit")
    case False
    then show ?thesis by (simp add: scan_loop.simps [of raw limit delim])
  next
    case True
    have pos: "0 < length delim" using 1(5) by simp
    then have i: "\<not> length raw \<le> i" "i + 1 \<le> limit + 1" "i + 2 \<le> limit + 1" using True 1(4) by linarith+
    consider (esc) "escape \<noteq> NO_BYTE \<and> uint (raw ! i) = escape"
      | (quo) "\<not> (escape \<noteq> NO_BYTE \<and> uint (raw ! i) = escape)" "quote \<noteq> NO_BYTE \<and> uint (raw ! i) = quote"
      | (hit) "\<not> (escape \<noteq> NO_BYTE \<and> uint (raw ! i) = escape)" "\<not> (quote \<noteq> NO_BYTE \<and> uint (raw ! i) = quote)"
          "\<not> quoted \<and> slice raw i (length delim) = delim"
      | (step) "\<not> (escape \<noteq> NO_BYTE \<and> uint (raw ! i) = escape)" "\<not> (quote \<noteq> NO_BYTE \<and> uint (raw ! i) = quote)"
          "\<not> (\<not> quoted \<and> slice raw i (length delim) = delim)"
      by blast
    then show ?thesis
    proof cases
      case esc
      have nn: "\<not> \<not> i + length delim \<le> limit" using True by simp
      have "\<exists>r. scan_loop raw limit delim quote escape (i + 2) quoted = Inr r \<and>
          (r < limit \<longrightarrow> i + 2 \<le> r \<and> stands delim raw r \<and> r + length delim \<le> limit) \<and> r \<le> limit"
        by (rule 1(1) [OF nn i(1) refl esc 1(4,5) i(3)])
      then show ?thesis
        using esc True i(1) by (subst scan_loop.simps) (auto simp: Let_def)
    next
      case quo
      have nn: "\<not> \<not> i + length delim \<le> limit" using True by simp
      have "\<exists>r. scan_loop raw limit delim quote escape (i + 1) (\<not> quoted) = Inr r \<and>
          (r < limit \<longrightarrow> i + 1 \<le> r \<and> stands delim raw r \<and> r + length delim \<le> limit) \<and> r \<le> limit"
        by (rule 1(2) [OF nn i(1) refl quo 1(4,5) i(2)])
      then show ?thesis
        using quo True i(1) by (subst scan_loop.simps) (auto simp: Let_def)
    next
      case hit
      then show ?thesis
        using True i(1) by (subst scan_loop.simps) (auto simp: Let_def stands_def)
    next
      case step
      have nn: "\<not> \<not> i + length delim \<le> limit" using True by simp
      have "\<exists>r. scan_loop raw limit delim quote escape (i + 1) quoted = Inr r \<and>
          (r < limit \<longrightarrow> i + 1 \<le> r \<and> stands delim raw r \<and> r + length delim \<le> limit) \<and> r \<le> limit"
        by (rule 1(3) [OF nn i(1) refl step 1(4,5) i(2)])
      then show ?thesis
        using step True i(1) by (subst scan_loop.simps) (auto simp: Let_def)
    qed
  qed
qed

text \<open>Where neither byte occurs, the slow path is the fast one.\<close>

lemma scan_loop_plain:
  "limit \<le> length raw \<Longrightarrow> delim \<noteq> [] \<Longrightarrow> \<forall>b \<in> set raw. uint b \<noteq> quote \<and> uint b \<noteq> escape \<Longrightarrow>
   scan_loop raw limit delim quote escape i False =
     Inr (case find_sub delim (drop i (take limit raw)) of None \<Rightarrow> limit | Some j \<Rightarrow> i + j)"
proof (induction "limit - i" arbitrary: i)
  case 0
  then have "\<not> i + length delim \<le> limit" "drop i (take limit raw) = []"
    by (cases delim; auto)+
  then show ?case using 0(3) by (simp add: scan_loop.simps [of raw limit] find_sub.simps)
next
  case (Suc n)
  then have i: "i < limit" "i < length raw" by linarith+
  then have plain: "uint (raw ! i) \<noteq> quote" "uint (raw ! i) \<noteq> escape" using Suc.prems(3) by auto
  let ?rest = "drop i (take limit raw)"
  have rest: "?rest = raw ! i # drop (i + 1) (take limit raw)"
    using i by (simp add: Cons_nth_drop_Suc [symmetric])
  show ?case
  proof (cases "i + length delim \<le> limit")
    case False
    have "\<not> stands delim ?rest j" for j
    proof
      assume "stands delim ?rest j"
      then have "j + length delim \<le> limit - i"
        using stands_extent [OF _ Suc.prems(2), of ?rest j] Suc.prems(1) by simp
      with False i(1) show False by linarith
    qed
    then show ?thesis
      using False find_sub_None [OF Suc.prems(2), of ?rest] by (simp add: scan_loop.simps [of raw limit])
  next
    case True
    have hit: "slice raw i (length delim) = delim \<longleftrightarrow> take (length delim) ?rest = delim"
      using True by (simp add: slice_def drop_take min_def)
    have IH: "scan_loop raw limit delim quote escape (i + 1) False =
        Inr (case find_sub delim (drop (i + 1) (take limit raw)) of None \<Rightarrow> limit | Some j \<Rightarrow> i + 1 + j)"
      by (rule Suc.hyps(1)) (use Suc.hyps(2) Suc.prems in auto)
    show ?thesis
    proof (cases "slice raw i (length delim) = delim")
      case True
      then show ?thesis
        using hit i plain \<open>i + length delim \<le> limit\<close>
        by (simp add: scan_loop.simps [of raw limit delim quote escape i] find_sub.simps [of delim ?rest])
    next
      case False
      then have "find_sub delim ?rest = map_option Suc (find_sub delim (drop (i + 1) (take limit raw)))"
        using hit rest by (subst find_sub.simps) (simp split: list.split)
      moreover have "scan_loop raw limit delim quote escape i False
          = scan_loop raw limit delim quote escape (i + 1) False"
        using False i plain \<open>i + length delim \<le> limit\<close>
        by (simp add: scan_loop.simps [of raw limit delim quote escape i])
      ultimately show ?thesis using IH by (simp split: option.split)
    qed
  qed
qed

text \<open>The alternatives: the loop keeps the best match seen so far.\<close>

definition best_match :: "bytes \<Rightarrow> bytes list \<Rightarrow> nat \<Rightarrow> nat \<Rightarrow> bool" where
  "best_match raw ds off tk \<longleftrightarrow>
     (\<exists>d \<in> set ds. d \<noteq> [] \<and> length d = tk \<and> stands d raw off)
     \<and> (\<forall>d \<in> set ds. \<forall>i. d \<noteq> [] \<and> stands d raw i \<longrightarrow> off \<le> i \<and> (i = off \<longrightarrow> length d \<le> tk))"

definition best_so_far :: "bytes \<Rightarrow> nat \<Rightarrow> bytes list \<Rightarrow> nat \<times> nat \<Rightarrow> bool" where
  "best_so_far raw limit ds st \<longleftrightarrow> (case st of (off, tk) \<Rightarrow>
     if tk = 0 then off = limit \<and> (\<forall>d \<in> set ds. \<forall>i. d \<noteq> [] \<longrightarrow> \<not> stands d raw i)
     else best_match raw ds off tk)"

lemma stands_unique_length:
  "stands d raw i \<Longrightarrow> stands e raw i \<Longrightarrow> length d = length e \<Longrightarrow> d = e"
  by (simp add: stands_def)

lemma best_so_far_step:
  assumes "best_so_far raw limit ds (found, took)" and raw: "length raw \<le> limit"
  shows "best_so_far raw limit (ds @ [one])
    (if one = [] \<or> limit < length one then (found, took)
     else case find_sub one raw of None \<Rightarrow> (found, took)
     | Some a \<Rightarrow> if found < a then (found, took)
                else if a < found \<or> took < length one then (a, length one) else (found, took))"
proof (cases "one = [] \<or> limit < length one")
  case True
  then have "one \<noteq> [] \<Longrightarrow> \<not> stands one raw i" for i
    using stands_extent [of one raw i] raw by fastforce
  with True show ?thesis
    using assms(1) by (auto simp: best_so_far_def best_match_def)
next
  case False
  show ?thesis
  proof (cases "find_sub one raw")
    case None
    then have "\<not> stands one raw i" for i using find_sub_None False by blast
    then show ?thesis
      using None False assms(1) by (auto simp: best_so_far_def best_match_def)
  next
    case (Some a)
    then have a: "stands one raw a" "\<And>j. stands one raw j \<Longrightarrow> a \<le> j"
      using find_sub_Some [of one raw a] by (auto simp: linorder_not_less [symmetric])
    have "a + length one \<le> length raw" using stands_extent [OF a(1)] False by simp
    moreover have "0 < length one" using False by simp
    ultimately have lt: "a < limit" using raw by linarith
    show ?thesis
    proof (cases "took = 0")
      case True
      then show ?thesis
        using assms(1) Some a lt False by (auto simp: best_so_far_def best_match_def)
    next
      case took: False
      then have best: "best_match raw ds found took" using assms(1) by (simp add: best_so_far_def)
      show ?thesis
        using best Some a took False
        by (auto simp: best_so_far_def best_match_def) (force dest: a(2))+
    qed
  qed
qed

lemma scan_any_loop_best:
  "best_so_far raw limit ds st \<Longrightarrow> length raw \<le> limit \<Longrightarrow>
   best_so_far raw limit (ds @ delims) (scan_any_loop raw limit delims st)"
proof (induction delims arbitrary: ds st)
  case (Cons one delims)
  obtain found took where st: "st = (found, took)" by (cases st)
  from Cons.IH [OF best_so_far_step [OF Cons.prems(1) [unfolded st] Cons.prems(2), of one] Cons.prems(2)]
  show ?case by (simp add: st)
next
  case Nil
  then show ?case by (cases st) simp
qed

lemma sum_run_loop_ge: "tot \<le> sum_run_loop data width big k i tot"
proof (induction k arbitrary: i tot)
  case (Suc k)
  have "tot \<le> tot + from_bytes big False (slice data (i * width) width)" by simp
  also have "\<dots> \<le> sum_run_loop data width big (Suc k) i tot" using Suc.IH by simp
  finally show ?case .
qed simp

section \<open>Properties\<close>

text \<open>
  the offset arithmetic of generated accessors stays inside the frame.  Whatever length a
  message supplies, \<open>advance\<close> by its \<open>nonneg\<close> reading moves forward by that much or stops at the
  limit, never back and never past it; \<open>pad_to\<close> is the least padding to a multiple of \<open>n\<close>; and
  \<open>align_up\<close> is that multiple or the limit, whichever comes first.
\<close>

theorem offset_arithmetic:
  assumes "0 \<le> a" and "a \<le> limit" and "0 < n"
  shows "advance a (nonneg e) limit = min (a + nonneg e) limit \<and> a \<le> advance a (nonneg e) limit
    \<and> 0 \<le> nonneg e \<and> nonneg e < 2 ^ 32
    \<and> (\<exists>p. pad_to a n = Inr p \<and> 0 \<le> p \<and> p < n \<and> n dvd (a + p)
          \<and> (\<forall>q. 0 \<le> q \<and> q < p \<longrightarrow> \<not> n dvd (a + q))
          \<and> align_up a n limit = Inr (min (a + p) limit))"
proof -
  have adv: "advance a p limit = min (a + p) limit" if "0 \<le> p" for p
    using assms(2) that by (auto simp: advance_def Let_def)
  define p where "p = (n - a mod n) mod n"
  have r: "0 \<le> a mod n" "a mod n < n" using assms(3) by simp_all
  have p: "p = (if a mod n = 0 then 0 else n - a mod n)"
  proof (cases "a mod n = 0")
    case False
    then have "(n - a mod n) mod n = n - a mod n" using r by (intro mod_pos_pos_trivial) linarith+
    with False show ?thesis by (simp add: p_def)
  qed (simp add: p_def)
  have a: "a = a div n * n + a mod n" by simp
  have div: "n dvd (a + p)"
  proof (cases "a mod n = 0")
    case False
    then have "p = n - a mod n" using p by simp
    then have "a + p = a div n * n + n" using a by linarith
    also have "\<dots> = (a div n + 1) * n" by (simp only: distrib_right mult_1_left)
    finally have "a + p = (a div n + 1) * n" .
    then show ?thesis by simp
  qed (use p in auto)
  have least: "\<not> n dvd (a + q)" if "0 \<le> q" "q < p" for q
  proof -
    have nz: "a mod n \<noteq> 0" using that p by auto
    then have "(a + q) mod n = a mod n + q"
      using that r p by (subst mod_add_left_eq [symmetric]) simp
    then show ?thesis using nz r that(1) by (simp add: dvd_eq_mod_eq_0)
  qed
  have "pad_to a n = Inr p" using assms(3) by (simp add: pad_to_def p_def)
  moreover have "0 \<le> p" "p < n" using p r by (auto split: if_splits)
  moreover have "0 \<le> nonneg e" "nonneg e < 2 ^ 32" by (auto simp: nonneg_def)
  ultimately show ?thesis
    using adv [of "nonneg e"] adv [of p] assms(2) div least by (auto simp: align_up_def)
qed

theorem offset_arithmetic_witness:
  "advance 34 (nonneg 0xFFFF) 62 = 62 \<and> align_up 34 4 62 = Inr 36"
proof -
  have "pad_to 34 4 = Inr 2" "nonneg 0xFFFF = 0xFFFF" by (simp_all add: pad_to_def nonneg_def)
  then show ?thesis using offset_arithmetic [of 34 62 4 "0xFFFF"] by auto
qed

text \<open>
  \<open>scan\<close> over a buffer that holds the limit never raises, answers at most the limit, and where
  it answers less the delimiter stands there within the limit.  Where the quote and the escape
  byte are off or do not occur in the buffer, that is the first place the delimiter stands, and the
  limit means it stands nowhere: the byte walk then agrees with the fast path's \<open>find\<close>.
\<close>

theorem scan_finds:
  assumes "limit \<le> length data" and "delim \<noteq> []"
  shows "\<exists>r. scan data limit delim quote escape = Inr r \<and> r \<le> limit
    \<and> (r < limit \<longrightarrow> stands delim data r \<and> r + length delim \<le> limit)
    \<and> ((\<forall>b \<in> set data. uint b \<noteq> quote \<and> uint b \<noteq> escape) \<longrightarrow>
        scan data limit delim quote escape = scan data limit delim NO_BYTE NO_BYTE
        \<and> (\<forall>i < r. i + length delim \<le> limit \<longrightarrow> \<not> stands delim data i))"
proof (cases "limit < length delim")
  case True
  then show ?thesis by (auto simp: scan_def Let_def intro!: exI [of _ limit])
next
  case False
  let ?raw = "take limit data"
  have raw: "limit \<le> length ?raw" using assms(1) by simp
  define plain where "plain = (case find_sub delim ?raw of None \<Rightarrow> limit | Some f \<Rightarrow> f)"
  have fast: "scan data limit delim NO_BYTE NO_BYTE = Inr plain"
    using False assms(2) by (simp add: scan_def Let_def plain_def split: option.split)
  have ps: "plain \<le> limit \<and> (plain < limit \<longrightarrow> stands delim data plain \<and> plain + length delim \<le> limit)
      \<and> (\<forall>i < plain. i + length delim \<le> limit \<longrightarrow> \<not> stands delim data i)"
  proof (cases "find_sub delim ?raw")
    case None
    then show ?thesis
      using find_sub_None [OF assms(2), of ?raw] stands_take [OF assms(2), of limit data]
      by (auto simp: plain_def)
  next
    case (Some f)
    then show ?thesis
      using find_sub_Some [of delim ?raw f] stands_take [OF assms(2), of limit data]
      by (auto simp: plain_def)
  qed
  show ?thesis
  proof (cases "quote = NO_BYTE \<and> escape = NO_BYTE")
    case True
    then show ?thesis using fast ps by auto
  next
    case slow: False
    have sl: "scan data limit delim quote escape = scan_loop ?raw limit delim quote escape 0 False"
      using slow False assms(2) by (auto simp: scan_def Let_def)
    obtain r where r: "scan_loop ?raw limit delim quote escape 0 False = Inr r" "r \<le> limit"
      "r < limit \<longrightarrow> stands delim ?raw r \<and> r + length delim \<le> limit"
      using scan_loop_total [OF raw assms(2), of 0 quote escape False] by auto
    have "r = plain" if "\<forall>b \<in> set data. uint b \<noteq> quote \<and> uint b \<noteq> escape"
    proof -
      have "\<forall>b \<in> set ?raw. uint b \<noteq> quote \<and> uint b \<noteq> escape"
        using that set_take_subset [of limit data] by blast
      from scan_loop_plain [OF raw assms(2) this, of 0] r(1) show ?thesis
        by (simp add: plain_def split: option.splits)
    qed
    then show ?thesis
      using sl r ps fast stands_take [OF assms(2), of limit data r] by (intro exI [of _ r]) auto
  qed
qed

theorem scan_finds_witness:
  "scan [0x22, 0x2C, 0x22, 0x2C, 0x31] 5 [0x2C] 0x22 NO_BYTE = Inr 3"
proof -
  have "scan [0x22, 0x2C, 0x22, 0x2C, 0x31] 5 [0x2C] 0x22 NO_BYTE = Inr 3" by code_simp
  moreover have "\<exists>r. scan [0x22, 0x2C, 0x22, 0x2C, 0x31] 5 [0x2C] 0x22 NO_BYTE = Inr r \<and> r \<le> 5"
    using scan_finds [where limit = 5 and data = "[0x22, 0x2C, 0x22, 0x2C, 0x31]" and delim = "[0x2C]"
        and quote = "0x22" and escape = NO_BYTE] by auto
  ultimately show ?thesis by blast
qed

text \<open>
  \<open>scan_any\<close> answers the earliest offset at which any alternative stands in the first
  \<open>limit\<close> bytes, with the length of the longest one standing there; it answers the limit and 0
  exactly when none stands anywhere.
\<close>

theorem scan_any_best:
  "case scan_any data limit delims of (off, took) \<Rightarrow>
     if took = 0 then off = limit \<and> (\<forall>d \<in> set delims. \<forall>i. d \<noteq> [] \<longrightarrow> \<not> stands d (take limit data) i)
     else (\<exists>d \<in> set delims. length d = took \<and> stands d (take limit data) off)
       \<and> (\<forall>d \<in> set delims. \<forall>i. d \<noteq> [] \<and> stands d (take limit data) i \<longrightarrow>
             off \<le> i \<and> (i = off \<longrightarrow> length d \<le> took))"
proof -
  have init: "best_so_far (take limit data) limit [] (limit, 0)" by (simp add: best_so_far_def)
  obtain off took where res: "scan_any_loop (take limit data) limit delims (limit, 0) = (off, took)"
    by (cases "scan_any_loop (take limit data) limit delims (limit, 0)")
  have "best_so_far (take limit data) limit delims (off, took)"
    using scan_any_loop_best [OF init, of delims] by (simp add: res)
  then show ?thesis
    by (auto simp: scan_any_def res best_so_far_def best_match_def)
qed

theorem scan_any_best_witness:
  "scan_any [0x31, 0x0D, 0x0A, 0x2C] 4 [[0x2C], [0x0D], [0x0D, 0x0A]] = (1, 2)
    \<and> stands [0x0D, 0x0A] (take 4 [0x31, 0x0D, 0x0A, 0x2C]) 1"
proof -
  have "scan_any [0x31, 0x0D, 0x0A, 0x2C] 4 [[0x2C], [0x0D], [0x0D, 0x0A]] = (1, 2)" by code_simp
  with scan_any_best [of 4 "[[0x2C], [0x0D], [0x0D, 0x0A]]" "[0x31, 0x0D, 0x0A, 0x2C]"]
  show ?thesis by auto
qed

end
