(* ===== verification/Runtime_Numbers.thy ===== *)
theory Runtime_Numbers
  imports Situ_Prelude
begin

text \<open>
  Numbers written as text in \<open>runtime/python/situ_runtime.py\<close>: \<open>parse_uint\<close>, \<open>parse_int\<close>,
  \<open>format_uint\<close>, \<open>format_int\<close>, \<open>digits_minimal\<close>, and binary coded decimal.

  \<open>parse_uint\<close> hands the bytes to Python's own \<open>int(text, radix)\<close>, whose language is larger
  than digits (surrounding space, a sign, a prefix, underscores) and which refuses more than 4300
  digits of a radix that is not a power of two; \<open>py_int\<close> is that language, and the radix
  is at least 2.
\<close>

section \<open>Python's \<open>int(text, radix)\<close>\<close>

definition c_space :: "byte \<Rightarrow> bool" where
  "c_space b \<longleftrightarrow> b = 0x20 \<or> 9 \<le> uint b \<and> uint b \<le> 13"

definition digit_val :: "byte \<Rightarrow> int option" where
  "digit_val b =
     (let c = uint b in
      if 0x30 \<le> c \<and> c \<le> 0x39 then Some (c - 0x30)
      else if 0x61 \<le> c \<and> c \<le> 0x7A then Some (c - 0x61 + 10)
      else if 0x41 \<le> c \<and> c \<le> 0x5A then Some (c - 0x41 + 10)
      else None)"

text \<open>
  Digits with single underscores between them: the value, the digits counted, and what follows.
  \<open>us\<close> says an underscore (or the start) is behind, where a digit has to come.
\<close>

fun py_digits :: "nat \<Rightarrow> bytes \<Rightarrow> int \<Rightarrow> nat \<Rightarrow> bool \<Rightarrow> (int \<times> nat \<times> bytes) option" where
  "py_digits base [] acc n us = (if us then None else Some (acc, n, []))"
| "py_digits base (b # bs) acc n us =
     (if b = 0x5F then (if us then None else py_digits base bs acc n True)
      else case digit_val b of
        Some d \<Rightarrow> if d < int base then py_digits base bs (acc * int base + d) (n + 1) False
                  else if us then None else Some (acc, n, b # bs)
      | None \<Rightarrow> if us then None else Some (acc, n, b # bs))"

definition strip_prefix :: "nat \<Rightarrow> bytes \<Rightarrow> bytes" where
  "strip_prefix base s = (case s of
     b # c # rest \<Rightarrow>
       if b = 0x30 \<and> (base = 16 \<and> (c = 0x78 \<or> c = 0x58) \<or> base = 8 \<and> (c = 0x6F \<or> c = 0x4F)
            \<or> base = 2 \<and> (c = 0x62 \<or> c = 0x42))
       then (case rest of u # rest' \<Rightarrow> if u = 0x5F then rest' else rest | [] \<Rightarrow> [])
       else s
   | _ \<Rightarrow> s)"

definition unlimited_base :: "nat \<Rightarrow> bool" where
  "unlimited_base base \<longleftrightarrow> base \<in> {2, 4, 8, 16, 32}"

definition py_int :: "bytes \<Rightarrow> nat \<Rightarrow> int option" where
  "py_int s base =
     (if base < 2 \<or> 36 < base then None
      else let s1 = dropWhile c_space s;
               neg = (case s1 of b # _ \<Rightarrow> b = 0x2D | [] \<Rightarrow> False);
               s2 = (case s1 of b # rest \<Rightarrow> if b = 0x2D \<or> b = 0x2B then rest else s1 | [] \<Rightarrow> [])
           in case py_digits base (strip_prefix base s2) 0 0 True of
                None \<Rightarrow> None
              | Some (v, n, rest) \<Rightarrow>
                  if \<not> list_all c_space rest then None
                  else if \<not> unlimited_base base \<and> 4300 < n then None
                  else Some (if neg then - v else v))"

section \<open>Parsing and formatting\<close>

definition DIGITS :: bytes where
  "DIGITS = [0x30, 0x31, 0x32, 0x33, 0x34, 0x35, 0x36, 0x37, 0x38, 0x39, 0x61, 0x62, 0x63, 0x64, 0x65, 0x66]"

definition lower_byte :: "byte \<Rightarrow> byte" where
  "lower_byte b = (if 0x41 \<le> uint b \<and> uint b \<le> 0x5A then byte_of (uint b + 0x20) else b)"

definition parse_uint :: "bytes \<Rightarrow> nat \<Rightarrow> int \<Rightarrow> int option" where
  "parse_uint raw radix limit =
     (if raw = [] then None
      else case (if list_all (\<lambda>b. uint b < 128) raw then py_int raw radix else None) of
        None \<Rightarrow> None
      | Some val \<Rightarrow>
          if \<not> list_all (\<lambda>b. b \<in> set (take radix DIGITS)) (map lower_byte raw) then None
          else if 0 \<le> val \<and> val \<le> limit then Some val else None)"

definition parse_int :: "bytes \<Rightarrow> nat \<Rightarrow> int \<Rightarrow> int \<Rightarrow> int option" where
  "parse_int raw radix low high =
     (if raw = [] then None
      else let negative = (take 1 raw = [0x2D]);
               raw' = (if negative then drop 1 raw else raw);
               ceiling = (if negative then - low else high)
           in case parse_uint raw' radix ceiling of
                None \<Rightarrow> None
              | Some val \<Rightarrow>
                  if negative \<and> val = 0 then None
                  else Some (if negative then - val else val))"

fun format_loop :: "nat \<Rightarrow> bytes \<Rightarrow> nat \<Rightarrow> int \<Rightarrow> int \<Rightarrow> (bytes \<times> int) res" where
  \<comment> \<open>\<open>for i in range(length - 1, -1, -1)\<close>, by the \<open>i + 1\<close> of the next pass\<close>
  "format_loop 0 out a radix val = Inr (out, val)"
| "format_loop (Suc i) out a radix val =
     (if radix = 0 then Inl PyZeroDivisionError
      else let digit = val mod radix
           in bindE (byte_store out (a + i) (if digit < 10 then 0x30 + digit else 0x41 + digit - 10))
                (\<lambda>out'. format_loop i out' a radix (val div radix)))"

definition format_uint :: "bytes \<Rightarrow> nat \<Rightarrow> nat \<Rightarrow> int \<Rightarrow> int \<Rightarrow> (bytes \<times> bool) res" where
  "format_uint out a len radix val =
     bindE (format_loop len out a radix val) (\<lambda>(out', rest). Inr (out', rest = 0))"

definition format_int :: "bytes \<Rightarrow> nat \<Rightarrow> nat \<Rightarrow> int \<Rightarrow> int \<Rightarrow> (bytes \<times> bool) res" where
  "format_int out a len radix val =
     (if 0 \<le> val then format_uint out a len radix val
      else if len < 2 then Inr (out, False)
      else bindE (byte_store out a 0x2D) (\<lambda>out'.
           format_uint out' (a + 1) (len - 1) radix (- val)))"

definition digits_minimal :: "bytes \<Rightarrow> nat \<Rightarrow> bool" where
  "digits_minimal data radix =
     (let raw = (if take 1 data = [0x2D] then drop 1 data else data) in
      if raw = [] then False
      else if 1 < length raw \<and> take 1 raw = [0x30] then False
      else radix \<le> 10 \<or> \<not> list_ex (\<lambda>b. 0x41 \<le> uint b \<and> uint b \<le> 0x46) raw)"

section \<open>Binary coded decimal\<close>

fun bcd_decode_loop :: "nat \<Rightarrow> int \<Rightarrow> int \<Rightarrow> int" where
  "bcd_decode_loop 0 packed val = val"
| "bcd_decode_loop (Suc i) packed val =
     bcd_decode_loop i packed (val * 10 + (drop_bit (4 * i) packed AND 0xF))"

definition bcd_decode :: "int \<Rightarrow> nat \<Rightarrow> int" where
  "bcd_decode packed digits = bcd_decode_loop digits packed 0"

fun bcd_encode_loop :: "nat \<Rightarrow> nat \<Rightarrow> int \<Rightarrow> int \<Rightarrow> int" where
  "bcd_encode_loop 0 i packed val = packed"
| "bcd_encode_loop (Suc k) i packed val =
     bcd_encode_loop k (i + 1) (packed OR push_bit (4 * i) (val mod 10)) (val div 10)"

definition bcd_encode :: "int \<Rightarrow> nat \<Rightarrow> int" where
  "bcd_encode val digits = bcd_encode_loop digits 0 0 val"

definition bcd_valid :: "int \<Rightarrow> nat \<Rightarrow> bool" where
  "bcd_valid packed digits \<longleftrightarrow> list_all (\<lambda>i. drop_bit (4 * i) packed AND 0xF \<le> 9) [0..<digits]"

section \<open>What the parser accepts\<close>

definition is_digit :: "nat \<Rightarrow> byte \<Rightarrow> bool" where
  "is_digit radix b \<longleftrightarrow> (case digit_val b of Some d \<Rightarrow> d < int radix | None \<Rightarrow> False)"

definition text_value :: "nat \<Rightarrow> int \<Rightarrow> bytes \<Rightarrow> int" where
  "text_value radix acc bs = foldl (\<lambda>v b. v * int radix + the (digit_val b)) acc bs"

definition too_long :: "nat \<Rightarrow> bytes \<Rightarrow> bool" where
  "too_long radix bs \<longleftrightarrow> \<not> unlimited_base radix \<and> 4300 < length bs"

lemma nth_DIGITS: "i < 16 \<Longrightarrow> uint (DIGITS ! i) = (if i < 10 then 0x30 + int i else 0x57 + int i)"
proof -
  have "\<forall>i \<in> {0..<16}. uint (DIGITS ! i) = (if i < 10 then 0x30 + int i else 0x57 + int i)"
    by code_simp
  then show "i < 16 \<Longrightarrow> ?thesis" by simp
qed

lemma uint_lower_byte: "uint (lower_byte b) = (if 0x41 \<le> uint b \<and> uint b \<le> 0x5A then uint b + 0x20 else uint b)"
  by (auto simp: lower_byte_def)

lemma digit_set:
  assumes "radix \<le> 16"
  shows "lower_byte b \<in> set (take radix DIGITS) \<longleftrightarrow> is_digit radix b"
proof -
  have len: "length DIGITS = 16" by (simp add: DIGITS_def)
  have "lower_byte b \<in> set (take radix DIGITS) \<longleftrightarrow> (\<exists>i < radix. lower_byte b = DIGITS ! i)"
    using assms len by (auto simp: in_set_conv_nth)
  also have "\<dots> \<longleftrightarrow> (\<exists>i < radix. uint (lower_byte b) = (if i < 10 then 0x30 + int i else 0x57 + int i))"
    using assms by (metis nth_DIGITS less_le_trans word_uint_eq_iff)
  also have "\<dots> \<longleftrightarrow> is_digit radix b"
  proof
    assume "is_digit radix b"
    then obtain d where d: "digit_val b = Some d" "d < int radix" by (auto simp: is_digit_def split: option.splits)
    show "\<exists>i < radix. uint (lower_byte b) = (if i < 10 then 0x30 + int i else 0x57 + int i)"
      using d by (intro exI [of _ "nat d"]) (auto simp: digit_val_def Let_def uint_lower_byte split: if_splits)
  next
    assume "\<exists>i < radix. uint (lower_byte b) = (if i < 10 then 0x30 + int i else 0x57 + int i)"
    then show "is_digit radix b"
      using assms uint_byte_bounds [of b]
      by (auto simp: is_digit_def digit_val_def Let_def uint_lower_byte split: if_splits)
  qed
  finally show ?thesis .
qed

lemma is_digit_props:
  assumes "is_digit radix b"
  shows "b \<noteq> 0x5F" "uint b < 128" "\<not> c_space b" "b \<noteq> 0x2D" "b \<noteq> 0x2B"
    "0 \<le> the (digit_val b)" "the (digit_val b) < int radix"
  using assms by (auto simp: is_digit_def digit_val_def c_space_def Let_def split: option.splits if_splits)

lemma py_digits_all:
  "\<forall>b \<in> set bs. is_digit base b \<Longrightarrow> bs \<noteq> [] \<or> \<not> us \<Longrightarrow>
   py_digits base bs acc n us = Some (text_value base acc bs, n + length bs, [])"
proof (induction bs arbitrary: acc n us)
  case (Cons b bs)
  then obtain d where d: "digit_val b = Some d" "d < int base" and b: "b \<noteq> 0x5F"
    using is_digit_props(1) [of base b] by (auto simp: is_digit_def split: option.splits)
  show ?case
    using Cons.IH [of False "acc * int base + d" "n + 1"] Cons.prems d b
    by (simp add: text_value_def)
qed (simp add: text_value_def)

lemma strip_prefix_digits:
  "\<forall>b \<in> set bs. is_digit base b \<Longrightarrow> strip_prefix base bs = bs"
proof (cases bs rule: remdups_adj.cases)
  case (3 b c rest)
  assume "\<forall>b \<in> set bs. is_digit base b"
  then have "is_digit base c" using 3 by simp
  then have "\<not> (base = 16 \<and> (c = 0x78 \<or> c = 0x58) \<or> base = 8 \<and> (c = 0x6F \<or> c = 0x4F)
      \<or> base = 2 \<and> (c = 0x62 \<or> c = 0x42))"
    by (auto simp: is_digit_def digit_val_def)
  then show ?thesis using 3 by (auto simp: strip_prefix_def)
qed (simp_all add: strip_prefix_def)

lemma py_int_digits:
  assumes "2 \<le> base" and "base \<le> 36" and "bs \<noteq> []" and "\<forall>b \<in> set bs. is_digit base b"
  shows "py_int bs base = (if too_long base bs then None else Some (text_value base 0 bs))"
proof -
  obtain b rest where bs: "bs = b # rest" using assms(3) by (cases bs) auto
  note p = is_digit_props [of base b]
  have "is_digit base b" using assms(4) bs by simp
  then show ?thesis
    using assms(1,2) p strip_prefix_digits [OF assms(4)] py_digits_all [OF assms(4), of True 0 0]
    by (auto simp: py_int_def Let_def bs too_long_def)
qed

lemma parse_uint_eq:
  assumes "2 \<le> radix" and "radix \<le> 16"
  shows "parse_uint raw radix limit =
    (if raw \<noteq> [] \<and> list_all (is_digit radix) raw \<and> \<not> too_long radix raw
        \<and> 0 \<le> text_value radix 0 raw \<and> text_value radix 0 raw \<le> limit
     then Some (text_value radix 0 raw) else None)"
proof (cases "raw \<noteq> [] \<and> list_all (is_digit radix) raw")
  case True
  have "list_all (\<lambda>b. uint b < 128) raw" using True is_digit_props(2) by (auto simp: list_all_iff)
  then show ?thesis
    using True assms py_int_digits [of radix raw]
    by (auto simp: parse_uint_def list_all_iff digit_set)
next
  case False
  then show ?thesis
    using assms by (auto simp: parse_uint_def list_all_iff digit_set split: option.split)
qed

section \<open>What the formatter writes\<close>

definition digit_byte :: "int \<Rightarrow> byte" where
  "digit_byte d = byte_of (if d < 10 then 0x30 + d else 0x41 + d - 10)"

fun spelled :: "nat \<Rightarrow> int \<Rightarrow> int \<Rightarrow> bytes" where
  "spelled 0 radix v = []"
| "spelled (Suc n) radix v = spelled n radix (v div radix) @ [digit_byte (v mod radix)]"

lemma length_spelled [simp]: "length (spelled n radix v) = n"
  by (induction n arbitrary: v) auto

lemma format_loop_spelled:
  assumes "2 \<le> radix" and "radix \<le> 16"
  shows "a + n \<le> length out \<Longrightarrow>
    format_loop n out a radix v = Inr (splice out a (spelled n radix v), v div radix ^ n)"
proof (induction n arbitrary: out v)
  case (Suc n)
  let ?d = "v mod radix"
  have "?d < radix" using assms by simp
  then have d: "0 \<le> ?d" "?d < 16" using assms by (simp, linarith)
  have "byte_store out (a + n) (if ?d < 10 then 0x30 + ?d else 0x41 + ?d - 10)
      = Inr (out[a + n := digit_byte ?d])"
    using Suc.prems d by (auto simp: byte_store_def digit_byte_def)
  moreover have "format_loop n (out[a + n := digit_byte ?d]) a radix (v div radix)
      = Inr (splice (out[a + n := digit_byte ?d]) a (spelled n radix (v div radix)), v div radix div radix ^ n)"
    using Suc.prems by (intro Suc.IH) simp
  ultimately show ?case
    using Suc.prems assms splice_snoc [of a "spelled n radix (v div radix)" out "digit_byte ?d"]
    by (simp add: zdiv_zmult2_eq Let_def)
qed (simp add: splice_def)

lemma digit_byte_val:
  assumes "0 \<le> d" and "d < 16"
  shows "digit_val (digit_byte d) = Some d"
  using assms by (auto simp: digit_byte_def digit_val_def Let_def)

lemma spelled_digits:
  assumes "2 \<le> radix" and "radix \<le> 16"
  shows "list_all (is_digit radix) (spelled n (int radix) v) \<and>
    text_value radix 0 (spelled n (int radix) v) = v mod int radix ^ n"
proof (induction n arbitrary: v)
  case (Suc n)
  have lt: "v mod int radix < int radix" using assms by simp
  then have d: "0 \<le> v mod int radix" "v mod int radix < 16" "v mod int radix < int radix"
    using assms by (simp, linarith, linarith)
  note val = digit_byte_val [OF d(1,2)]
  have "is_digit radix (digit_byte (v mod int radix))"
    unfolding is_digit_def val option.case by (rule d(3))
  moreover have "v mod int radix ^ Suc n = int radix * (v div int radix mod int radix ^ n) + v mod int radix"
    using zmod_zmult2_eq [of "int radix ^ n" v "int radix"] by simp
  ultimately show ?case
    using Suc.IH [of "v div int radix"] val by (simp add: text_value_def mult.commute)
qed (simp add: text_value_def)

section \<open>Case\<close>

definition upper_byte :: "byte \<Rightarrow> byte" where
  "upper_byte b = (if 0x61 \<le> uint b \<and> uint b \<le> 0x7A then byte_of (uint b - 0x20) else b)"

lemma uint_upper_byte: "uint (upper_byte b) = (if 0x61 \<le> uint b \<and> uint b \<le> 0x7A then uint b - 0x20 else uint b)"
  by (auto simp: upper_byte_def)

lemma digit_byte_upper:
  assumes "radix \<le> 16" and "is_digit radix b"
  shows "digit_byte (the (digit_val b)) = upper_byte b"
proof -
  have "uint (digit_byte (the (digit_val b))) = uint (upper_byte b)"
    using assms
    by (auto simp: is_digit_def digit_val_def Let_def uint_upper_byte digit_byte_def split: option.splits if_splits)
  then show ?thesis by (simp add: word_uint_eq_iff)
qed

lemma spelled_text_value:
  assumes "2 \<le> radix" and "radix \<le> 16" and "list_all (is_digit radix) bs"
  shows "spelled (length bs) (int radix) (text_value radix 0 bs) = map upper_byte bs"
    "0 \<le> text_value radix 0 bs" "text_value radix 0 bs < int radix ^ length bs"
proof -
  have "spelled (length bs) (int radix) (text_value radix 0 bs) = map upper_byte bs
    \<and> 0 \<le> text_value radix 0 bs \<and> text_value radix 0 bs < int radix ^ length bs"
    using assms(3)
  proof (induction bs rule: rev_induct)
    case (snoc b bs)
    define t where "t = text_value radix 0 bs"
    define d where "d = the (digit_val b)"
    have b: "is_digit radix b" using snoc.prems by simp
    have d: "0 \<le> d" "d < int radix" using is_digit_props(6,7) [OF b] by (simp_all add: d_def)
    have tv: "text_value radix 0 (bs @ [b]) = t * int radix + d"
      by (simp add: text_value_def t_def d_def)
    have dm: "(t * int radix + d) div int radix = t" "(t * int radix + d) mod int radix = d"
      using d assms(1) by (simp_all add: div_add1_eq)
    have t: "0 \<le> t" "t < int radix ^ length bs" and sp: "spelled (length bs) (int radix) t = map upper_byte bs"
      using snoc by (simp_all add: t_def)
    have "(t + 1) * int radix \<le> int radix ^ length bs * int radix"
      using t(2) by (intro mult_right_mono) simp_all
    then have "t * int radix + int radix \<le> int radix ^ length bs * int radix"
      by (simp only: distrib_right mult_1_left)
    moreover have "int radix ^ length (bs @ [b]) = int radix ^ length bs * int radix" by simp
    ultimately have "t * int radix + d < int radix ^ length (bs @ [b])"
      using d(2) by linarith
    moreover have "0 \<le> t * int radix + d" using t d by simp
    ultimately show ?case
      using sp digit_byte_upper [OF assms(2) b, folded d_def] d by (simp add: tv dm)
  qed (simp add: text_value_def)
  then show "spelled (length bs) (int radix) (text_value radix 0 bs) = map upper_byte bs"
    "0 \<le> text_value radix 0 bs" "text_value radix 0 bs < int radix ^ length bs" by blast+
qed

lemma upper_not_minus:
  assumes "radix \<le> 16" and "list_all (is_digit radix) bs"
  shows "take 1 (map upper_byte bs) \<noteq> [0x2D]"
proof (cases bs)
  case (Cons b rest)
  then have "is_digit radix b" using assms(2) by simp
  then have "uint (upper_byte b) \<noteq> 0x2D"
    by (auto simp: is_digit_def digit_val_def Let_def uint_upper_byte split: option.splits if_splits)
  then have "upper_byte b \<noteq> 0x2D" by auto
  then show ?thesis using Cons by simp
qed simp

text \<open>Minimality of a run of digits, and of the same run in upper case.\<close>

definition minimal_run :: "nat \<Rightarrow> bytes \<Rightarrow> bool" where
  "minimal_run radix raw \<longleftrightarrow> raw \<noteq> [] \<and> \<not> (1 < length raw \<and> take 1 raw = [0x30])
     \<and> (radix \<le> 10 \<or> \<not> list_ex (\<lambda>b. 0x41 \<le> uint b \<and> uint b \<le> 0x46) raw)"

lemma digits_minimal_run:
  "digits_minimal data radix \<longleftrightarrow> minimal_run radix (if take 1 data = [0x2D] then drop 1 data else data)"
  by (simp add: digits_minimal_def minimal_run_def Let_def)

lemma upper_zero: "is_digit radix b \<Longrightarrow> upper_byte b = 0x30 \<longleftrightarrow> b = 0x30"
  by (auto simp: word_uint_eq_iff uint_upper_byte is_digit_def digit_val_def Let_def split: option.splits if_splits)

lemma minimal_run_upper:
  assumes "radix \<le> 16" and digits: "list_all (is_digit radix) raw" and "minimal_run radix raw"
  shows "minimal_run radix (map upper_byte raw) \<longleftrightarrow> list_all (\<lambda>b. uint b < 0x61) raw"
proof -
  have hex: "0x41 \<le> uint (upper_byte b) \<and> uint (upper_byte b) \<le> 0x46 \<longleftrightarrow> \<not> uint b < 0x61"
    if "is_digit radix b" "\<not> (0x41 \<le> uint b \<and> uint b \<le> 0x46)" for b
    using that assms(1)
    by (auto simp: is_digit_def digit_val_def Let_def uint_upper_byte split: option.splits if_splits)
  have dec: "uint b < 0x61" if "is_digit radix b" "radix \<le> 10" for b
    using that by (auto simp: is_digit_def digit_val_def Let_def split: option.splits if_splits)
  have "take 1 (map upper_byte raw) = [0x30] \<longleftrightarrow> take 1 raw = [0x30]"
    using digits upper_zero by (cases raw) auto
  then show ?thesis
    using assms(3) digits hex dec
    by (cases "radix \<le> 10") (fastforce simp: minimal_run_def list_all_iff list_ex_iff)+
qed

section \<open>Decimal digits in nibbles\<close>

fun bcd_dec :: "nat \<Rightarrow> int \<Rightarrow> int" where
  "bcd_dec 0 p = 0"
| "bcd_dec (Suc n) p = bcd_dec n (p div 16) * 10 + p mod 16"

fun bcd_enc :: "nat \<Rightarrow> int \<Rightarrow> int" where
  "bcd_enc 0 v = 0"
| "bcd_enc (Suc n) v = v mod 10 + bcd_enc n (v div 10) * 16"

lemma drop_nibbles: "drop_bit (4 * i) (p :: int) AND 0xF = p div 16 ^ i mod 16"
  by (simp add: int_drop_bit int_and_F power_mult)

lemma bcd_dec_top: "bcd_dec (Suc n) p = p div 16 ^ n mod 16 * 10 ^ n + bcd_dec n p"
proof (induction n arbitrary: p)
  case (Suc n)
  have "bcd_dec (Suc (Suc n)) p = bcd_dec (Suc n) (p div 16) * 10 + p mod 16" by simp
  also have "\<dots> = (p div 16 div 16 ^ n mod 16 * 10 ^ n + bcd_dec n (p div 16)) * 10 + p mod 16"
    by (simp only: Suc.IH)
  also have "\<dots> = p div 16 ^ Suc n mod 16 * 10 ^ Suc n + bcd_dec (Suc n) p"
    by (simp add: zdiv_zmult2_eq algebra_simps)
  finally show ?case .
qed simp

lemma bcd_decode_loop_dec: "bcd_decode_loop n p v = v * 10 ^ n + bcd_dec n p"
proof (induction n arbitrary: v)
  case (Suc n)
  have "bcd_decode_loop (Suc n) p v = (v * 10 + p div 16 ^ n mod 16) * 10 ^ n + bcd_dec n p"
    by (simp add: Suc.IH drop_nibbles del: bcd_dec.simps)
  then show ?case by (simp add: bcd_dec_top algebra_simps del: bcd_dec.simps)
qed simp

lemma bcd_enc_nonneg: "0 \<le> bcd_enc n v"
  by (induction n arbitrary: v) auto

lemma bcd_encode_loop_enc:
  "0 \<le> packed \<Longrightarrow> packed < 16 ^ i \<Longrightarrow> bcd_encode_loop n i packed v = packed + bcd_enc n v * 16 ^ i"
proof (induction n arbitrary: i packed v)
  case (Suc n)
  let ?d = "v mod 10"
  have "packed OR push_bit (4 * i) ?d = packed + ?d * 2 ^ (4 * i)"
    using int_or_disjoint [of packed "4 * i" ?d] Suc.prems by (simp add: int_push_bit power_mult)
  then have step: "packed OR push_bit (4 * i) ?d = packed + ?d * 16 ^ i" by (simp add: power_mult)
  have "?d < 10" by simp
  then have "?d * 16 ^ i \<le> 9 * 16 ^ i" by (intro mult_right_mono) simp_all
  then have "packed + ?d * 16 ^ i < 16 * 16 ^ i" using Suc.prems by linarith
  then have "packed + ?d * 16 ^ i < 16 ^ (i + 1)" "0 \<le> packed + ?d * 16 ^ i"
    using Suc.prems by simp_all
  then have "bcd_encode_loop n (i + 1) (packed + ?d * 16 ^ i) (v div 10)
      = packed + ?d * 16 ^ i + bcd_enc n (v div 10) * 16 ^ (i + 1)"
    by (intro Suc.IH)
  then show ?case by (simp only: bcd_encode_loop.simps step) (simp add: algebra_simps)
qed simp

lemma bcd_encode_enc: "bcd_encode v n = bcd_enc n v"
  using bcd_encode_loop_enc [of 0 0 n v] by (simp add: bcd_encode_def)

lemma bcd_decode_dec: "bcd_decode p n = bcd_dec n p"
  by (simp add: bcd_decode_def bcd_decode_loop_dec)

lemma bcd_enc_mod_div: "bcd_enc (Suc n) v mod 16 = v mod 10" "bcd_enc (Suc n) v div 16 = bcd_enc n (v div 10)"
proof -
  have "0 \<le> v mod 10" "v mod 10 < 16" by simp_all
  then show "bcd_enc (Suc n) v mod 16 = v mod 10" "bcd_enc (Suc n) v div 16 = bcd_enc n (v div 10)"
    by simp_all
qed

lemma bcd_valid_Suc: "bcd_valid p (Suc n) \<longleftrightarrow> p mod 16 \<le> 9 \<and> bcd_valid (p div 16) n"
proof -
  have all: "(\<forall>i < Suc n. P i) \<longleftrightarrow> P 0 \<and> (\<forall>i < n. P (Suc i))" for P
    by (auto simp: less_Suc_eq_0_disj)
  show ?thesis
    by (simp add: bcd_valid_def list_all_iff drop_nibbles zdiv_zmult2_eq del: upt_Suc)
      (simp add: all [of "\<lambda>i. p div 16 ^ i mod 16 \<le> 9", simplified] zdiv_zmult2_eq Ball_def)
qed

lemma bcd_dec_enc: "bcd_dec n (bcd_enc n v) = v mod 10 ^ n"
proof (induction n arbitrary: v)
  case (Suc n)
  have "bcd_dec (Suc n) (bcd_enc (Suc n) v) = v div 10 mod 10 ^ n * 10 + v mod 10"
    by (simp only: bcd_dec.simps bcd_enc_mod_div Suc.IH)
  then show ?case using zmod_zmult2_eq [of "10 ^ n" v 10] by simp
qed simp

lemma bcd_valid_enc: "bcd_valid (bcd_enc n v) n"
proof (induction n arbitrary: v)
  case (Suc n)
  have "v mod 10 \<le> 9" using pos_mod_bound [of 10 v] by simp
  then show ?case using Suc.IH by (simp only: bcd_valid_Suc bcd_enc_mod_div simp_thms)
qed (simp add: bcd_valid_def)

lemma bcd_enc_dec: "0 \<le> p \<Longrightarrow> p < 16 ^ n \<Longrightarrow> bcd_valid p n \<Longrightarrow> bcd_enc n (bcd_dec n p) = p"
proof (induction n arbitrary: p)
  case (Suc n)
  have v: "p mod 16 \<le> 9" "0 \<le> p mod 16" "bcd_valid (p div 16) n" using Suc.prems(3) by (simp_all add: bcd_valid_Suc)
  have "(bcd_dec n (p div 16) * 10 + p mod 16) mod 10 = p mod 16"
    "(bcd_dec n (p div 16) * 10 + p mod 16) div 10 = bcd_dec n (p div 16)"
    using v by simp_all
  moreover have "bcd_enc n (bcd_dec n (p div 16)) = p div 16"
  proof (intro Suc.IH)
    show "p div 16 < 16 ^ n" using Suc.prems(2) unfolding power_Suc by linarith
  qed (use Suc.prems v(3) in \<open>simp_all add: pos_imp_zdiv_nonneg_iff\<close>)
  ultimately show ?case by simp
qed simp

section \<open>Properties\<close>

text \<open>
  \<open>parse_uint\<close> accepts exactly the digit strings.  Although it asks Python's \<open>int\<close>, whose
  language has spaces, signs, prefixes and underscores, in a radix from 2 to 16 it answers a value
  exactly for a non-empty run of digits of the radix, of either case, whose value is within the
  limit and (the one difference to C) which is no longer than 4300 digits unless the radix is a
  power of two; the value is the positional one.
\<close>

theorem parse_uint_language:
  assumes "2 \<le> radix" and "radix \<le> 16"
  shows "parse_uint raw radix limit = Some v \<longleftrightarrow>
    raw \<noteq> [] \<and> list_all (is_digit radix) raw \<and> \<not> too_long radix raw
    \<and> v = text_value radix 0 raw \<and> v \<le> limit"
proof -
  have nn: "list_all (is_digit radix) bs \<Longrightarrow> 0 \<le> acc \<Longrightarrow> 0 \<le> text_value radix acc bs" for bs acc
  proof (induction bs arbitrary: acc)
    case (Cons b bs)
    then show ?case
      using is_digit_props(6) [of radix b] by (simp add: text_value_def)
  qed (simp add: text_value_def)
  show ?thesis
    using nn [of raw 0] by (auto simp: parse_uint_eq [OF assms])
qed

theorem parse_uint_language_witness:
  "parse_uint [0x46, 0x66] 16 255 = Some 255 \<and> \<not> parse_uint [0x2B, 0x31] 10 255 = Some 1"
proof -
  have "text_value 16 0 [0x46, 0x66] = 255" "list_all (is_digit 16) [0x46, 0x66]"
    "\<not> list_all (is_digit 10) [0x2B, 0x31]" "\<not> too_long 16 [0x46, 0x66]"
    by code_simp+
  then show ?thesis
    using parse_uint_language [of 16 "[0x46, 0x66]" 255 255] parse_uint_language [of 10 "[0x2B, 0x31]" 255 1]
    by auto
qed

text \<open>
  what \<open>format_int\<close> writes, \<open>parse_int\<close> reads.  In a radix from 2 to 16, filling \<open>len\<close> bytes
  inside the buffer never raises; it answers True exactly where the value fits (a sign taking
  one byte), and then parsing those bytes with bounds that hold the value gives it back, provided
  the field is not empty and Python's 4300-digit limit does not apply.
\<close>

theorem format_parse_int:
  assumes "2 \<le> radix" and "radix \<le> 16" and "a + n \<le> length out" and "0 < n"
    and "n \<le> 4300 \<or> unlimited_base radix"
  shows "\<exists>out' ok. format_int out a n (int radix) v = Inr (out', ok) \<and> length out' = length out
    \<and> (ok \<longleftrightarrow> (if 0 \<le> v then v < int radix ^ n else 2 \<le> n \<and> - v < int radix ^ (n - 1)))
    \<and> (ok \<and> low \<le> v \<and> v \<le> high \<longrightarrow> parse_int (slice out' a n) radix low high = Some v)"
proof (cases "0 \<le> v")
  case True
  let ?s = "spelled n (int radix) v"
  have f: "format_int out a n (int radix) v = Inr (splice out a ?s, v div int radix ^ n = 0)"
    using True format_loop_spelled [of "int radix" a n out v] assms by (simp add: format_int_def format_uint_def)
  have ok: "v div int radix ^ n = 0 \<longleftrightarrow> v < int radix ^ n"
    using True assms(1) by (auto simp: zdiv_eq_0_iff)
  note sp = spelled_digits [OF assms(1,2), of n v, THEN conjunct1]
    spelled_digits [OF assms(1,2), of n v, THEN conjunct2]
  have ne: "?s \<noteq> []" using assms(4) by (metis length_spelled less_irrefl list.size(3))
  then have hd: "take 1 ?s \<noteq> [0x2D]"
    using sp(1) is_digit_props(4) by (cases ?s) auto
  have "parse_int ?s radix low high = Some v" if "v < int radix ^ n" "v \<le> high"
    using ne hd sp that True assms by (auto simp: parse_int_def Let_def parse_uint_eq too_long_def)
  then show ?thesis
    using f ok True assms(3) by auto
next
  case False
  show ?thesis
  proof (cases "n < 2")
    case True
    then show ?thesis using False by (auto simp: format_int_def)
  next
    case n: False
    let ?s = "spelled (n - 1) (int radix) (- v)"
    have st: "byte_store out a 0x2D = Inr (out[a := 0x2D])"
      using assms(3,4) by (simp add: byte_store_def byte_of_def)
    have "splice (out[a := 0x2D]) (Suc a) ?s = splice out a (0x2D # ?s)"
      using assms(3) n by (intro splice_Cons) simp
    then have f: "format_int out a n (int radix) v
        = Inr (splice out a (0x2D # ?s), (- v) div int radix ^ (n - 1) = 0)"
      using False n st format_loop_spelled [of "int radix" "a + 1" "n - 1" "out[a := 0x2D]" "- v"] assms
      by (simp add: format_int_def format_uint_def)
    have ok: "(- v) div int radix ^ (n - 1) = 0 \<longleftrightarrow> - v < int radix ^ (n - 1)"
      using False assms(1) by (auto simp: zdiv_eq_0_iff)
    note sp = spelled_digits [OF assms(1,2), of "n - 1" "- v", THEN conjunct1]
      spelled_digits [OF assms(1,2), of "n - 1" "- v", THEN conjunct2]
    have ne: "?s \<noteq> []" using n by (metis length_spelled list.size(3) One_nat_def Suc_pred
          less_2_cases_iff not_gr_zero)
    have "parse_int (0x2D # ?s) radix low high = Some v" if "- v < int radix ^ (n - 1)" "low \<le> v"
      using ne sp that False assms by (auto simp: parse_int_def Let_def parse_uint_eq too_long_def)
    then show ?thesis
      using f ok False n assms(3) by auto
  qed
qed

theorem format_parse_int_witness:
  "\<exists>out'. format_int [0, 0, 0, 0, 0] 1 4 10 (- 42) = Inr (out', True)
     \<and> parse_int (slice out' 1 4) 10 (- 128) 127 = Some (- 42)"
  using format_parse_int [of 10 1 4 "[0, 0, 0, 0, 0]" "- 42" "- 128" 127] by auto

text \<open>
  what a minimal spelling is written back as.  Bytes that \<open>digits_minimal\<close> admits and
  \<open>parse_int\<close> reads as a value are, up to the case of their letters, the bytes \<open>format_int\<close>
  writes for that value into a field of the same width, whatever stood there.  For a radix up to
  ten that is the same bytes; above ten \<open>format_int\<close> writes upper case, and the result is minimal
  again exactly when there was no letter, because \<open>digits_minimal\<close> admits lower case alone.
\<close>

theorem minimal_written_back:
  assumes "2 \<le> radix" and "radix \<le> 16" and "digits_minimal data radix"
    and "parse_int data radix low high = Some v" and "length out = length data"
  shows "format_int out 0 (length data) (int radix) v = Inr (map upper_byte data, True)
    \<and> (digits_minimal (map upper_byte data) radix \<longleftrightarrow> list_all (\<lambda>b. uint b < 0x61) data)"
proof -
  define neg where "neg \<longleftrightarrow> take 1 data = [0x2D]"
  define raw where "raw = (if neg then drop 1 data else data)"
  define m where "m = text_value radix 0 raw"
  have data: "data = (if neg then 0x2D # raw else raw)"
    by (cases data) (auto simp: raw_def neg_def)
  have "data \<noteq> []" using assms(4) by (auto simp: parse_int_def)
  then have "parse_int data radix low high = (case parse_uint raw radix (if neg then - low else high) of
      None \<Rightarrow> None | Some x \<Rightarrow> if neg \<and> x = 0 then None else Some (if neg then - x else x))"
    by (simp only: parse_int_def Let_def raw_def neg_def if_False)
  then have raw: "raw \<noteq> []" "list_all (is_digit radix) raw" "v = (if neg then - m else m)" "neg \<longrightarrow> m \<noteq> 0"
    using assms(4) by (auto simp: parse_uint_eq [OF assms(1,2)] m_def split: if_splits)
  have min: "minimal_run radix raw"
    using assms(3) by (simp add: digits_minimal_run raw_def neg_def)
  note sp = spelled_text_value [OF assms(1,2) raw(2), folded m_def]
  have up_D: "upper_byte 0x2D = 0x2D" by (simp add: upper_byte_def)
  have m: "0 \<le> m" "m div int radix ^ length raw = 0"
    using sp(2,3) by auto
  have fmt: "format_uint o2 a (length raw) (int radix) m = Inr (splice o2 a (map upper_byte raw), True)"
    if "a + length raw \<le> length o2" for o2 a
    using format_loop_spelled [of "int radix" a "length raw" o2 m] assms(1,2) that sp(1) m
    by (simp add: format_uint_def)
  have len: "length out = (if neg then Suc (length raw) else length raw)"
    using data assms(5) by auto
  have "format_int out 0 (length data) (int radix) v = Inr (map upper_byte data, True)"
  proof (cases neg)
    case True
    have "byte_store out 0 0x2D = Inr (out[0 := 0x2D])"
      using len True by (simp add: byte_store_def byte_of_def)
    moreover have "splice (out[0 := 0x2D]) (Suc 0) (map upper_byte raw) = 0x2D # map upper_byte raw"
      using len True splice_Cons [of 0 "map upper_byte raw" out "0x2D"] by (simp add: splice_def)
    ultimately show ?thesis
      using True raw(1,3,4) m data len fmt [of 1 "out[0 := 0x2D]"] up_D
      by (simp add: format_int_def Suc_le_eq)
  next
    case False
    then show ?thesis
      using raw(3) m data len fmt [of 0 out] by (simp add: format_int_def splice_def)
  qed
  moreover have "digits_minimal (map upper_byte data) radix \<longleftrightarrow> list_all (\<lambda>b. uint b < 0x61) data"
    using minimal_run_upper [OF assms(2) raw(2) min] data up_D upper_not_minus [OF assms(2) raw(2)]
    by (cases neg) (simp_all add: digits_minimal_run)
  ultimately show ?thesis by blast
qed

theorem minimal_written_back_witness:
  "format_int [0, 0] 0 2 16 255 = Inr ([0x46, 0x46], True) \<and> \<not> digits_minimal [0x46, 0x46] 16"
proof -
  have "digits_minimal [0x66, 0x66] 16" "parse_int [0x66, 0x66] 16 0 255 = Some 255"
    "map upper_byte [0x66, 0x66] = [0x46, 0x46]" "\<not> list_all (\<lambda>b. uint b < 0x61) [0x66, 0x66 :: byte]"
    by code_simp+
  then show ?thesis
    using minimal_written_back [of 16 "[0x66, 0x66]" 0 255 255 "[0, 0]"] by (simp add: numeral_2_eq_2)
qed

text \<open>
  binary coded decimal is lossless both ways: encoding \<open>n\<close> digits and decoding gives the value's
  last \<open>n\<close> decimal digits, with every nibble valid; and a valid packed number of \<open>n\<close> nibbles
  is what its decoded value encodes to.
\<close>

theorem bcd_roundtrip:
  "bcd_decode (bcd_encode v n) n = v mod 10 ^ n \<and> bcd_valid (bcd_encode v n) n
   \<and> (0 \<le> p \<and> p < 16 ^ n \<and> bcd_valid p n \<longrightarrow> bcd_encode (bcd_decode p n) n = p)"
  using bcd_dec_enc [of n v] bcd_valid_enc [of n v] bcd_enc_dec [of p n]
  by (simp add: bcd_encode_enc bcd_decode_dec)

theorem bcd_roundtrip_witness:
  "bcd_decode (bcd_encode 2024 4) 4 = 2024 \<and> bcd_encode (bcd_decode 0x2024 4) 4 = 0x2024"
proof -
  have "bcd_valid 0x2024 4" by code_simp
  then show ?thesis using bcd_roundtrip [of 2024 4 "0x2024"] by simp
qed

end
