(* ===== verification/Runtime_Scaled.thy ===== *)
theory Runtime_Scaled
  imports Situ_Prelude
begin

text \<open>
  \<open>parse_scaled\<close> of \<open>runtime/python/situ_runtime.py\<close>: a decimal with an optional point and
  exponent, read exactly as a significand and a power of ten.  The three digit loops keep the
  index \<open>at\<close> of the code; \<open>None\<close> is the code's \<open>return None\<close>.
\<close>

section \<open>The scan\<close>

definition dec_at :: "bytes \<Rightarrow> nat \<Rightarrow> bool" where
  "dec_at raw i \<longleftrightarrow> i < length raw \<and> 0x30 \<le> uint (raw ! i) \<and> uint (raw ! i) \<le> 0x39"

function int_loop :: "bytes \<Rightarrow> nat \<Rightarrow> int \<Rightarrow> nat \<times> int" where
  "int_loop raw i magnitude =
     (if dec_at raw i then int_loop raw (i + 1) (magnitude * 10 + (uint (raw ! i) - 0x30))
      else (i, magnitude))"
  by pat_completeness auto
termination
  by (relation "measure (\<lambda>(raw, i, m). length raw - i)") (auto simp: dec_at_def)

function frac_loop :: "bytes \<Rightarrow> nat \<Rightarrow> int \<Rightarrow> int \<Rightarrow> nat \<times> int \<times> int" where
  "frac_loop raw i magnitude fraction =
     (if dec_at raw i then frac_loop raw (i + 1) (magnitude * 10 + (uint (raw ! i) - 0x30)) (fraction + 1)
      else (i, magnitude, fraction))"
  by pat_completeness auto
termination
  by (relation "measure (\<lambda>(raw, i, m). length raw - i)") (auto simp: dec_at_def)

function exp_loop :: "bytes \<Rightarrow> nat \<Rightarrow> int \<Rightarrow> (nat \<times> int) option" where
  "exp_loop raw i exponent =
     (if dec_at raw i then
        (if 1000000000 < exponent then None
         else exp_loop raw (i + 1) (exponent * 10 + (uint (raw ! i) - 0x30)))
      else Some (i, exponent))"
  by pat_completeness auto
termination
  by (relation "measure (\<lambda>(raw, i, m). length raw - i)") (auto simp: dec_at_def)

declare int_loop.simps [simp del] frac_loop.simps [simp del] exp_loop.simps [simp del]

definition byte_at :: "bytes \<Rightarrow> nat \<Rightarrow> byte list \<Rightarrow> bool" where
  "byte_at raw i bs \<longleftrightarrow> i < length raw \<and> raw ! i \<in> set bs"

definition scan_fraction :: "bytes \<Rightarrow> nat \<Rightarrow> int \<Rightarrow> (nat \<times> int \<times> int) option" where
  "scan_fraction raw i magnitude =
     (if byte_at raw i [0x2E] then
        (let first = i + 1;
             (i', magnitude', fraction) = frac_loop raw first magnitude 0
         in if i' = first then None else Some (i', magnitude', fraction))
      else Some (i, magnitude, 0))"

definition scan_exponent :: "bytes \<Rightarrow> nat \<Rightarrow> (nat \<times> int) option" where
  "scan_exponent raw i =
     (if byte_at raw i [0x65, 0x45] then
        (let i1 = i + 1;
             down = byte_at raw i1 [0x2D];
             first = (if byte_at raw i1 [0x2B, 0x2D] then i1 + 1 else i1)
         in case exp_loop raw first 0 of
              None \<Rightarrow> None
            | Some (i', exponent) \<Rightarrow>
                if i' = first then None else Some (i', if down then - exponent else exponent))
      else Some (i, 0))"

definition scan_scaled :: "bool \<Rightarrow> bytes \<Rightarrow> int \<Rightarrow> int \<Rightarrow> (int \<times> int) option" where
  \<comment> \<open>\<open>parse_scaled\<close> once the sign is off\<close>
  "scan_scaled negative raw low high =
     (let (i, magnitude) = int_loop raw 0 0
      in if i = 0 then None
         else case scan_fraction raw i magnitude of
           None \<Rightarrow> None
         | Some (i, magnitude, fraction) \<Rightarrow>
           (case scan_exponent raw i of
              None \<Rightarrow> None
            | Some (i, exponent) \<Rightarrow>
              if i \<noteq> length raw then None
              else let val = (if negative then - magnitude else magnitude)
                   in if val < low \<or> high < val then None
                      else let scale = exponent - fraction
                           in if scale < - 0x80000000 \<or> 0x7FFFFFFF < scale then None
                              else Some (val, scale)))"

definition parse_scaled :: "bytes \<Rightarrow> int \<Rightarrow> int \<Rightarrow> (int \<times> int) option" where
  "parse_scaled data low high =
     (if data = [] then None
      else let negative = (take 1 data = [0x2D])
           in scan_scaled negative (if negative then drop 1 data else data) low high)"

section \<open>The grammar\<close>

text \<open>
  \<open>[ "-" ] digit+ [ "." digit+ ] [ ("e" | "E") [ "+" | "-" ] digit+ ]\<close>, as the docstring writes
  it: a spelling is its parts, an absent part an empty list.
\<close>

record spelling =
  sg :: bool
  ints :: bytes
  fracs :: bytes
  expo :: "(byte \<times> bytes \<times> bytes) option"

definition is_dec :: "byte \<Rightarrow> bool" where
  "is_dec b \<longleftrightarrow> 0x30 \<le> uint b \<and> uint b \<le> 0x39"

definition well_spelled :: "spelling \<Rightarrow> bool" where
  "well_spelled s \<longleftrightarrow> ints s \<noteq> [] \<and> list_all is_dec (ints s) \<and> list_all is_dec (fracs s)
     \<and> (case expo s of None \<Rightarrow> True
        | Some (e, sn, ds) \<Rightarrow> e \<in> {0x65, 0x45} \<and> sn \<in> {[], [0x2B], [0x2D]} \<and> ds \<noteq> [] \<and> list_all is_dec ds)"

definition spell_expo :: "spelling \<Rightarrow> bytes" where
  "spell_expo s = (case expo s of None \<Rightarrow> [] | Some (e, sn, ds) \<Rightarrow> e # sn @ ds)"

definition spell :: "spelling \<Rightarrow> bytes" where
  "spell s = (if sg s then [0x2D] else []) @ ints s
     @ (if fracs s = [] then [] else 0x2E # fracs s) @ spell_expo s"

definition dec_value :: "int \<Rightarrow> bytes \<Rightarrow> int" where
  "dec_value acc bs = foldl (\<lambda>v b. v * 10 + (uint b - 0x30)) acc bs"

definition expo_value :: "spelling \<Rightarrow> int" where
  "expo_value s = (case expo s of None \<Rightarrow> 0
     | Some (e, sn, ds) \<Rightarrow> if sn = [0x2D] then - dec_value 0 ds else dec_value 0 ds)"

definition significand :: "spelling \<Rightarrow> int" where
  "significand s = (if sg s then - dec_value 0 (ints s @ fracs s) else dec_value 0 (ints s @ fracs s))"

text \<open>The exponent's digits but the last stay within the loop's bound.\<close>

definition expo_bounded :: "spelling \<Rightarrow> bool" where
  "expo_bounded s \<longleftrightarrow> (case expo s of None \<Rightarrow> True
     | Some (e, sn, ds) \<Rightarrow> dec_value 0 (butlast ds) \<le> 1000000000)"

section \<open>The loops read a run of digits\<close>

definition dec_run :: "bytes \<Rightarrow> nat \<Rightarrow> bytes" where
  "dec_run raw i = takeWhile is_dec (drop i raw)"

lemma dec_at_iff: "dec_at raw i \<longleftrightarrow> i < length raw \<and> is_dec (raw ! i)"
  by (auto simp: dec_at_def is_dec_def)

lemma dec_run_step:
  "dec_at raw i \<Longrightarrow> dec_run raw i = raw ! i # dec_run raw (i + 1)"
  "\<not> dec_at raw i \<Longrightarrow> dec_run raw i = []"
proof -
  show "dec_at raw i \<Longrightarrow> dec_run raw i = raw ! i # dec_run raw (i + 1)"
    by (simp add: dec_at_iff dec_run_def Cons_nth_drop_Suc [symmetric])
  show "\<not> dec_at raw i \<Longrightarrow> dec_run raw i = []"
    by (cases "i < length raw") (auto simp: dec_at_iff dec_run_def Cons_nth_drop_Suc [symmetric])
qed

lemma int_loop_run: "int_loop raw i m = (i + length (dec_run raw i), dec_value m (dec_run raw i))"
proof (induction raw i m rule: int_loop.induct)
  case (1 raw i m)
  show ?case
    by (cases "dec_at raw i") (use 1 in \<open>simp_all add: int_loop.simps [of raw i] dec_run_step dec_value_def\<close>)
qed

lemma frac_loop_run:
  "frac_loop raw i m f = (i + length (dec_run raw i), dec_value m (dec_run raw i), f + int (length (dec_run raw i)))"
proof (induction raw i m f rule: frac_loop.induct)
  case (1 raw i m f)
  show ?case
    by (cases "dec_at raw i") (use 1 in \<open>simp_all add: frac_loop.simps [of raw i] dec_run_step dec_value_def\<close>)
qed

lemma dec_value_mono:
  "list_all is_dec bs \<Longrightarrow> 0 \<le> x \<Longrightarrow> x \<le> dec_value x bs"
proof (induction bs arbitrary: x)
  case (Cons b bs)
  then have "x \<le> x * 10 + (uint b - 0x30)" "0 \<le> x * 10 + (uint b - 0x30)" by (auto simp: is_dec_def)
  then show ?case
    using Cons.IH [of "x * 10 + (uint b - 0x30)"] Cons.prems(1) by (simp add: dec_value_def)
qed (simp add: dec_value_def)

lemma dec_run_dec [simp]: "list_all is_dec (dec_run raw i)"
  by (auto simp: dec_run_def list_all_iff dest: set_takeWhileD)

lemma exp_loop_run:
  "0 \<le> x \<Longrightarrow> exp_loop raw i x =
     (if dec_run raw i = [] \<or> dec_value x (butlast (dec_run raw i)) \<le> 1000000000
      then Some (i + length (dec_run raw i), dec_value x (dec_run raw i)) else None)"
proof (induction raw i x rule: exp_loop.induct)
  case (1 raw i x)
  show ?case
  proof (cases "dec_at raw i")
    case True
    note run = dec_run_step(1) [OF True]
    let ?x = "x * 10 + (uint (raw ! i) - 0x30)"
    have x: "0 \<le> ?x" using True 1(2) by (simp add: dec_at_def)
    show ?thesis
    proof (cases "1000000000 < x")
      case big: True
      have "list_all is_dec (butlast (dec_run raw i))"
        using dec_run_dec [of raw i] by (auto simp: list_all_iff dest: in_set_butlastD)
      from dec_value_mono [OF this 1(2)] big
      have "\<not> dec_value x (butlast (dec_run raw i)) \<le> 1000000000" by simp
      then show ?thesis using True big run by (simp add: exp_loop.simps [of raw i])
    next
      case False
      note IH = 1(1) [OF True False x]
      show ?thesis
        using True False run IH by (simp add: exp_loop.simps [of raw i] dec_value_def)
    qed
  next
    case False
    then show ?thesis
      using dec_run_step(2) [OF False] by (simp add: exp_loop.simps [of raw i] dec_value_def)
  qed
qed

text \<open>In terms of what is left from an index on.\<close>

lemma byte_at_drop: "byte_at raw i bs \<longleftrightarrow> (case drop i raw of [] \<Rightarrow> False | b # _ \<Rightarrow> b \<in> set bs)"
  by (cases "i < length raw") (simp_all add: byte_at_def Cons_nth_drop_Suc [symmetric])

lemma drop_Suc_tl: "drop i raw = b # rest \<Longrightarrow> drop (i + 1) raw = rest"
  by (metis Suc_eq_plus1 drop_Suc list.sel(3) tl_drop)

lemma dec_run_rest:
  assumes "drop i raw = ds @ rest" and "list_all is_dec ds" and "rest = [] \<or> \<not> is_dec (hd rest)"
  shows "dec_run raw i = ds"
proof -
  have "takeWhile is_dec rest = []" using assms(3) by (cases rest) auto
  moreover have "takeWhile is_dec (ds @ rest) = ds @ takeWhile is_dec rest"
    using assms(2) by (intro takeWhile_append2) (auto simp: list_all_iff)
  ultimately show ?thesis by (simp add: dec_run_def assms(1))
qed

lemma drop_dec_run: "drop i raw = dec_run raw i @ drop (i + length (dec_run raw i)) raw"
proof -
  have "drop i raw = dec_run raw i @ dropWhile is_dec (drop i raw)" by (simp add: dec_run_def)
  then have "drop (length (dec_run raw i)) (drop i raw) = dropWhile is_dec (drop i raw)"
    by (metis append_eq_conv_conj)
  then show ?thesis by (simp add: dec_run_def add.commute)
qed

definition spell_frac :: "bytes \<Rightarrow> bytes" where
  "spell_frac fs = (if fs = [] then [] else 0x2E # fs)"

lemma not_dec [simp]: "\<not> is_dec 0x2E" "\<not> is_dec 0x65" "\<not> is_dec 0x45" "\<not> is_dec 0x2B" "\<not> is_dec 0x2D"
  by (simp_all add: is_dec_def)

lemma frac_complete:
  assumes "drop i raw = spell_frac fs @ rest" and "list_all is_dec fs"
    and "rest = [] \<or> hd rest \<in> {0x65, 0x45}"
  shows "scan_fraction raw i m = Some (i + length (spell_frac fs), dec_value m fs, int (length fs))"
proof -
  have nd: "rest = [] \<or> \<not> is_dec (hd rest)" using assms(3) by auto
  show ?thesis
  proof (cases "fs = []")
    case True
    then have "\<not> byte_at raw i [0x2E]"
      using assms(1,3) by (auto simp: byte_at_drop spell_frac_def split: list.split)
    then show ?thesis using True by (simp add: scan_fraction_def spell_frac_def dec_value_def)
  next
    case False
    then have d: "drop i raw = 0x2E # fs @ rest" using assms(1) by (simp add: spell_frac_def)
    have "dec_run raw (i + 1) = fs"
      by (rule dec_run_rest [OF drop_Suc_tl [OF d] assms(2) nd])
    then show ?thesis
      using False d by (simp add: scan_fraction_def byte_at_drop frac_loop_run spell_frac_def)
  qed
qed

lemma frac_sound:
  assumes "scan_fraction raw i m = Some (i', m', f)"
  shows "\<exists>fs. list_all is_dec fs \<and> drop i raw = spell_frac fs @ drop i' raw \<and> m' = dec_value m fs
     \<and> f = int (length fs)"
proof (cases "byte_at raw i [0x2E]")
  case True
  let ?fs = "dec_run raw (i + 1)"
  obtain rest where d: "drop i raw = 0x2E # rest"
    using True by (auto simp: byte_at_drop split: list.splits)
  have "?fs \<noteq> []" "i' = i + 1 + length ?fs" "m' = dec_value m ?fs" "f = int (length ?fs)"
    using assms True by (auto simp: scan_fraction_def frac_loop_run split: if_splits)
  then show ?thesis
    using d drop_Suc_tl [OF d] drop_dec_run [of "i + 1" raw]
    by (intro exI [of _ ?fs]) (simp add: spell_frac_def)
next
  case False
  then show ?thesis
    using assms by (intro exI [of _ "[]"]) (auto simp: scan_fraction_def spell_frac_def dec_value_def)
qed

definition wf_expo :: "(byte \<times> bytes \<times> bytes) option \<Rightarrow> bool" where
  "wf_expo x \<longleftrightarrow> (case x of None \<Rightarrow> True
     | Some (e, sn, ds) \<Rightarrow> e \<in> {0x65, 0x45} \<and> sn \<in> {[], [0x2B], [0x2D]} \<and> ds \<noteq> [] \<and> list_all is_dec ds)"

lemma expo_complete:
  assumes "drop i raw = (case x of None \<Rightarrow> [] | Some (e, sn, ds) \<Rightarrow> e # sn @ ds)" and "wf_expo x"
    and "i \<le> length raw"
  shows "scan_exponent raw i =
    (if (case x of None \<Rightarrow> True | Some (e, sn, ds) \<Rightarrow> dec_value 0 (butlast ds) \<le> 1000000000)
     then Some (length raw, case x of None \<Rightarrow> 0
       | Some (e, sn, ds) \<Rightarrow> if sn = [0x2D] then - dec_value 0 ds else dec_value 0 ds) else None)"
proof (cases x)
  case None
  then show ?thesis using assms by (simp add: scan_exponent_def byte_at_drop)
next
  case (Some t)
  obtain e sn ds where x: "x = Some (e, sn, ds)" using Some by (cases t) auto
  have wf: "e \<in> {0x65, 0x45}" "sn \<in> {[], [0x2B], [0x2D]}" "ds \<noteq> []" "list_all is_dec ds"
    using assms(2) by (auto simp: wf_expo_def x)
  have d: "drop i raw = e # sn @ ds" using assms(1) x by simp
  note d1 = drop_Suc_tl [OF d]
  define first where "first = i + 1 + length sn"
  have d2: "drop first raw = ds @ []"
    using d1 by (metis append_Nil2 append_eq_conv_conj drop_drop first_def add.commute)
  have run: "dec_run raw first = ds" by (rule dec_run_rest [OF d2 wf(4)]) simp
  obtain c cs where ds: "ds = c # cs" using wf(3) by (cases ds) auto
  then have c: "is_dec c" using wf(4) by simp
  then have c': "c \<noteq> 0x2D" "c \<noteq> 0x2B" by auto
  have f: "(if byte_at raw (i + 1) [0x2B, 0x2D] then i + 1 + 1 else i + 1) = first"
    "byte_at raw (i + 1) [0x2D] \<longleftrightarrow> sn = [0x2D]"
    using wf(2) c' d1 ds by (auto simp: byte_at_drop first_def)
  have len: "first + length ds = length raw"
    using arg_cong [OF d2, of length] wf(3) by (simp add: ds)
  show ?thesis
    using wf(1,3) d f len run exp_loop_run [of 0 raw first]
    by (auto simp: scan_exponent_def byte_at_drop [of raw i] Let_def x)
qed

lemma expo_sound:
  assumes "scan_exponent raw i = Some (length raw, v)" and "i \<le> length raw"
  shows "\<exists>x. wf_expo x \<and> drop i raw = (case x of None \<Rightarrow> [] | Some (e, sn, ds) \<Rightarrow> e # sn @ ds)"
proof (cases "byte_at raw i [0x65, 0x45]")
  case False
  then have "i = length raw" using assms(1) by (simp add: scan_exponent_def)
  then show ?thesis by (intro exI [of _ None]) (simp add: wf_expo_def)
next
  case True
  then obtain e rest where d: "drop i raw = e # rest" "e \<in> {0x65, 0x45}"
    by (auto simp: byte_at_drop split: list.splits)
  note d1 = drop_Suc_tl [OF d(1)]
  define first where "first = (if byte_at raw (i + 1) [0x2B, 0x2D] then i + 1 + 1 else i + 1)"
  obtain w where "exp_loop raw first 0 = Some (length raw, w)" "length raw \<noteq> first"
    using assms(1) True by (auto simp: scan_exponent_def Let_def first_def split: option.splits if_splits)
  then have run: "first + length (dec_run raw first) = length raw" "dec_run raw first \<noteq> []"
    using exp_loop_run [of 0 raw first] by (auto split: if_splits)
  have ds: "drop first raw = dec_run raw first" using drop_dec_run [of first raw] run(1) by simp
  have "\<exists>sn. sn \<in> {[], [0x2B], [0x2D]} \<and> rest = sn @ drop first raw"
  proof (cases "byte_at raw (i + 1) [0x2B, 0x2D]")
    case True
    then obtain c cs where c: "drop (i + 1) raw = c # cs" "c = 0x2B \<or> c = 0x2D"
      by (auto simp: byte_at_drop split: list.splits)
    then show ?thesis
      using d1 drop_Suc_tl [OF c(1)] True by (intro exI [of _ "[c]"]) (auto simp: first_def)
  next
    case False
    then show ?thesis using d1 by (intro exI [of _ "[]"]) (simp add: first_def)
  qed
  then show ?thesis
  proof
    fix sn
    assume sn: "sn \<in> {[], [0x2B], [0x2D]} \<and> rest = sn @ drop first raw"
    show ?thesis
      by (rule exI [of _ "Some (e, sn, dec_run raw first)"])
        (use d ds run(2) sn in \<open>simp add: wf_expo_def\<close>)
  qed
qed

section \<open>The parser is the grammar\<close>

definition in_range :: "int \<Rightarrow> int \<Rightarrow> spelling \<Rightarrow> bool" where
  "in_range low high s \<longleftrightarrow> low \<le> significand s \<and> significand s \<le> high
     \<and> - (2 ^ 31) \<le> expo_value s - int (length (fracs s)) \<and> expo_value s - int (length (fracs s)) < 2 ^ 31"

lemma dec_value_append: "dec_value x (as @ bs) = dec_value (dec_value x as) bs"
  by (simp add: dec_value_def)

lemma parse_spelled:
  assumes "well_spelled s"
  shows "parse_scaled (spell s) low high =
    (if expo_bounded s \<and> in_range low high s
     then Some (significand s, expo_value s - int (length (fracs s))) else None)"
proof -
  define E where "E = spell_expo s"
  define raw where "raw = ints s @ spell_frac (fracs s) @ E"
  have wf: "ints s \<noteq> []" "list_all is_dec (ints s)" "list_all is_dec (fracs s)" "wf_expo (expo s)"
    using assms by (auto simp: well_spelled_def wf_expo_def)
  have E: "E = (case expo s of None \<Rightarrow> [] | Some (e, sn, ds) \<Rightarrow> e # sn @ ds)"
    by (simp add: E_def spell_expo_def)
  have hdE: "E = [] \<or> hd E \<in> {0x65, 0x45}"
    using wf(4) by (auto simp: E wf_expo_def split: option.splits)
  then have hdF: "spell_frac (fracs s) @ E = [] \<or> \<not> is_dec (hd (spell_frac (fracs s) @ E))"
    by (auto simp: spell_frac_def)
  have data: "spell s = (if sg s then 0x2D # raw else raw)"
    by (simp add: spell_def raw_def spell_frac_def E_def)
  obtain c cs where c: "ints s = c # cs" "is_dec c" using wf(1,2) by (cases "ints s") auto
  then have "c \<noteq> 0x2D" by auto
  then have neg: "(take 1 (spell s) = [0x2D]) = sg s"
    by (simp add: data raw_def c(1))
  then have raw': "(if take 1 (spell s) = [0x2D] then drop 1 (spell s) else spell s) = raw"
    by (simp add: data)
  have "dec_run raw 0 = ints s"
    by (rule dec_run_rest [OF _ wf(2) hdF]) (simp add: raw_def)
  then have i: "int_loop raw 0 0 = (length (ints s), dec_value 0 (ints s))" by (simp add: int_loop_run)
  have "drop (length (ints s)) raw = spell_frac (fracs s) @ E" by (simp add: raw_def)
  note f = frac_complete [OF this wf(3) hdE, of "dec_value 0 (ints s)"]
  define j where "j = length (ints s) + length (spell_frac (fracs s))"
  have j: "j \<le> length raw" "drop j raw = E" by (simp_all add: j_def raw_def)
  note e = expo_complete [OF j(2) [unfolded E] wf(4) j(1)]
  have ne: "spell s \<noteq> []" by (simp add: spell_def wf(1))
  have bnd: "(case expo s of None \<Rightarrow> True | Some (e, sn, ds) \<Rightarrow> dec_value 0 (butlast ds) \<le> 1000000000)
      = expo_bounded s" by (simp add: expo_bounded_def)
  have "parse_scaled (spell s) low high = scan_scaled (sg s) raw low high"
    using ne raw' by (simp add: parse_scaled_def Let_def neg del: One_nat_def)
  also have "\<dots> = (if expo_bounded s \<and> in_range low high s
      then Some (significand s, expo_value s - int (length (fracs s))) else None)"
    using wf(1) by (auto simp: scan_scaled_def Let_def i f e [unfolded bnd, folded expo_value_def]
        in_range_def significand_def dec_value_append simp flip: j_def)
  finally show ?thesis .
qed

lemma parse_scaled_sound:
  assumes "parse_scaled data low high = Some r"
  shows "\<exists>s. well_spelled s \<and> data = spell s"
proof -
  define neg where "neg \<longleftrightarrow> take 1 data = [0x2D]"
  define raw where "raw = (if neg then drop 1 data else data)"
  have data: "data = (if neg then [0x2D] else []) @ raw"
    by (cases data) (auto simp: raw_def neg_def)
  let ?i = "length (dec_run raw 0)"
  obtain j m f v where f: "scan_fraction raw ?i (dec_value 0 (dec_run raw 0)) = Some (j, m, f)"
    and e: "scan_exponent raw j = Some (length raw, v)" and i: "?i \<noteq> 0"
  proof -
    have "scan_scaled neg raw low high = Some r"
      using assms by (auto simp: parse_scaled_def Let_def neg_def raw_def simp del: One_nat_def split: if_splits)
    then show thesis
      using that by (auto simp: scan_scaled_def int_loop_run Let_def split: if_splits option.splits)
  qed
  from frac_sound [OF f] obtain fs where
    fs: "list_all is_dec fs" "drop ?i raw = spell_frac fs @ drop j raw" by blast
  have ji: "j \<le> length raw" using e by (auto simp: scan_exponent_def byte_at_def split: if_splits)
  from expo_sound [OF e ji] obtain x where
    x: "wf_expo x" "drop j raw = (case x of None \<Rightarrow> [] | Some (e, sn, ds) \<Rightarrow> e # sn @ ds)" by blast
  let ?s = "\<lparr>sg = neg, ints = dec_run raw 0, fracs = fs, expo = x\<rparr>"
  have "raw = dec_run raw 0 @ drop ?i raw" using drop_dec_run [of 0 raw] by simp
  then have raw: "dec_run raw 0 @ spell_frac fs @ (case x of None \<Rightarrow> [] | Some (e, sn, ds) \<Rightarrow> e # sn @ ds) = raw"
    by (simp only: fs(2) x(2))
  have "spell ?s = (if neg then [0x2D] else []) @
      (dec_run raw 0 @ spell_frac fs @ (case x of None \<Rightarrow> [] | Some (e, sn, ds) \<Rightarrow> e # sn @ ds))"
    by (simp add: spell_def spell_expo_def spell_frac_def)
  then have "data = spell ?s" unfolding raw using data by simp
  moreover have "well_spelled ?s"
    using i fs(1) x(1) by (auto simp: well_spelled_def wf_expo_def)
  ultimately show ?thesis by blast
qed

section \<open>Properties\<close>

text \<open>
  \<open>parse_scaled\<close> is its documented grammar, read exactly.  It answers a pair exactly for the
  spellings of \<open>[ "-" ] digit+ [ "." digit+ ] [ ("e" | "E") [ "+" | "-" ] digit+ ]\<close>: the signed
  integer all the digits before the exponent spell, and the exponent less the number of fraction
  digits; it refuses nothing else but a significand outside the bounds, a scale outside 32 bits,
  and exponent digits that pass the loop's bound before the last one.
\<close>

theorem parse_scaled_grammar:
  "parse_scaled data low high = Some (v, scale) \<longleftrightarrow>
   (\<exists>s. well_spelled s \<and> data = spell s \<and> expo_bounded s \<and> in_range low high s
      \<and> v = significand s \<and> scale = expo_value s - int (length (fracs s)))"
proof
  assume p: "parse_scaled data low high = Some (v, scale)"
  then obtain s where s: "well_spelled s" "data = spell s" using parse_scaled_sound by blast
  then show "\<exists>s. well_spelled s \<and> data = spell s \<and> expo_bounded s \<and> in_range low high s
      \<and> v = significand s \<and> scale = expo_value s - int (length (fracs s))"
    using p parse_spelled [OF s(1), of low high] by (intro exI [of _ s]) (auto split: if_splits)
next
  assume "\<exists>s. well_spelled s \<and> data = spell s \<and> expo_bounded s \<and> in_range low high s
      \<and> v = significand s \<and> scale = expo_value s - int (length (fracs s))"
  then show "parse_scaled data low high = Some (v, scale)" using parse_spelled by force
qed

theorem parse_scaled_grammar_witness:
  "parse_scaled [0x31, 0x32, 0x2E, 0x35, 0x65, 0x33] (- 1000) 1000 = Some (125, 2)"
proof -
  let ?s = "\<lparr>sg = False, ints = [0x31, 0x32], fracs = [0x35], expo = Some (0x65, [], [0x33])\<rparr>"
  have "well_spelled ?s \<and> [0x31, 0x32, 0x2E, 0x35, 0x65, 0x33] = spell ?s \<and> expo_bounded ?s
      \<and> in_range (- 1000) 1000 ?s \<and> 125 = significand ?s \<and> 2 = expo_value ?s - int (length (fracs ?s))"
    by code_simp
  then show ?thesis
    using parse_scaled_grammar [of "[0x31, 0x32, 0x2E, 0x35, 0x65, 0x33]" "- 1000" 1000 125 2] by blast
qed

end
