(* ===== verification/Runtime_Unicode.thy ===== *)
theory Runtime_Unicode
  imports Situ_Prelude
begin

text \<open>
  Text encodings of \<open>runtime/python/situ_runtime.py\<close>: \<open>utf8_valid\<close>, \<open>utf16le_valid\<close>,
  \<open>utf16be_valid\<close>, \<open>ascii_valid\<close> and \<open>ascii_ci_eq\<close>.  The first three ask Python's strict decoders
  whether they raise; the acceptors below are those decoders' state machines.
\<close>

section \<open>The acceptors\<close>

definition between :: "int \<Rightarrow> int \<Rightarrow> byte \<Rightarrow> bool" where
  "between lo hi b \<longleftrightarrow> lo \<le> uint b \<and> uint b \<le> hi"

fun utf8_valid :: "bytes \<Rightarrow> bool" where
  "utf8_valid [] = True"
| "utf8_valid (b # bs) =
     (if between 0 0x7F b then utf8_valid bs
      else if between 0xC2 0xDF b then
        (case bs of c # r \<Rightarrow> between 0x80 0xBF c \<and> utf8_valid r | _ \<Rightarrow> False)
      else if between 0xE0 0xEF b then
        (case bs of c # d # r \<Rightarrow>
           between (if uint b = 0xE0 then 0xA0 else 0x80) (if uint b = 0xED then 0x9F else 0xBF) c
           \<and> between 0x80 0xBF d \<and> utf8_valid r | _ \<Rightarrow> False)
      else if between 0xF0 0xF4 b then
        (case bs of c # d # e # r \<Rightarrow>
           between (if uint b = 0xF0 then 0x90 else 0x80) (if uint b = 0xF4 then 0x8F else 0xBF) c
           \<and> between 0x80 0xBF d \<and> between 0x80 0xBF e \<and> utf8_valid r | _ \<Rightarrow> False)
      else False)"

definition ascii_valid :: "bytes \<Rightarrow> bool" where
  "ascii_valid data \<longleftrightarrow> list_all (\<lambda>b. uint b \<le> 0x7F) data"

text \<open>Sixteen-bit units in either order; an odd byte at the end is a truncated unit.\<close>

fun utf16_units :: "bool \<Rightarrow> bytes \<Rightarrow> int list option" where
  "utf16_units big [] = Some []"
| "utf16_units big [b] = None"
| "utf16_units big (b # c # r) =
     (case utf16_units big r of None \<Rightarrow> None
      | Some us \<Rightarrow> Some (from_bytes big False [b, c] # us))"

fun surrogates_valid :: "int list \<Rightarrow> bool" where
  "surrogates_valid [] = True"
| "surrogates_valid (u # us) =
     (if 0xD800 \<le> u \<and> u \<le> 0xDBFF then
        (case us of v # r \<Rightarrow> 0xDC00 \<le> v \<and> v \<le> 0xDFFF \<and> surrogates_valid r | [] \<Rightarrow> False)
      else if 0xDC00 \<le> u \<and> u \<le> 0xDFFF then False
      else surrogates_valid us)"

definition utf16_valid :: "bool \<Rightarrow> bytes \<Rightarrow> bool" where
  "utf16_valid big data = (case utf16_units big data of None \<Rightarrow> False | Some us \<Rightarrow> surrogates_valid us)"

definition utf16le_valid :: "bytes \<Rightarrow> bool" where
  "utf16le_valid data = utf16_valid False data"

definition utf16be_valid :: "bytes \<Rightarrow> bool" where
  "utf16be_valid data = utf16_valid True data"

definition fold_byte :: "byte \<Rightarrow> byte" where
  "fold_byte b = (if between 0x41 0x5A b then byte_of (uint b + 0x20) else b)"

definition ascii_ci_eq :: "bytes \<Rightarrow> bytes \<Rightarrow> bool" where
  "ascii_ci_eq a b \<longleftrightarrow> map fold_byte a = map fold_byte b"

section \<open>The encodings\<close>

text \<open>Unicode scalar values, and the encoding forms of RFC 3629 and of UTF-16.\<close>

definition scalar :: "int \<Rightarrow> bool" where
  "scalar c \<longleftrightarrow> 0 \<le> c \<and> c < 0x110000 \<and> \<not> (0xD800 \<le> c \<and> c < 0xE000)"

definition utf8_encode :: "int \<Rightarrow> bytes" where
  "utf8_encode c =
     (if c < 0x80 then [byte_of c]
      else if c < 0x800 then [byte_of (0xC0 + c div 64), byte_of (0x80 + c mod 64)]
      else if c < 0x10000 then
        [byte_of (0xE0 + c div 4096), byte_of (0x80 + c div 64 mod 64), byte_of (0x80 + c mod 64)]
      else [byte_of (0xF0 + c div 262144), byte_of (0x80 + c div 4096 mod 64),
            byte_of (0x80 + c div 64 mod 64), byte_of (0x80 + c mod 64)])"

definition utf16_encode :: "int \<Rightarrow> int list" where
  "utf16_encode c =
     (if c < 0x10000 then [c]
      else [0xD800 + (c - 0x10000) div 1024, 0xDC00 + (c - 0x10000) mod 1024])"

section \<open>UTF-8\<close>

lemma list_cases2:
  obtains "xs = []" | x where "xs = [x]" | x y r where "xs = x # y # r"
  by (metis neq_Nil_conv)

lemma split64:
  fixes c :: int
  assumes "0 \<le> c"
  obtains q e where "c = q * 64 + e" "0 \<le> q" "0 \<le> e" "e < 64" "c div 64 = q" "c mod 64 = e"
  by (rule that [of "c div 64" "c mod 64"]) (use assms in \<open>simp_all add: pos_imp_zdiv_nonneg_iff\<close>)

lemma join64:
  fixes q e :: int
  assumes "0 \<le> e" and "e < 64"
  shows "(q * 64 + e) div 64 = q" "(q * 64 + e) mod 64 = e"
  using assms by simp_all

lemma div_4096: "(c :: int) div 4096 = c div 64 div 64" "c div 262144 = c div 64 div 64 div 64"
  by (simp_all add: zdiv_zmult2_eq [symmetric])

lemma uint_byte_of_eq: "0 \<le> v \<Longrightarrow> v < 256 \<Longrightarrow> uint (byte_of v) = v"
  by simp

text \<open>A scalar value's bytes in terms of its base-64 digits.\<close>

lemma utf8_encode_digits:
  assumes "0 \<le> b" "b < 64" "0 \<le> d" "d < 64" "0 \<le> e" "e < 64" "0 \<le> a"
  defines "c \<equiv> ((a * 64 + b) * 64 + d) * 64 + e"
  shows "utf8_encode c =
     (if c < 0x80 then [byte_of (d * 64 + e)]
      else if c < 0x800 then [byte_of (0xC0 + d), byte_of (0x80 + e)]
      else if c < 0x10000 then [byte_of (0xE0 + b), byte_of (0x80 + d), byte_of (0x80 + e)]
      else [byte_of (0xF0 + a), byte_of (0x80 + b), byte_of (0x80 + d), byte_of (0x80 + e)])"
proof -
  have dv: "c div 64 = (a * 64 + b) * 64 + d" "c mod 64 = e"
    "c div 64 div 64 = a * 64 + b" "c div 64 mod 64 = d"
    "c div 64 div 64 div 64 = a" "c div 64 div 64 mod 64 = b"
    unfolding c_def using assms(1-6) by (simp_all only: join64)
  have cf: "c = a * 262144 + b * 4096 + d * 64 + e" by (simp add: c_def)
  have "c < 0x800 \<Longrightarrow> a \<le> 0" "c < 0x800 \<Longrightarrow> b \<le> 0" "c < 0x10000 \<Longrightarrow> a \<le> 0"
    using assms(1-7) unfolding cf by linarith+
  then have small: "c < 0x800 \<Longrightarrow> a = 0 \<and> b = 0" "c < 0x10000 \<Longrightarrow> a = 0"
    using assms(1,7) by simp_all
  have e1: "c = d * 64 + e" if "c < 0x80"
  proof -
    have "a = 0" "b = 0" using small(1) that by linarith+
    then show ?thesis by (simp add: c_def)
  qed
  have e2: "c < 0x800 \<Longrightarrow> (a * 64 + b) * 64 + d = d" using small(1) by simp
  have e3: "c < 0x10000 \<Longrightarrow> a * 64 + b = b" using small(2) by simp
  consider "c < 0x80" | "\<not> c < 0x80" "c < 0x800" | "\<not> c < 0x80" "\<not> c < 0x800" "c < 0x10000"
    | "\<not> c < 0x80" "\<not> c < 0x800" "\<not> c < 0x10000" by blast
  then show ?thesis
  proof cases
    case 1
    then show ?thesis unfolding utf8_encode_def using e1 [OF 1] by (simp add: 1)
  next
    case 2
    then show ?thesis unfolding utf8_encode_def
      by (simp only: dv(1,2) if_True if_False) (simp only: e2)
  next
    case 3
    then show ?thesis unfolding utf8_encode_def div_4096
      by (simp only: dv(2-4) if_True if_False) (simp only: e3)
  next
    case 4
    then show ?thesis unfolding utf8_encode_def div_4096 by (simp only: dv(2,4-6) if_False)
  qed
qed

lemma utf8_valid_encode:
  assumes "scalar c"
  shows "utf8_valid (utf8_encode c @ rest) = utf8_valid rest"
proof -
  have c0: "0 \<le> c" using assms by (simp add: scalar_def)
  obtain q e where e: "c = q * 64 + e" "0 \<le> q" "0 \<le> e" "e < 64" by (rule split64 [OF c0])
  obtain r d where d: "q = r * 64 + d" "0 \<le> r" "0 \<le> d" "d < 64" by (rule split64 [OF e(2)])
  obtain a b where b: "r = a * 64 + b" "0 \<le> a" "0 \<le> b" "b < 64" by (rule split64 [OF d(2)])
  have c': "c = ((a * 64 + b) * 64 + d) * 64 + e" by (simp only: e(1) d(1) b(1))
  note enc = utf8_encode_digits [OF b(3,4) d(3,4) e(3,4) b(2), folded c']
  have c: "c = a * 262144 + b * 4096 + d * 64 + e" by (simp add: c')
  note b = b(2-) and d = d(3-) and e = e(3-)
  have top: "c < 0x110000" "\<not> (0xD800 \<le> c \<and> c < 0xE000)" using assms by (simp_all add: scalar_def)
  consider "c < 0x80" | "0x80 \<le> c" "c < 0x800" | "0x800 \<le> c" "c < 0x10000" | "0x10000 \<le> c" by linarith
  then show ?thesis
  proof cases
    case 1
    have "uint (byte_of (d * 64 + e)) = d * 64 + e"
      by (rule uint_byte_of_eq) (use 1 c b d e in linarith)+
    moreover have "0 \<le> d * 64 + e" "d * 64 + e \<le> 0x7F" using 1 c b d e by linarith+
    ultimately show ?thesis using 1 by (simp add: enc between_def)
  next
    case 2
    have u: "uint (byte_of (0xC0 + d)) = 0xC0 + d" "uint (byte_of (0x80 + e)) = 0x80 + e"
      by (rule uint_byte_of_eq; use 2 c b d e in linarith)+
    have "b \<le> 0" "a \<le> 0" using 2 c b d e by linarith+
    then have "2 \<le> d" "d \<le> 31" using 2 c b d e by linarith+
    then show ?thesis using 2 e by (simp add: enc between_def u)
  next
    case 3
    have "a \<le> 0" using 3 c b d e by linarith
    then have a: "a = 0" using b(1) by simp
    then have b16: "b < 16" using 3 c b d e by linarith
    have u: "uint (byte_of (0xE0 + b)) = 0xE0 + b" "uint (byte_of (0x80 + d)) = 0x80 + d"
      "uint (byte_of (0x80 + e)) = 0x80 + e"
      by (rule uint_byte_of_eq; use b16 b d e in linarith)+
    have "b = 0 \<Longrightarrow> 32 \<le> d" "b = 13 \<Longrightarrow> d < 32" using 3 top c a b d e by linarith+
    then show ?thesis using 3 b16 b d e by (auto simp: enc between_def u)
  next
    case 4
    have a: "a \<le> 4" using top c b d e by linarith
    have u: "uint (byte_of (0xF0 + a)) = 0xF0 + a" "uint (byte_of (0x80 + b)) = 0x80 + b"
      "uint (byte_of (0x80 + d)) = 0x80 + d" "uint (byte_of (0x80 + e)) = 0x80 + e"
      by (rule uint_byte_of_eq; use a b d e in linarith)+
    have "a = 0 \<Longrightarrow> 16 \<le> b" "a = 4 \<Longrightarrow> b < 16" using 4 top c a b d e by linarith+
    then show ?thesis using 4 a b d e by (auto simp: enc between_def u)
  qed
qed

lemma byte_of_low:
  assumes "between (k + lo) (k + hi) x"
  obtains y where "lo \<le> y" "y \<le> hi" "x = byte_of (k + y)" "uint x = k + y"
  by (rule that [of "uint x - k"]) (use assms in \<open>auto simp: between_def\<close>)

text \<open>The converse: an accepted string starts with the encoding of a scalar value.\<close>

lemma utf8_valid_split:
  assumes "utf8_valid (b # bs)"
  shows "\<exists>c rest. scalar c \<and> b # bs = utf8_encode c @ rest \<and> utf8_valid rest"
proof -
  consider (one) "between 0 0x7F b" "utf8_valid bs"
    | (two) c r where "between 0xC2 0xDF b" "bs = c # r" "between 0x80 0xBF c" "utf8_valid r"
    | (three) c d r where "between 0xE0 0xEF b" "bs = c # d # r"
        "between (if uint b = 0xE0 then 0xA0 else 0x80) (if uint b = 0xED then 0x9F else 0xBF) c"
        "between 0x80 0xBF d" "utf8_valid r"
    | (four) c d e r where "between 0xF0 0xF4 b" "bs = c # d # e # r"
        "between (if uint b = 0xF0 then 0x90 else 0x80) (if uint b = 0xF4 then 0x8F else 0xBF) c"
        "between 0x80 0xBF d" "between 0x80 0xBF e" "utf8_valid r"
  proof -
    have r80: "\<not> between 0 0x7F b" "\<not> between 0xC2 0xDF b" if "between 0xE0 0xEF b"
      using that by (auto simp: between_def)
    consider "between 0 0x7F b" | "\<not> between 0 0x7F b" "between 0xC2 0xDF b"
      | "between 0xE0 0xEF b" | "\<not> between 0 0x7F b" "\<not> between 0xC2 0xDF b" "\<not> between 0xE0 0xEF b"
          "between 0xF0 0xF4 b"
      | "\<not> between 0 0x7F b" "\<not> between 0xC2 0xDF b" "\<not> between 0xE0 0xEF b" "\<not> between 0xF0 0xF4 b"
      by blast
    then show thesis
    proof cases
      case 1
      then show thesis using assms one by simp
    next
      case 2
      then show thesis using assms two by (cases bs) auto
    next
      case 3
      then show thesis
        using assms three r80 by (cases bs rule: list_cases2) simp_all
    next
      case 4
      then obtain c bs' where bs: "bs = c # bs'" using assms by (cases bs) auto
      from 4 show thesis
        using assms four bs by (cases bs' rule: list_cases2) simp_all
    next
      case 5
      then show thesis using assms by simp
    qed
  qed
  then show ?thesis
  proof cases
    case one
    then show ?thesis
      by (intro exI [of _ "uint b"] exI [of _ bs]) (simp add: scalar_def utf8_encode_def between_def)
  next
    case (two c r)
    obtain d where d: "2 \<le> d" "d \<le> 31" "b = byte_of (0xC0 + d)"
      by (rule byte_of_low [of "0xC0" 2 31 b]) (use two(1) in simp_all)
    obtain e where e: "0 \<le> e" "e \<le> 63" "c = byte_of (0x80 + e)"
      by (rule byte_of_low [of "0x80" 0 63 c]) (use two(3) in simp_all)
    let ?c = "((0 * 64 + 0) * 64 + d) * 64 + e"
    have "utf8_encode ?c = [b, c]"
      using utf8_encode_digits [of 0 d e 0] d e by simp
    moreover have "scalar ?c" using d e by (simp add: scalar_def)
    ultimately show ?thesis using two by (intro exI [of _ ?c] exI [of _ r]) simp
  next
    case (three c d r)
    obtain x where x: "0 \<le> x" "x \<le> 15" "b = byte_of (0xE0 + x)" "uint b = 0xE0 + x"
      by (rule byte_of_low [of "0xE0" 0 15 b]) (use three(1) in simp_all)
    obtain y where y: "0 \<le> y" "y \<le> 63" "c = byte_of (0x80 + y)" "uint c = 0x80 + y"
      by (rule byte_of_low [of "0x80" 0 63 c]) (use three(3) in \<open>auto simp: between_def split: if_splits\<close>)
    obtain z where z: "0 \<le> z" "z \<le> 63" "d = byte_of (0x80 + z)"
      by (rule byte_of_low [of "0x80" 0 63 d]) (use three(4) in simp_all)
    have xy: "x = 0 \<Longrightarrow> 32 \<le> y" "x = 13 \<Longrightarrow> y < 32"
      using three(3) by (auto simp: between_def x(4) y(4))
    let ?c = "((0 * 64 + x) * 64 + y) * 64 + z"
    have "32 \<le> x * 64 + y" using xy(1) x(1) y(1) by (cases "x = 0") simp_all
    moreover have fl: "?c = x * 4096 + y * 64 + z" by simp
    ultimately have ge: "\<not> ?c < 0x800" "\<not> ?c < 0x80" "?c < 0x10000" using x y z by linarith+
    then have "utf8_encode ?c = [b, c, d]"
      using utf8_encode_digits [of x y z 0] x y z by simp
    moreover have "\<not> (0xD800 \<le> ?c \<and> ?c < 0xE000)"
    proof
      assume r: "0xD800 \<le> ?c \<and> ?c < 0xE000"
      then have "13 \<le> x" "x \<le> 13" using fl y(1,2) z(1,2) by linarith+
      then have "y < 32" by (intro xy(2)) simp
      with r fl \<open>x \<le> 13\<close> z(2) show False by linarith
    qed
    then have "scalar ?c" using ge x(1) y(1) z(1) by (simp add: scalar_def)
    ultimately show ?thesis using three by (intro exI [of _ ?c] exI [of _ r]) simp
  next
    case (four c d e r)
    obtain w where w: "0 \<le> w" "w \<le> 4" "b = byte_of (0xF0 + w)" "uint b = 0xF0 + w"
      by (rule byte_of_low [of "0xF0" 0 4 b]) (use four(1) in simp_all)
    obtain x where x: "0 \<le> x" "x \<le> 63" "c = byte_of (0x80 + x)" "uint c = 0x80 + x"
      by (rule byte_of_low [of "0x80" 0 63 c]) (use four(3) in \<open>auto simp: between_def split: if_splits\<close>)
    obtain y where y: "0 \<le> y" "y \<le> 63" "d = byte_of (0x80 + y)"
      by (rule byte_of_low [of "0x80" 0 63 d]) (use four(4) in simp_all)
    obtain z where z: "0 \<le> z" "z \<le> 63" "e = byte_of (0x80 + z)"
      by (rule byte_of_low [of "0x80" 0 63 e]) (use four(5) in simp_all)
    have wx: "w = 0 \<Longrightarrow> 16 \<le> x" "w = 4 \<Longrightarrow> x < 16"
      using four(3) by (auto simp: between_def x(4) w(4))
    let ?c = "((w * 64 + x) * 64 + y) * 64 + z"
    have "16 \<le> w * 64 + x" using wx(1) w(1) x(1) by (cases "w = 0") simp_all
    moreover have "?c = w * 262144 + x * 4096 + y * 64 + z" by simp
    moreover have "w * 64 + x < 4 * 64 + 16" using wx(2) w(2) x(2) by (cases "w = 4") simp_all
    ultimately have ge: "\<not> ?c < 0x800" "\<not> ?c < 0x80" "\<not> ?c < 0x10000" "?c < 0x110000"
      using y z by linarith+
    then have "utf8_encode ?c = [b, c, d, e]"
      using utf8_encode_digits [of x y z w] w x y z by simp
    moreover have "scalar ?c" using ge w x y z by (simp add: scalar_def)
    ultimately show ?thesis using four by (intro exI [of _ ?c] exI [of _ r]) simp
  qed
qed

section \<open>UTF-16\<close>

lemma utf16_encode_valid:
  assumes "scalar c"
  shows "surrogates_valid (utf16_encode c @ us) = surrogates_valid us"
proof (cases "c < 0x10000")
  case True
  then show ?thesis using assms by (auto simp: utf16_encode_def scalar_def)
next
  case False
  define x where "x = c - 0x10000"
  have "0 \<le> x" "x < 0x100000" using False assms by (auto simp: x_def scalar_def)
  then have "0 \<le> x div 1024" "x div 1024 < 1024" "0 \<le> x mod 1024" "x mod 1024 < 1024"
    by (simp_all add: pos_imp_zdiv_nonneg_iff)
  moreover have le: "x mod 1024 \<le> 1023" using pos_mod_bound [of 1024 x] by linarith
  ultimately show ?thesis using False by (simp add: utf16_encode_def le flip: x_def)
qed

definition unit16 :: "int \<Rightarrow> bool" where
  "unit16 u \<longleftrightarrow> 0 \<le> u \<and> u < 0x10000"

lemma surrogates_valid_split:
  assumes "surrogates_valid (u # us)" and "list_all unit16 (u # us)"
  shows "\<exists>c rest. scalar c \<and> u # us = utf16_encode c @ rest \<and> surrogates_valid rest"
proof (cases "0xD800 \<le> u \<and> u \<le> 0xDBFF")
  case True
  then obtain v r where v: "us = v # r" "0xDC00 \<le> v" "v \<le> 0xDFFF" "surrogates_valid r"
    using assms(1) by (auto split: list.splits)
  define p where "p = u - 0xD800"
  define q where "q = v - 0xDC00"
  have pq: "0 \<le> p" "p < 1024" "0 \<le> q" "q < 1024" "u = 0xD800 + p" "v = 0xDC00 + q"
    using True v(2,3) by (simp_all add: p_def q_def)
  let ?c = "0x10000 + (p * 1024 + q)"
  have dv: "(p * 1024 + q) div 1024 = p" "(p * 1024 + q) mod 1024 = q" using pq(3,4) by simp_all
  have "\<not> ?c < 0x10000" using pq(1,3) by simp
  then have "utf16_encode ?c = [u, v]"
    by (simp only: utf16_encode_def if_False add_diff_cancel_left' dv pq(5,6))
  moreover have "scalar ?c" using pq(1-4) by (auto simp: scalar_def)
  ultimately show ?thesis using v(1,4) by (intro exI [of _ ?c] exI [of _ r]) simp
next
  case False
  then have "utf16_encode u = [u]" "scalar u" "surrogates_valid us"
    using assms by (auto simp: utf16_encode_def scalar_def unit16_def split: if_splits)
  then show ?thesis by (intro exI [of _ u] exI [of _ us]) simp
qed

lemma utf16_units_unit: "utf16_units big bs = Some us \<Longrightarrow> list_all unit16 us"
proof (induction big bs arbitrary: us rule: utf16_units.induct)
  case (3 big b c r)
  have "0 \<le> unsigned_from big [b, c]" "unsigned_from big [b, c] < 2 ^ (8 * length [b, c])"
    by (rule unsigned_from_bounds)+
  then show ?case using 3 by (auto simp: unit16_def split: option.splits)
qed auto

section \<open>Properties\<close>

lemma chunks_iff:
  assumes step: "\<And>x xs. valid (x # xs) \<Longrightarrow> \<exists>c rest. P c \<and> x # xs = enc c @ rest \<and> valid rest"
    and ext: "\<And>c rest. P c \<Longrightarrow> valid (enc c @ rest) = valid rest"
    and empty: "valid []" and ne: "\<And>c. P c \<Longrightarrow> enc c \<noteq> []"
  shows "valid xs \<longleftrightarrow> (\<exists>cs. list_all P cs \<and> xs = concat (map enc cs))"
proof
  show "valid xs \<Longrightarrow> \<exists>cs. list_all P cs \<and> xs = concat (map enc cs)"
  proof (induction xs rule: length_induct)
    case (1 xs)
    show ?case
    proof (cases xs)
      case Nil
      then show ?thesis by (intro exI [of _ "[]"]) simp
    next
      case (Cons y ys)
      then obtain c rest where c: "P c" "xs = enc c @ rest" "valid rest" using step 1(2) by metis
      then have "length rest < length xs" using ne by simp
      with 1(1) c(3) obtain cs where "list_all P cs" "rest = concat (map enc cs)" by blast
      then show ?thesis using c by (intro exI [of _ "c # cs"]) simp
    qed
  qed
next
  assume "\<exists>cs. list_all P cs \<and> xs = concat (map enc cs)"
  then obtain cs where "list_all P cs" "xs = concat (map enc cs)" by blast
  then show "valid xs"
    by (induction cs arbitrary: xs) (use ext empty in auto)
qed

text \<open>
  C40: \<open>utf8_valid\<close> accepts exactly the byte strings that are encodings of Unicode scalar values in
  their shortest form: no overlong form, no surrogate half, nothing past U+10FFFF, and no cut or
  stray continuation byte is admitted, and every text is.
\<close>

theorem utf8_valid_iff:
  "utf8_valid data \<longleftrightarrow> (\<exists>cs. list_all scalar cs \<and> data = concat (map utf8_encode cs))"
  by (rule chunks_iff [OF utf8_valid_split utf8_valid_encode]) (simp_all add: utf8_encode_def)

text \<open>
  \<open>utf16le_valid\<close> and \<open>utf16be_valid\<close> accept exactly the byte strings of even length whose
  units, in that order, are the UTF-16 encoding of Unicode scalar values: no lone surrogate of
  either kind is admitted.
\<close>

theorem utf16_valid_iff:
  "(utf16_valid big data \<longleftrightarrow>
     (\<exists>us cs. utf16_units big data = Some us \<and> list_all scalar cs \<and> us = concat (map utf16_encode cs)))
   \<and> (even (length data) \<longleftrightarrow> utf16_units big data \<noteq> None)"
proof -
  have even: "even (length data) \<longleftrightarrow> utf16_units big data \<noteq> None"
    by (induction big data rule: utf16_units.induct) (auto split: option.splits)
  have "surrogates_valid us \<longleftrightarrow> (\<exists>cs. list_all scalar cs \<and> us = concat (map utf16_encode cs))"
    if "list_all unit16 us" for us
  proof -
    have scalar16: "list_all unit16 (utf16_encode c)" if "scalar c" for c
    proof -
      have "0 \<le> (c - 0x10000) mod 1024" "(c - 0x10000) mod 1024 < 1024" by simp_all
      moreover have "0 \<le> (c - 0x10000) div 1024 \<and> (c - 0x10000) div 1024 < 1024" if "0x10000 \<le> c"
        using that \<open>scalar c\<close> unfolding scalar_def by (simp add: pos_imp_zdiv_nonneg_iff)
      ultimately show ?thesis
        using that by (auto simp: utf16_encode_def unit16_def scalar_def)
    qed
    have "list_all unit16 us \<and> surrogates_valid us \<longleftrightarrow>
        (\<exists>cs. list_all scalar cs \<and> us = concat (map utf16_encode cs))"
    proof (rule chunks_iff)
      fix x :: int and xs :: "int list"
      assume "list_all unit16 (x # xs) \<and> surrogates_valid (x # xs)"
      then show "\<exists>c rest. scalar c \<and> x # xs = utf16_encode c @ rest \<and> list_all unit16 rest \<and> surrogates_valid rest"
        using surrogates_valid_split [of x xs] by (metis list_all_append)
    qed (auto simp: utf16_encode_valid scalar16, simp add: utf16_encode_def split: if_splits)
    then show ?thesis using that by simp
  qed
  then show ?thesis
    using even utf16_units_unit [of big data] by (auto simp: utf16_valid_def split: option.splits)
qed

end
