(* ===== verification/Capability.thy ===== *)
theory Capability
  imports Runtime_Numbers
begin

text \<open>
  \<open>situc/capability.py\<close>: the axes, their domains in weakening order, values with parameters, the
  vector of one field and the meet.  A vector is the code's tuple of held axes; an axis it does
  not hold is at its strongest.  \<open>int(...)\<close> of a parameter and an unknown base raise
  \<open>ValueError\<close>, as does an attempt to strengthen.
\<close>

section \<open>Axes and values\<close>

datatype axis = SIZE | OFFSET | ACCESS | MUTATE | ADDRESS | ALIGN | REPR | ATOMIC | CANONICAL
  | STAGE | AUTH | SECRECY | EFFECT

definition all_axes :: "axis list" where
  "all_axes = [SIZE, OFFSET, ACCESS, MUTATE, ADDRESS, ALIGN, REPR, ATOMIC, CANONICAL, STAGE, AUTH,
     SECRECY, EFFECT]"

fun axis_value :: "axis \<Rightarrow> string" where
  "axis_value SIZE = ''size''" | "axis_value OFFSET = ''offset''" | "axis_value ACCESS = ''access''"
| "axis_value MUTATE = ''mutate''" | "axis_value ADDRESS = ''address''" | "axis_value ALIGN = ''align''"
| "axis_value REPR = ''repr''" | "axis_value ATOMIC = ''atomic''" | "axis_value CANONICAL = ''canonical''"
| "axis_value STAGE = ''stage''" | "axis_value AUTH = ''auth''" | "axis_value SECRECY = ''secrecy''"
| "axis_value EFFECT = ''effect''"

fun DOMAINS :: "axis \<Rightarrow> string list" where
  "DOMAINS SIZE = [''Fixed'', ''Bounded'', ''Unbounded'']"
| "DOMAINS OFFSET = [''AbsoluteStatic'', ''FrameStatic'', ''MessageStatic'', ''Dynamic'', ''DataPlaced'', ''Scanned'']"
| "DOMAINS ACCESS = [''Random'', ''Sequential'']"
| "DOMAINS MUTATE = [''InPlaceFixed'', ''InPlaceSlack'', ''Shifting'', ''RewriteRequired'', ''Immutable'']"
| "DOMAINS ADDRESS = [''Stable'', ''FrameStable'', ''Unstable'']"
| "DOMAINS ALIGN = [''Aligned'', ''Unaligned'']"
| "DOMAINS REPR = [''MemoryIdentical'', ''ValueConverted'', ''TextConverted'', ''ConditionallyConverted'']"
| "DOMAINS ATOMIC = [''AtomicWord'', ''NonAtomic'']"
| "DOMAINS CANONICAL = [''Canonical'', ''CanonicalGiven'', ''NonCanonical'']"
| "DOMAINS STAGE = [''CompileTime'', ''ParseTime'', ''TransformTime'', ''VerifyGated'']"
| "DOMAINS AUTH = [''Uncovered'', ''Covered'']"
| "DOMAINS SECRECY = [''Public'', ''Secret'']"
| "DOMAINS EFFECT = [''Pure'', ''EffectOnRead'', ''EffectOnWrite'', ''EffectBoth'']"

definition NUMERIC_STRENGTH :: "axis set" where
  "NUMERIC_STRENGTH = {ALIGN}"

definition SET_VALUED :: "axis set" where
  "SET_VALUED = {AUTH}"

record cap_value =
  base :: string
  params :: "string list"

abbreviation bare :: "string \<Rightarrow> cap_value" where
  "bare b \<equiv> \<lparr>base = b, params = []\<rparr>"

text \<open>\<open>int(text)\<close> of a parameter.\<close>

definition int_of_string :: "string \<Rightarrow> int res" where
  "int_of_string s =
     (case py_int (map (\<lambda>c. byte_of (of_char c)) s) 10 of None \<Rightarrow> Inl PyValueError | Some v \<Rightarrow> Inr v)"

definition rank :: "axis \<Rightarrow> cap_value \<Rightarrow> nat res" where
  "rank ax v = list_index (DOMAINS ax) (base v)"

definition is_at_least :: "axis \<Rightarrow> cap_value \<Rightarrow> cap_value \<Rightarrow> bool res" where
  "is_at_least ax actual required =
     bindE (rank ax actual) (\<lambda>actual_rank.
     bindE (rank ax required) (\<lambda>required_rank.
       if actual_rank \<noteq> required_rank then Inr (actual_rank < required_rank)
       else if ax \<in> NUMERIC_STRENGTH \<and> params actual \<noteq> [] \<and> params required \<noteq> [] then
         bindE (int_of_string (hd (params actual))) (\<lambda>a.
         bindE (int_of_string (hd (params required))) (\<lambda>r. Inr (r \<le> a)))
       else Inr True))"

definition meet_values :: "axis \<Rightarrow> cap_value \<Rightarrow> cap_value \<Rightarrow> cap_value res" where
  "meet_values ax left right =
     bindE (rank ax left) (\<lambda>l. bindE (rank ax right) (\<lambda>r.
       if l \<noteq> r then Inr (if r < l then left else right)
       else if ax \<in> NUMERIC_STRENGTH \<and> params left \<noteq> [] \<and> params right \<noteq> [] then
         bindE (int_of_string (hd (params left))) (\<lambda>a.
         bindE (int_of_string (hd (params right))) (\<lambda>b. Inr (if a \<le> b then left else right)))
       else if ax \<in> SET_VALUED \<and> (params left \<noteq> [] \<or> params right \<noteq> []) then
         Inr \<lparr>base = base left, params = remdups_first (params left @ params right)\<rparr>
       else Inr left))"

section \<open>Vectors\<close>

type_synonym cap_vector = "(axis \<times> cap_value) list"

definition vget :: "cap_vector \<Rightarrow> axis \<Rightarrow> cap_value" where
  "vget v ax = (case find (\<lambda>(held, _). held = ax) v of
     Some (_, val) \<Rightarrow> val | None \<Rightarrow> bare (hd (DOMAINS ax)))"

definition with_value :: "cap_vector \<Rightarrow> axis \<Rightarrow> cap_value \<Rightarrow> cap_vector res" where
  "with_value v ax val =
     bindE (rank ax val) (\<lambda>n. bindE (rank ax (vget v ax)) (\<lambda>c.
       if n < c then Inl PyValueError
       else Inr (filter (\<lambda>(held, _). held \<noteq> ax) v @ [(ax, val)])))"

fun meet_loop :: "cap_vector \<Rightarrow> cap_vector \<Rightarrow> axis list \<Rightarrow> cap_vector \<Rightarrow> cap_vector res" where
  "meet_loop left right [] result = Inr result"
| "meet_loop left right (ax # axs) result =
     bindE (meet_values ax (vget left ax) (vget right ax)) (\<lambda>m.
     bindE (with_value result ax m) (\<lambda>result'. meet_loop left right axs result'))"

definition vmeet :: "cap_vector \<Rightarrow> cap_vector \<Rightarrow> cap_vector res" where
  "vmeet left right = meet_loop left right all_axes []"

fun at_least_loop :: "cap_vector \<Rightarrow> cap_vector \<Rightarrow> axis list \<Rightarrow> bool res" where
  "at_least_loop v w [] = Inr True"
| "at_least_loop v w (ax # axs) =
     bindE (is_at_least ax (vget v ax) (vget w ax)) (\<lambda>b.
       if b then at_least_loop v w axs else Inr False)"

definition vat_least :: "cap_vector \<Rightarrow> cap_vector \<Rightarrow> bool res" where
  "vat_least v w = at_least_loop v w all_axes"

definition items :: "cap_vector \<Rightarrow> (axis \<times> cap_value) list" where
  "items v = map (\<lambda>ax. (ax, vget v ax)) all_axes"

definition strongest :: cap_vector where
  "strongest = []"

fun meet_all_loop :: "cap_vector \<Rightarrow> cap_vector list \<Rightarrow> cap_vector res" where
  "meet_all_loop result [] = Inr result"
| "meet_all_loop result (v # vs) = bindE (vmeet result v) (\<lambda>r. meet_all_loop r vs)"

definition meet_all :: "cap_vector list \<Rightarrow> cap_vector res" where
  "meet_all vs = meet_all_loop strongest vs"

section \<open>Well-formed values\<close>

text \<open>
  What the compiler holds: the base is of the axis, and an alignment's parameter is a number.  On
  these nothing raises but a strengthening, and the operations have simple values.
\<close>

definition strength :: "cap_value \<Rightarrow> int" where
  "strength v = (case int_of_string (hd (params v)) of Inr n \<Rightarrow> n | Inl _ \<Rightarrow> 0)"

definition wf_value :: "axis \<Rightarrow> cap_value \<Rightarrow> bool" where
  "wf_value ax v \<longleftrightarrow> base v \<in> set (DOMAINS ax)
     \<and> (ax = ALIGN \<and> params v \<noteq> [] \<longrightarrow> (case int_of_string (hd (params v)) of Inr _ \<Rightarrow> True | Inl _ \<Rightarrow> False))"

definition wf_vector :: "cap_vector \<Rightarrow> bool" where
  "wf_vector v \<longleftrightarrow> list_all (\<lambda>ax. wf_value ax (vget v ax)) all_axes"

definition rk :: "axis \<Rightarrow> cap_value \<Rightarrow> nat" where
  "rk ax v = index_in (DOMAINS ax) (base v)"

definition both_params :: "axis \<Rightarrow> cap_value \<Rightarrow> cap_value \<Rightarrow> bool" where
  "both_params ax v w \<longleftrightarrow> ax = ALIGN \<and> params v \<noteq> [] \<and> params w \<noteq> []"

definition at_least :: "axis \<Rightarrow> cap_value \<Rightarrow> cap_value \<Rightarrow> bool" where
  "at_least ax v w \<longleftrightarrow> rk ax v < rk ax w \<or> rk ax v = rk ax w \<and> (both_params ax v w \<longrightarrow> strength w \<le> strength v)"

definition weaker :: "axis \<Rightarrow> cap_value \<Rightarrow> cap_value \<Rightarrow> cap_value" where
  "weaker ax v w =
     (if rk ax v \<noteq> rk ax w then (if rk ax w < rk ax v then v else w)
      else if both_params ax v w then (if strength v \<le> strength w then v else w)
      else if ax = AUTH \<and> (params v \<noteq> [] \<or> params w \<noteq> []) then
        \<lparr>base = base v, params = remdups_first (params v @ params w)\<rparr>
      else v)"

lemma set_all_axes [simp]: "set all_axes = UNIV"
proof -
  have "ax \<in> set all_axes" for ax by (cases ax) (simp_all add: all_axes_def)
  then show ?thesis by blast
qed

lemma distinct_all_axes [simp]: "distinct all_axes"
  by (simp add: all_axes_def)

lemma wf_vectorD: "wf_vector v \<Longrightarrow> wf_value ax (vget v ax)"
  by (simp add: wf_vector_def list_all_iff)

lemma DOMAINS_ne [simp]: "DOMAINS ax \<noteq> []"
  by (cases ax) simp_all

lemma rank_wf: "wf_value ax v \<Longrightarrow> rank ax v = Inr (rk ax v)"
  by (simp add: rank_def list_index_eq rk_def wf_value_def)

lemma strength_wf:
  assumes "wf_value ALIGN v" and "params v \<noteq> []"
  shows "int_of_string (hd (params v)) = Inr (strength v)"
  using assms by (auto simp: wf_value_def strength_def split: sum.splits)

lemma is_at_least_wf:
  "wf_value ax v \<Longrightarrow> wf_value ax w \<Longrightarrow> is_at_least ax v w = Inr (at_least ax v w)"
  by (auto simp: is_at_least_def rank_wf at_least_def both_params_def NUMERIC_STRENGTH_def strength_wf)

lemma meet_values_wf:
  "wf_value ax v \<Longrightarrow> wf_value ax w \<Longrightarrow> meet_values ax v w = Inr (weaker ax v w)"
  by (auto simp: meet_values_def rank_wf weaker_def both_params_def NUMERIC_STRENGTH_def SET_VALUED_def
      strength_wf)

lemma wf_weaker: "wf_value ax v \<Longrightarrow> wf_value ax w \<Longrightarrow> wf_value ax (weaker ax v w)"
  by (auto simp: weaker_def wf_value_def)

lemma rk_weaker: "rk ax (weaker ax v w) = max (rk ax v) (rk ax w)"
  by (auto simp: weaker_def rk_def)

lemma rk_strongest [simp]: "rk ax (bare (hd (DOMAINS ax))) = 0"
  by (cases ax) (simp_all add: rk_def index_in_def)

lemma wf_strongest [simp]: "wf_value ax (bare (hd (DOMAINS ax)))"
  by (cases ax) (simp_all add: wf_value_def)

lemma vget_Nil [simp]: "vget [] ax = bare (hd (DOMAINS ax))"
  by (simp add: vget_def)

lemma vget_set:
  "vget (filter (\<lambda>(held, _). held \<noteq> ax) v @ [(ax, val)]) bx = (if bx = ax then val else vget v bx)"
proof (induction v)
  case (Cons p v)
  obtain a x where p: "p = (a, x)" by (cases p)
  show ?case using Cons by (auto simp: vget_def p split: if_splits)
qed (auto simp: vget_def)

section \<open>The meet of two vectors\<close>

lemma meet_loop_value:
  assumes "wf_vector left" and "wf_vector right"
  shows "distinct axs \<Longrightarrow> \<forall>ax \<in> set axs. vget result ax = bare (hd (DOMAINS ax)) \<Longrightarrow>
    \<exists>v. meet_loop left right axs result = Inr v
      \<and> (\<forall>ax. vget v ax = (if ax \<in> set axs then weaker ax (vget left ax) (vget right ax) else vget result ax))"
proof (induction axs arbitrary: result)
  case (Cons ax axs)
  let ?m = "weaker ax (vget left ax) (vget right ax)"
  let ?r = "filter (\<lambda>(held, _). held \<noteq> ax) result @ [(ax, ?m)]"
  note wl = wf_vectorD [OF assms(1), of ax] and wr = wf_vectorD [OF assms(2), of ax]
  have "with_value result ax ?m = Inr ?r"
    using Cons.prems wf_weaker [OF wl wr] by (simp add: with_value_def rank_wf)
  moreover have "\<forall>bx \<in> set axs. vget ?r bx = bare (hd (DOMAINS bx))"
    using Cons.prems by (auto simp: vget_set)
  then obtain v where "meet_loop left right axs ?r = Inr v"
    "\<forall>bx. vget v bx = (if bx \<in> set axs then weaker bx (vget left bx) (vget right bx) else vget ?r bx)"
    using Cons.IH [of ?r] Cons.prems(1) by auto
  ultimately show ?case
    using Cons.prems(1) by (auto simp: meet_values_wf [OF wl wr] vget_set)
qed simp

lemma vmeet_value:
  assumes "wf_vector left" and "wf_vector right"
  obtains v where "vmeet left right = Inr v" "wf_vector v"
    "\<And>ax. vget v ax = weaker ax (vget left ax) (vget right ax)"
proof -
  obtain v where v: "vmeet left right = Inr v" "\<forall>ax. vget v ax = weaker ax (vget left ax) (vget right ax)"
    using meet_loop_value [OF assms distinct_all_axes, of "[]"] by (auto simp: vmeet_def)
  then have "wf_value ax (vget v ax)" for ax
    using wf_weaker [OF wf_vectorD [OF assms(1)] wf_vectorD [OF assms(2)]] by simp
  then have "wf_vector v" by (simp add: wf_vector_def list_all_iff)
  with v that show thesis by blast
qed

lemma at_least_loop_wf:
  assumes "wf_vector v" and "wf_vector w"
  shows "at_least_loop v w axs = Inr (\<forall>ax \<in> set axs. at_least ax (vget v ax) (vget w ax))"
  by (induction axs) (simp_all add: is_at_least_wf wf_vectorD assms)

lemma vat_least_wf:
  "wf_vector v \<Longrightarrow> wf_vector w \<Longrightarrow> vat_least v w = Inr (\<forall>ax. at_least ax (vget v ax) (vget w ax))"
  by (simp add: vat_least_def at_least_loop_wf)

lemma rk_same_base [simp]: "rk ax \<lparr>base = base v, params = p\<rparr> = rk ax v"
  by (simp add: rk_def)

lemma weaker_cases:
  obtains "weaker ax v w = v" "rk ax w \<le> rk ax v" "rk ax w = rk ax v \<Longrightarrow> both_params ax v w \<Longrightarrow> strength v \<le> strength w"
  | "weaker ax v w = w" "rk ax v \<le> rk ax w" "rk ax w = rk ax v \<Longrightarrow> both_params ax v w \<and> strength w \<le> strength v"
  | p where "weaker ax v w = \<lparr>base = base v, params = p\<rparr>" "ax = AUTH" "rk ax v = rk ax w"
proof (cases "rk ax v = rk ax w")
  case False
  then show thesis
    by (cases "rk ax w < rk ax v") (use that(1,2) in \<open>simp_all add: weaker_def\<close>)
next
  case True
  show thesis
  proof (cases "both_params ax v w")
    case both: True
    show thesis
    proof (cases "strength v \<le> strength w")
      case le: True
      have "weaker ax v w = v" using True both le by (simp add: weaker_def)
      then show thesis by (rule that(1)) (simp_all add: True le)
    next
      case False
      have "weaker ax v w = w" using True both False by (simp add: weaker_def)
      then show thesis by (rule that(2)) (use True both False in simp_all)
    qed
  next
    case none: False
    show thesis
    proof (cases "ax = AUTH \<and> (params v \<noteq> [] \<or> params w \<noteq> [])")
      case True
      then have "weaker ax v w = \<lparr>base = base v, params = remdups_first (params v @ params w)\<rparr>"
        using none \<open>rk ax v = rk ax w\<close> by (auto simp: weaker_def)
      then show thesis by (rule that(3)) (use True \<open>rk ax v = rk ax w\<close> in simp_all)
    next
      case False
      then have "weaker ax v w = v" using none \<open>rk ax v = rk ax w\<close> by (auto simp: weaker_def)
      then show thesis by (rule that(1)) (use none True in simp_all)
    qed
  qed
qed

lemma both_params_sym: "both_params ax v w \<longleftrightarrow> both_params ax w v"
  by (auto simp: both_params_def)

lemma not_both_params [simp]: "\<not> both_params AUTH v w"
  by (simp add: both_params_def)

lemma weaker_lower: "at_least ax v (weaker ax v w)" "at_least ax w (weaker ax v w)"
  by (cases rule: weaker_cases [of ax v w]; auto simp: at_least_def both_params_sym)+

lemma weaker_greatest: "at_least ax v c \<Longrightarrow> at_least ax w c \<Longrightarrow> at_least ax (weaker ax v w) c"
  by (cases rule: weaker_cases [of ax v w]) (auto simp: at_least_def)

section \<open>The meet of all members\<close>

lemma meet_all_loop_value:
  assumes "list_all wf_vector vs" and "wf_vector r"
  shows "\<exists>v. meet_all_loop r vs = Inr v \<and> wf_vector v
    \<and> (\<forall>ax. rk ax (vget v ax) = Max (insert (rk ax (vget r ax)) ((\<lambda>w. rk ax (vget w ax)) ` set vs)))
    \<and> (\<forall>w. wf_vector w \<and> vat_least r w = Inr True \<and> (\<forall>x \<in> set vs. vat_least x w = Inr True)
          \<longrightarrow> vat_least v w = Inr True)"
  using assms
proof (induction vs arbitrary: r)
  case (Cons x vs)
  obtain m where m: "vmeet r x = Inr m" "wf_vector m" "\<And>ax. vget m ax = weaker ax (vget r ax) (vget x ax)"
    using vmeet_value [of r x] Cons.prems by auto
  obtain v where v: "meet_all_loop m vs = Inr v" "wf_vector v"
    "\<And>ax. rk ax (vget v ax) = Max (insert (rk ax (vget m ax)) ((\<lambda>w. rk ax (vget w ax)) ` set vs))"
    "\<And>w. wf_vector w \<Longrightarrow> vat_least m w = Inr True \<Longrightarrow> (\<forall>x \<in> set vs. vat_least x w = Inr True) \<Longrightarrow>
      vat_least v w = Inr True"
    using Cons.IH [of m] Cons.prems m(2) by auto
  have "Max (insert (max a b) S) = Max (insert a (insert b S))" if "finite S" for a b :: nat and S
    using that by (cases "S = {}") (simp_all add: max.assoc)
  then have "rk ax (vget v ax) = Max (insert (rk ax (vget r ax)) ((\<lambda>w. rk ax (vget w ax)) ` set (x # vs)))" for ax
    by (simp add: v(3) m(3) rk_weaker)
  moreover have "vat_least v w = Inr True"
    if "wf_vector w" "vat_least r w = Inr True" "\<forall>y \<in> set (x # vs). vat_least y w = Inr True" for w
  proof (rule v(4))
    show "vat_least m w = Inr True"
      using that Cons.prems m weaker_greatest by (simp add: vat_least_wf)
  qed (use that in auto)
  ultimately show ?case using m(1) v(1,2) by simp
qed simp

section \<open>Properties\<close>

text \<open>
  C31: the meet of two well-formed capability vectors exists (no axis is ever strengthened, so
  \<open>with_value\<close> does not raise) and is their greatest lower bound: both vectors are at least as
  strong as it, and it is at least as strong as whatever both are at least as strong as, in the code's
  own order, which compares alignments by number and does not compare the tags of \<open>auth\<close>.
\<close>

theorem meet_greatest_lower_bound:
  assumes "wf_vector v" and "wf_vector w"
  shows "\<exists>m. vmeet v w = Inr m \<and> wf_vector m \<and> vat_least v m = Inr True \<and> vat_least w m = Inr True
    \<and> (\<forall>c. wf_vector c \<and> vat_least v c = Inr True \<and> vat_least w c = Inr True \<longrightarrow> vat_least m c = Inr True)"
proof -
  obtain m where m: "vmeet v w = Inr m" "wf_vector m" "\<And>ax. vget m ax = weaker ax (vget v ax) (vget w ax)"
    using vmeet_value [OF assms] by blast
  then have "vat_least v m = Inr True" "vat_least w m = Inr True"
    using assms by (simp_all add: vat_least_wf weaker_lower)
  moreover have "vat_least m c = Inr True"
    if "wf_vector c" "vat_least v c = Inr True" "vat_least w c = Inr True" for c
    using that assms m by (simp add: vat_least_wf weaker_greatest)
  ultimately show ?thesis using m(1,2) by blast
qed

text \<open>
  a struct's vector is the worst case of its members'.  On every axis \<open>meet_all\<close> sits exactly at
  the weakest base any member has (the strongest base where there is no member), whatever the
  order of the members; it raises for no list of well-formed vectors, and it is not weaker than
  any vector all members are at least as strong as.
\<close>

theorem meet_all_worst_case:
  assumes "list_all wf_vector vs"
  shows "\<exists>m. meet_all vs = Inr m \<and> wf_vector m
    \<and> (\<forall>ax. rk ax (vget m ax) = Max (insert 0 ((\<lambda>v. rk ax (vget v ax)) ` set vs)))
    \<and> (\<forall>w. wf_vector w \<and> (\<forall>v \<in> set vs. vat_least v w = Inr True) \<and> vat_least strongest w = Inr True
          \<longrightarrow> vat_least m w = Inr True)"
proof -
  have "wf_vector strongest" by (simp add: strongest_def wf_vector_def list_all_iff)
  from meet_all_loop_value [OF assms this] show ?thesis
    by (auto simp: meet_all_def strongest_def)
qed

text \<open>
  \<open>with_value\<close> never strengthens.  Setting an axis to a value of its domain either raises,
  exactly where the value is stronger than the held one, or leaves that value on the axis and
  every other axis as it was, so that the new vector is no stronger than the old on any base.
\<close>

theorem with_value_weakens:
  assumes "wf_vector v" and "wf_value ax x"
  shows "if rk ax x < rk ax (vget v ax) then with_value v ax x = Inl PyValueError
    else \<exists>v'. with_value v ax x = Inr v' \<and> wf_vector v' \<and> vget v' ax = x
       \<and> (\<forall>bx. bx \<noteq> ax \<longrightarrow> vget v' bx = vget v bx) \<and> (\<forall>bx. rk bx (vget v bx) \<le> rk bx (vget v' bx))"
  using assms wf_vectorD [OF assms(1)]
  by (auto simp: with_value_def rank_wf vget_set wf_vector_def list_all_iff)

theorem meet_greatest_lower_bound_witness:
  "\<exists>m. vmeet [(ALIGN, \<lparr>base = ''Aligned'', params = [''8'']\<rparr>), (AUTH, \<lparr>base = ''Covered'', params = [''a'']\<rparr>)]
             [(ALIGN, \<lparr>base = ''Aligned'', params = [''2'']\<rparr>), (AUTH, \<lparr>base = ''Covered'', params = [''b'']\<rparr>)] = Inr m
     \<and> wf_vector m"
proof -
  have "wf_vector [(ALIGN, \<lparr>base = ''Aligned'', params = [''8'']\<rparr>), (AUTH, \<lparr>base = ''Covered'', params = [''a'']\<rparr>)]"
    "wf_vector [(ALIGN, \<lparr>base = ''Aligned'', params = [''2'']\<rparr>), (AUTH, \<lparr>base = ''Covered'', params = [''b'']\<rparr>)]"
    by code_simp+
  from meet_greatest_lower_bound [OF this] show ?thesis by blast
qed

theorem meet_all_worst_case_witness:
  "\<exists>m. meet_all [[(SIZE, \<lparr>base = ''Bounded'', params = []\<rparr>)], [], [(SIZE, \<lparr>base = ''Fixed'', params = []\<rparr>)]] = Inr m
     \<and> rk SIZE (vget m SIZE) = 1"
proof -
  have "list_all wf_vector [[(SIZE, \<lparr>base = ''Bounded'', params = []\<rparr>)], [], [(SIZE, \<lparr>base = ''Fixed'', params = []\<rparr>)]]"
    by code_simp
  moreover have "Max (insert 0 ((\<lambda>v. rk SIZE (vget v SIZE)) `
      set [[(SIZE, \<lparr>base = ''Bounded'', params = []\<rparr>)], [], [(SIZE, \<lparr>base = ''Fixed'', params = []\<rparr>)]])) = 1"
    by code_simp
  ultimately show ?thesis using meet_all_worst_case by metis
qed

theorem with_value_weakens_witness:
  "with_value [(ACCESS, bare ''Sequential'')] ACCESS (bare ''Random'') = Inl PyValueError"
proof -
  have "wf_vector [(ACCESS, bare ''Sequential'')]" "wf_value ACCESS (bare ''Random'')"
    "rk ACCESS (bare ''Random'') < rk ACCESS (vget [(ACCESS, bare ''Sequential'')] ACCESS)"
    by code_simp+
  then show ?thesis using with_value_weakens by metis
qed

end
