(* ===== verification/Revision.thy ===== *)
theory Revision
  imports Capability "HOL-Library.List_Lexorder" "HOL-Library.Char_ord" "HOL-Library.Product_Lexorder"
begin

text \<open>
  \<open>situc/revision.py\<close>: the capability changes between two revisions of a schema.  A resolved schema
  is the pairs of path and vector its entries give, in order; building the dictionary keeps the
  last vector of a path.  Printing (\<open>render\<close>, \<open>to_dict\<close>) is not modelled.
\<close>

section \<open>Changes\<close>

datatype change_kind = Weakened | Strengthened | Moved | Added | Removed

record change =
  path :: string
  on_axis :: "axis option"
  before :: "cap_value option"
  after :: "cap_value option"
  kind :: change_kind

definition is_regression :: "change \<Rightarrow> bool" where
  "is_regression c \<longleftrightarrow> kind c = Weakened \<or> kind c = Removed"

definition BITS_PER_BYTE :: int where
  "BITS_PER_BYTE = 8"

text \<open>
  \<open>str.isdigit\<close>, true of the three superscript digits of Latin-1 as well, on which \<open>int\<close> then
  raises.
\<close>

definition isdigit :: "string \<Rightarrow> bool" where
  "isdigit s \<longleftrightarrow> s \<noteq> [] \<and> list_all (\<lambda>c. let n = of_char c :: nat in
     48 \<le> n \<and> n \<le> 57 \<or> n = 178 \<or> n = 179 \<or> n = 185) s"

definition worst :: "cap_value \<Rightarrow> int res" where
  "worst v =
     (let tail = last (params v);
          k = length tail - 3
      in if 3 \<le> length tail \<and> drop k tail = ''bit'' then
           (let head = take k tail in if isdigit head then int_of_string head else Inr 0)
         else if isdigit tail then bindE (int_of_string tail) (\<lambda>n. Inr (n * BITS_PER_BYTE))
         else Inr 0)"

definition parameter_change :: "axis \<Rightarrow> cap_value \<Rightarrow> cap_value \<Rightarrow> change_kind res" where
  "parameter_change ax was now =
     (if ax \<in> NUMERIC_STRENGTH \<and> params was \<noteq> [] \<and> params now \<noteq> [] then
        bindE (is_at_least ax now was) (\<lambda>a. bindE (is_at_least ax was now) (\<lambda>b.
          Inr (if a \<and> \<not> b then Strengthened else if b \<and> \<not> a then Weakened else Moved)))
      else if ax = SIZE \<and> params was \<noteq> [] \<and> params now \<noteq> [] then
        bindE (worst now) (\<lambda>worse. bindE (worst was) (\<lambda>better.
          Inr (if better < worse then Weakened else if worse < better then Strengthened else Moved)))
      else Inr Moved)"

definition axis_change :: "string \<Rightarrow> axis \<Rightarrow> cap_value \<Rightarrow> cap_value \<Rightarrow> change list res" where
  "axis_change p ax was now =
     (if was = now then Inr []
      else bindE (rank ax now) (\<lambda>n. bindE (rank ax was) (\<lambda>w.
           bindE (if w < n then Inr Weakened else if n < w then Inr Strengthened
                  else parameter_change ax was now) (\<lambda>k.
             Inr [\<lparr>path = p, on_axis = Some ax, before = Some was, after = Some now, kind = k\<rparr>]))))"

fun axis_changes :: "string \<Rightarrow> cap_vector \<Rightarrow> cap_vector \<Rightarrow> axis list \<Rightarrow> change list res" where
  "axis_changes p v w [] = Inr []"
| "axis_changes p v w (ax # axs) =
     bindE (axis_change p ax (vget v ax) (vget w ax)) (\<lambda>cs.
     bindE (axis_changes p v w axs) (\<lambda>ds. Inr (cs @ ds)))"

type_synonym entries = "(string \<times> cap_vector) list"

definition entry :: "entries \<Rightarrow> string \<Rightarrow> cap_vector option" where
  "entry es p = map_of (rev es) p"

definition entry_paths :: "entries \<Rightarrow> string list" where
  "entry_paths es = remdups (map fst es)"

fun path_changes :: "entries \<Rightarrow> entries \<Rightarrow> string list \<Rightarrow> change list res" where
  "path_changes old new [] = Inr []"
| "path_changes old new (p # ps) =
     bindE (axis_changes p (the (entry old p)) (the (entry new p)) all_axes) (\<lambda>cs.
     bindE (path_changes old new ps) (\<lambda>ds. Inr (cs @ ds)))"

fun kind_order :: "change_kind \<Rightarrow> nat" where
  "kind_order Removed = 0" | "kind_order Weakened = 1" | "kind_order Moved = 2"
| "kind_order Strengthened = 3" | "kind_order Added = 4"

definition ordering :: "change \<Rightarrow> nat \<times> string \<times> string" where
  "ordering c = (kind_order (kind c), path c, case on_axis c of Some ax \<Rightarrow> axis_value ax | None \<Rightarrow> [])"

definition whole_path :: "change_kind \<Rightarrow> string \<Rightarrow> change" where
  "whole_path k p = \<lparr>path = p, on_axis = None, before = None, after = None, kind = k\<rparr>"

definition compare :: "entries \<Rightarrow> entries \<Rightarrow> change list res" where
  "compare old new =
     (let olds = entry_paths old; news = entry_paths new;
          removed = sort (filter (\<lambda>p. p \<notin> set news) olds);
          added = sort (filter (\<lambda>p. p \<notin> set olds) news);
          both = sort (filter (\<lambda>p. p \<in> set news) olds)
      in bindE (path_changes old new both) (\<lambda>cs.
           Inr (sort_key ordering (map (whole_path Removed) removed @ map (whole_path Added) added @ cs))))"

section \<open>Reversing a comparison\<close>

fun reverse_kind :: "change_kind \<Rightarrow> change_kind" where
  "reverse_kind Weakened = Strengthened" | "reverse_kind Strengthened = Weakened"
| "reverse_kind Moved = Moved" | "reverse_kind Added = Removed" | "reverse_kind Removed = Added"

definition reverse_change :: "change \<Rightarrow> change" where
  "reverse_change c = c\<lparr>before := after c, after := before c, kind := reverse_kind (kind c)\<rparr>"

lemma parameter_change_reverse:
  assumes "parameter_change ax was now = Inr k"
  shows "parameter_change ax now was = Inr (reverse_kind k)"
proof (cases "ax \<in> NUMERIC_STRENGTH \<and> params was \<noteq> [] \<and> params now \<noteq> []")
  case True
  then obtain a b where ab: "is_at_least ax now was = Inr a" "is_at_least ax was now = Inr b"
    "k = (if a \<and> \<not> b then Strengthened else if b \<and> \<not> a then Weakened else Moved)"
    using assms by (auto simp: parameter_change_def)
  show ?thesis
    using True ab(3) by (simp add: parameter_change_def ab(1,2))
next
  case nn: False
  show ?thesis
  proof (cases "ax = SIZE \<and> params was \<noteq> [] \<and> params now \<noteq> []")
    case True
    have notin: "SIZE \<notin> NUMERIC_STRENGTH" by (simp add: NUMERIC_STRENGTH_def)
    obtain a b where ab: "worst now = Inr a" "worst was = Inr b"
      "k = (if b < a then Weakened else if a < b then Strengthened else Moved)"
      using True assms notin by (auto simp: parameter_change_def)
    show ?thesis
      using True notin ab(3) by (simp add: parameter_change_def ab(1,2))
  next
    case False
    then have "k = Moved"
      using assms unfolding parameter_change_def if_not_P [OF nn] if_not_P [OF False] by simp
    moreover have "\<not> (ax \<in> NUMERIC_STRENGTH \<and> params now \<noteq> [] \<and> params was \<noteq> [])"
      "\<not> (ax = SIZE \<and> params now \<noteq> [] \<and> params was \<noteq> [])" using nn False by blast+
    ultimately show ?thesis by (simp only: parameter_change_def if_False reverse_kind.simps)
  qed
qed

lemma axis_change_reverse:
  assumes "axis_change p ax was now = Inr cs"
  shows "axis_change p ax now was = Inr (map reverse_change cs)"
proof (cases "was = now")
  case True
  then show ?thesis using assms by (simp add: axis_change_def)
next
  case False
  obtain n w k where r: "rank ax now = Inr n" "rank ax was = Inr w"
    "(if w < n then Inr Weakened else if n < w then Inr Strengthened else parameter_change ax was now) = Inr k"
    "cs = [\<lparr>path = p, on_axis = Some ax, before = Some was, after = Some now, kind = k\<rparr>]"
    using assms False by (auto simp: axis_change_def simp del: reverse_kind.simps)
  have "(if n < w then Inr Weakened else if w < n then Inr Strengthened else parameter_change ax now was)
      = (Inr (reverse_kind k) :: change_kind res)"
    using r(3) parameter_change_reverse [of ax was now k] by (cases n w rule: linorder_cases) auto
  then show ?thesis
    using False by (simp add: axis_change_def r(1,2,4) reverse_change_def)
qed

lemma axis_changes_reverse:
  "axis_changes p v w axs = Inr cs \<Longrightarrow> axis_changes p w v axs = Inr (map reverse_change cs)"
proof (induction axs arbitrary: cs)
  case (Cons ax axs)
  then obtain c d where "axis_change p ax (vget v ax) (vget w ax) = Inr c" "axis_changes p v w axs = Inr d"
    "cs = c @ d" by auto
  then show ?case using Cons.IH axis_change_reverse by simp
qed simp

lemma path_changes_reverse:
  "path_changes old new ps = Inr cs \<Longrightarrow> path_changes new old ps = Inr (map reverse_change cs)"
proof (induction ps arbitrary: cs)
  case (Cons p ps)
  then obtain c d where "axis_changes p (the (entry old p)) (the (entry new p)) all_axes = Inr c"
    "path_changes old new ps = Inr d" "cs = c @ d" by auto
  then show ?case using Cons.IH axis_changes_reverse by simp
qed simp

lemma reverse_whole_path:
  "reverse_change (whole_path Removed p) = whole_path Added p"
  "reverse_change (whole_path Added p) = whole_path Removed p"
  by (simp_all add: reverse_change_def whole_path_def)

lemma sort_filter_swap:
  "distinct xs \<Longrightarrow> distinct ys \<Longrightarrow>
   sort (filter (\<lambda>p. p \<in> set ys) xs) = sort (filter (\<lambda>p. p \<in> set xs) (ys :: string list))"
proof -
  assume "distinct xs" "distinct ys"
  moreover have "set (filter (\<lambda>p. p \<in> set ys) xs) = set (filter (\<lambda>p. p \<in> set xs) ys)" by auto
  ultimately show ?thesis
    by (metis distinct_filter distinct_remdups_id sorted_list_of_set_sort_remdups)
qed

section \<open>What no regression means\<close>

lemma axis_change_no_regression:
  assumes wf: "wf_value ax was" "wf_value ax now" and "axis_change p ax was now = Inr cs"
    and none: "\<forall>c \<in> set cs. \<not> is_regression c"
  shows "at_least ax now was"
proof (cases "was = now")
  case True
  then show ?thesis by (simp add: at_least_def)
next
  case False
  then obtain k where k: "(if rk ax was < rk ax now then Inr Weakened
      else if rk ax now < rk ax was then Inr Strengthened else parameter_change ax was now) = Inr k"
    "k \<noteq> Weakened"
    using assms by (auto simp: axis_change_def rank_wf is_regression_def)
  show ?thesis
  proof (cases "rk ax was = rk ax now \<and> both_params ax now was")
    case True
    then have "\<not> (at_least ax was now \<and> \<not> at_least ax now was)"
      using k wf by (auto simp: parameter_change_def is_at_least_wf both_params_def NUMERIC_STRENGTH_def split: if_splits)
    moreover have "at_least ax was now \<or> at_least ax now was"
      using True by (auto simp: at_least_def)
    ultimately show ?thesis by blast
  next
    case False
    then show ?thesis using k by (auto simp: at_least_def split: if_splits)
  qed
qed

lemma axis_changes_no_regression:
  assumes "wf_vector v" and "wf_vector w"
  shows "axis_changes p v w axs = Inr cs \<Longrightarrow> \<forall>c \<in> set cs. \<not> is_regression c \<Longrightarrow> ax \<in> set axs \<Longrightarrow>
    at_least ax (vget w ax) (vget v ax)"
proof (induction axs arbitrary: cs)
  case (Cons bx axs)
  then obtain c d where cd: "axis_change p bx (vget v bx) (vget w bx) = Inr c" "axis_changes p v w axs = Inr d"
    "cs = c @ d" by auto
  show ?case
  proof (cases "ax = bx")
    case True
    then show ?thesis
      using axis_change_no_regression [OF wf_vectorD [OF assms(1)] wf_vectorD [OF assms(2)] cd(1)] Cons.prems(2) cd(3)
      by auto
  next
    case False
    then show ?thesis using Cons.IH [OF cd(2)] Cons.prems(2,3) cd(3) by auto
  qed
qed simp

lemma path_changes_no_regression:
  "path_changes old new ps = Inr cs \<Longrightarrow> \<forall>c \<in> set cs. \<not> is_regression c \<Longrightarrow> p \<in> set ps \<Longrightarrow>
   \<exists>ds. axis_changes p (the (entry old p)) (the (entry new p)) all_axes = Inr ds \<and> (\<forall>c \<in> set ds. \<not> is_regression c)"
proof (induction ps arbitrary: cs)
  case (Cons q ps)
  then obtain c d where cd: "axis_changes q (the (entry old q)) (the (entry new q)) all_axes = Inr c"
    "path_changes old new ps = Inr d" "cs = c @ d" by auto
  then show ?case using Cons.IH [OF cd(2)] Cons.prems(2,3) by auto
qed simp

lemma entry_paths_iff: "p \<in> set (entry_paths es) \<longleftrightarrow> (\<exists>v. entry es p = Some v)"
proof -
  have "p \<in> fst ` set (rev es) \<longleftrightarrow> map_of (rev es) p \<noteq> None"
    by (simp only: map_of_eq_None_iff) simp
  then show ?thesis by (auto simp: entry_paths_def entry_def)
qed

section \<open>Properties\<close>

text \<open>
  a comparison reads the same both ways.  Where comparing two revisions raises nothing,
  comparing them the other way round raises nothing either and reports exactly the same changes
  reversed: added for removed, strengthened for weakened, before for after.
\<close>

theorem compare_reversed:
  assumes "compare old new = Inr cs"
  shows "\<exists>ds. compare new old = Inr ds \<and> set ds = reverse_change ` set cs"
proof -
  let ?o = "entry_paths old" and ?n = "entry_paths new"
  obtain es where es: "path_changes old new (sort (filter (\<lambda>p. p \<in> set ?n) ?o)) = Inr es"
    "cs = sort_key ordering (map (whole_path Removed) (sort (filter (\<lambda>p. p \<notin> set ?n) ?o)) @
       map (whole_path Added) (sort (filter (\<lambda>p. p \<notin> set ?o) ?n)) @ es)"
    using assms by (auto simp: compare_def Let_def)
  have "sort (filter (\<lambda>p. p \<in> set ?n) ?o) = sort (filter (\<lambda>p. p \<in> set ?o) ?n)"
    by (rule sort_filter_swap) (simp_all add: entry_paths_def)
  then have "path_changes new old (sort (filter (\<lambda>p. p \<in> set ?o) ?n)) = Inr (map reverse_change es)"
    using path_changes_reverse [OF es(1)] by simp
  then show ?thesis
    by (auto simp: compare_def Let_def es(2) reverse_whole_path image_Un image_image)
qed

text \<open>
  no regression reported means nothing lost.  Where a comparison of well-formed revisions
  reports neither a removal nor a weakening, every path of the old revision is in the new one and
  its vector there is at least as strong as the old on every axis.
\<close>

theorem compare_no_regression:
  assumes "compare old new = Inr cs" and "\<forall>c \<in> set cs. \<not> is_regression c"
    and "list_all (\<lambda>(_, v). wf_vector v) (old @ new)" and "entry old p = Some v"
  shows "\<exists>w. entry new p = Some w \<and> vat_least w v = Inr True"
proof -
  let ?o = "entry_paths old" and ?n = "entry_paths new"
  obtain es where es: "path_changes old new (sort (filter (\<lambda>p. p \<in> set ?n) ?o)) = Inr es"
    "set cs = whole_path Removed ` {p \<in> set ?o. p \<notin> set ?n} \<union> (whole_path Added ` {p \<in> set ?n. p \<notin> set ?o} \<union> set es)"
    using assms(1) by (auto simp: compare_def Let_def)
  have po: "p \<in> set ?o" using assms(4) entry_paths_iff by blast
  have pn: "p \<in> set ?n"
  proof (rule ccontr)
    assume "p \<notin> set ?n"
    then have "whole_path Removed p \<in> set cs" using po es(2) by blast
    then show False using assms(2) by (auto simp: is_regression_def whole_path_def)
  qed
  then obtain w where w: "entry new p = Some w" using entry_paths_iff by blast
  have wf: "wf_vector v" "wf_vector w"
    using assms(3,4) w map_of_SomeD [of "rev old" p v] map_of_SomeD [of "rev new" p w]
    by (auto simp: entry_def list_all_iff)
  obtain ds where ds: "axis_changes p v w all_axes = Inr ds" "\<forall>c \<in> set ds. \<not> is_regression c"
    using path_changes_no_regression [OF es(1), of p] po pn es(2) assms(2,4) w by auto
  have "at_least ax (vget w ax) (vget v ax)" for ax
    using axis_changes_no_regression [OF wf ds] by simp
  then show ?thesis using w wf by (simp add: vat_least_wf)
qed

theorem compare_no_regression_witness:
  "\<exists>w. entry [(''m.x'', [(ACCESS, bare ''Random'')])] ''m.x'' = Some w
     \<and> vat_least w [(ACCESS, bare ''Sequential'')] = Inr True"
proof (rule compare_no_regression)
  show "compare [(''m.x'', [(ACCESS, bare ''Sequential'')])] [(''m.x'', [(ACCESS, bare ''Random'')])]
      = Inr [\<lparr>path = ''m.x'', on_axis = Some ACCESS, before = Some (bare ''Sequential''),
          after = Some (bare ''Random''), kind = Strengthened\<rparr>]"
    by code_simp
  show "list_all (\<lambda>(_, v). wf_vector v)
      ([(''m.x'', [(ACCESS, bare ''Sequential'')])] @ [(''m.x'', [(ACCESS, bare ''Random'')])])"
    by code_simp
qed (simp_all add: is_regression_def entry_def)

end
