(* ===== verification/Expr_Syntax.thy ===== *)
theory Expr_Syntax
  imports Situ_Prelude "HOL-Library.AList"
begin

text \<open>
  The expression language: the tree of \<open>situc/ast.py\<close> (source spans left out), the interval and
  the environment of \<open>situc/expr.py\<close>, its operator tables, and \<open>evaluate\<close> with the folds it is made
  of.  A diagnostic is a constructor of \<open>diag\<close>, one per kind of refusal, without its wording; a
  Python exception that is not a diagnostic is \<open>Uncaught\<close>.
\<close>

section \<open>The tree\<close>

datatype expr =
    IntLiteral int string
  | StringLiteral string
  | CharLiteral string int
  | NameRef string
  | Access expr string
  | Remaining
  | Call string "expr list"
  | Unary string expr
  | Binary string expr expr
  | Index expr "expr option"

fun path_text :: "expr \<Rightarrow> string option" where
  "path_text (NameRef name) = Some name"
| "path_text (Access b name) = (case path_text b of None \<Rightarrow> None | Some p \<Rightarrow> Some (p @ ''.'' @ name))"
| "path_text (Index b index) =
     (case path_text b of None \<Rightarrow> None
      | Some p \<Rightarrow> (case index of None \<Rightarrow> Some (p @ ''[]'')
         | Some (IntLiteral value literal) \<Rightarrow> Some (p @ ''['' @ literal @ '']'')
         | Some other \<Rightarrow> None))"
| "path_text other = None"

text \<open>The same value written twice, structurally: \<open>same_expression\<close>.\<close>

fun same_expression :: "expr \<Rightarrow> expr \<Rightarrow> bool"
  and same_expressions :: "expr list \<Rightarrow> expr list \<Rightarrow> bool" where
  "same_expression (IntLiteral a s) (IntLiteral b t) = (a = b)"
| "same_expression (NameRef a) (NameRef b) = (a = b)"
| "same_expression (Access a m) (Access b n) = (m = n \<and> same_expression a b)"
| "same_expression (Unary p a) (Unary q b) = (p = q \<and> same_expression a b)"
| "same_expression (Binary p a1 a2) (Binary q b1 b2) =
     (p = q \<and> same_expression a1 b1 \<and> same_expression a2 b2)"
| "same_expression (Call m as) (Call n bs) = (m = n \<and> length as = length bs \<and> same_expressions as bs)"
| "same_expression a b = False"
| "same_expressions (a # as) (b # bs) = (same_expression a b \<and> same_expressions as bs)"
| "same_expressions as bs = True"

section \<open>Intervals and environments\<close>

record interval =
  low :: int
  high :: "int option"
  low_known :: bool

abbreviation Interval :: "int \<Rightarrow> int option \<Rightarrow> interval" where
  "Interval lo hi \<equiv> \<lparr>low = lo, high = hi, low_known = True\<rparr>"

definition point :: "int \<Rightarrow> interval" where
  "point value = Interval value (Some value)"

definition unknown :: interval where
  "unknown = \<lparr>low = 0, high = None, low_known = False\<rparr>"

definition is_point :: "interval \<Rightarrow> bool" where
  "is_point i = (high i = Some (low i) \<and> low_known i)"

definition is_bounded :: "interval \<Rightarrow> bool" where
  "is_bounded i = (high i \<noteq> None)"

datatype diag =
    NotInScope string
  | NotConstant string
  | NoSuchMember string string
  | FieldNotConstant
  | UnknownUnary string
  | UnknownOperator string
  | DivisionByZero
  | NegativeShift
  | ShiftTooWide int
  | DivisorMayBeZero interval
  | DividendMayBeNegative string interval
  | ShiftNotBounded string interval
  | NotASize
  | RemainingNotConstant
  | StringNotInteger
  | NotConstantExpr
  | WrongArity string nat nat
  | PopcountOfSigned interval
  | AlignmentNotPositive int
  | NotAPath string
  | LayoutUnresolved string
  | UnknownPath string
  | NotAFunction string
  | Uncaught

type_synonym 'a checked = "diag + 'a"

record env =
  constants :: "(string \<times> int) list"
  enums :: "(string \<times> (string \<times> int) list) list"
  byte_enums :: "(string \<times> (string \<times> string) list) list"
  token_sets :: "(string \<times> (string \<times> string) list) list"
  layout :: "(string \<Rightarrow> string \<Rightarrow> int option) option"
  known_fields :: "(string \<times> interval) list"

definition empty_env :: env where
  "empty_env = \<lparr>constants = [], enums = [], byte_enums = [], token_sets = [], layout = None, known_fields = []\<rparr>"

text \<open>\<open>Env.with_layout\<close> and \<open>Env.with_fields\<close> build the new environment by keyword and do not pass
  \<open>token_sets\<close> on.\<close>

definition with_layout :: "env \<Rightarrow> (string \<Rightarrow> string \<Rightarrow> int option) \<Rightarrow> env" where
  "with_layout env resolver = env\<lparr>token_sets := [], layout := Some resolver\<rparr>"

definition with_fields :: "env \<Rightarrow> (string \<times> interval) list \<Rightarrow> env" where
  "with_fields env known = env\<lparr>token_sets := [], known_fields := known\<rparr>"

section \<open>Operators\<close>

definition trunc_div :: "int \<Rightarrow> int \<Rightarrow> int" where
  "trunc_div a b = \<bar>a\<bar> div \<bar>b\<bar> * (if (a < 0) = (b < 0) then 1 else -1)"

text \<open>An operator applied to two integers; None is Python raising \<open>ZeroDivisionError\<close> or
  \<open>ValueError\<close>.\<close>

type_synonym operation = "int \<Rightarrow> int \<Rightarrow> int option"

definition BINARY_OPS :: "(string \<times> operation) list" where
  "BINARY_OPS =
    [(''+'', \<lambda>a b. Some (a + b)),
     (''-'', \<lambda>a b. Some (a - b)),
     (''*'', \<lambda>a b. Some (a * b)),
     (''/'', \<lambda>a b. if b = 0 then None else Some (trunc_div a b)),
     (''%'', \<lambda>a b. if b = 0 then None else Some (a - trunc_div a b * b)),
     (''&'', \<lambda>a b. Some (and a b)),
     (''|'', \<lambda>a b. Some (or a b)),
     (''^'', \<lambda>a b. Some (xor a b)),
     (''<<'', \<lambda>a b. if b < 0 then None else Some (push_bit (nat b) a)),
     (''>>'', \<lambda>a b. if b < 0 then None else Some (drop_bit (nat b) a)),
     (''=='', \<lambda>a b. Some (of_bool (a = b))),
     (''!='', \<lambda>a b. Some (of_bool (a \<noteq> b))),
     (''<'', \<lambda>a b. Some (of_bool (a < b))),
     (''>'', \<lambda>a b. Some (of_bool (a > b))),
     (''<='', \<lambda>a b. Some (of_bool (a \<le> b))),
     (''>='', \<lambda>a b. Some (of_bool (a \<ge> b))),
     (''&&'', \<lambda>a b. Some (of_bool (a \<noteq> 0 \<and> b \<noteq> 0))),
     (''||'', \<lambda>a b. Some (of_bool (a \<noteq> 0 \<or> b \<noteq> 0)))]"

definition UNARY_OPS :: "(string \<times> (int \<Rightarrow> int)) list" where
  "UNARY_OPS =
    [(''-'', \<lambda>a. - a),
     (''~'', \<lambda>a. not a),
     (''!'', \<lambda>a. if a \<noteq> 0 then 0 else 1)]"

definition VALUE_BUILTINS :: "(string \<times> nat) list" where
  "VALUE_BUILTINS = [(''min'', 2), (''max'', 2), (''align_up'', 2), (''popcount'', 1)]"

definition LAYOUT_BUILTINS :: "(string \<times> nat) list" where
  "LAYOUT_BUILTINS = [(''size'', 1), (''offset'', 1), (''count'', 1)]"

definition SHIFT_WIDTH :: int where
  "SHIFT_WIDTH = 64"

text \<open>The two operand checks that hold however the operands were obtained.\<close>

definition guard_binary :: "string \<Rightarrow> int \<Rightarrow> unit checked" where
  "guard_binary op right =
     (if op \<in> {''/'', ''%''} \<and> right = 0 then Inl DivisionByZero
      else if op \<in> {''<<'', ''>>''} \<and> right < 0 then Inl NegativeShift
      else if op \<in> {''<<'', ''>>''} \<and> right > 64 then Inl (ShiftTooWide right)
      else Inr ())"

definition run_op :: "operation \<Rightarrow> int \<Rightarrow> int \<Rightarrow> int checked" where
  "run_op operation a b = (case operation a b of None \<Rightarrow> Inl Uncaught | Some x \<Rightarrow> Inr x)"

section \<open>Builtins\<close>

definition check_arity :: "string \<Rightarrow> expr list \<Rightarrow> nat \<Rightarrow> unit checked" where
  "check_arity name args expected =
     (if length args \<noteq> expected then Inl (WrongArity name expected (length args)) else Inr ())"

definition round_up :: "int \<Rightarrow> int \<Rightarrow> int" where
  "round_up value alignment = ((value + alignment - 1) div alignment) * alignment"

definition align_up_value :: "int \<Rightarrow> int \<Rightarrow> int checked" where
  "align_up_value value alignment =
     (if alignment \<le> 0 then Inl (AlignmentNotPositive alignment) else Inr (round_up value alignment))"

text \<open>\<open>int.bit_count()\<close>: the ones of the absolute value.\<close>

fun ones :: "nat \<Rightarrow> nat" where
  "ones n = (if n = 0 then 0 else n mod 2 + ones (n div 2))"

declare ones.simps [simp del]

definition bit_count :: "int \<Rightarrow> int" where
  "bit_count a = int (ones (nat \<bar>a\<bar>))"

definition value_call :: "string \<Rightarrow> int list \<Rightarrow> int checked" where
  "value_call name args =
     (if name = ''min'' then Inr (fold min (tl args) (hd args))
      else if name = ''max'' then Inr (fold max (tl args) (hd args))
      else if name = ''popcount'' then Inr (bit_count (args ! 0))
      else align_up_value (args ! 0) (args ! 1))"

definition layout_call :: "string \<Rightarrow> expr list \<Rightarrow> env \<Rightarrow> int checked" where
  "layout_call name args env =
     (case path_text (args ! 0) of None \<Rightarrow> Inl (NotAPath name)
      | Some path \<Rightarrow>
         (case layout env of None \<Rightarrow> Inl (LayoutUnresolved name)
          | Some resolver \<Rightarrow>
             (case resolver name path of None \<Rightarrow> Inl (UnknownPath path) | Some value \<Rightarrow> Inr value)))"

text \<open>\<open>_call\<close>, given what folding its arguments in order answers.\<close>

definition call_value :: "string \<Rightarrow> expr list \<Rightarrow> env \<Rightarrow> int list checked \<Rightarrow> int checked" where
  "call_value name args env folded =
     (case map_of VALUE_BUILTINS name of
        Some expected \<Rightarrow>
          bindE (check_arity name args expected) (\<lambda>_. bindE folded (\<lambda>values. value_call name values))
      | None \<Rightarrow>
         (case map_of LAYOUT_BUILTINS name of
            Some expected \<Rightarrow> bindE (check_arity name args expected) (\<lambda>_. layout_call name args env)
          | None \<Rightarrow> Inl (NotAFunction name)))"

section \<open>Folding\<close>

definition name_value :: "string \<Rightarrow> env \<Rightarrow> int checked" where
  "name_value name env =
     (case map_of (constants env) name of Some value \<Rightarrow> Inr value | None \<Rightarrow> Inl (NotConstant name))"

definition access_value :: "expr \<Rightarrow> string \<Rightarrow> env \<Rightarrow> int checked" where
  "access_value base name env =
     (case base of
        NameRef enum \<Rightarrow>
          (case map_of (enums env) enum of
             Some members \<Rightarrow>
               (case map_of members name of None \<Rightarrow> Inl (NoSuchMember enum name) | Some value \<Rightarrow> Inr value)
           | None \<Rightarrow> Inl FieldNotConstant)
      | other \<Rightarrow> Inl FieldNotConstant)"

definition unary_value :: "string \<Rightarrow> int checked \<Rightarrow> int checked" where
  "unary_value op operand =
     (case map_of UNARY_OPS op of None \<Rightarrow> Inl (UnknownUnary op)
      | Some operation \<Rightarrow> bindE operand (\<lambda>a. Inr (operation a)))"

definition binary_value :: "string \<Rightarrow> int checked \<Rightarrow> int checked \<Rightarrow> int checked" where
  "binary_value op left right =
     bindE left (\<lambda>a. bindE right (\<lambda>b. bindE (guard_binary op b) (\<lambda>_.
       case map_of BINARY_OPS op of None \<Rightarrow> Inl (UnknownOperator op) | Some operation \<Rightarrow> run_op operation a b)))"

fun evaluate :: "expr \<Rightarrow> env \<Rightarrow> int checked"
  and evaluate_all :: "expr list \<Rightarrow> env \<Rightarrow> int list checked" where
  "evaluate (IntLiteral value literal) env = Inr value"
| "evaluate (NameRef name) env = name_value name env"
| "evaluate (Access b name) env = access_value b name env"
| "evaluate (Unary op operand) env = unary_value op (evaluate operand env)"
| "evaluate (Binary op left right) env = binary_value op (evaluate left env) (evaluate right env)"
| "evaluate (Call name args) env = call_value name args env (evaluate_all args env)"
| "evaluate Remaining env = Inl RemainingNotConstant"
| "evaluate (CharLiteral character code) env = Inr code"
| "evaluate (StringLiteral value) env = Inl StringNotInteger"
| "evaluate (Index b index) env = Inl NotConstantExpr"
| "evaluate_all [] env = Inr []"
| "evaluate_all (a # as) env = bindE (evaluate a env) (\<lambda>v. bindE (evaluate_all as env) (\<lambda>vs. Inr (v # vs)))"

text \<open>Every name an expression may use as a constant, in the order the dict holds them.\<close>

definition named_constants :: "env \<Rightarrow> (string \<times> int) list" where
  "named_constants env =
     fold (\<lambda>(key, value) named. AList.update key value named)
       (concat (map (\<lambda>(enum, members). map (\<lambda>(member, value). (enum @ ''.'' @ member, value)) members) (enums env)))
       (constants env)"

end
