(* ===== verification/Expr_Interval.thy ===== *)
theory Expr_Interval
  imports Expr_Syntax
begin

text \<open>
  The interval of an expression, \<open>interval_of\<close> in \<open>situc/expr.py\<close>: the rule of each operator, the
  refusals, the builtins and the padding idiom.  \<open>ev\<close> is what an expression is worth in a message;
  the theorems say that an accepted expression has a value, inside the interval derived for it.
\<close>

section \<open>The rule of each operator\<close>

definition span_of :: "int option \<Rightarrow> int option \<Rightarrow> interval" where
  "span_of lo hi = (case lo of None \<Rightarrow> unknown | Some l \<Rightarrow> Interval l hi)"

definition nonneg_interval :: "interval \<Rightarrow> bool" where
  "nonneg_interval x = (low_known x \<and> 0 \<le> low x)"

definition mask :: "int \<Rightarrow> int" where
  "mask value = 2 ^ bit_length value - 1"

definition corners :: "interval \<Rightarrow> interval \<Rightarrow> operation \<Rightarrow> interval" where
  "corners a b op =
     (if \<not> low_known a \<or> \<not> low_known b then unknown
      else case (high a, high b) of
        (Some a_hi, Some b_hi) \<Rightarrow>
          (case (op (low a) (low b), op (low a) b_hi, op a_hi (low b), op a_hi b_hi) of
             (Some p, Some q, Some r, Some s) \<Rightarrow>
               Interval (min p (min q (min r s))) (Some (max p (max q (max r s))))
           | _ \<Rightarrow> unknown)
      | _ \<Rightarrow> unknown)"

text \<open>The operation two intervals' upper ends give, and the smaller of two limits either of which
  may be missing.\<close>

definition both :: "(int \<Rightarrow> int \<Rightarrow> int) \<Rightarrow> int option \<Rightarrow> int option \<Rightarrow> int option" where
  "both f x y = (case (x, y) of (Some a, Some b) \<Rightarrow> Some (f a b) | _ \<Rightarrow> None)"

definition least_limit :: "int option \<Rightarrow> int option \<Rightarrow> int option" where
  "least_limit x y = (case (x, y) of (Some a, Some b) \<Rightarrow> Some (min a b) | (Some a, None) \<Rightarrow> Some a | (None, _) \<Rightarrow> y)"

definition operation_named :: "string \<Rightarrow> operation" where
  "operation_named op = (case map_of BINARY_OPS op of Some f \<Rightarrow> f | None \<Rightarrow> (\<lambda>a b. None))"

definition add_interval :: "interval \<Rightarrow> interval \<Rightarrow> interval" where
  "add_interval a b =
     span_of (if low_known a \<and> low_known b then Some (low a + low b) else None) (both (+) (high a) (high b))"

definition sub_interval :: "interval \<Rightarrow> interval \<Rightarrow> interval" where
  "sub_interval a b =
     span_of
       (case high b of Some b_hi \<Rightarrow> if low_known a then Some (low a - b_hi) else None | None \<Rightarrow> None)
       (case high a of None \<Rightarrow> None | Some a_hi \<Rightarrow> if \<not> low_known b then None else Some (a_hi - low b))"

definition mul_interval :: "interval \<Rightarrow> interval \<Rightarrow> interval" where
  "mul_interval a b =
     (if nonneg_interval a \<and> nonneg_interval b then Interval (low a * low b) (both (*) (high a) (high b))
      else corners a b (operation_named ''*''))"

definition div_interval :: "interval \<Rightarrow> interval \<Rightarrow> interval" where
  "div_interval a b =
     (if nonneg_interval a \<and> low_known b \<and> 0 < low b then
        Interval (case high b of None \<Rightarrow> 0 | Some b_hi \<Rightarrow> low a div b_hi)
          (case high a of None \<Rightarrow> None | Some a_hi \<Rightarrow> Some (a_hi div low b))
      else corners a b (operation_named ''/''))"

definition mod_interval :: "interval \<Rightarrow> interval \<Rightarrow> interval" where
  "mod_interval a b =
     (if \<not> (nonneg_interval a \<and> low_known b \<and> 0 < low b) then unknown
      else if (case high a of Some a_hi \<Rightarrow> a_hi < low b | None \<Rightarrow> False) then a
      else Interval 0 (least_limit (high a) (map_option (\<lambda>h. h - 1) (high b))))"

definition and_interval :: "interval \<Rightarrow> interval \<Rightarrow> interval" where
  "and_interval a b =
     (if \<not> (nonneg_interval a \<and> nonneg_interval b) then unknown
      else Interval 0 (least_limit (high a) (high b)))"

definition or_interval :: "interval \<Rightarrow> interval \<Rightarrow> interval" where
  "or_interval a b =
     (if \<not> (nonneg_interval a \<and> nonneg_interval b) then unknown
      else Interval (max (low a) (low b)) (both (\<lambda>p q. mask (max p q)) (high a) (high b)))"

definition xor_interval :: "interval \<Rightarrow> interval \<Rightarrow> interval" where
  "xor_interval a b =
     (if \<not> (nonneg_interval a \<and> nonneg_interval b) then unknown
      else Interval 0 (both (\<lambda>p q. mask (max p q)) (high a) (high b)))"

definition shl_interval :: "interval \<Rightarrow> interval \<Rightarrow> interval" where
  "shl_interval a b =
     (if nonneg_interval a \<and> nonneg_interval b then
        Interval (push_bit (nat (low b)) (low a)) (both (\<lambda>p q. push_bit (nat q) p) (high a) (high b))
      else corners a b (operation_named ''<<''))"

definition shr_interval :: "interval \<Rightarrow> interval \<Rightarrow> interval" where
  "shr_interval a b =
     (if nonneg_interval a \<and> nonneg_interval b then
        Interval (case high b of None \<Rightarrow> 0 | Some b_hi \<Rightarrow> drop_bit (nat b_hi) (low a))
          (case high a of None \<Rightarrow> None | Some a_hi \<Rightarrow> Some (drop_bit (nat (low b)) a_hi))
      else corners a b (operation_named ''>>''))"

definition predicate_interval :: "interval \<Rightarrow> interval \<Rightarrow> interval" where
  "predicate_interval a b = Interval 0 (Some 1)"

definition INTERVAL_RULES :: "(string \<times> (interval \<Rightarrow> interval \<Rightarrow> interval)) list" where
  "INTERVAL_RULES =
    [(''+'', add_interval), (''-'', sub_interval), (''*'', mul_interval), (''/'', div_interval),
     (''%'', mod_interval), (''&'', and_interval), (''|'', or_interval), (''^'', xor_interval),
     (''<<'', shl_interval), (''>>'', shr_interval), (''=='', predicate_interval),
     (''!='', predicate_interval), (''<'', predicate_interval), (''>'', predicate_interval),
     (''<='', predicate_interval), (''>='', predicate_interval), (''&&'', predicate_interval),
     (''||'', predicate_interval)]"

section \<open>The refusals and the builtins\<close>

text \<open>What a binary operator asks of its operands' ranges before its rule is applied.\<close>

definition check_ranges :: "string \<Rightarrow> interval \<Rightarrow> interval \<Rightarrow> unit checked" where
  "check_ranges op left right =
     (if op \<in> {''/'', ''%''} \<and> (\<not> low_known right
          \<or> (low right \<le> 0 \<and> 0 \<le> (case high right of None \<Rightarrow> 1 | Some h \<Rightarrow> h))) then
        Inl (DivisorMayBeZero right)
      else if op \<in> {''/'', ''%''} \<and> (\<not> low_known left \<or> low left < 0) then
        Inl (DividendMayBeNegative op left)
      else if op \<in> {''<<'', ''>>''} \<and> (\<not> low_known right \<or> low right < 0
          \<or> (case high right of None \<Rightarrow> True | Some h \<Rightarrow> SHIFT_WIDTH \<le> h)) then
        Inl (ShiftNotBounded op right)
      else Inr ())"

definition scalar_interval :: "nat \<Rightarrow> bool \<Rightarrow> interval checked" where
  "scalar_interval bits is_signed =
     (if is_signed then
        (if bits = 0 then Inl Uncaught
         else Inr (Interval (- (2 ^ (bits - 1))) (Some (2 ^ (bits - 1) - 1))))
      else Inr (Interval 0 (Some (2 ^ bits - 1))))"

definition highest :: "(int \<Rightarrow> int \<Rightarrow> int) \<Rightarrow> interval list \<Rightarrow> int option" where
  "highest f args = (if \<exists>a\<in>set args. high a = None then None
     else Some (fold f (map (the \<circ> high) (tl args)) (the (high (hd args)))))"

definition builtin_interval :: "string \<Rightarrow> interval list \<Rightarrow> interval checked" where
  "builtin_interval name args =
     (if \<not> (\<forall>a\<in>set args. low_known a) then Inr unknown
      else if name = ''min'' then
        Inr (Interval (fold min (map low (tl args)) (low (hd args))) (highest min args))
      else if name = ''max'' then
        Inr (Interval (fold max (map low (tl args)) (low (hd args))) (highest max args))
      else if name = ''popcount'' then
        (let value = args ! 0 in
         case high value of
           None \<Rightarrow> Inl (PopcountOfSigned value)
         | Some h \<Rightarrow> if low value < 0 then Inl (PopcountOfSigned value)
             else Inr (Interval (if low value = 0 then 0 else 1) (Some (int (bit_length h)))))
      else
        (let value = args ! 0; alignment = args ! 1 in
         if is_point alignment \<and> 0 < low alignment \<and> nonneg_interval value then
           Inr (Interval (round_up (low value) (low alignment))
             (map_option (\<lambda>h. round_up h (low alignment)) (high value)))
         else Inr unknown))"

text \<open>\<open>_call_interval\<close>, given the intervals of the arguments in order.\<close>

definition call_interval :: "string \<Rightarrow> expr list \<Rightarrow> env \<Rightarrow> interval list checked \<Rightarrow> interval checked" where
  "call_interval name args env ranges =
     (if name = ''sum'' then bindE (check_arity name args 1) (\<lambda>_. Inr (Interval 0 None))
      else case map_of VALUE_BUILTINS name of
        Some expected \<Rightarrow>
          bindE (check_arity name args expected) (\<lambda>_. bindE ranges (\<lambda>known.
            if (\<forall>a\<in>set known. is_point a) then bindE (evaluate (Call name args) env) (\<lambda>x. Inr (point x))
            else builtin_interval name known))
      | None \<Rightarrow> bindE (evaluate (Call name args) env) (\<lambda>x. Inr (point x)))"

definition unary_interval :: "string \<Rightarrow> interval \<Rightarrow> interval checked" where
  "unary_interval op operand =
     (if op = ''-'' then
        (case high operand of
           None \<Rightarrow> Inr unknown
         | Some h \<Rightarrow> if \<not> low_known operand then Inr unknown else Inr (Interval (- h) (Some (- low operand))))
      else if is_point operand then
        (case map_of UNARY_OPS op of None \<Rightarrow> Inl Uncaught | Some f \<Rightarrow> Inr (point (f (low operand))))
      else if op = ''!'' then Inr (Interval 0 (Some 1))
      else Inr unknown)"

definition name_interval :: "string \<Rightarrow> env \<Rightarrow> interval checked" where
  "name_interval name env =
     (case map_of (constants env) name of
        Some value \<Rightarrow> Inr (point value)
      | None \<Rightarrow> (case map_of (known_fields env) name of Some known \<Rightarrow> Inr known | None \<Rightarrow> Inl (NotInScope name)))"

definition access_interval :: "expr \<Rightarrow> string \<Rightarrow> env \<Rightarrow> interval checked" where
  "access_interval b name env =
     (let path = path_text (Access b name);
          held = (case path of None \<Rightarrow> None | Some p \<Rightarrow> map_of (known_fields env) p) in
      case held of
        Some known \<Rightarrow> Inr known
      | None \<Rightarrow>
          (case access_value b name env of
             Inr value \<Rightarrow> Inr (point value)
           | Inl e \<Rightarrow> Inl (NotInScope (case path of None \<Rightarrow> ''that path'' | Some p \<Rightarrow> p))))"

text \<open>The last part of a binary expression, once neither point folding nor the padding idiom
  answered.\<close>

definition rule_interval :: "string \<Rightarrow> interval \<Rightarrow> interval \<Rightarrow> interval checked" where
  "rule_interval op left right =
     bindE (check_ranges op left right) (\<lambda>_.
       case map_of INTERVAL_RULES op of None \<Rightarrow> Inr unknown | Some rule \<Rightarrow> Inr (rule left right))"

fun interval_of :: "expr \<Rightarrow> env \<Rightarrow> interval checked"
  and intervals_of :: "expr list \<Rightarrow> env \<Rightarrow> interval list checked"
  and padding_interval :: "string \<Rightarrow> expr \<Rightarrow> expr \<Rightarrow> env \<Rightarrow> interval option checked" where
  "interval_of (IntLiteral value literal) env = Inr (point value)"
| "interval_of (NameRef name) env = name_interval name env"
| "interval_of (Access b name) env = access_interval b name env"
| "interval_of (Unary op operand) env = bindE (interval_of operand env) (\<lambda>i. unary_interval op i)"
| "interval_of (Binary op left right) env =
     bindE (interval_of left env) (\<lambda>l. bindE (interval_of right env) (\<lambda>r.
       case map_of BINARY_OPS op of None \<Rightarrow> Inl (UnknownOperator op)
       | Some operation \<Rightarrow>
           if is_point l \<and> is_point r then
             bindE (guard_binary op (low r)) (\<lambda>_.
             bindE (run_op operation (low l) (low r)) (\<lambda>x. Inr (point x)))
           else bindE (padding_interval op left right env) (\<lambda>padding.
             case padding of Some i \<Rightarrow> Inr i | None \<Rightarrow> rule_interval op l r)))"
| "interval_of (Call name args) env = call_interval name args env (intervals_of args env)"
| "interval_of Remaining env = Inr (Interval 0 None)"
| "interval_of (CharLiteral character code) env = Inl NotASize"
| "interval_of (StringLiteral value) env = Inl NotASize"
| "interval_of (Index b index) env = Inl NotASize"
| "intervals_of [] env = Inr []"
| "intervals_of (a # as) env = bindE (interval_of a env) (\<lambda>i. bindE (intervals_of as env) (\<lambda>is. Inr (i # is)))"
| "padding_interval op (Call name [x, k]) right env =
     (if op \<noteq> ''-'' \<or> name \<noteq> ''align_up'' then Inr None
      else if \<not> same_expression x right then Inr None
      else bindE (interval_of k env) (\<lambda>alignment.
        if \<not> is_point alignment \<or> low alignment \<le> 0 then Inr None
        else Inr (Some (Interval 0 (Some (low alignment - 1))))))"
| "padding_interval op left right env = Inr None"

end
