(* ===== verification/Expr_Sound.thy ===== *)
theory Expr_Sound
  imports Expr_Interval
begin

text \<open>
  What an expression is worth in a message, and the soundness of \<open>interval_of\<close> for it.  A
  \<open>valuation\<close> gives each field, each summed run and the enclosing frame its number; \<open>ev\<close> has no value
  where an operation has none: a division by zero, a negative shift, an alignment that is not
  positive, a name nothing declares.
\<close>

section \<open>The value of an expression\<close>

record valuation =
  field_at :: "string \<Rightarrow> int"
  sum_at :: "string option list \<Rightarrow> int"
  remaining_at :: int

definition answered :: "'a checked \<Rightarrow> 'a option" where
  "answered r = (case r of Inl e \<Rightarrow> None | Inr x \<Rightarrow> Some x)"

lemma answered_simps [simp]: "answered (Inl e) = None" "answered (Inr x) = Some x"
  by (simp_all add: answered_def)

lemma answered_eq_Some [simp]: "answered r = Some x \<longleftrightarrow> r = Inr x"
  by (cases r) simp_all

fun ev :: "env \<Rightarrow> valuation \<Rightarrow> expr \<Rightarrow> int option"
  and evs :: "env \<Rightarrow> valuation \<Rightarrow> expr list \<Rightarrow> int list option" where
  "ev env w (IntLiteral value literal) = Some value"
| "ev env w (CharLiteral character code) = Some code"
| "ev env w (StringLiteral value) = None"
| "ev env w (NameRef name) =
     (case map_of (constants env) name of
        Some value \<Rightarrow> Some value
      | None \<Rightarrow> (case map_of (known_fields env) name of Some i \<Rightarrow> Some (field_at w name) | None \<Rightarrow> None))"
| "ev env w (Access b name) =
     (case path_text (Access b name) of
        None \<Rightarrow> answered (access_value b name env)
      | Some p \<Rightarrow>
          (case map_of (known_fields env) p of
             Some i \<Rightarrow> Some (field_at w p)
           | None \<Rightarrow> answered (access_value b name env)))"
| "ev env w (Unary op operand) =
     (case (map_of UNARY_OPS op, ev env w operand) of (Some f, Some a) \<Rightarrow> Some (f a) | _ \<Rightarrow> None)"
| "ev env w (Binary op left right) =
     (case (ev env w left, ev env w right, map_of BINARY_OPS op) of
        (Some a, Some b, Some f) \<Rightarrow> f a b
      | _ \<Rightarrow> None)"
| "ev env w (Call name args) =
     (if name = ''sum'' then Some (sum_at w (map path_text args))
      else case map_of VALUE_BUILTINS name of
        Some expected \<Rightarrow>
          (case evs env w args of
             Some vs \<Rightarrow> if length args = expected then answered (value_call name vs) else None
           | None \<Rightarrow> None)
      | None \<Rightarrow> answered (evaluate (Call name args) env))"
| "ev env w Remaining = Some (remaining_at w)"
| "ev env w (Index b index) = None"
| "evs env w [] = Some []"
| "evs env w (a # as) =
     (case (ev env w a, evs env w as) of (Some v, Some vs) \<Rightarrow> Some (v # vs) | _ \<Rightarrow> None)"

definition mem :: "int \<Rightarrow> interval \<Rightarrow> bool" where
  "mem x i = ((low_known i \<longrightarrow> low i \<le> x) \<and> (case high i of None \<Rightarrow> True | Some h \<Rightarrow> x \<le> h))"

text \<open>The message keeps what the schema says: each field inside its range, nothing negative that
  counts.\<close>

definition admits :: "env \<Rightarrow> valuation \<Rightarrow> bool" where
  "admits env w =
     ((\<forall>p i. map_of (known_fields env) p = Some i \<longrightarrow> mem (field_at w p) i)
      \<and> (\<forall>a. 0 \<le> sum_at w a) \<and> 0 \<le> remaining_at w)"

text \<open>
  A field's path may be spelled like an enum member: an \<open>Access\<close> then names the field, except where
  a call over single points folds its arguments again.  \<open>unshadowed False env e\<close>: no argument of
  \<open>min\<close>, \<open>max\<close>, \<open>align_up\<close> or \<open>popcount\<close> in \<open>e\<close> holds such a path.
\<close>

fun unshadowed :: "bool \<Rightarrow> env \<Rightarrow> expr \<Rightarrow> bool"
  and all_unshadowed :: "bool \<Rightarrow> env \<Rightarrow> expr list \<Rightarrow> bool" where
  "unshadowed folded env (Access b name) =
     (folded \<longrightarrow> (case path_text (Access b name) of
        None \<Rightarrow> True | Some p \<Rightarrow> map_of (known_fields env) p = None \<or> isl (access_value b name env)))"
| "unshadowed folded env (Unary op operand) = unshadowed folded env operand"
| "unshadowed folded env (Binary op left right) = (unshadowed folded env left \<and> unshadowed folded env right)"
| "unshadowed folded env (Call name args) = (map_of VALUE_BUILTINS name \<noteq> None \<longrightarrow> all_unshadowed True env args)"
| "unshadowed folded env e = True"
| "all_unshadowed folded env [] = True"
| "all_unshadowed folded env (a # as) = (unshadowed folded env a \<and> all_unshadowed folded env as)"

lemma unshadowed_weaken:
  "unshadowed folded env e \<Longrightarrow> unshadowed False env e"
  "all_unshadowed folded env es \<Longrightarrow> all_unshadowed False env es"
  by (induction folded env e and folded env es rule: unshadowed_all_unshadowed.induct) auto

text \<open>Every unary operator is one of the three the parser reads, and every alignment is positive in
  this message.\<close>

fun proper :: "env \<Rightarrow> valuation \<Rightarrow> expr \<Rightarrow> bool"
  and propers :: "env \<Rightarrow> valuation \<Rightarrow> expr list \<Rightarrow> bool" where
  "proper env w (Unary op operand) = (map_of UNARY_OPS op \<noteq> None \<and> proper env w operand)"
| "proper env w (Binary op left right) = (proper env w left \<and> proper env w right)"
| "proper env w (Call name args) =
     (propers env w args \<and>
      (name = ''align_up'' \<longrightarrow> length args = 2 \<longrightarrow> (case ev env w (args ! 1) of Some k \<Rightarrow> 0 < k | None \<Rightarrow> True)))"
| "proper env w e = True"
| "propers env w [] = True"
| "propers env w (a # as) = (proper env w a \<and> propers env w as)"

section \<open>The operators\<close>

lemma mem_simps [simp]:
  "mem x \<lparr>low = l, high = Some h, low_known = True\<rparr> \<longleftrightarrow> l \<le> x \<and> x \<le> h"
  "mem x \<lparr>low = l, high = None, low_known = True\<rparr> \<longleftrightarrow> l \<le> x"
  "mem x unknown" "mem x (point y) \<longleftrightarrow> x = y"
  by (auto simp: mem_def unknown_def point_def)

lemma mem_lowD: "mem x i \<Longrightarrow> low_known i \<Longrightarrow> low i \<le> x"
  by (simp add: mem_def)

lemma mem_highD: "mem x i \<Longrightarrow> high i = Some h \<Longrightarrow> x \<le> h"
  by (simp add: mem_def)

lemma mem_is_point: "mem x i \<Longrightarrow> is_point i \<Longrightarrow> x = low i"
  by (auto simp: mem_def is_point_def)

lemma mem_IntervalI: "l \<le> x \<Longrightarrow> (\<And>h. hi = Some h \<Longrightarrow> x \<le> h) \<Longrightarrow> mem x (Interval l hi)"
  by (cases hi) auto

lemma trunc_div_nonneg: "0 \<le> a \<Longrightarrow> 0 < b \<Longrightarrow> trunc_div a b = a div b"
  by (simp add: trunc_div_def)

lemma trunc_div_negative: "0 \<le> a \<Longrightarrow> b < 0 \<Longrightarrow> trunc_div a b = - (a div - b)"
  by (simp add: trunc_div_def)

lemma less_pow_bit_length: "0 \<le> v \<Longrightarrow> v < 2 ^ bit_length v"
  using bit_length_le_iff [of v "bit_length v"] by simp

lemma mask_ge: "0 \<le> v \<Longrightarrow> v \<le> mask v"
  using less_pow_bit_length [of v] by (simp add: mask_def)

lemma or_le_mask:
  assumes "0 \<le> (a::int)" "0 \<le> b" "a \<le> p" "b \<le> q"
  shows "or a b \<le> mask (max p q)" "xor a b \<le> mask (max p q)"
proof -
  let ?n = "bit_length (max p q)"
  have "max p q < 2 ^ ?n" using assms by (intro less_pow_bit_length) simp
  then have "a < 2 ^ ?n" "b < 2 ^ ?n" using assms by linarith+
  then have "take_bit ?n a = a" "take_bit ?n b = b" using assms by (simp_all add: take_bit_int_eq_self)
  then have "take_bit ?n (or a b) = or a b" "take_bit ?n (xor a b) = xor a b" by simp_all
  then have "or a b < 2 ^ ?n" "xor a b < 2 ^ ?n" by (metis take_bit_int_less_exp)+
  then show "or a b \<le> mask (max p q)" "xor a b \<le> mask (max p q)" by (simp_all add: mask_def)
qed

lemma or_ge_operands: "0 \<le> (a::int) \<Longrightarrow> 0 \<le> b \<Longrightarrow> a \<le> or a b \<and> b \<le> or a b"
  using OR_lower [of a b] by (metis or.commute or_greater_eq)

text \<open>Corner enumeration is sound for an operation that stays between its values at the ends of
  each argument's range.\<close>

definition between :: "int \<Rightarrow> int \<Rightarrow> int \<Rightarrow> bool" where
  "between p v q = ((p \<le> v \<and> v \<le> q) \<or> (q \<le> v \<and> v \<le> p))"

lemma corners_mem:
  assumes "mem a x" "mem b y"
    and op: "\<And>p q. p \<in> {low x, a} \<union> set_option (high x) \<Longrightarrow> q \<in> {low y, b} \<union> set_option (high y)
        \<Longrightarrow> op p q = Some (g p q)"
    and first: "\<And>k. low x \<le> a \<Longrightarrow> a \<le> k \<Longrightarrow> between (g (low x) b) (g a b) (g k b)"
    and second: "\<And>p h. p \<in> {low x} \<union> set_option (high x) \<Longrightarrow> high y = Some h \<Longrightarrow> low y \<le> b \<Longrightarrow> b \<le> h
        \<Longrightarrow> between (g p (low y)) (g p b) (g p h)"
  shows "mem (g a b) (corners x y op)"
proof (cases "low_known x \<and> low_known y \<and> high x \<noteq> None \<and> high y \<noteq> None")
  case True
  then obtain k h where hi: "high x = Some k" "high y = Some h" by auto
  have ends: "low x \<le> a" "a \<le> k" "low y \<le> b" "b \<le> h"
    using True hi assms(1,2) by (auto simp: mem_def)
  have "between (g (low x) (low y)) (g (low x) b) (g (low x) h)" "between (g k (low y)) (g k b) (g k h)"
    using second [OF _ hi(2) ends(3,4)] hi by auto
  moreover have "between (g (low x) b) (g a b) (g k b)" by (rule first [OF ends(1,2)])
  ultimately have "min (g (low x) (low y)) (min (g (low x) h) (min (g k (low y)) (g k h))) \<le> g a b"
      "g a b \<le> max (g (low x) (low y)) (max (g (low x) h) (max (g k (low y)) (g k h)))"
    unfolding between_def by linarith+
  moreover have "corners x y op = Interval (min (g (low x) (low y)) (min (g (low x) h) (min (g k (low y)) (g k h))))
      (Some (max (g (low x) (low y)) (max (g (low x) h) (max (g k (low y)) (g k h)))))"
    using True hi op by (simp add: corners_def)
  ultimately show ?thesis by (simp only: mem_simps simp_thms)
next
  case False
  then show ?thesis by (auto simp: corners_def split: option.splits)
qed

lemma between_mult: "p \<le> a \<Longrightarrow> a \<le> q \<Longrightarrow> between (p * b) (a * b) (q * b)"
  by (cases "0 \<le> b") (auto simp: between_def mult_right_mono mult_right_mono_neg)

lemma between_mult': "p \<le> b \<Longrightarrow> b \<le> q \<Longrightarrow> between (a * p) (a * b) (a * q)"
  by (cases "0 \<le> a") (auto simp: between_def mult_left_mono mult_left_mono_neg)

lemma between_shl: "p \<le> a \<Longrightarrow> a \<le> q \<Longrightarrow> between (p * 2 ^ n) (a * 2 ^ n) (q * 2 ^ n)"
  by (rule between_mult)

lemma between_shl': "p \<le> b \<Longrightarrow> b \<le> q \<Longrightarrow> between (a * 2 ^ nat p) (a * 2 ^ nat b) (a * 2 ^ nat q)"
  by (rule between_mult') (auto intro!: power_increasing)

lemma between_div: "p \<le> a \<Longrightarrow> a \<le> q \<Longrightarrow> between (p div 2 ^ n) (a div 2 ^ n) (q div 2 ^ n)" for a :: int
  by (auto simp: between_def zdiv_mono1)

lemma div_pow_mono:
  fixes a :: int
  assumes "m \<le> n"
  shows "0 \<le> a \<Longrightarrow> a div 2 ^ n \<le> a div 2 ^ m" "a < 0 \<Longrightarrow> a div 2 ^ m \<le> a div 2 ^ n"
  using power_increasing [OF assms, of "2::int"] zdiv_mono2 [of a "2 ^ m" "2 ^ n"] zdiv_mono2_neg [of a "2 ^ m" "2 ^ n"]
  by simp_all

lemma between_shr': "p \<le> b \<Longrightarrow> b \<le> q \<Longrightarrow> between (a div 2 ^ nat p) (a div 2 ^ nat b) (a div 2 ^ nat q)" for a :: int
  by (cases "0 \<le> a") (auto simp: between_def div_pow_mono nat_mono)

lemma both_Some: "both f x y = Some h \<longleftrightarrow> (\<exists>a b. x = Some a \<and> y = Some b \<and> h = f a b)"
  by (auto simp: both_def split: option.splits)

lemma least_limit_le:
  "least_limit x y = Some h \<Longrightarrow> (\<And>a. x = Some a \<Longrightarrow> v \<le> a) \<Longrightarrow> (\<And>b. y = Some b \<Longrightarrow> v \<le> b) \<Longrightarrow> v \<le> h"
  by (auto simp: least_limit_def split: option.splits)

lemma add_mem: "mem a x \<Longrightarrow> mem b y \<Longrightarrow> mem (a + b) (add_interval x y)"
  by (auto simp: add_interval_def span_of_def mem_def both_def unknown_def split: option.splits)

lemma sub_mem: "mem a x \<Longrightarrow> mem b y \<Longrightarrow> mem (a - b) (sub_interval x y)"
  by (auto simp: sub_interval_def span_of_def mem_def unknown_def split: option.splits)

lemma mul_mem:
  assumes "mem a x" "mem b y"
  shows "mem (a * b) (mul_interval x y)"
proof (cases "nonneg_interval x \<and> nonneg_interval y")
  case True
  then have "0 \<le> low x" "0 \<le> low y" "low x \<le> a" "low y \<le> b" using assms by (auto simp: nonneg_interval_def mem_def)
  moreover from this have "low x * low y \<le> a * b" by (intro mult_mono) auto
  moreover have "a * b \<le> h" if "both (*) (high x) (high y) = Some h" for h
    using that calculation mem_highD [OF assms(1)] mem_highD [OF assms(2)]
    by (fastforce simp: both_Some intro: mult_mono)
  ultimately show ?thesis using True by (auto simp: mul_interval_def intro!: mem_IntervalI)
next
  case False
  have "mem (a * b) (corners x y (operation_named ''*''))"
    by (rule corners_mem [OF assms, where g = "(*)"])
      (simp_all add: operation_named_def BINARY_OPS_def between_mult between_mult')
  then show ?thesis using False by (auto simp: mul_interval_def)
qed

lemma div_mem:
  assumes "mem a x" "mem b y" "check_ranges ''/'' x y = Inr ()"
  shows "mem (trunc_div a b) (div_interval x y)"
proof -
  have x: "low_known x" "0 \<le> low x" "low_known y" "low y \<le> 0 \<Longrightarrow> \<exists>h. high y = Some h \<and> h < 0"
    using assms(3) by (auto simp: check_ranges_def split: if_splits option.splits)
  then have a: "0 \<le> a" using assms(1) by (auto simp: mem_def)
  show ?thesis
  proof (cases "0 < low y")
    case True
    then have b: "low y \<le> b" "0 < b" using assms(2) x by (auto simp: mem_def)
    have "low x div h \<le> a div b" if "high y = Some h" for h
      using mem_highD [OF assms(2) that] mem_lowD [OF assms(1) x(1)] b x
      by (meson order_trans zdiv_mono1 zdiv_mono2)
    moreover have "a div b \<le> h div low y" if "high x = Some h" for h
      using mem_highD [OF assms(1) that] mem_lowD [OF assms(1) x(1)] b x True a
      by (meson order_trans zdiv_mono1 zdiv_mono2)
    moreover have "0 \<le> a div b" using a b by (simp add: pos_imp_zdiv_nonneg_iff)
    ultimately show ?thesis using True x a b
      by (auto simp: div_interval_def nonneg_interval_def trunc_div_nonneg intro!: mem_IntervalI split: option.splits)
  next
    case False
    then obtain h where h: "high y = Some h" "h < 0" using x by force
    have neg: "- (p div - s) = trunc_div p s" if "0 \<le> p" "s \<le> h" for p s
      using that h by (simp add: trunc_div_negative)
    have b: "low y \<le> b" "b \<le> h" using mem_lowD [OF assms(2) x(3)] mem_highD [OF assms(2) h(1)] by auto
    have step: "p div - s \<le> p div - t" if "0 \<le> p" "s \<le> t" "t \<le> h" for p s t
      using that h by (intro zdiv_mono2) auto
    have "mem (trunc_div a b) (corners x y (operation_named ''/''))"
    proof (rule corners_mem [OF assms(1,2)])
      show "operation_named ''/'' p q = Some (trunc_div p q)"
        if "p \<in> {low x, a} \<union> set_option (high x)" "q \<in> {low y, b} \<union> set_option (high y)" for p q
        using that h b by (auto simp: operation_named_def BINARY_OPS_def)
      show "between (trunc_div (low x) b) (trunc_div a b) (trunc_div k b)" if "low x \<le> a" "a \<le> k" for k
      proof -
        have "low x div - b \<le> a div - b" "a div - b \<le> k div - b" using that b h by (auto intro!: zdiv_mono1)
        then show ?thesis using that x b h by (simp add: between_def trunc_div_negative)
      qed
      show "between (trunc_div p (low y)) (trunc_div p b) (trunc_div p h')"
        if "p \<in> {low x} \<union> set_option (high x)" "high y = Some h'" "low y \<le> b" "b \<le> h'" for p h'
      proof -
        have "0 \<le> p" using that x mem_highD [OF assms(1)] a by force
        then show ?thesis using that h b step [of p "low y" b] step [of p b h] neg [of p "low y"] neg [of p b] neg [of p h]
          by (auto simp: between_def)
      qed
    qed
    then show ?thesis using False by (simp add: div_interval_def)
  qed
qed

lemma trunc_mod_nonneg: "0 \<le> a \<Longrightarrow> 0 < b \<Longrightarrow> a - trunc_div a b * b = a mod b"
  by (simp add: trunc_div_nonneg minus_div_mult_eq_mod)

lemma mod_mem:
  assumes "mem a x" "mem b y"
  shows "mem (a - trunc_div a b * b) (mod_interval x y)"
proof (cases "nonneg_interval x \<and> low_known y \<and> 0 < low y")
  case True
  then have ab: "low x \<le> a" "0 \<le> a" "low y \<le> b" "0 < b" using assms by (auto simp: mem_def nonneg_interval_def)
  then have eq: "a - trunc_div a b * b = a mod b" by (simp add: trunc_mod_nonneg)
  have m: "0 \<le> a mod b" "a mod b \<le> a" "a mod b < b" using ab by (simp_all add: zmod_le_nonneg_dividend)
  show ?thesis
  proof (cases "case high x of Some h \<Rightarrow> h < low y | None \<Rightarrow> False")
    case small: True
    then have "a < b" using ab mem_highD [OF assms(1)] by (fastforce split: option.splits)
    then have "a - trunc_div a b * b = a" unfolding eq using ab by simp
    then show ?thesis using small True assms(1) by (simp only: mod_interval_def simp_thms if_False if_True)
  next
    case False
    have "a mod b \<le> h" if "least_limit (high x) (map_option (\<lambda>h. h - 1) (high y)) = Some h" for h
      using that m mem_highD [OF assms(1)] mem_highD [OF assms(2)]
      by (elim least_limit_le) fastforce+
    then show ?thesis using False True m eq by (auto simp: mod_interval_def intro!: mem_IntervalI)
  qed
qed (simp add: mod_interval_def)

lemma nonneg_memD: "mem a x \<Longrightarrow> nonneg_interval x \<Longrightarrow> 0 \<le> low x \<and> low x \<le> a \<and> 0 \<le> a"
  by (auto simp: mem_def nonneg_interval_def)

lemma and_mem:
  assumes "mem a x" "mem b y"
  shows "mem (and a b) (and_interval x y)"
proof (cases "nonneg_interval x \<and> nonneg_interval y")
  case True
  then have "0 \<le> a" "0 \<le> b" using nonneg_memD [OF assms(1)] nonneg_memD [OF assms(2)] by auto
  then have "0 \<le> and a b" "and a b \<le> a" "and a b \<le> b" by (simp_all add: AND_upper1 AND_upper2)
  then have "and a b \<le> h" if "least_limit (high x) (high y) = Some h" for h
    using that mem_highD [OF assms(1)] mem_highD [OF assms(2)] by (elim least_limit_le) fastforce+
  then show ?thesis using True \<open>0 \<le> and a b\<close> by (auto simp: and_interval_def intro!: mem_IntervalI)
qed (simp add: and_interval_def)

lemma or_mem:
  assumes "mem a x" "mem b y"
  shows "mem (or a b) (or_interval x y)" "mem (xor a b) (xor_interval x y)"
proof -
  have "mem (or a b) (or_interval x y) \<and> mem (xor a b) (xor_interval x y)"
  proof (cases "nonneg_interval x \<and> nonneg_interval y")
    case True
    then have ab: "0 \<le> low x" "low x \<le> a" "0 \<le> a" "0 \<le> low y" "low y \<le> b" "0 \<le> b"
      using nonneg_memD [OF assms(1)] nonneg_memD [OF assms(2)] by auto
    have "a \<le> or a b" "b \<le> or a b" using or_ge_operands [OF ab(3,6)] by auto
    moreover have "or a b \<le> h \<and> xor a b \<le> h" if "both (\<lambda>p q. mask (max p q)) (high x) (high y) = Some h" for h
      using that or_le_mask [OF ab(3,6)] mem_highD [OF assms(1)] mem_highD [OF assms(2)] by (auto simp: both_Some)
    moreover have "0 \<le> xor a b" using ab by simp
    ultimately show ?thesis using True ab by (auto simp: or_interval_def xor_interval_def intro!: mem_IntervalI)
  qed (simp add: or_interval_def xor_interval_def)
  then show "mem (or a b) (or_interval x y)" "mem (xor a b) (xor_interval x y)" by auto
qed

lemma shift_check:
  "check_ranges op x y = Inr () \<Longrightarrow> op \<in> {''<<'', ''>>''} \<Longrightarrow> mem b y \<Longrightarrow> 0 \<le> low y \<and> low_known y \<and> low y \<le> b \<and> 0 \<le> b"
  by (auto simp: check_ranges_def mem_def split: if_splits)

lemma shl_mem:
  assumes "mem a x" "mem b y" "check_ranges ''<<'' x y = Inr ()"
  shows "mem (push_bit (nat b) a) (shl_interval x y)"
proof (cases "nonneg_interval x")
  case True
  have b: "0 \<le> low y" "low_known y" "low y \<le> b" "0 \<le> b" using shift_check [OF assms(3) _ assms(2)] by auto
  have a: "0 \<le> low x" "low x \<le> a" "0 \<le> a" using nonneg_memD [OF assms(1) True] by auto
  have "low x * 2 ^ nat (low y) \<le> a * 2 ^ nat b" using a b by (intro mult_mono power_increasing) auto
  moreover have "a * 2 ^ nat b \<le> p * 2 ^ nat q" if "high x = Some p" "high y = Some q" for p q
    using mem_highD [OF assms(1) that(1)] mem_highD [OF assms(2) that(2)] a b
    by (intro mult_mono power_increasing) auto
  ultimately show ?thesis using True b
    by (auto simp: shl_interval_def nonneg_interval_def int_push_bit both_Some intro!: mem_IntervalI)
next
  case False
  have b: "0 \<le> low y" "low y \<le> b" "\<And>h. high y = Some h \<Longrightarrow> b \<le> h"
    using shift_check [OF assms(3) _ assms(2)] mem_highD [OF assms(2)] by auto
  have "mem (a * 2 ^ nat b) (corners x y (operation_named ''<<''))"
    by (rule corners_mem [OF assms(1,2), where g = "\<lambda>p q. p * 2 ^ nat q"])
      (use b in \<open>fastforce simp: operation_named_def BINARY_OPS_def int_push_bit intro: between_shl between_shl'\<close>)+
  then show ?thesis using False by (simp add: shl_interval_def int_push_bit)
qed

lemma shr_mem:
  assumes "mem a x" "mem b y" "check_ranges ''>>'' x y = Inr ()"
  shows "mem (drop_bit (nat b) a) (shr_interval x y)"
proof (cases "nonneg_interval x")
  case True
  have b: "0 \<le> low y" "low_known y" "low y \<le> b" "0 \<le> b" using shift_check [OF assms(3) _ assms(2)] by auto
  have a: "0 \<le> low x" "low x \<le> a" "0 \<le> a" using nonneg_memD [OF assms(1) True] by auto
  have "low x div 2 ^ nat q \<le> a div 2 ^ nat b" if "high y = Some q" for q
    using zdiv_mono1 [OF a(2), of "2 ^ nat q"] div_pow_mono(1) [of "nat b" "nat q" a] a b mem_highD [OF assms(2) that]
    by (simp add: nat_mono)
  moreover have "a div 2 ^ nat b \<le> p div 2 ^ nat (low y)" if "high x = Some p" for p
    using zdiv_mono1 [OF mem_highD [OF assms(1) that], of "2 ^ nat (low y)"]
      div_pow_mono(1) [of "nat (low y)" "nat b" a] a b by (simp add: nat_mono)
  moreover have "0 \<le> a div 2 ^ nat b" using a by (simp add: pos_imp_zdiv_nonneg_iff)
  ultimately show ?thesis using True b
    by (auto simp: shr_interval_def nonneg_interval_def int_drop_bit intro!: mem_IntervalI split: option.splits)
next
  case False
  have b: "0 \<le> low y" "low y \<le> b" "\<And>h. high y = Some h \<Longrightarrow> b \<le> h"
    using shift_check [OF assms(3) _ assms(2)] mem_highD [OF assms(2)] by auto
  have "mem (a div 2 ^ nat b) (corners x y (operation_named ''>>''))"
    by (rule corners_mem [OF assms(1,2), where g = "\<lambda>p q. p div 2 ^ nat q"])
      (use b in \<open>fastforce simp: operation_named_def BINARY_OPS_def int_drop_bit intro: between_div between_shr'\<close>)+
  then show ?thesis using False by (simp add: shr_interval_def int_drop_bit)
qed

lemma predicate_mem: "mem (of_bool P) (predicate_interval x y)"
  by (simp add: predicate_interval_def)

section \<open>One rule per operator\<close>

lemma operation_of:
  "map_of BINARY_OPS ''+'' = Some (\<lambda>a b. Some (a + b))"
  "map_of BINARY_OPS ''-'' = Some (\<lambda>a b. Some (a - b))"
  "map_of BINARY_OPS ''*'' = Some (\<lambda>a b. Some (a * b))"
  "map_of BINARY_OPS ''/'' = Some (\<lambda>a b. if b = 0 then None else Some (trunc_div a b))"
  "map_of BINARY_OPS ''%'' = Some (\<lambda>a b. if b = 0 then None else Some (a - trunc_div a b * b))"
  "map_of BINARY_OPS ''&'' = Some (\<lambda>a b. Some (and a b))"
  "map_of BINARY_OPS ''|'' = Some (\<lambda>a b. Some (or a b))"
  "map_of BINARY_OPS ''^'' = Some (\<lambda>a b. Some (xor a b))"
  "map_of BINARY_OPS ''<<'' = Some (\<lambda>a b. if b < 0 then None else Some (push_bit (nat b) a))"
  "map_of BINARY_OPS ''>>'' = Some (\<lambda>a b. if b < 0 then None else Some (drop_bit (nat b) a))"
  "map_of BINARY_OPS ''=='' = Some (\<lambda>a b. Some (of_bool (a = b)))"
  "map_of BINARY_OPS ''!='' = Some (\<lambda>a b. Some (of_bool (a \<noteq> b)))"
  "map_of BINARY_OPS ''<'' = Some (\<lambda>a b. Some (of_bool (a < b)))"
  "map_of BINARY_OPS ''>'' = Some (\<lambda>a b. Some (of_bool (a > b)))"
  "map_of BINARY_OPS ''<='' = Some (\<lambda>a b. Some (of_bool (a \<le> b)))"
  "map_of BINARY_OPS ''>='' = Some (\<lambda>a b. Some (of_bool (a \<ge> b)))"
  "map_of BINARY_OPS ''&&'' = Some (\<lambda>a b. Some (of_bool (a \<noteq> 0 \<and> b \<noteq> 0)))"
  "map_of BINARY_OPS ''||'' = Some (\<lambda>a b. Some (of_bool (a \<noteq> 0 \<or> b \<noteq> 0)))"
  by (simp_all add: BINARY_OPS_def)

lemma rule_of:
  "map_of INTERVAL_RULES ''+'' = Some add_interval"
  "map_of INTERVAL_RULES ''-'' = Some sub_interval"
  "map_of INTERVAL_RULES ''*'' = Some mul_interval"
  "map_of INTERVAL_RULES ''/'' = Some div_interval"
  "map_of INTERVAL_RULES ''%'' = Some mod_interval"
  "map_of INTERVAL_RULES ''&'' = Some and_interval"
  "map_of INTERVAL_RULES ''|'' = Some or_interval"
  "map_of INTERVAL_RULES ''^'' = Some xor_interval"
  "map_of INTERVAL_RULES ''<<'' = Some shl_interval"
  "map_of INTERVAL_RULES ''>>'' = Some shr_interval"
  "map_of INTERVAL_RULES ''=='' = Some predicate_interval"
  "map_of INTERVAL_RULES ''!='' = Some predicate_interval"
  "map_of INTERVAL_RULES ''<'' = Some predicate_interval"
  "map_of INTERVAL_RULES ''>'' = Some predicate_interval"
  "map_of INTERVAL_RULES ''<='' = Some predicate_interval"
  "map_of INTERVAL_RULES ''>='' = Some predicate_interval"
  "map_of INTERVAL_RULES ''&&'' = Some predicate_interval"
  "map_of INTERVAL_RULES ''||'' = Some predicate_interval"
  by (simp_all add: INTERVAL_RULES_def)

lemma operator_cases:
  assumes "map_of BINARY_OPS op = Some f"
  obtains (total) "op \<in> {''+'', ''-'', ''*'', ''&'', ''|'', ''^''}"
  | (division) "op \<in> {''/'', ''%''}"
  | (shift) "op \<in> {''<<'', ''>>''}"
  | (predicate) "op \<in> {''=='', ''!='', ''<'', ''>'', ''<='', ''>='', ''&&'', ''||''}"
proof -
  have "op \<in> set (map fst BINARY_OPS)" using map_of_SomeD [OF assms] by force
  then have "op \<in> set [''+'', ''-'', ''*'', ''/'', ''%'', ''&'', ''|'', ''^'', ''<<'', ''>>'', ''=='', ''!='', ''<'', ''>'',
      ''<='', ''>='', ''&&'', ''||'']"
    unfolding BINARY_OPS_def by (simp only: list.map fst_conv)
  then show thesis
    unfolding list.set by (elim insertE emptyE) (rule that, simp; fail)+
qed

lemma rule_intervalI:
  "check_ranges op x y = Inr () \<Longrightarrow> map_of INTERVAL_RULES op = Some rule \<Longrightarrow> map_of BINARY_OPS op = Some f
    \<Longrightarrow> f a b = Some r \<Longrightarrow> mem r (rule x y)
    \<Longrightarrow> \<exists>r i. f a b = Some r \<and> rule_interval op x y = Inr i \<and> mem r i"
  by (auto simp: rule_interval_def)

lemma run_sound:
  assumes op: "map_of BINARY_OPS op = Some f" and check: "check_ranges op x y = Inr ()"
    and m: "mem a x" "mem b y"
  shows "\<exists>r i. f a b = Some r \<and> rule_interval op x y = Inr i \<and> mem r i"
  using op
proof (cases rule: operator_cases)
  case total
  then show ?thesis
    by (elim insertE emptyE; hypsubst)
      (use op check m in \<open>auto simp: rule_interval_def operation_of rule_of add_mem sub_mem mul_mem and_mem or_mem\<close>)
next
  case division
  have "b \<noteq> 0"
    using division check m(2) by (auto simp: check_ranges_def mem_def split: if_splits option.splits)
  then show ?thesis using division op check m
    by (elim insertE emptyE; hypsubst) (auto simp: rule_interval_def operation_of rule_of div_mem mod_mem)
next
  case shift
  have "\<not> b < 0" using shift_check [OF check shift m(2)] by simp
  then show ?thesis using shift op check m
    by (elim insertE emptyE; hypsubst) (auto simp: rule_interval_def operation_of rule_of shl_mem shr_mem)
next
  case predicate
  then show ?thesis using op check
    by (elim insertE emptyE; hypsubst) (auto simp: rule_interval_def operation_of rule_of predicate_mem)
qed

lemma guard_run:
  assumes op: "map_of BINARY_OPS op = Some f" and "guard_binary op b = Inr ()"
  shows "\<exists>r. f a b = Some r"
  using op
proof (cases rule: operator_cases)
  case total
  then show ?thesis using op by (elim insertE emptyE; hypsubst) (auto simp: operation_of)
next
  case division
  then have "b \<noteq> 0" using assms(2) by (auto simp: guard_binary_def)
  then show ?thesis using division op by (elim insertE emptyE; hypsubst) (auto simp: operation_of)
next
  case shift
  then have "\<not> b < 0" using assms(2) by (auto simp: guard_binary_def split: if_splits)
  then show ?thesis using shift op by (elim insertE emptyE; hypsubst) (auto simp: operation_of)
next
  case predicate
  then show ?thesis using op by (elim insertE emptyE; hypsubst) (auto simp: operation_of)
qed

section \<open>Folding agrees with the value\<close>

lemma access_value_Inr:
  "access_value b name env = Inr x \<longleftrightarrow>
     (\<exists>e ms. b = NameRef e \<and> map_of (enums env) e = Some ms \<and> map_of ms name = Some x)"
  by (auto simp: access_value_def split: expr.splits option.splits)

lemma evaluate_ev:
  "evaluate e env = Inr x \<Longrightarrow> unshadowed True env e \<Longrightarrow> ev env w e = Some x"
  "evaluate_all es env = Inr xs \<Longrightarrow> all_unshadowed True env es \<Longrightarrow> evs env w es = Some xs"
proof (induction e env and es env arbitrary: x and xs rule: evaluate_evaluate_all.induct)
  case (2 name env)
  then show ?case by (auto simp: name_value_def split: option.splits)
next
  case (3 b name env)
  then show ?case by (auto simp del: path_text.simps split: option.splits)
next
  case (4 op operand env)
  then show ?case by (auto simp: unary_value_def split: option.splits)
next
  case (5 op left right env)
  then show ?case by (auto simp: binary_value_def run_op_def split: option.splits)
next
  case (6 name args env)
  then show ?case
    by (auto simp: call_value_def check_arity_def VALUE_BUILTINS_def LAYOUT_BUILTINS_def split: option.splits if_splits)
qed auto

text \<open>An expression written twice has one value.\<close>

lemma same_path:
  "same_expression a b \<Longrightarrow> path_text a = path_text b"
  "same_expressions as bs \<Longrightarrow> length as = length bs \<Longrightarrow> map path_text as = map path_text bs"
  by (induction a b and as bs rule: same_expression_same_expressions.induct) auto

lemma same_access: "same_expression a b \<Longrightarrow> access_value a name env = access_value b name env"
  by (cases a; cases b) (auto simp: access_value_def)

lemma layout_call_cong:
  "length as = length bs \<Longrightarrow> map path_text as = map path_text bs \<Longrightarrow> layout_call m as env = layout_call m bs env"
  by (cases as; cases bs) (auto simp: layout_call_def)

lemma call_value_cong:
  assumes "same_expressions as bs" "length as = length bs"
  shows "call_value m as env r = call_value m bs env r"
  unfolding call_value_def check_arity_def assms(2) layout_call_cong [OF assms(2) same_path(2) [OF assms]] ..

lemma same_evaluate:
  "same_expression a b \<Longrightarrow> evaluate a env = evaluate b env"
  "same_expressions as bs \<Longrightarrow> length as = length bs \<Longrightarrow> evaluate_all as env = evaluate_all bs env"
  by (induction a b and as bs rule: same_expression_same_expressions.induct)
    (auto simp: same_access intro: call_value_cong)

lemma same_ev:
  "same_expression a b \<Longrightarrow> ev env w a = ev env w b"
  "same_expressions as bs \<Longrightarrow> length as = length bs \<Longrightarrow> evs env w as = evs env w bs"
proof (induction a b and as bs rule: same_expression_same_expressions.induct)
  case (3 a m b n)
  then show ?case using same_path(1) [of "Access a m" "Access b n"] same_access [of a b n env]
    by (simp cong: option.case_cong)
next
  case (6 m as n bs)
  then have "same_expression (Call m as) (Call n bs)" "evs env w as = evs env w bs" "m = n" "length as = length bs"
    "map path_text as = map path_text bs" by (simp_all add: same_path)
  moreover from this have "evaluate (Call m as) env = evaluate (Call n bs) env" by (intro same_evaluate)
  ultimately show ?case by (simp only: ev.simps)
qed auto

section \<open>The builtins\<close>

lemma ones_bounds: "ones n \<le> nat_bit_length n" "0 < n \<Longrightarrow> 0 < ones n"
proof (induction n rule: ones.induct)
  case (1 n)
  have step: "0 < n \<Longrightarrow> ones n = n mod 2 + ones (n div 2)" "0 < n \<Longrightarrow> nat_bit_length n = Suc (nat_bit_length (n div 2))"
    by (subst ones.simps nat_bit_length.simps; simp)+
  {
    case 1
    show ?case
    proof (cases "n = 0")
      case False
      then show ?thesis using step "1.IH"(1) by (simp add: add_mono [of "n mod 2" 1, simplified])
    qed (simp add: ones.simps)
  next
    case 2
    show ?case
    proof (cases "n div 2 = 0")
      case True
      then show ?thesis using 2 step(1) by (cases "n = 1") auto
    next
      case False
      then show ?thesis using 2 step(1) "1.IH"(2) by auto
    qed
  }
qed

lemma bit_count_bounds:
  assumes "0 \<le> v" "v \<le> h"
  shows "bit_count v \<le> int (bit_length h)" "0 < v \<Longrightarrow> 1 \<le> bit_count v" "0 \<le> bit_count v"
proof -
  have "v < 2 ^ bit_length h" using assms less_pow_bit_length [of h] by linarith
  then have "bit_length v \<le> bit_length h" using assms by (simp add: bit_length_le_iff)
  moreover have "bit_count v \<le> int (bit_length v)"
    using ones_bounds(1) [of "nat v"] assms by (simp add: bit_count_def bit_length_def)
  ultimately show "bit_count v \<le> int (bit_length h)" by linarith
  show "0 < v \<Longrightarrow> 1 \<le> bit_count v" using ones_bounds(2) [of "nat v"] by (simp add: bit_count_def)
  show "0 \<le> bit_count v" by (simp add: bit_count_def)
qed

lemma round_up_mono: "0 < k \<Longrightarrow> a \<le> b \<Longrightarrow> round_up a k \<le> round_up b k"
  by (simp add: round_up_def zdiv_mono1)

lemma round_up_padding: "0 < k \<Longrightarrow> 0 \<le> round_up a k - a \<and> round_up a k - a \<le> k - 1"
proof -
  assume k: "0 < k"
  have "(a + k - 1) div k * k = a + k - 1 - (a + k - 1) mod k" by (simp add: minus_mod_eq_div_mult)
  then show ?thesis using k pos_mod_bound [of k "a + k - 1"] pos_mod_sign [of k "a + k - 1"]
    unfolding round_up_def by linarith
qed

text \<open>What a builtin answers, for arguments inside their intervals.\<close>

lemma builtin_sound:
  assumes m: "list_all2 mem vs known" and i: "builtin_interval name known = Inr i"
    and arity: "map_of VALUE_BUILTINS name = Some (length vs)" and r: "value_call name vs = Inr x"
  shows "mem x i"
proof (cases "\<forall>a\<in>set known. low_known a")
  case False
  then show ?thesis using i by (auto simp: builtin_interval_def)
next
  case True
  consider (two) u v a b where "name \<in> {''min'', ''max'', ''align_up''}" "vs = [u, v]" "known = [a, b]"
      "mem u a" "mem v b"
    | (one) u a where "name = ''popcount''" "vs = [u]" "known = [a]" "mem u a"
    using arity m
    by (auto simp: VALUE_BUILTINS_def list_all2_Cons1 Suc_length_conv length_Suc_conv numeral_2_eq_2 split: if_splits)
  then show ?thesis
  proof cases
    case one
    obtain h where h: "high a = Some h" "0 \<le> low a" "i = Interval (if low a = 0 then 0 else 1) (Some (int (bit_length h)))"
      using i one True by (auto simp: builtin_interval_def Let_def split: option.splits if_splits)
    have "low a \<le> u" "u \<le> h" "x = bit_count u" using h one True r by (auto simp: mem_def value_call_def)
    then show ?thesis using h bit_count_bounds [of u h] by auto
  next
    case two
    have low: "low a \<le> u" "low b \<le> v" using two True by (auto simp: mem_def)
    have high: "\<And>h. high a = Some h \<Longrightarrow> u \<le> h" "\<And>h. high b = Some h \<Longrightarrow> v \<le> h"
      using two by (auto intro: mem_highD)
    consider "name = ''min''" | "name = ''max''" | "name = ''align_up''" using two(1) by auto
    then show ?thesis
    proof cases
      case 1
      then show ?thesis using two i r True low high
        by (cases "high a"; cases "high b") (auto simp: builtin_interval_def value_call_def highest_def mem_def)
    next
      case 2
      then show ?thesis using two i r True low high
        by (cases "high a"; cases "high b") (auto simp: builtin_interval_def value_call_def highest_def mem_def)
    next
      case 3
      then have x: "0 < v" "x = round_up u v"
        using r two by (auto simp: value_call_def align_up_value_def split: if_splits)
      have "mem (round_up u v) (Interval (round_up (low a) v) (map_option (\<lambda>h. round_up h v) (high a)))"
        using low high x round_up_mono by (intro mem_IntervalI) auto
      moreover have "i = unknown \<or> low b = v \<and> i = Interval (round_up (low a) (low b)) (map_option (\<lambda>h. round_up h (low b)) (high a))"
        using i 3 two True mem_is_point [OF two(5)] by (auto simp: builtin_interval_def Let_def split: if_splits)
      ultimately show ?thesis using x by auto
    qed
  qed
qed

section \<open>Soundness\<close>

text \<open>\<open>covers env w e i\<close>: whatever \<open>e\<close> is worth is in \<open>i\<close>, and it is worth something when its
  alignments are positive.\<close>

definition covers :: "env \<Rightarrow> valuation \<Rightarrow> expr \<Rightarrow> interval \<Rightarrow> bool" where
  "covers env w e i =
     ((\<forall>x. ev env w e = Some x \<longrightarrow> mem x i) \<and> (proper env w e \<longrightarrow> ev env w e \<noteq> None))"

lemma covers_Some: "ev env w e = Some x \<Longrightarrow> mem x i \<Longrightarrow> covers env w e i"
  by (simp add: covers_def)

lemma covers_point: "covers env w e i \<Longrightarrow> is_point i \<Longrightarrow> ev env w e \<in> {None, Some (low i)}"
  by (cases "ev env w e") (auto simp: covers_def dest: mem_is_point)

lemma evs_None_covers:
  "list_all2 (covers env w) es ivs \<Longrightarrow> propers env w es \<Longrightarrow> evs env w es \<noteq> None"
  by (induction es ivs rule: list_all2_induct) (auto simp: covers_def)

lemma evs_covers:
  "list_all2 (covers env w) es ivs \<Longrightarrow> evs env w es = Some vs \<Longrightarrow> list_all2 mem vs ivs"
  by (induction es ivs arbitrary: vs rule: list_all2_induct) (auto simp: covers_def split: option.splits)

lemma unary_covers:
  assumes "covers env w e i" "unary_interval op i = Inr j"
  shows "covers env w (Unary op e) j"
proof (cases "map_of UNARY_OPS op")
  case None
  then show ?thesis by (simp add: covers_def)
next
  case (Some f)
  then have f: "op = ''-'' \<and> f = uminus \<or> op = ''~'' \<and> f = not \<or> op = ''!'' \<and> f = (\<lambda>a. if a \<noteq> 0 then 0 else 1)"
    by (auto simp: UNARY_OPS_def split: if_splits)
  have "mem (f a) j" if "mem a i" for a
    using f that assms(2) mem_is_point [OF that]
    by (auto simp: unary_interval_def UNARY_OPS_def mem_def is_point_def point_def unknown_def split: option.splits if_splits)
  then show ?thesis using assms(1) Some by (auto simp: covers_def split: option.splits)
qed

lemma binary_covers:
  assumes l: "covers env w left x" and r: "covers env w right y" and op: "map_of BINARY_OPS op = Some f"
    and step: "\<And>a b. ev env w left = Some a \<Longrightarrow> ev env w right = Some b \<Longrightarrow> mem a x \<Longrightarrow> mem b y
      \<Longrightarrow> \<exists>z. f a b = Some z \<and> mem z i"
  shows "covers env w (Binary op left right) i"
  using l r op step by (fastforce simp: covers_def split: option.splits)

lemma call_covers:
  assumes c: "call_interval name args env ranges = Inr i"
    and ranges: "\<And>known. ranges = Inr known \<Longrightarrow> map_of VALUE_BUILTINS name \<noteq> None \<Longrightarrow> list_all2 (covers env w) args known"
    and ok: "admits env w" "unshadowed True env (Call name args)"
  shows "covers env w (Call name args) i"
proof (cases "name = ''sum''")
  case True
  then have "i = Interval 0 None" using c by (auto simp: call_interval_def)
  then show ?thesis using True ok(1) by (auto simp: covers_def admits_def)
next
  case False
  show ?thesis
  proof (cases "map_of VALUE_BUILTINS name")
    case None
    then obtain x where "evaluate (Call name args) env = Inr x" "i = point x"
      using c False by (auto simp: call_interval_def simp del: evaluate.simps)
    then show ?thesis using evaluate_ev(1) [OF _ ok(2)] by (intro covers_Some) (auto simp del: evaluate.simps ev.simps)
  next
    case (Some n)
    then obtain known where known: "ranges = Inr known" "length args = n"
        "if (\<forall>a\<in>set known. is_point a) then \<exists>x. evaluate (Call name args) env = Inr x \<and> i = point x
         else builtin_interval name known = Inr i"
      using c False by (fastforce simp: call_interval_def check_arity_def simp del: evaluate.simps split: if_splits)
    have args: "list_all2 (covers env w) args known" using ranges [OF known(1)] Some by simp
    show ?thesis
    proof (cases "\<forall>a\<in>set known. is_point a")
      case True
      then obtain x where "evaluate (Call name args) env = Inr x" "i = point x" using known by auto
      then show ?thesis using evaluate_ev(1) [OF _ ok(2)] by (intro covers_Some) (auto simp del: evaluate.simps ev.simps)
    next
      case wide: False
      then have i: "builtin_interval name known = Inr i" using known by simp
      have "mem x i" if "evs env w args = Some vs" "value_call name vs = Inr x" for vs x
        using builtin_sound [OF evs_covers [OF args that(1)] i _ that(2)] Some known(2)
          list_all2_lengthD [OF args] list_all2_lengthD [OF evs_covers [OF args that(1)]] by simp
      moreover have "\<exists>x. value_call name vs = Inr x" if "evs env w args = Some vs" "proper env w (Call name args)" for vs
      proof (cases "name = ''align_up''")
        case True
        then have "length args = 2" using Some known by (simp add: VALUE_BUILTINS_def)
        then obtain a k where "args = [a, k]" by (auto simp: numeral_2_eq_2 length_Suc_conv)
        then show ?thesis using that True by (auto simp: value_call_def align_up_value_def split: option.splits)
      next
        case False
        then show ?thesis using Some by (auto simp: value_call_def VALUE_BUILTINS_def split: if_splits)
      qed
      ultimately show ?thesis using False Some known evs_None_covers [OF args]
        by (fastforce simp: covers_def split: option.splits)
    qed
  qed
qed

lemma padding_None: "op \<noteq> ''-'' \<Longrightarrow> padding_interval op l r env \<noteq> Inr (Some i)"
  by (cases "(op, l, r, env)" rule: padding_interval.cases) auto

lemma bindE_option:
  "bindE m (\<lambda>p. case p of Some i \<Rightarrow> Inr i | None \<Rightarrow> r) = Inr i \<Longrightarrow> m = Inr (Some i) \<or> m = Inr None \<and> r = Inr i"
  by (cases m) (auto split: option.splits)

lemma interval_of_covers:
  "interval_of e env = Inr i \<Longrightarrow> admits env w \<Longrightarrow> unshadowed False env e \<Longrightarrow> covers env w e i"
  "intervals_of es env = Inr ivs \<Longrightarrow> admits env w \<Longrightarrow> all_unshadowed False env es \<Longrightarrow> list_all2 (covers env w) es ivs"
  "padding_interval oper left right env = Inr (Some j) \<Longrightarrow> admits env w \<Longrightarrow> unshadowed False env left
     \<Longrightarrow> oper = ''-'' \<and> (\<forall>a b. ev env w left = Some a \<longrightarrow> ev env w right = Some b \<longrightarrow> mem (a - b) j)"
proof (induction e env and es env and oper left right env arbitrary: i and ivs and j
    rule: interval_of_intervals_of_padding_interval.induct)
  case (1 v literal env)
  then show ?case by (auto intro!: covers_Some)
next
  case (2 name env)
  then show ?case by (auto simp: name_interval_def admits_def split: option.splits intro!: covers_Some)
next
  case (3 b name env)
  then show ?case
    by (auto simp: access_interval_def Let_def admits_def split: option.splits sum.splits intro!: covers_Some)
next
  case (4 op operand env)
  then show ?case by (auto intro: unary_covers)
next
  case (5 op left right env)
  then obtain l r f where lr: "interval_of left env = Inr l" "interval_of right env = Inr r"
      and f: "map_of BINARY_OPS op = Some f" by (auto split: option.splits)
  have cl: "covers env w left l" and cr: "covers env w right r" using 5 lr f by auto
  show ?case
  proof (cases "is_point l \<and> is_point r")
    case True
    then obtain x where g: "guard_binary op (low r) = Inr ()" "run_op f (low l) (low r) = Inr x" "i = point x"
      using 5 lr f by auto
    then have "f (low l) (low r) = Some x" by (auto simp: run_op_def split: option.splits)
    then show ?thesis using True g by (intro binary_covers [OF cl cr f]) (auto dest!: mem_is_point)
  next
    case wide: False
    then have "bindE (padding_interval op left right env)
        (\<lambda>p. case p of Some i \<Rightarrow> Inr i | None \<Rightarrow> rule_interval op l r) = Inr i"
      using 5(4) lr f unfolding interval_of.simps by (simp only: bindE_simps option.case if_False)
    from bindE_option [OF this] consider "padding_interval op left right env = Inr (Some i)"
      | "padding_interval op left right env = Inr None" "rule_interval op l r = Inr i"
      by blast
    then show ?thesis
    proof cases
      case 1
      have "op = ''-'' \<and> (\<forall>a b. ev env w left = Some a \<longrightarrow> ev env w right = Some b \<longrightarrow> mem (a - b) i)"
        using "5.IH"(3) [OF f wide 1 5(5)] 5(6) by simp
      then show ?thesis using f by (intro binary_covers [OF cl cr f]) (auto simp: operation_of)
    next
      case 2
      then have "check_ranges op l r = Inr ()" by (auto simp: rule_interval_def)
      then show ?thesis using 2(2) run_sound [OF f] by (intro binary_covers [OF cl cr f]) fastforce
    qed
  qed
next
  case (6 name args env)
  show ?case
  proof (rule call_covers)
    show "call_interval name args env (intervals_of args env) = Inr i" using 6 by simp
    show "unshadowed True env (Call name args)" using 6(4) by simp
    show "list_all2 (covers env w) args known" if "intervals_of args env = Inr known" "map_of VALUE_BUILTINS name \<noteq> None" for known
      using 6 that unshadowed_weaken(2) by auto
  qed (rule 6(3))
next
  case (7 env)
  then show ?case by (auto simp: admits_def intro!: covers_Some)
next
  case (13 op name x k right env)
  then obtain align where k: "interval_of k env = Inr align" "is_point align" "0 < low align"
      "j = Interval 0 (Some (low align - 1))" and op: "op = ''-''" "name = ''align_up''" "same_expression x right"
    by (auto split: if_splits)
  have "unshadowed False env k" using 13(4) op(2) unshadowed_weaken(1) by (auto simp: VALUE_BUILTINS_def)
  then have c: "covers env w k align" using 13 k op by auto
  have "mem (a - b) j" if "ev env w (Call name [x, k]) = Some a" "ev env w right = Some b" for a b
  proof -
    have "ev env w x = Some b" using same_ev(1) [OF op(3), of env w] that by simp
    then have "a = round_up b (low align)"
      using that(1) op covers_point [OF c k(2)]
      by (auto simp: VALUE_BUILTINS_def value_call_def align_up_value_def split: option.splits if_splits)
    then show ?thesis using round_up_padding [OF k(3), of b] k by simp
  qed
  then show ?case using op by simp
qed auto

section \<open>The properties\<close>

text \<open>
  C28: \<open>interval_of\<close> is sound: in a message that keeps the declared ranges, an expression it accepts
  is worth no number outside the interval it derived, so a size read off an interval's upper end is
  never too small; given that no path inside an argument of \<open>min\<close>, \<open>max\<close>, \<open>align_up\<close> or \<open>popcount\<close>
  spells both a field and an enum member, where the compiler folds to the member what the message
  reads from the field.
\<close>

theorem interval_sound:
  assumes "interval_of e env = Inr i" "admits env w" "unshadowed False env e" "ev env w e = Some x"
  shows "(low_known i \<longrightarrow> low i \<le> x) \<and> (\<forall>h. high i = Some h \<longrightarrow> x \<le> h)"
  using interval_of_covers(1) [OF assms(1-3)] assms(4) by (auto simp: covers_def mem_def)

text \<open>Padding to four bytes, and a masked division: \<open>align_up(n, 4) - n + (n & 7) / (k + 1)\<close>.\<close>

definition example_env :: env where
  "example_env = empty_env\<lparr>known_fields := [(''n'', Interval 0 (Some 255)), (''k'', Interval 0 None)],
     constants := [(''four'', 4)]\<rparr>"

definition example_expr :: expr where
  "example_expr =
     Binary ''+'' (Binary ''-'' (Call ''align_up'' [NameRef ''n'', NameRef ''four'']) (NameRef ''n''))
       (Binary ''/'' (Binary ''&'' (NameRef ''n'') (IntLiteral 7 ''7''))
         (Binary ''+'' (NameRef ''k'') (IntLiteral 1 ''1'')))"

definition example_message :: valuation where
  "example_message =
     \<lparr>field_at = (\<lambda>p. if p = ''n'' then 13 else 1), sum_at = (\<lambda>a. 0), remaining_at = 0\<rparr>"

lemma example_facts:
  "interval_of example_expr example_env = Inr (Interval 0 (Some 10))"
  "admits example_env example_message" "unshadowed False example_env example_expr"
  "ev example_env example_message example_expr = Some 5"
  "proper example_env example_message example_expr"
proof -
  show "interval_of example_expr example_env = Inr (Interval 0 (Some 10))" by code_simp
  show "ev example_env example_message example_expr = Some 5" by code_simp
  show "proper example_env example_message example_expr" by code_simp
  show "unshadowed False example_env example_expr" by code_simp
  show "admits example_env example_message"
    by (simp add: admits_def example_env_def example_message_def empty_env_def)
qed

theorem interval_sound_witness:
  "interval_of example_expr example_env = Inr (Interval 0 (Some 10))
    \<and> ev example_env example_message example_expr = Some 5 \<and> (0::int) \<le> 5 \<and> (5::int) \<le> 10"
  using interval_sound [OF example_facts(1-4)] example_facts(1,4) by simp

text \<open>
  C29: Acceptance is a guarantee of a value: in a message that keeps the declared ranges, an expression
  \<open>interval_of\<close> accepts divides by no zero, shifts by no negative amount and names nothing
  undeclared; given the three unary operators the parser reads, alignments that are positive in the
  message, and that no path inside an argument of \<open>min\<close>, \<open>max\<close>, \<open>align_up\<close> or \<open>popcount\<close> spells both a
  field and an enum member.
\<close>

theorem interval_progress:
  assumes "interval_of e env = Inr i" "admits env w" "unshadowed False env e" "proper env w e"
  shows "\<exists>x. ev env w e = Some x"
  using interval_of_covers(1) [OF assms(1-3)] assms(4) by (auto simp: covers_def)

theorem interval_progress_witness: "\<exists>x. ev example_env example_message example_expr = Some x"
  by (rule interval_progress [OF example_facts(1-3,5)])

text \<open>
  Folding is evaluation: where \<open>evaluate\<close> answers a number at compile time, the expression is
  worth that number in every message.
\<close>

theorem evaluate_is_value:
  assumes "evaluate e env = Inr x" "unshadowed True env e"
  shows "ev env w e = Some x"
  using evaluate_ev(1) [OF assms] .

theorem evaluate_is_value_witness:
  "ev example_env example_message (Binary ''%'' (IntLiteral (-7) ''7'') (NameRef ''four'')) = Some (- 3)"
  by (rule evaluate_is_value; code_simp)

text \<open>
  What \<open>unshadowed\<close> keeps out: with \<open>enum hdr { len = 3 }\<close> and a field \<open>hdr.len\<close> pinned to 4, the call
  \<open>min(hdr.len, 9)\<close> is accepted as the constant 3 and worth 4 in every message.
\<close>

definition shadowed_env :: env where
  "shadowed_env = empty_env\<lparr>known_fields := [(''hdr.len'', point 4)], enums := [(''hdr'', [(''len'', 3)])]\<rparr>"

lemma shadowed_call_folds:
  assumes "admits shadowed_env w"
  shows "interval_of (Call ''min'' [Access (NameRef ''hdr'') ''len'', IntLiteral 9 ''9'']) shadowed_env = Inr (point 3)"
    and "ev shadowed_env w (Call ''min'' [Access (NameRef ''hdr'') ''len'', IntLiteral 9 ''9'']) = Some 4"
proof -
  show "interval_of (Call ''min'' [Access (NameRef ''hdr'') ''len'', IntLiteral 9 ''9'']) shadowed_env = Inr (point 3)"
    by code_simp
  have "map_of (known_fields shadowed_env) ''hdr.len'' = Some (point 4)" by (simp add: shadowed_env_def)
  with assms have "mem (field_at w ''hdr.len'') (point 4)" unfolding admits_def by blast
  then have "field_at w ''hdr.len'' = 4" by simp
  then show "ev shadowed_env w (Call ''min'' [Access (NameRef ''hdr'') ''len'', IntLiteral 9 ''9'']) = Some 4"
    by (simp add: shadowed_env_def empty_env_def VALUE_BUILTINS_def value_call_def)
qed

text \<open>
  A field pinned to one value is a constant in an operator and not in a builtin: where \<open>n\<close> is
  known to be \<open>k\<close>, \<open>n + c\<close> has the single-point interval of \<open>k + c\<close>, while \<open>min(n, c)\<close>, \<open>max(n, c)\<close>
  and \<open>align_up(n, c)\<close> are refused, because the point case of a call folds its arguments again with
  \<open>evaluate\<close>, which knows no field.
\<close>

theorem point_field_in_call:
  assumes "map_of (known_fields env) n = Some (point k)" "map_of (constants env) n = None"
    and "f \<in> {''min'', ''max'', ''align_up''}"
  shows "interval_of (Binary ''+'' (NameRef n) (IntLiteral c s)) env = Inr (point (k + c))
    \<and> interval_of (Call f [NameRef n, IntLiteral c s]) env = Inl (NotConstant n)"
  using assms
  by (auto simp: name_interval_def name_value_def is_point_def point_def guard_binary_def run_op_def operation_of
      call_interval_def VALUE_BUILTINS_def check_arity_def call_value_def)

theorem point_field_in_call_witness:
  "interval_of (Call ''min'' [NameRef ''n'', IntLiteral 8 ''8'']) (empty_env\<lparr>known_fields := [(''n'', point 4)]\<rparr>)
     = Inl (NotConstant ''n'')"
  using point_field_in_call [of "empty_env\<lparr>known_fields := [(''n'', point 4)]\<rparr>" "''n''" 4 "''min''" 8 "''8''"]
  by (simp add: empty_env_def)

end
