(* ===== verification/Expr_Relations.thy ===== *)
theory Expr_Relations
  imports Expr_Sound
begin

text \<open>
  Bounds that fields state of each other, \<open>relational_floor\<close> in \<open>situc/expr.py\<close>: an expression as a
  sum of fields and a constant, the least such a sum can be, and the loop that replaces a field by
  what bounds it.  A dict of terms is the list of its items in order.
\<close>

type_synonym terms = "(string \<times> int) list"
type_synonym relations = "(string \<times> (string \<times> expr) list) list"

text \<open>\<open>terms[path] = terms.get(path, 0) + by\<close> and \<open>del terms[path]\<close>.\<close>

fun add_term :: "string \<Rightarrow> int \<Rightarrow> terms \<Rightarrow> terms" where
  "add_term path k [] = [(path, k)]"
| "add_term path k ((p, n) # ts) = (if p = path then (p, n + k) # ts else (p, n) # add_term path k ts)"

definition del_term :: "string \<Rightarrow> terms \<Rightarrow> terms" where
  "del_term path ts = filter (\<lambda>(p, n). p \<noteq> path) ts"

definition add_terms :: "int \<Rightarrow> terms \<Rightarrow> terms \<Rightarrow> terms" where
  "add_terms scale other ts = fold (\<lambda>(path, n) ts. add_term path (scale * n) ts) other ts"

definition linear_leaf :: "expr \<Rightarrow> env \<Rightarrow> (terms \<times> int) option" where
  "linear_leaf e env =
     (let path = path_text e;
          held = (case path of None \<Rightarrow> None | Some p \<Rightarrow> map_of (known_fields env) p) in
      case (path, held) of
        (Some p, Some h) \<Rightarrow> Some (if is_point h then ([], low h) else ([(p, 1)], 0))
      | _ \<Rightarrow> (case interval_of e env of Inl d \<Rightarrow> None | Inr i \<Rightarrow> if is_point i then Some ([], low i) else None))"

definition scale_terms :: "int \<Rightarrow> terms \<Rightarrow> terms" where
  "scale_terms k ts = map (\<lambda>(path, n). (path, n * k)) ts"

fun linear :: "expr \<Rightarrow> env \<Rightarrow> (terms \<times> int) option" where
  "linear (IntLiteral literal s) env = Some ([], literal)"
| "linear (NameRef name) env = linear_leaf (NameRef name) env"
| "linear (Access b name) env = linear_leaf (Access b name) env"
| "linear (Unary op operand) env =
     (if op \<noteq> ''-'' then None
      else case linear operand env of None \<Rightarrow> None | Some (ts, c) \<Rightarrow> Some (scale_terms (-1) ts, - c))"
| "linear (Binary op l r) env =
     (if op \<notin> {''+'', ''-'', ''*''} then None
      else case (linear l env, linear r env) of
        (Some (lt, lc), Some (rt, rc)) \<Rightarrow>
          if op = ''*'' then
            (if lt \<noteq> [] \<and> rt \<noteq> [] then None
             else Some (if lt \<noteq> [] then scale_terms rc lt else scale_terms lc rt, lc * rc))
          else (let sign = (if op = ''+'' then 1 else -1) in Some (add_terms sign rt lt, lc + sign * rc))
      | _ \<Rightarrow> None)"
| "linear other env = None"

text \<open>The least a sum can be, each field at its own worst.\<close>

fun floor_of :: "terms \<Rightarrow> int \<Rightarrow> env \<Rightarrow> int option" where
  "floor_of [] least env = Some least"
| "floor_of ((path, n) # ts) least env =
     (if n = 0 then floor_of ts least env
      else case map_of (known_fields env) path of
        None \<Rightarrow> None
      | Some held \<Rightarrow>
          (case (if 0 < n then Some (low held) else high held) of
             None \<Rightarrow> None
           | Some worst \<Rightarrow> if \<not> low_known held then None else floor_of ts (least + n * worst) env))"

text \<open>The first term not yet replaced that a relation bounds on the side that matters.\<close>

definition bounds_of :: "relations \<Rightarrow> string \<Rightarrow> (string \<times> expr) list" where
  "bounds_of relations path = (case map_of relations path of None \<Rightarrow> [] | Some bs \<Rightarrow> bs)"

fun next_step :: "terms \<Rightarrow> string list \<Rightarrow> relations \<Rightarrow> (string \<times> int \<times> expr) option" where
  "next_step [] spent relations = None"
| "next_step ((path, n) # ts) spent relations =
     (if n = 0 \<or> path \<in> set spent then next_step ts spent relations
      else case find (\<lambda>(name, bound). name = (if n < 0 then ''max'' else ''min'') \<or> name = ''must_eq'')
               (bounds_of relations path) of
        Some (name, bound) \<Rightarrow> Some (path, n, bound)
      | None \<Rightarrow> next_step ts spent relations)"

definition raise_floor :: "int option \<Rightarrow> int option \<Rightarrow> int option" where
  "raise_floor best floor =
     (case (floor, best) of
        (None, _) \<Rightarrow> best
      | (Some f, None) \<Rightarrow> Some f
      | (Some f, Some b) \<Rightarrow> Some (if b < f then f else b))"

section \<open>What a sum is worth\<close>

definition weigh :: "valuation \<Rightarrow> terms \<Rightarrow> int" where
  "weigh w ts = sum_list (map (\<lambda>(path, n). n * field_at w path) ts)"

definition keys :: "(string \<times> 'a) list \<Rightarrow> string set" where
  "keys ts = fst ` set ts"

definition is_dict :: "(string \<times> 'a) list \<Rightarrow> bool" where
  "is_dict ts = distinct (map fst ts)"

lemma keys_simps [simp]:
  "keys [] = {}" "keys ((p, n) # ts) = insert p (keys ts)" "finite (keys ts)"
  "is_dict []" "is_dict ((p, n) # ts) \<longleftrightarrow> p \<notin> keys ts \<and> is_dict ts"
  by (auto simp: keys_def is_dict_def)

lemma keys_map_of: "map_of ts p = Some x \<Longrightarrow> p \<in> keys ts" "p \<notin> keys ts \<Longrightarrow> map_of ts p = None"
  by (force simp: keys_def map_of_eq_None_iff dest: map_of_SomeD)+

lemma keys_in: "(p, n) \<in> set ts \<Longrightarrow> p \<in> keys ts"
  by (force simp: keys_def)

lemma weigh_simps [simp]:
  "weigh w [] = 0" "weigh w ((p, n) # ts) = n * field_at w p + weigh w ts"
  by (simp_all add: weigh_def)

lemma scale_terms_facts [simp]:
  "weigh w (scale_terms k ts) = k * weigh w ts" "keys (scale_terms k ts) = keys ts"
  "is_dict (scale_terms k ts) = is_dict ts"
  by (induction ts) (auto simp: scale_terms_def keys_def is_dict_def algebra_simps image_iff case_prod_unfold)

lemma add_term_facts [simp]:
  "weigh w (add_term p n ts) = weigh w ts + n * field_at w p"
  "keys (add_term p n ts) = insert p (keys ts)"
  "is_dict ts \<Longrightarrow> is_dict (add_term p n ts)"
proof -
  have k: "keys (add_term p n ts) = insert p (keys ts)" for p n ts
    by (induction p n ts rule: add_term.induct) auto
  show "keys (add_term p n ts) = insert p (keys ts)" by (rule k)
  show "weigh w (add_term p n ts) = weigh w ts + n * field_at w p"
    by (induction p n ts rule: add_term.induct) (simp_all add: algebra_simps)
  show "is_dict ts \<Longrightarrow> is_dict (add_term p n ts)"
    by (induction p n ts rule: add_term.induct) (auto simp: k)
qed

lemma add_terms_Cons: "add_terms k ((p, n) # other) ts = add_terms k other (add_term p (k * n) ts)"
  by (simp add: add_terms_def)

lemma add_terms_facts [simp]:
  "weigh w (add_terms k other ts) = weigh w ts + k * weigh w other"
  "keys (add_terms k other ts) = keys other \<union> keys ts"
  "is_dict ts \<Longrightarrow> is_dict (add_terms k other ts)"
proof -
  show "weigh w (add_terms k other ts) = weigh w ts + k * weigh w other"
    by (induction other arbitrary: ts) (simp add: add_terms_def, auto simp: add_terms_Cons algebra_simps)
  show "keys (add_terms k other ts) = keys other \<union> keys ts"
    by (induction other arbitrary: ts) (simp add: add_terms_def, auto simp: add_terms_Cons)
  show "is_dict ts \<Longrightarrow> is_dict (add_terms k other ts)"
    by (induction other arbitrary: ts) (simp add: add_terms_def, auto simp: add_terms_Cons)
qed

lemma del_term_absent: "p \<notin> keys ts \<Longrightarrow> del_term p ts = ts"
  by (force simp: del_term_def keys_def filter_id_conv)

lemma del_term_facts:
  "keys (del_term p ts) = keys ts - {p}"
  "is_dict ts \<Longrightarrow> is_dict (del_term p ts)"
  "is_dict ts \<Longrightarrow> (p, n) \<in> set ts \<Longrightarrow> weigh w (del_term p ts) = weigh w ts - n * field_at w p"
proof -
  show k: "keys (del_term p ts) = keys ts - {p}" for ts
    by (force simp: del_term_def keys_def)
  have c: "del_term p ((q, m) # ts) = (if q = p then del_term p ts else (q, m) # del_term p ts)" for q m ts
    by (simp add: del_term_def)
  show "is_dict ts \<Longrightarrow> is_dict (del_term p ts)"
    by (induction ts) (simp add: del_term_def, auto simp: c k)
  show "is_dict ts \<Longrightarrow> (p, n) \<in> set ts \<Longrightarrow> weigh w (del_term p ts) = weigh w ts - n * field_at w p"
    by (induction ts) (simp, auto simp: c del_term_absent dest: keys_in)
qed

section \<open>A linear form is exact\<close>

text \<open>
  \<open>_linear\<close> looks a name up among the fields first, \<open>interval_of\<close> and \<open>evaluate\<close> among the constants
  first.  \<open>named_apart\<close>: no name the sum reads is both.
\<close>

fun named_apart :: "env \<Rightarrow> expr \<Rightarrow> bool" where
  "named_apart env (NameRef name) = (map_of (known_fields env) name = None \<or> map_of (constants env) name = None)"
| "named_apart env (Unary op operand) = named_apart env operand"
| "named_apart env (Binary op l r) = (named_apart env l \<and> named_apart env r)"
| "named_apart env e = True"

definition bounds_apart :: "env \<Rightarrow> relations \<Rightarrow> bool" where
  "bounds_apart env relations = list_all (\<lambda>(path, bs). list_all (\<lambda>(name, bound). named_apart env bound) bs) relations"

text \<open>The assertion in \<open>Interval.value\<close> is never reached from \<open>_linear\<close>: a name no field has is a
  constant, whose interval is a point.\<close>

lemma leaf_is_point:
  assumes "interval_of e env = Inr i" "e = NameRef name \<or> e = Access b name"
    and "case path_text e of None \<Rightarrow> True | Some p \<Rightarrow> map_of (known_fields env) p = None"
  shows "is_point i"
  using assms
  by (auto simp: name_interval_def access_interval_def Let_def is_point_def point_def split: option.splits sum.splits)

lemma linear_leaf_shape:
  assumes "linear_leaf e env = Some (ts, c)"
  obtains (field) p h where "path_text e = Some p" "map_of (known_fields env) p = Some h"
      "(ts, c) = (if is_point h then ([], low h) else ([(p, 1)], 0))"
  | (known) i where "interval_of e env = Inr i" "is_point i" "ts = []" "c = low i"
  using assms by (auto simp: linear_leaf_def Let_def split: option.splits sum.splits if_splits)

lemma linear_leaf_ev:
  assumes leaf: "linear_leaf e env = Some (ts, c)" and e: "e = NameRef name \<or> e = Access b name"
    and ok: "admits env w" "named_apart env e"
  shows "ev env w e = Some (weigh w ts + c)"
  using leaf
proof (cases rule: linear_leaf_shape)
  case (field p h)
  have "ev env w e = Some (field_at w p)" using e field ok(2) by auto
  moreover have "mem (field_at w p) h" using ok(1) field by (simp add: admits_def)
  ultimately show ?thesis using field(3) mem_is_point [of "field_at w p" h] by (auto split: if_splits)
next
  case (known i)
  have "unshadowed False env e" using e by auto
  then have "covers env w e i" by (rule interval_of_covers(1) [OF known(1) ok(1)])
  moreover have "proper env w e" using e by auto
  ultimately show ?thesis using covers_point [of env w e i] known by (auto simp: covers_def)
qed

lemma linear_binary:
  assumes "linear (Binary op l r) env = Some (ts, c)"
  obtains lt lc rt rc where "linear l env = Some (lt, lc)" "linear r env = Some (rt, rc)"
    "op = ''*'' \<and> lt = [] \<and> ts = scale_terms lc rt \<and> c = lc * rc
     \<or> op = ''*'' \<and> rt = [] \<and> ts = scale_terms rc lt \<and> c = lc * rc
     \<or> op = ''+'' \<and> ts = add_terms 1 rt lt \<and> c = lc + rc
     \<or> op = ''-'' \<and> ts = add_terms (-1) rt lt \<and> c = lc - rc"
proof -
  obtain lt lc rt rc where lr: "linear l env = Some (lt, lc)" "linear r env = Some (rt, rc)"
    using assms by (cases "linear l env"; cases "linear r env") (auto split: if_splits)
  show thesis by (rule that [OF lr]) (use assms lr in \<open>auto split: if_splits\<close>)
qed

lemma linear_unary:
  assumes "linear (Unary op e) env = Some (ts, c)"
  obtains t k where "op = ''-''" "linear e env = Some (t, k)" "ts = scale_terms (-1) t" "c = - k"
  using assms by (auto split: if_splits option.splits)

lemma linear_dict:
  "linear e env = Some (ts, c) \<Longrightarrow> is_dict ts \<and> keys ts \<subseteq> keys (known_fields env)"
proof (induction e env arbitrary: ts c rule: linear.induct)
  case (2 name env)
  then have "linear_leaf (NameRef name) env = Some (ts, c)" by simp
  then show ?case by (cases rule: linear_leaf_shape) (auto dest: keys_map_of split: if_splits)
next
  case (3 b name env)
  then have "linear_leaf (Access b name) env = Some (ts, c)" by simp
  then show ?case by (cases rule: linear_leaf_shape) (auto dest: keys_map_of split: if_splits)
next
  case (4 op operand env)
  from 4(2) show ?case using 4(1) by (elim linear_unary) auto
next
  case (5 op l r env)
  obtain lt lc rt rc where lr: "linear l env = Some (lt, lc)" "linear r env = Some (rt, rc)"
    and shape: "op = ''*'' \<and> lt = [] \<and> ts = scale_terms lc rt \<and> c = lc * rc
     \<or> op = ''*'' \<and> rt = [] \<and> ts = scale_terms rc lt \<and> c = lc * rc
     \<or> op = ''+'' \<and> ts = add_terms 1 rt lt \<and> c = lc + rc
     \<or> op = ''-'' \<and> ts = add_terms (-1) rt lt \<and> c = lc - rc"
    by (rule linear_binary [OF 5(3)])
  have "\<not> op \<notin> {''+'', ''-'', ''*''}" using shape by auto
  from 5(1) [OF this lr(1)] 5(2) [OF this lr(2)] shape show ?case by auto
qed auto

lemma linear_ev:
  "linear e env = Some (ts, c) \<Longrightarrow> admits env w \<Longrightarrow> named_apart env e \<Longrightarrow> ev env w e = Some (weigh w ts + c)"
proof (induction e env arbitrary: ts c rule: linear.induct)
  case (2 name env)
  then show ?case using linear_leaf_ev [of "NameRef name" env ts c name _ w] by (simp only: linear.simps simp_thms)
next
  case (3 b name env)
  then show ?case using linear_leaf_ev [of "Access b name" env ts c name b w] by (simp only: linear.simps simp_thms)
next
  case (4 op operand env)
  from 4(2) show ?case using 4 by (elim linear_unary) (auto simp: UNARY_OPS_def)
next
  case (5 op l r env)
  obtain lt lc rt rc where lr: "linear l env = Some (lt, lc)" "linear r env = Some (rt, rc)"
    and shape: "op = ''*'' \<and> lt = [] \<and> ts = scale_terms lc rt \<and> c = lc * rc
     \<or> op = ''*'' \<and> rt = [] \<and> ts = scale_terms rc lt \<and> c = lc * rc
     \<or> op = ''+'' \<and> ts = add_terms 1 rt lt \<and> c = lc + rc
     \<or> op = ''-'' \<and> ts = add_terms (-1) rt lt \<and> c = lc - rc"
    by (rule linear_binary [OF 5(3)])
  have op: "\<not> op \<notin> {''+'', ''-'', ''*''}" using shape by auto
  from 5(1) [OF this lr(1) 5(4)] 5(2) [OF this lr(2) 5(4)] 5(5) shape
  show ?case by (elim disjE conjE) (auto simp: operation_of algebra_simps)
qed auto

lemma find_name:
  "find (\<lambda>(name, bound). name = a \<or> name = b) bs = Some (n, e) \<Longrightarrow> (n, e) \<in> set bs \<and> (n = a \<or> n = b)"
  by (induction bs) (auto split: if_splits)

lemma next_step_in:
  "next_step ts spent relations = Some (p, n, bound) \<Longrightarrow>
     (p, n) \<in> set ts \<and> n \<noteq> 0 \<and> p \<notin> set spent
      \<and> (\<exists>name. (name, bound) \<in> set (bounds_of relations p)
           \<and> (name = (if n < 0 then ''max'' else ''min'') \<or> name = ''must_eq''))"
proof (induction ts spent relations rule: next_step.induct)
  case (2 path m ts spent relations)
  show ?case
  proof (cases "m = 0 \<or> path \<in> set spent")
    case True
    then show ?thesis using 2 by auto
  next
    case False
    then show ?thesis using 2(2) 2(3) by (auto split: option.splits dest!: find_name)
  qed
qed simp

section \<open>The loop\<close>

text \<open>Each turn spends one path, and every path a turn can bring in is a known field, so the loop
  ends.\<close>

lemma spend_path:
  assumes "next_step ts spent relations = Some (path, n, bound)" "S \<subseteq> keys ts \<union> keys fs"
  shows "card (S - insert path (set spent)) < card ((keys ts \<union> keys fs) - set spent)"
proof (rule psubset_card_mono)
  have "path \<in> keys ts" "path \<notin> set spent" using next_step_in [OF assms(1)] by (auto dest: keys_in)
  then show "S - insert path (set spent) \<subset> (keys ts \<union> keys fs) - set spent"
    using assms(2) by blast
qed simp

function floor_loop :: "terms \<Rightarrow> int \<Rightarrow> int option \<Rightarrow> string list \<Rightarrow> env \<Rightarrow> relations \<Rightarrow> int option" where
  "floor_loop ts least best spent env relations =
     (case next_step ts spent relations of
        None \<Rightarrow> best
      | Some (path, n, bound) \<Rightarrow>
          (case linear bound env of
             None \<Rightarrow> floor_loop ts least best (path # spent) env relations
           | Some (other, c) \<Rightarrow>
               (let ts' = add_terms n other (del_term path ts); least' = least + n * c in
                floor_loop ts' least' (raise_floor best (floor_of ts' least' env)) (path # spent) env relations)))"
  by pat_completeness auto

termination
  by (relation "measure (\<lambda>(ts, least, best, spent, env, relations).
      card ((keys ts \<union> keys (known_fields env)) - set spent))")
    (auto intro!: spend_path dest!: linear_dict simp: del_term_facts)

declare floor_loop.simps [simp del]

definition relational_floor :: "expr \<Rightarrow> env \<Rightarrow> relations \<Rightarrow> int option" where
  "relational_floor e env relations =
     (case linear e env of
        None \<Rightarrow> None
      | Some (ts, least) \<Rightarrow> floor_loop ts least (floor_of ts least env) [] env relations)"

section \<open>The floor is a lower bound\<close>

text \<open>The message keeps the bounds its fields state of each other.\<close>

definition keeps_bounds :: "env \<Rightarrow> valuation \<Rightarrow> relations \<Rightarrow> bool" where
  "keeps_bounds env w relations =
     (\<forall>path name bound y. (name, bound) \<in> set (bounds_of relations path) \<longrightarrow> ev env w bound = Some y \<longrightarrow>
        (name = ''max'' \<longrightarrow> field_at w path \<le> y) \<and> (name = ''min'' \<longrightarrow> y \<le> field_at w path)
        \<and> (name = ''must_eq'' \<longrightarrow> field_at w path = y))"

lemma floor_of_le:
  "floor_of ts least env = Some f \<Longrightarrow> admits env w \<Longrightarrow> f \<le> weigh w ts + least"
proof (induction ts least env rule: floor_of.induct)
  case (2 path n ts least env)
  show ?case
  proof (cases "n = 0")
    case False
    then obtain held worst where held: "map_of (known_fields env) path = Some held"
        "(if 0 < n then Some (low held) else high held) = Some worst" "low_known held"
        "floor_of ts (least + n * worst) env = Some f"
      using 2(3) by (auto split: option.splits if_splits)
    have "mem (field_at w path) held" using 2(4) held(1) by (simp add: admits_def)
    then have "n * worst \<le> n * field_at w path"
      using held(2,3) False by (cases "0 < n") (auto simp: mem_def intro: mult_left_mono mult_left_mono_neg)
    moreover have "f \<le> weigh w ts + (least + n * worst)"
      by (rule 2(2) [OF False held(1) held(2) _ held(4) 2(4)]) (use held(3) in simp)
    ultimately show ?thesis by simp
  qed (use 2 in simp)
qed simp

lemma replaced_le:
  assumes "keeps_bounds env w relations" "next_step ts spent relations = Some (path, n, bound)"
    and "ev env w bound = Some y"
  shows "n * y \<le> n * field_at w path"
proof -
  obtain name where name: "(name, bound) \<in> set (bounds_of relations path)" "n \<noteq> 0"
      "name = (if n < 0 then ''max'' else ''min'') \<or> name = ''must_eq''"
    using next_step_in [OF assms(2)] by blast
  then have "(n < 0 \<longrightarrow> field_at w path \<le> y) \<and> (0 < n \<longrightarrow> y \<le> field_at w path)"
    using assms(1,3) unfolding keeps_bounds_def by (cases "n < 0") auto
  then show ?thesis using name(2) by (cases "n < 0") (auto intro: mult_left_mono mult_left_mono_neg)
qed

lemma raise_floor_le:
  "(\<And>b. best = Some b \<Longrightarrow> b \<le> x) \<Longrightarrow> (\<And>b. floor = Some b \<Longrightarrow> b \<le> x)
    \<Longrightarrow> raise_floor best floor = Some r \<Longrightarrow> r \<le> x"
  by (auto simp: raise_floor_def split: option.splits if_splits)

lemma next_step_apart:
  assumes "next_step ts spent relations = Some (path, n, bound)" "bounds_apart env relations"
  shows "named_apart env bound"
proof -
  obtain name where "(name, bound) \<in> set (bounds_of relations path)" using next_step_in [OF assms(1)] by blast
  then obtain bs where "(path, bs) \<in> set relations" "(name, bound) \<in> set bs"
    by (cases "map_of relations path") (auto simp: bounds_of_def dest: map_of_SomeD)
  then show ?thesis using assms(2) unfolding bounds_apart_def list_all_iff by fast
qed

lemma floor_loop_le:
  assumes "admits env w" "bounds_apart env relations" "keeps_bounds env w relations"
  shows "is_dict ts \<Longrightarrow> weigh w ts + least \<le> x \<Longrightarrow> (\<And>b. best = Some b \<Longrightarrow> b \<le> x)
    \<Longrightarrow> floor_loop ts least best spent env relations = Some f \<Longrightarrow> f \<le> x"
  using assms
proof (induction ts least best spent env relations rule: floor_loop.induct)
  case (1 ts least best spent env relations)
  show ?case
  proof (cases "next_step ts spent relations")
    case None
    then show ?thesis using 1 by (simp add: floor_loop.simps [of ts])
  next
    case (Some step)
    obtain path n bound where step: "next_step ts spent relations = Some (path, n, bound)" using Some by (cases step) auto
    show ?thesis
    proof (cases "linear bound env")
      case None
      then show ?thesis using 1 step by (simp add: floor_loop.simps [of ts])
    next
      case (Some form)
      obtain other c where form: "linear bound env = Some (other, c)" using Some by (cases form) auto
      let ?ts = "add_terms n other (del_term path ts)" and ?least = "least + n * c"
      have "n * (weigh w other + c) \<le> n * field_at w path"
        using replaced_le [OF 1(9) step] linear_ev [OF form 1(7) next_step_apart [OF step 1(8)]] by simp
      moreover have "weigh w (del_term path ts) = weigh w ts - n * field_at w path"
        by (rule del_term_facts(3) [OF 1(3)]) (use next_step_in [OF step] in blast)
      ultimately have le: "weigh w ?ts + ?least \<le> x" using 1(4) by (simp add: algebra_simps)
      have "r \<le> x" if "raise_floor best (floor_of ?ts ?least env) = Some r" for r
        using raise_floor_le [OF 1(5) _ that] floor_of_le [OF _ 1(7)] le by fastforce
      moreover have "floor_loop ?ts ?least (raise_floor best (floor_of ?ts ?least env)) (path # spent) env relations = Some f"
        using 1(6) step form by (simp add: floor_loop.simps [of ts] Let_def)
      ultimately show ?thesis
        using 1(2) [OF step refl refl form refl refl refl] le 1(3,7-9) by (auto simp: del_term_facts)
    qed
  qed
qed

text \<open>
  C30: \<open>relational_floor\<close> is a lower bound: in a message that keeps the declared ranges and whose fields
  keep the bounds stated of each other, the expression has a value and is worth at least the floor the
  loop of substitutions found; given that no name read by the expression or by a stated bound is both
  a field and a constant, which the loop and the rest of the compiler resolve differently.
\<close>

theorem relational_floor_le:
  assumes "relational_floor e env relations = Some f" "admits env w" "named_apart env e" "bounds_apart env relations"
    and "keeps_bounds env w relations"
  shows "\<exists>x. ev env w e = Some x \<and> f \<le> x"
proof -
  obtain ts least where l: "linear e env = Some (ts, least)"
      "floor_loop ts least (floor_of ts least env) [] env relations = Some f"
    using assms(1) by (auto simp: relational_floor_def split: option.splits)
  have "b \<le> weigh w ts + least" if "floor_of ts least env = Some b" for b
    by (rule floor_of_le [OF that assms(2)])
  then have "f \<le> weigh w ts + least"
    using floor_loop_le [OF assms(2,4,5) _ order_refl _ l(2)] linear_dict [OF l(1)] by blast
  then show ?thesis using linear_ev [OF l(1) assms(2,3)] by blast
qed

text \<open>\<open>len - pad - 1\<close> under \<open>u8 pad [max = len - 1]\<close> is never negative, though each range alone
  allows -256.\<close>

definition pad_env :: env where
  "pad_env = empty_env\<lparr>known_fields := [(''len'', Interval 0 (Some 255)), (''pad'', Interval 0 (Some 255))]\<rparr>"

definition pad_relations :: relations where
  "pad_relations = [(''pad'', [(''max'', Binary ''-'' (NameRef ''len'') (IntLiteral 1 ''1''))])]"

definition pad_expr :: expr where
  "pad_expr = Binary ''-'' (Binary ''-'' (NameRef ''len'') (NameRef ''pad'')) (IntLiteral 1 ''1'')"

definition pad_message :: valuation where
  "pad_message = \<lparr>field_at = (\<lambda>p. if p = ''len'' then 9 else 3), sum_at = (\<lambda>a. 0), remaining_at = 0\<rparr>"

theorem relational_floor_le_witness:
  "relational_floor pad_expr pad_env pad_relations = Some 0 \<and> (\<exists>x. ev pad_env pad_message pad_expr = Some x \<and> 0 \<le> x)"
proof
  show r: "relational_floor pad_expr pad_env pad_relations = Some 0" by code_simp
  have "admits pad_env pad_message"
    by (simp add: admits_def pad_env_def pad_message_def empty_env_def)
  moreover have "named_apart pad_env pad_expr" "bounds_apart pad_env pad_relations" by code_simp+
  moreover have "keeps_bounds pad_env pad_message pad_relations"
    by (simp add: keeps_bounds_def bounds_of_def pad_relations_def pad_env_def pad_message_def empty_env_def operation_of)
  ultimately show "\<exists>x. ev pad_env pad_message pad_expr = Some x \<and> 0 \<le> x"
    by (rule relational_floor_le [OF r])
qed

text \<open>
  What \<open>named_apart\<close> keeps out: with \<open>const n = 2\<close> and a field \<open>n\<close> of 5 to 10, the floor of \<open>n - 3\<close> is
  2, though the expression is the constant -1 to the rest of the compiler.
\<close>

definition clash_env :: env where
  "clash_env = empty_env\<lparr>known_fields := [(''n'', Interval 5 (Some 10))], constants := [(''n'', 2)]\<rparr>"

lemma clashing_name_floor:
  "relational_floor (Binary ''-'' (NameRef ''n'') (IntLiteral 3 ''3'')) clash_env [] = Some 2"
  "interval_of (Binary ''-'' (NameRef ''n'') (IntLiteral 3 ''3'')) clash_env = Inr (point (- 1))"
  by code_simp+

end
