(* ===== verification/Kernel_Math.thy ===== *)
theory Kernel_Math
  imports Expr_Syntax
begin

text \<open>
  \<open>situc/codegen/kernel_math.py\<close>: the numbers a derived kernel implies.  A kernel is the arguments
  its author wrote; the table of a polynomial, the register it starts from and the shift of a narrow
  one follow.  \<open>crc_reference\<close> is the bit-serial register of the CRC catalogue, one message bit at a
  time, which the table is proved to be eight steps of.
\<close>

section \<open>The kernel's arguments\<close>

datatype kernel_family = TABLE | POLYNOMIAL | ONES_COMPLEMENT | BYTE_SUM | LINEAR | SHIFT | PERMUTATION | STUFFING

record kernel_decl =
  family :: kernel_family
  args :: "(string \<times> expr option) list"

definition argument :: "kernel_decl \<Rightarrow> string \<Rightarrow> expr option" where
  "argument k name = (case map_of (args k) name of Some v \<Rightarrow> v | None \<Rightarrow> None)"

definition flag :: "kernel_decl \<Rightarrow> string \<Rightarrow> bool" where
  "flag k name = ((name, None) \<in> set (args k))"

definition number :: "kernel_decl \<Rightarrow> string \<Rightarrow> int" where
  "number k name = (case argument k name of Some (IntLiteral literal s) \<Rightarrow> literal | _ \<Rightarrow> 0)"

definition crc_width :: "kernel_decl \<Rightarrow> nat option" where
  "crc_width k =
     (case argument k ''width'' of
        Some (IntLiteral width s) \<Rightarrow> if 1 \<le> width \<and> width \<le> 64 then Some (nat width) else None
      | _ \<Rightarrow> None)"

definition WORD_WIDTHS :: "nat list" where
  "WORD_WIDTHS = [8, 16, 32, 64]"

text \<open>The next word up, or None for \<open>StopIteration\<close>.\<close>

definition accumulator :: "nat \<Rightarrow> nat option" where
  "accumulator width = find (\<lambda>word. width \<le> word) WORD_WIDTHS"

section \<open>Polynomials\<close>

definition mask_of :: "nat \<Rightarrow> int" where
  "mask_of width = push_bit width 1 - 1"

text \<open>One turn of \<open>crc_init\<close>: the register clocked with nothing coming in.\<close>

definition clock :: "nat \<Rightarrow> int \<Rightarrow> int \<Rightarrow> int" where
  "clock width poly reg =
     (let carry = and (drop_bit (width - 1) reg) 1; shifted = and (push_bit 1 reg) (mask_of width) in
      if carry \<noteq> 0 then xor shifted poly else shifted)"

text \<open>\<open>crc_init\<close>; None is the \<open>ValueError\<close> of shifting by a negative width.\<close>

definition crc_init :: "kernel_decl \<Rightarrow> int option" where
  "crc_init k =
     (let init = number k ''init''; width = number k ''width''; poly = number k ''poly'' in
      if \<not> flag k ''augmented'' then Some init
      else if width < 0 then None
      else Some ((clock (nat width) poly ^^ nat width) init))"

fun reverse_loop :: "nat \<Rightarrow> int \<Rightarrow> int \<Rightarrow> int" where
  "reverse_loop 0 bits result = result"
| "reverse_loop (Suc n) bits result = reverse_loop n (drop_bit 1 bits) (or (push_bit 1 result) (and bits 1))"

definition reverse_bits :: "int \<Rightarrow> nat \<Rightarrow> int" where
  "reverse_bits bits width = reverse_loop width bits 0"

definition crc_shift :: "nat \<Rightarrow> bool \<Rightarrow> nat" where
  "crc_shift width reflect = (if width < 8 \<and> \<not> reflect then 8 - width else 0)"

definition crc_register :: "nat \<Rightarrow> bool \<Rightarrow> nat option" where
  "crc_register width reflect = (if crc_shift width reflect \<noteq> 0 then Some 8 else accumulator width)"

definition crc_start :: "int \<Rightarrow> nat \<Rightarrow> bool \<Rightarrow> int" where
  "crc_start init width reflect =
     (if reflect then reverse_bits init width
      else if width < 8 then and (push_bit (crc_shift width reflect) init) 0xFF else init)"

definition reflected_step :: "int \<Rightarrow> int \<Rightarrow> int" where
  "reflected_step reversed_poly crc = xor (drop_bit 1 crc) (if and crc 1 \<noteq> 0 then reversed_poly else 0)"

definition aligned_step :: "int \<Rightarrow> int \<Rightarrow> int" where
  "aligned_step aligned crc =
     (if and crc 0x80 \<noteq> 0 then and (xor (push_bit 1 crc) aligned) 0xFF else and (push_bit 1 crc) 0xFF)"

definition top_step :: "nat \<Rightarrow> int \<Rightarrow> int \<Rightarrow> int" where
  "top_step width poly crc =
     (if and crc (push_bit (width - 1) 1) \<noteq> 0 then and (xor (push_bit 1 crc) poly) (mask_of width)
      else and (push_bit 1 crc) (mask_of width))"

definition crc_table :: "nat \<Rightarrow> int \<Rightarrow> bool \<Rightarrow> int list" where
  "crc_table width poly reflect =
     (if reflect then
        map (\<lambda>byte. and ((reflected_step (reverse_bits poly width) ^^ 8) (int byte)) (mask_of width)) [0..<256]
      else if crc_shift width reflect \<noteq> 0 then
        map (\<lambda>byte. (aligned_step (and (push_bit (crc_shift width reflect) poly) 0xFF) ^^ 8) (int byte)) [0..<256]
      else
        map (\<lambda>byte. (top_step width poly ^^ 8) (and (push_bit (width - 8) (int byte)) (mask_of width))) [0..<256])"

section \<open>The bit-serial register\<close>

definition serial_step :: "nat \<Rightarrow> int \<Rightarrow> int \<Rightarrow> bool \<Rightarrow> int" where
  "serial_step width poly reg b =
     (let shifted = take_bit width (push_bit 1 reg) in
      if bit reg (width - 1) \<noteq> b then xor shifted poly else shifted)"

definition bits_of :: "bool \<Rightarrow> byte \<Rightarrow> bool list" where
  "bits_of reflect b = map (bit b) (if reflect then [0..<8] else rev [0..<8])"

definition crc_reference :: "nat \<Rightarrow> int \<Rightarrow> int \<Rightarrow> bool \<Rightarrow> int \<Rightarrow> bytes \<Rightarrow> int" where
  "crc_reference width poly init reflect xorout msg =
     (let reg = foldl (serial_step width poly) init (concat (map (bits_of reflect) msg)) in
      xor (if reflect then reverse_bits reg width else reg) xorout)"

section \<open>Registers bit by bit\<close>

lemma bit_mask_of [simp]: "bit (mask_of w) i \<longleftrightarrow> i < w"
  by (simp add: mask_of_def push_bit_eq_mult flip: mask_eq_exp_minus_1) (simp add: bit_mask_iff possible_bit_def)

lemma and_mask_of: "and x (mask_of w) = take_bit w x"
  by (simp add: mask_of_def push_bit_eq_mult take_bit_eq_mask mask_eq_exp_minus_1)

lemma and_FF: "and x 0xFF = take_bit 8 (x::int)"
  by (simp add: take_bit_eq_mask mask_eq_exp_minus_1)

lemma and_1_bit: "and (x::int) 1 \<noteq> 0 \<longleftrightarrow> bit x 0"
  by (simp add: bit_0 and_one_eq odd_iff_mod_2_eq_one)

lemma and_drop_1_bit: "and (drop_bit n (x::int)) 1 \<noteq> 0 \<longleftrightarrow> bit x n"
  by (subst and_1_bit) (simp add: bit_drop_bit_eq)

lemma and_top_bit: "and (x::int) (push_bit n 1) \<noteq> 0 \<longleftrightarrow> bit x n"
  by (simp add: bit_iff_and_push_bit_not_eq_0)

lemma and_exp_bit: "and (x::int) (2 ^ n) = 0 \<longleftrightarrow> \<not> bit x n"
  using and_top_bit [of x n] unfolding push_bit_eq_mult mult_1 by blast

lemma bit_times_2: "bit (x * 2 :: int) i \<longleftrightarrow> 0 < i \<and> bit x (i - 1)"
  using bit_push_bit_iff_int [of 1 x i] by (auto simp: push_bit_eq_mult)

lemma bit_power_2: "bit (2 ^ n :: int) i \<longleftrightarrow> i = n"
  by (simp add: bit_exp_iff possible_bit_def eq_commute)

lemmas register_bits = and_exp_bit and_mask_of and_FF and_drop_1_bit bit_xor_iff bit_take_bit_iff
  bit_push_bit_iff_int bit_times_2 bit_power_2 bit_drop_bit_eq

lemma and_80_bit: "and (x::int) 0x80 \<noteq> 0 \<longleftrightarrow> bit x 7"
  using and_top_bit [of x 7] by (simp add: push_bit_eq_mult)

lemma in_width_bit: "0 \<le> (x::int) \<Longrightarrow> x < 2 ^ w \<Longrightarrow> bit x i \<Longrightarrow> i < w"
  using int_not_bit_if_less_exp [of x w i] by (cases "i < w") auto

lemma take_bit_width: "0 \<le> (x::int) \<Longrightarrow> x < 2 ^ w \<Longrightarrow> take_bit w x = x"
  by (simp add: take_bit_int_eq_self)

text \<open>A register of width \<open>w\<close>: its bits stop there.\<close>

definition in_width :: "nat \<Rightarrow> int \<Rightarrow> bool" where
  "in_width w x = (0 \<le> x \<and> x < 2 ^ w)"

lemma in_width_bits: "in_width w x \<longleftrightarrow> take_bit w x = x"
  by (metis in_width_def take_bit_int_eq_self take_bit_int_less_exp take_bit_nonnegative)

lemma in_widthD: "in_width w x \<Longrightarrow> bit x i \<Longrightarrow> i < w"
  by (auto simp: in_width_def in_width_bit)

lemma in_widthI: "(\<And>i. bit x i \<Longrightarrow> i < w) \<Longrightarrow> in_width w x"
  unfolding in_width_bits by (rule bit_eqI) (auto simp: bit_take_bit_iff)

lemma in_width_xor: "in_width w a \<Longrightarrow> in_width w b \<Longrightarrow> in_width w (xor a b)"
  by (rule in_widthI) (auto simp: bit_xor_iff dest: in_widthD)

lemma in_width_take: "in_width w (take_bit w x)"
  by (rule in_widthI) (simp add: bit_take_bit_iff)

lemma bit_clock:
  "0 < w \<Longrightarrow> in_width w p \<Longrightarrow>
     bit (clock w p c) i \<longleftrightarrow> i < w \<and> ((0 < i \<and> bit c (i - 1)) \<noteq> (bit c (w - 1) \<and> bit p i))"
  by (auto simp: clock_def Let_def register_bits
      dest: in_widthD)

lemma top_step_clock: "0 < w \<Longrightarrow> in_width w p \<Longrightarrow> top_step w p c = clock w p c"
  by (rule bit_eqI)
    (auto simp: bit_clock top_step_def register_bits)

lemma aligned_step_clock: "in_width 8 p \<Longrightarrow> aligned_step p c = clock 8 p c"
  by (rule bit_eqI)
    (auto simp: bit_clock aligned_step_def and_80_bit register_bits)

lemma in_width_clock: "0 < w \<Longrightarrow> in_width w p \<Longrightarrow> in_width w (clock w p c)"
  by (rule in_widthI) (simp add: bit_clock)

lemma clock_xor: "0 < w \<Longrightarrow> in_width w p \<Longrightarrow> clock w p (xor a b) = xor (clock w p a) (clock w p b)"
  by (rule bit_eqI) (auto simp: bit_clock bit_xor_iff)

lemma clock_pow_xor:
  "0 < w \<Longrightarrow> in_width w p \<Longrightarrow> (clock w p ^^ n) (xor a b) = xor ((clock w p ^^ n) a) ((clock w p ^^ n) b)"
  by (induction n) (simp_all add: clock_xor)

lemma clock_small: "0 < w \<Longrightarrow> in_width w p \<Longrightarrow> in_width (w - 1) c \<Longrightarrow> clock w p c = push_bit 1 c"
  by (rule bit_eqI) (auto simp: bit_clock register_bits dest: in_widthD)

lemma clock_pow_small:
  "0 < w \<Longrightarrow> in_width w p \<Longrightarrow> in_width (w - n) c \<Longrightarrow> n \<le> w \<Longrightarrow> (clock w p ^^ n) c = push_bit n c"
proof (induction n)
  case (Suc n)
  have "in_width (w - n) c" using Suc.prems(3) by (auto intro!: in_widthI dest!: in_widthD)
  moreover have "in_width (w - 1) (push_bit n c)"
    using Suc.prems by (auto intro!: in_widthI dest!: in_widthD simp: register_bits)
  ultimately show ?case using Suc by (simp add: clock_small)
qed simp

lemma serial_step_clock:
  "0 < w \<Longrightarrow> in_width w p \<Longrightarrow> serial_step w p c b = clock w p (xor c (if b then push_bit (w - 1) 1 else 0))"
  by (rule bit_eqI)
    (auto simp: bit_clock serial_step_def Let_def register_bits bit_1_iff dest: in_widthD)

lemma in_width_serial: "0 < w \<Longrightarrow> in_width w p \<Longrightarrow> in_width w (serial_step w p c b)"
  by (simp add: serial_step_clock in_width_clock)

section \<open>Eight bits at a time\<close>

text \<open>The value of a run of bits, first bit highest.\<close>

fun msb_value :: "bool list \<Rightarrow> int" where
  "msb_value [] = 0"
| "msb_value (b # bs) = xor (if b then push_bit (length bs) 1 else 0) (msb_value bs)"

lemma bit_msb_value: "bit (msb_value bs) i \<longleftrightarrow> i < length bs \<and> rev bs ! i"
proof (induction bs)
  case (Cons b bs)
  then show ?case by (cases b) (auto simp: register_bits nth_append less_Suc_eq)
qed simp

lemma serial_run:
  assumes w: "0 < w" "in_width w p"
  shows "length bs \<le> w \<Longrightarrow> foldl (serial_step w p) c bs
    = (clock w p ^^ length bs) (xor c (push_bit (w - length bs) (msb_value bs)))"
proof (induction bs arbitrary: c)
  case (Cons b bs)
  let ?first = "if b then push_bit (w - 1) 1 else (0 :: int)" and ?rest = "push_bit (w - Suc (length bs)) (msb_value bs)"
  have "push_bit (w - Suc (length bs)) (msb_value (b # bs)) = xor ?first ?rest"
    by (rule bit_eqI) (use Cons.prems in \<open>auto simp: register_bits\<close>)
  moreover have "in_width (w - 1) ?rest"
    using Cons.prems by (auto intro!: in_widthI simp: register_bits bit_msb_value)
  then have "clock w p ?rest = push_bit (w - length bs) (msb_value bs)"
    using w Cons.prems by (simp add: clock_small Suc_diff_le flip: push_bit_Suc) (simp add: Suc_diff_Suc)
  ultimately have "clock w p (xor c (push_bit (w - Suc (length bs)) (msb_value (b # bs))))
      = xor (serial_step w p c b) (push_bit (w - length bs) (msb_value bs))"
    using w by (simp only: serial_step_clock clock_xor xor.assoc [symmetric])
  then show ?case using Cons by (simp del: msb_value.simps funpow.simps add: funpow_Suc_right)
qed simp

lemma bits_of_msb: "msb_value (bits_of False b) = uint b"
  by (rule bit_eqI) (auto simp: bit_msb_value bits_of_def rev_map bit_uint_iff)

lemma length_bits_of: "length (bits_of r b) = 8"
  by (simp add: bits_of_def)

lemma in_width_uint: "in_width 8 (uint (b::byte))"
  using uint_byte_bounds [of b] by (simp add: in_width_def)

lemma in_width_8_index:
  assumes "in_width 8 x"
  shows "nat x < 256" "int (nat x) = x" "[0..<256] ! nat x = nat x"
proof -
  show i: "nat x < 256" "int (nat x) = x" using assms by (auto simp: in_width_def nat_less_iff)
  show "[0..<256] ! nat x = nat x" using nth_upt [of 0 "nat x" 256] i(1) by simp
qed

lemma in_width_push: "in_width n x \<Longrightarrow> in_width (k + n) (push_bit k x)"
  by (rule in_widthI) (auto simp: register_bits dest!: in_widthD)

lemma top_entry:
  assumes "8 \<le> w" "in_width w p" "in_width 8 x"
  shows "crc_table w p False ! nat x = (clock w p ^^ 8) (push_bit (w - 8) x)"
proof -
  have "take_bit w (push_bit (w - 8) x) = push_bit (w - 8) x"
    using in_width_push [OF assms(3), of "w - 8"] assms(1) by (simp add: in_width_bits)
  moreover have "top_step w p = clock w p" by (rule ext) (use assms top_step_clock in auto)
  ultimately show ?thesis
    using assms(1) in_width_8_index [OF assms(3)] by (simp add: crc_table_def crc_shift_def and_mask_of)
qed

text \<open>The unreflected loop: one table lookup is eight serial steps.\<close>

lemma top_table_byte:
  assumes w: "8 \<le> w" "in_width w p" and c: "in_width w c"
  shows "and (xor (crc_table w p False ! nat (and (xor (drop_bit (w - 8) c) (uint b)) 0xFF)) (push_bit 8 c)) (mask_of w)
    = foldl (serial_step w p) c (bits_of False b)"
proof -
  have w0: "0 < w" using w(1) by simp
  let ?hi = "drop_bit (w - 8) c" and ?lo = "take_bit (w - 8) c"
  let ?x = "xor ?hi (uint b)"
  have "in_width 8 ?hi" using c w(1) by (auto intro!: in_widthI dest!: in_widthD simp: register_bits)
  then have x: "in_width 8 ?x" by (simp add: in_width_xor in_width_uint)
  then have ix: "and ?x 0xFF = ?x" "0 \<le> ?x" "?x < 256"
    using x unfolding and_FF in_width_bits [symmetric] by (auto simp: in_width_def)
  note entry = top_entry [OF w x]
  have split: "xor c (push_bit (w - 8) (uint b)) = xor (push_bit (w - 8) ?x) ?lo"
    by (rule bit_eqI) (auto simp: register_bits)
  have "foldl (serial_step w p) c (bits_of False b) = (clock w p ^^ 8) (xor c (push_bit (w - 8) (uint b)))"
    using serial_run [OF w0 w(2), of "bits_of False b" c] w(1) by (simp only: bits_of_msb length_bits_of)
  also have "\<dots> = xor ((clock w p ^^ 8) (push_bit (w - 8) ?x)) ((clock w p ^^ 8) ?lo)"
    unfolding split by (rule clock_pow_xor [OF w0 w(2)])
  also have "(clock w p ^^ 8) ?lo = push_bit 8 ?lo"
    using w(1) by (intro clock_pow_small [OF w0 w(2)]) (auto simp: in_width_def)
  also have "xor ((clock w p ^^ 8) (push_bit (w - 8) ?x)) (push_bit 8 ?lo)
      = and (xor (crc_table w p False ! nat ?x) (push_bit 8 c)) (mask_of w)" (is "?l = ?r")
  proof -
    have "in_width w ((clock w p ^^ 8) (push_bit (w - 8) ?x))"
      using in_width_clock [OF w0 w(2)] by (simp add: numeral_eq_Suc)
    then show ?thesis unfolding entry and_mask_of
      by (intro bit_eqI) (use w(1) in \<open>auto simp: register_bits dest: in_widthD\<close>)
  qed
  finally show ?thesis using ix by simp
qed

section \<open>The reflected register\<close>

lemma bit_reverse_loop:
  "bit (reverse_loop n x r) i \<longleftrightarrow> (if i < n then bit x (n - 1 - i) else bit r (i - n))"
proof (induction n arbitrary: x r i)
  case (Suc n)
  have "bit (or (push_bit 1 r) (and x 1)) (i - n) \<longleftrightarrow> (if i = n then bit x 0 else bit r (i - Suc n))" if "n \<le> i"
    using that by (auto simp: bit_or_iff bit_and_iff register_bits bit_1_iff)
  then show ?case using Suc by (auto simp: register_bits less_Suc_eq Suc_diff_Suc)
qed simp

lemma bit_reverse [simp]: "bit (reverse_bits x n) i \<longleftrightarrow> i < n \<and> bit x (n - 1 - i)"
  by (simp add: reverse_bits_def bit_reverse_loop)

lemma in_width_reverse: "in_width n (reverse_bits x n)"
  by (rule in_widthI) simp

lemma reverse_reverse: "in_width n x \<Longrightarrow> reverse_bits (reverse_bits x n) n = x"
  by (rule bit_eqI) (auto dest: in_widthD)

definition mirror_step :: "int \<Rightarrow> int \<Rightarrow> bool \<Rightarrow> int" where
  "mirror_step q c b = reflected_step q (xor c (of_bool b))"

lemma bit_reflected: "bit (reflected_step q c) i \<longleftrightarrow> bit c (Suc i) \<noteq> (bit c 0 \<and> bit q i)"
  by (auto simp: reflected_step_def and_1_bit register_bits)

lemma bit_of_bool_0: "bit (of_bool b :: int) i \<longleftrightarrow> b \<and> i = 0"
  by (cases b) (auto simp: bit_1_iff)

lemma mirror_serial:
  "0 < w \<Longrightarrow> in_width w p \<Longrightarrow>
     reverse_bits (serial_step w p c b) w = mirror_step (reverse_bits p w) (reverse_bits c w) b"
  by (rule bit_eqI)
    (auto simp: mirror_step_def bit_reflected bit_of_bool_0 serial_step_clock bit_clock register_bits
      split: if_splits)

lemma mirror_fold:
  "0 < w \<Longrightarrow> in_width w p \<Longrightarrow>
     reverse_bits (foldl (serial_step w p) c bs) w = foldl (mirror_step (reverse_bits p w)) (reverse_bits c w) bs"
  by (induction bs arbitrary: c) (simp_all add: mirror_serial)

lemma reflected_xor: "reflected_step q (xor a b) = xor (reflected_step q a) (reflected_step q b)"
  by (rule bit_eqI) (auto simp: bit_reflected bit_xor_iff)

lemma reflected_pow_xor: "(reflected_step q ^^ n) (xor a b) = xor ((reflected_step q ^^ n) a) ((reflected_step q ^^ n) b)"
  by (induction n) (simp_all add: reflected_xor)

lemma reflected_high: "(reflected_step q ^^ n) (push_bit n c) = c"
proof (induction n arbitrary: c)
  case (Suc n)
  have "reflected_step q (push_bit (Suc n) c) = push_bit n c"
    by (rule bit_eqI) (auto simp: bit_reflected register_bits)
  then show ?case using Suc by (simp add: funpow_Suc_right del: funpow.simps)
qed simp

text \<open>The value of a run of bits, first bit lowest.\<close>

lemma mirror_run:
  "in_width (length bs) x \<Longrightarrow> (\<And>i. i < length bs \<Longrightarrow> bit x i = bs ! i) \<Longrightarrow>
     foldl (mirror_step q) c bs = (reflected_step q ^^ length bs) (xor c x)"
proof (induction bs arbitrary: c x)
  case Nil
  then have "x = 0" by (simp add: in_width_def)
  then show ?case by simp
next
  case (Cons b bs)
  have x: "x = xor (of_bool b) (push_bit 1 (drop_bit 1 x))"
  proof (rule bit_eqI)
    show "bit x i \<longleftrightarrow> bit (xor (of_bool b) (push_bit 1 (drop_bit 1 x))) i" for i
      using Cons.prems(2) [of 0] by (cases i) (auto simp: register_bits bit_of_bool_0)
  qed
  have "in_width (length bs) (drop_bit 1 x)"
    by (rule in_widthI) (use in_widthD [OF Cons.prems(1)] in \<open>force simp: register_bits\<close>)
  moreover have "bit (drop_bit 1 x) i = bs ! i" if "i < length bs" for i
    using Cons.prems(2) [of "Suc i"] that by (simp add: register_bits)
  ultimately have "foldl (mirror_step q) (mirror_step q c b) bs
      = (reflected_step q ^^ length bs) (xor (mirror_step q c b) (drop_bit 1 x))"
    by (rule Cons.IH)
  also have "xor (mirror_step q c b) (drop_bit 1 x) = reflected_step q (xor c x)"
    by (subst (2) x) (simp add: mirror_step_def reflected_xor xor.assoc reflected_high [where n = 1, simplified])
  finally show ?case by (simp add: funpow_Suc_right del: funpow.simps)
qed

lemma in_width_mirror: "0 < w \<Longrightarrow> in_width w q \<Longrightarrow> in_width w c \<Longrightarrow> in_width w (mirror_step q c b)"
  by (rule in_widthI) (auto simp: mirror_step_def bit_reflected bit_of_bool_0 register_bits dest!: in_widthD)

lemma in_width_mirror_fold:
  "0 < w \<Longrightarrow> in_width w q \<Longrightarrow> in_width w c \<Longrightarrow> in_width w (foldl (mirror_step q) c bs)"
  by (induction bs arbitrary: c) (simp_all add: in_width_mirror)

lemma mirror_entry:
  "in_width 8 x \<Longrightarrow> crc_table w p True ! nat x = take_bit w ((reflected_step (reverse_bits p w) ^^ 8) x)"
  using in_width_8_index [of x] by (simp add: crc_table_def and_mask_of)

text \<open>The reflected loop, at any width.\<close>

lemma reflected_table_byte:
  assumes w: "0 < w" and c: "in_width w c"
  shows "and (xor (crc_table w p True ! nat (and (xor c (uint b)) 0xFF)) (drop_bit 8 c)) (mask_of w)
    = foldl (mirror_step (reverse_bits p w)) c (bits_of True b)"
proof -
  let ?q = "reverse_bits p w" and ?x = "take_bit 8 (xor c (uint b))"
  have x: "in_width 8 ?x" by (rule in_width_take)
  have split: "xor c (uint b) = xor ?x (push_bit 8 (drop_bit 8 c))"
    by (rule bit_eqI) (use in_widthD [OF in_width_uint [of b]] in \<open>auto simp: register_bits\<close>)
  have "foldl (mirror_step ?q) c (bits_of True b) = (reflected_step ?q ^^ 8) (xor c (uint b))"
    using mirror_run [of "bits_of True b" "uint b" ?q c] in_width_uint [of b]
    by (simp add: length_bits_of) (simp add: bits_of_def bit_uint_iff)
  also have "\<dots> = xor ((reflected_step ?q ^^ 8) ?x) (drop_bit 8 c)"
    by (subst split) (simp only: reflected_pow_xor reflected_high)
  finally have run: "foldl (mirror_step ?q) c (bits_of True b) = xor ((reflected_step ?q ^^ 8) ?x) (drop_bit 8 c)" .
  have "take_bit w (foldl (mirror_step ?q) c (bits_of True b)) = foldl (mirror_step ?q) c (bits_of True b)"
    using in_width_mirror_fold [OF w in_width_reverse c] by (simp add: in_width_bits)
  then show ?thesis
    unfolding and_FF and_mask_of mirror_entry [OF x] run by (simp add: take_bit_xor)
qed

section \<open>The register at the top of a byte\<close>

lemma aligned_serial:
  assumes "0 < w" "w < 8" "in_width w p" "in_width w c"
  shows "serial_step 8 (push_bit (8 - w) p) (push_bit (8 - w) c) b = push_bit (8 - w) (serial_step w p c b)"
proof -
  have top: "bit (push_bit (8 - w) c) (8 - 1) \<longleftrightarrow> bit c (w - 1)"
    using assms(1,2) by (auto simp: register_bits)
  have "take_bit 8 (push_bit 1 (push_bit (8 - w) c)) = push_bit (8 - w) (take_bit w (push_bit 1 c))"
    by (rule bit_eqI) (use assms(1,2) in \<open>auto simp: register_bits\<close>)
  then show ?thesis unfolding serial_step_def Let_def top by (simp only: push_bit_xor split: if_split) simp
qed

lemma aligned_fold:
  "0 < w \<Longrightarrow> w < 8 \<Longrightarrow> in_width w p \<Longrightarrow> in_width w c \<Longrightarrow>
     foldl (serial_step 8 (push_bit (8 - w) p)) (push_bit (8 - w) c) bs = push_bit (8 - w) (foldl (serial_step w p) c bs)"
  by (induction bs arbitrary: c) (simp_all add: aligned_serial in_width_serial)

lemma aligned_table_byte:
  assumes w: "0 < w" "w < 8" "in_width w p" and c: "in_width 8 c"
  shows "crc_table w p False ! nat (xor c (uint b)) = foldl (serial_step 8 (push_bit (8 - w) p)) c (bits_of False b)"
proof -
  let ?p = "push_bit (8 - w) p"
  have p: "in_width 8 ?p" using in_width_push [OF w(3), of "8 - w"] w(2) by simp
  then have "and ?p 0xFF = ?p" unfolding and_FF in_width_bits .
  moreover have "aligned_step ?p = clock 8 ?p" by (rule ext) (rule aligned_step_clock [OF p])
  moreover have x: "in_width 8 (xor c (uint b))" using c in_width_uint by (rule in_width_xor)
  ultimately have "crc_table w p False ! nat (xor c (uint b)) = (clock 8 ?p ^^ 8) (xor c (uint b))"
    using w in_width_8_index [OF x] by (simp add: crc_table_def crc_shift_def)
  then show ?thesis
    using serial_run [OF _ p, of "bits_of False b" c] by (simp add: bits_of_msb length_bits_of)
qed

lemma in_width_serial_fold:
  "0 < w \<Longrightarrow> in_width w p \<Longrightarrow> in_width w c \<Longrightarrow> in_width w (foldl (serial_step w p) c bs)"
  by (induction bs arbitrary: c) (simp_all add: in_width_serial)

section \<open>Augmented registers\<close>

text \<open>The other convention: the message shifted in at the bottom, and \<open>width\<close> zeros after it.\<close>

definition augmented_step :: "nat \<Rightarrow> int \<Rightarrow> int \<Rightarrow> bool \<Rightarrow> int" where
  "augmented_step w p c b = xor (clock w p c) (of_bool b)"

lemma clock_pow_one:
  assumes "0 < w" "in_width w p"
  shows "(clock w p ^^ w) 1 = p"
proof -
  have "(clock w p ^^ (w - 1)) 1 = push_bit (w - 1) 1"
    using assms by (intro clock_pow_small) (auto simp: in_width_def)
  moreover have "clock w p (push_bit (w - 1) 1) = p"
    by (rule bit_eqI) (use assms in \<open>auto simp: bit_clock register_bits dest: in_widthD\<close>)
  ultimately show ?thesis using assms(1) by (metis Suc_diff_1 comp_apply funpow.simps(2))
qed

lemma augmented_run:
  assumes w: "0 < w" "in_width w p"
  shows "(clock w p ^^ w) (foldl (augmented_step w p) c bs) = foldl (serial_step w p) ((clock w p ^^ w) c) bs"
proof (induction bs arbitrary: c)
  case (Cons b bs)
  have "(clock w p ^^ w) (augmented_step w p c b) = serial_step w p ((clock w p ^^ w) c) b"
  proof -
    have "(clock w p ^^ w) (augmented_step w p c b)
        = xor (clock w p ((clock w p ^^ w) c)) ((clock w p ^^ w) (of_bool b))"
      using w by (simp add: augmented_step_def clock_pow_xor flip: funpow_swap1)
    also have "(clock w p ^^ w) (of_bool b) = (if b then p else 0)"
      using clock_pow_one [OF w] clock_pow_small [OF w, of w 0] by (auto simp: in_width_def)
    also have "xor (clock w p ((clock w p ^^ w) c)) (if b then p else 0) = serial_step w p ((clock w p ^^ w) c) b"
      by (rule bit_eqI) (use w in \<open>auto simp: serial_step_clock bit_clock register_bits dest: in_widthD\<close>)
    finally show ?thesis .
  qed
  then show ?case using Cons by simp
qed simp

lemma augmented_flush:
  assumes "0 < w" "in_width w p"
  shows "foldl (augmented_step w p) c (replicate n False) = (clock w p ^^ n) c"
  by (induction n arbitrary: c) (simp_all add: augmented_step_def funpow_Suc_right del: funpow.simps)

end
