(* ===== verification/Block_Codes.thy ===== *)
theory Block_Codes
  imports Kernel_Math
begin

text \<open>
  The tables of the other two kernel families in \<open>situc/codegen/kernel_math.py\<close>: a linear block
  code's codewords and syndromes (\<open>LinearCode\<close>, \<open>linear_code\<close>), and the logarithms of a binary
  field (\<open>gf_tables\<close>).  None stands for the \<open>IndexError\<close> of a store out of range.
\<close>

definition store :: "'a list \<Rightarrow> nat \<Rightarrow> 'a \<Rightarrow> 'a list option" where
  "store xs i x = (if i < length xs then Some (xs[i := x]) else None)"

section \<open>Linear block codes\<close>

definition parity_bit :: "int \<Rightarrow> int" where
  "parity_bit x = and (bit_count x) 1"

definition codeword :: "nat \<Rightarrow> int list \<Rightarrow> int \<Rightarrow> int" where
  "codeword k rows message =
     fold (\<lambda>(row, m) word. or word (push_bit (k + row) (parity_bit (and message m)))) (enumerate 0 rows) message"

definition check :: "nat \<Rightarrow> int list \<Rightarrow> int \<Rightarrow> int" where
  "check k rows word =
     fold (\<lambda>(row, m) syndrome.
        or syndrome (push_bit row
          (xor (parity_bit (and (and word m) (push_bit k 1 - 1))) (and (drop_bit (k + row) word) 1))))
       (enumerate 0 rows) 0"

record linear_tables =
  code_n :: nat
  code_k :: nat
  code_rows :: "int list"
  encode :: "int list"
  syndrome :: "nat list"

text \<open>\<open>LinearCode.__init__\<close>: the codeword of every message, and the position each syndrome accuses.\<close>

fun accuse :: "nat \<Rightarrow> int list \<Rightarrow> nat list \<Rightarrow> nat list \<Rightarrow> nat list option" where
  "accuse k rows [] table = Some table"
| "accuse k rows (position # rest) table =
     (case store table (nat (check k rows (push_bit position 1))) position of
        None \<Rightarrow> None | Some table \<Rightarrow> accuse k rows rest table)"

definition new_code :: "nat \<Rightarrow> nat \<Rightarrow> int list \<Rightarrow> linear_tables option" where
  "new_code n k rows =
     (case accuse k rows [0..<n] (replicate (2 ^ (n - k)) n) of
        None \<Rightarrow> None
      | Some table \<Rightarrow>
          Some \<lparr>code_n = n, code_k = k, code_rows = rows,
                encode = map (\<lambda>message. codeword k rows (int message)) [0..<2 ^ k], syndrome = table\<rparr>)"

definition corrects_one_bit :: "linear_tables \<Rightarrow> bool" where
  "corrects_one_bit code =
     (let columns = map (\<lambda>position. check (code_k code) (code_rows code) (push_bit position 1)) [0..<code_n code] in
      0 \<notin> set columns \<and> card (set columns) = code_n code)"

definition NAMED_LINEAR :: "(string \<times> nat \<times> nat \<times> int list) list" where
  "NAMED_LINEAR = [(''hamming_7_4'', 7, 4, [13, 11, 7])]"

datatype code_result = NotGenerated | IndexError | Generated linear_tables

definition linear_code :: "nat \<Rightarrow> nat \<Rightarrow> int list option \<Rightarrow> string option \<Rightarrow> code_result" where
  "linear_code n k rows named =
     (let rows = (case rows of
            Some given \<Rightarrow> Some given
          | None \<Rightarrow>
              (case map_of NAMED_LINEAR (case named of Some name \<Rightarrow> name | None \<Rightarrow> []) of
                 Some (n', k', held) \<Rightarrow> if n' \<noteq> n \<or> k' \<noteq> k then None else Some held
               | None \<Rightarrow> None)) in
      case rows of None \<Rightarrow> NotGenerated
      | Some rows \<Rightarrow>
          if \<not> (0 < k \<and> k < n) \<or> 8 < n then NotGenerated
          else case new_code n k rows of
            None \<Rightarrow> IndexError
          | Some code \<Rightarrow> if corrects_one_bit code then Generated code else NotGenerated)"

section \<open>Parity is linear\<close>

lemma ones_0 [simp]: "ones 0 = 0"
  by (simp add: ones.simps)

lemma odd_ones: "odd (ones n) \<longleftrightarrow> odd n \<noteq> odd (ones (n div 2))"
proof (cases "n = 0")
  case False
  then have "ones n = n mod 2 + ones (n div 2)" using ones.simps [of n] by simp
  then show ?thesis by presburger
qed simp

lemma odd_ones_xor: "odd (ones (xor a b)) \<longleftrightarrow> odd (ones a) \<noteq> odd (ones b)" for a b :: nat
proof (induction "a + b" arbitrary: a b rule: less_induct)
  case less
  show ?case
  proof (cases "a + b = 0")
    case False
    then have "a div 2 + b div 2 < a + b" by linarith
    then have "odd (ones (xor (a div 2) (b div 2))) \<longleftrightarrow> odd (ones (a div 2)) \<noteq> odd (ones (b div 2))" by (rule less)
    moreover have "xor a b div 2 = xor (a div 2) (b div 2)"
      using drop_bit_xor [of 1 a b] by (simp add: drop_bit_eq_div)
    ultimately show ?thesis
      by (subst odd_ones, subst odd_ones [of a], subst odd_ones [of b]) (auto simp: even_xor_iff)
  qed simp
qed

definition parity :: "int \<Rightarrow> bool" where
  "parity x = odd (ones (nat x))"

lemma parity_bit_eq: "0 \<le> x \<Longrightarrow> parity_bit x = of_bool (parity x)"
  by (simp add: parity_bit_def parity_def bit_count_def and_one_eq mod_2_eq_odd)

lemma parity_xor: "0 \<le> a \<Longrightarrow> 0 \<le> b \<Longrightarrow> parity (xor a b) \<longleftrightarrow> parity a \<noteq> parity b"
proof -
  assume "0 \<le> a" "0 \<le> b"
  then have "nat (xor a b) = xor (nat a) (nat b)"
    by (metis nat_int of_nat_xor_eq nat_0_le)
  then show ?thesis by (simp add: parity_def odd_ones_xor)
qed

lemma parity_0 [simp]: "\<not> parity 0"
  by (simp add: parity_def)

section \<open>Codewords and syndromes bit by bit\<close>

lemma bit_of_bool_shift: "bit (push_bit j (of_bool b :: int)) i \<longleftrightarrow> b \<and> i = j"
  by (cases b) (auto simp: register_bits bit_1_iff)

lemma bit_fold_rows:
  "bit (fold (\<lambda>(row, m) word. or word (push_bit (base + row) (of_bool (f row m) :: int))) (enumerate s rows) x) i
     \<longleftrightarrow> bit x i \<or> (\<exists>r<length rows. i = base + s + r \<and> f (s + r) (rows ! r))"
proof (induction rows arbitrary: s x)
  case (Cons m rows)
  have "(\<exists>r<length (m # rows). i = base + s + r \<and> f (s + r) ((m # rows) ! r)) \<longleftrightarrow>
      (i = base + s \<and> f s m) \<or> (\<exists>r<length rows. i = base + Suc s + r \<and> f (Suc s + r) (rows ! r))"
    by (auto simp: less_Suc_eq_0_disj)
  then show ?case by (auto simp: Cons.IH bit_or_iff bit_of_bool_shift)
qed simp

lemma and_mask_k: "and x (push_bit k 1 - 1) = take_bit k x" for x :: int
  using and_mask_of [of x k] by (simp add: mask_of_def)

lemma codeword_bool:
  "0 \<le> x \<Longrightarrow> codeword k rows x =
     fold (\<lambda>(row, m) word. or word (push_bit (k + row) (of_bool (parity (and x m))))) (enumerate 0 rows) x"
  by (simp add: codeword_def parity_bit_eq)

lemma check_bool:
  "check k rows w =
     fold (\<lambda>(row, m) word. or word (push_bit (0 + row) (of_bool (parity (take_bit k (and w m)) \<noteq> bit w (k + row)))))
       (enumerate 0 rows) 0"
proof -
  have "xor (parity_bit (take_bit k (and w m))) (and (drop_bit j w) 1)
      = of_bool (parity (take_bit k (and w m)) \<noteq> bit w j)" for m j
    by (rule bit_eqI)
      (use and_drop_1_bit [of j w] in \<open>auto simp: parity_bit_eq bit_xor_iff bit_and_iff bit_of_bool_0 bit_1_iff bit_drop_bit_eq\<close>)
  then show ?thesis unfolding check_def and_mask_k add_0 by simp
qed

lemma bit_codeword:
  assumes "in_width k x"
  shows "bit (codeword k rows x) i \<longleftrightarrow>
    (if i < k then bit x i else i < k + length rows \<and> parity (and x (rows ! (i - k))))"
proof -
  have "0 \<le> x" using assms by (simp add: in_width_def)
  then show ?thesis
    by (subst codeword_bool, simp, subst bit_fold_rows) (auto dest: in_widthD [OF assms] intro!: exI [of _ "i - k"])
qed

lemma bit_check:
  "bit (check k rows w) i \<longleftrightarrow> i < length rows \<and> parity (take_bit k (and w (rows ! i))) \<noteq> bit w (k + i)"
  by (subst check_bool, subst bit_fold_rows) auto

lemma check_xor: "check k rows (xor a b) = xor (check k rows a) (check k rows b)"
proof (rule bit_eqI)
  fix i
  have "take_bit k (and (xor a b) m) = xor (take_bit k (and a m)) (take_bit k (and b m))" for m
    by (rule bit_eqI) (auto simp: bit_take_bit_iff bit_and_iff bit_xor_iff)
  then show "bit (check k rows (xor a b)) i \<longleftrightarrow> bit (xor (check k rows a) (check k rows b)) i"
    by (auto simp: bit_check bit_xor_iff parity_xor)
qed

text \<open>The check bits of a codeword are the ones its syndrome asks for.\<close>

lemma check_codeword: "in_width k x \<Longrightarrow> check k rows (codeword k rows x) = 0"
proof (rule bit_eqI)
  fix i assume x: "in_width k x"
  have "take_bit k (and (codeword k rows x) m) = and x m" for m
    by (rule bit_eqI) (use x in \<open>auto simp: bit_take_bit_iff bit_and_iff bit_codeword dest: in_widthD\<close>)
  then show "bit (check k rows (codeword k rows x)) i \<longleftrightarrow> bit (0 :: int) i"
    using x by (auto simp: bit_check bit_codeword)
qed

lemma check_nonneg: "0 \<le> check k rows w"
proof -
  have "in_width (length rows) (check k rows w)" by (rule in_widthI) (simp add: bit_check)
  then show ?thesis by (simp add: in_width_def)
qed

section \<open>The syndrome table\<close>

lemma accuse_facts:
  "accuse k rows ps table = Some t \<Longrightarrow> inj_on (\<lambda>p. check k rows (push_bit p 1)) (set ps) \<Longrightarrow> distinct ps \<Longrightarrow>
     (\<forall>p\<in>set ps. t ! nat (check k rows (push_bit p 1)) = p)
     \<and> (\<forall>j. (\<forall>p\<in>set ps. nat (check k rows (push_bit p 1)) \<noteq> j) \<longrightarrow> t ! j = table ! j)"
proof (induction ps arbitrary: table)
  case (Cons p ps)
  let ?c = "\<lambda>p. check k rows (push_bit p 1)"
  have s: "nat (?c p) < length table" "accuse k rows ps (table[nat (?c p) := p]) = Some t"
    using Cons.prems(1) by (auto simp: store_def split: if_splits)
  have ih: "\<forall>q\<in>set ps. t ! nat (?c q) = q"
      "\<And>j. \<forall>q\<in>set ps. nat (?c q) \<noteq> j \<Longrightarrow> t ! j = table[nat (?c p) := p] ! j"
    using Cons.IH [OF s(2)] Cons.prems(2,3) by (auto simp: inj_on_insert)
  have "nat (?c q) \<noteq> nat (?c p)" if "q \<in> set ps" for q
    using that Cons.prems(2,3) check_nonneg [of k rows] by (auto simp: inj_on_def dest: nat_eq_iff2 [THEN iffD1] split: if_splits)
  then have "t ! nat (?c p) = p" using ih(2) [of "nat (?c p)"] s(1) by simp
  then show ?case using ih by auto
qed simp

text \<open>
  C34: A linear block code the compiler generates corrects every single-bit error: the syndrome of a
  codeword with any one bit flipped accuses that bit, and the syndrome of a codeword accuses none.
\<close>

theorem linear_code_corrects:
  assumes "linear_code n k rows named = Generated code" "message < 2 ^ k" "position < n"
  shows "syndrome code ! nat (check k (code_rows code) (xor (encode code ! message) (push_bit position 1))) = position
    \<and> syndrome code ! nat (check k (code_rows code) (encode code ! message)) = n"
proof -
  obtain rs where c: "new_code n k rs = Some code" "corrects_one_bit code"
    using assms(1) by (auto simp: linear_code_def Let_def split: option.splits if_splits)
  then obtain table where t: "accuse k rs [0..<n] (replicate (2 ^ (n - k)) n) = Some table"
      "code = \<lparr>code_n = n, code_k = k, code_rows = rs,
        encode = map (\<lambda>m. codeword k rs (int m)) [0..<2 ^ k], syndrome = table\<rparr>"
    by (auto simp: new_code_def split: option.splits)
  let ?c = "\<lambda>p. check k rs (push_bit p 1)"
  have cols: "0 \<notin> ?c ` {..<n}" "card (?c ` {..<n}) = n"
    using c(2) t(2) by (auto simp: corrects_one_bit_def Let_def atLeast0LessThan)
  then have inj: "inj_on ?c (set [0..<n])" by (simp add: eq_card_imp_inj_on atLeast0LessThan)
  have e: "check k rs (encode code ! message) = 0"
    using assms(2) t(2) check_codeword [of k "int message" rs] by (simp add: in_width_def)
  have "check k rs (xor (encode code ! message) (push_bit position 1)) = ?c position"
    by (simp add: check_xor e)
  moreover have "table ! nat (?c position) = position" using accuse_facts [OF t(1) inj] assms(3) by simp
  moreover have "nat (?c p) \<noteq> 0" if "p < n" for p
    using cols(1) that check_nonneg [of k rs "push_bit p 1"] by fastforce
  then have "table ! 0 = n" using accuse_facts [OF t(1) inj] by simp
  ultimately show ?thesis using e t(2) by simp
qed

theorem linear_code_corrects_witness:
  "\<exists>code. linear_code 7 4 None (Some ''hamming_7_4'') = Generated code
     \<and> syndrome code ! nat (check 4 (code_rows code) (xor (encode code ! 11) (push_bit 5 1))) = 5"
proof -
  have "(case linear_code 7 4 None (Some ''hamming_7_4'') of Generated code \<Rightarrow> True | _ \<Rightarrow> False)" by code_simp
  then obtain code where c: "linear_code 7 4 None (Some ''hamming_7_4'') = Generated code"
    by (auto split: code_result.splits)
  then show ?thesis using linear_code_corrects [OF c, of 11 5] by auto
qed

section \<open>Logarithms of a binary field\<close>

fun gf_loop :: "int \<Rightarrow> int \<Rightarrow> nat list \<Rightarrow> int list \<times> nat list \<times> int \<Rightarrow> (int list \<times> nat list \<times> int) option" where
  "gf_loop field primitive [] state = Some state"
| "gf_loop field primitive (turn # turns) (antilog, log, elem) =
     (case store antilog turn elem of None \<Rightarrow> None
      | Some antilog \<Rightarrow>
          (case store log (nat elem) turn of None \<Rightarrow> None
           | Some log \<Rightarrow>
               let doubled = push_bit 1 elem;
                   elem = (if and doubled field \<noteq> 0 then xor doubled primitive else doubled) in
               gf_loop field primitive turns (antilog, log, elem)))"

fun double_loop :: "nat \<Rightarrow> nat list \<Rightarrow> int list \<Rightarrow> int list option" where
  "double_loop order [] antilog = Some antilog"
| "double_loop order (turn # turns) antilog =
     (case store antilog turn (antilog ! (turn - order)) of None \<Rightarrow> None
      | Some antilog \<Rightarrow> double_loop order turns antilog)"

definition gf_tables :: "nat \<Rightarrow> int \<Rightarrow> (int list \<times> nat list) option" where
  "gf_tables field primitive =
     (let order = field - 1 in
      case gf_loop (int field) primitive [0..<order] (replicate (2 * field) 0, replicate field 0, 1) of
        None \<Rightarrow> None
      | Some (antilog, log, elem) \<Rightarrow>
          (case double_loop order [order..<2 * order] antilog of None \<Rightarrow> None | Some antilog \<Rightarrow> Some (antilog, log)))"

text \<open>The product of two field elements: one of them doubled under the bits of the other.\<close>

definition gf_double :: "nat \<Rightarrow> int \<Rightarrow> int \<Rightarrow> int" where
  "gf_double m primitive a = (if bit a (m - 1) then xor (push_bit 1 a) primitive else push_bit 1 a)"

definition gf_mul :: "nat \<Rightarrow> int \<Rightarrow> int \<Rightarrow> int \<Rightarrow> int" where
  "gf_mul m primitive a b =
     fold (\<lambda>i product. if bit b i then xor product ((gf_double m primitive ^^ i) a) else product) [0..<m] 0"

text \<open>Doubling is the clock of the register whose polynomial is the primitive without its top bit.\<close>

definition low_poly :: "nat \<Rightarrow> int \<Rightarrow> int" where
  "low_poly m primitive = take_bit m primitive"

lemma in_width_low_poly: "in_width m (low_poly m p)"
  by (simp add: low_poly_def in_width_take)

lemma primitive_bits:
  assumes "2 ^ m \<le> p" "p < 2 ^ Suc m"
  shows "bit p i \<longleftrightarrow> bit (low_poly m p) i \<or> i = m"
proof -
  have w: "in_width (Suc m) p" using assms by (simp add: in_width_def)
  have "bit p m"
  proof -
    have "p div 2 ^ m = 1" using assms by (intro int_div_pos_eq [where r = "p - 2 ^ m"]) auto
    then show ?thesis by (simp add: bit_iff_odd)
  qed
  then show ?thesis using in_widthD [OF w, of i] by (auto simp: low_poly_def bit_take_bit_iff less_Suc_eq)
qed

lemma double_clock:
  assumes m: "0 < m" and p: "2 ^ m \<le> p" "p < 2 ^ Suc m" and a: "in_width m a"
  shows "gf_double m p a = clock m (low_poly m p) a"
    "(if and (push_bit 1 a) (int (2 ^ m)) \<noteq> 0 then xor (push_bit 1 a) p else push_bit 1 a) = clock m (low_poly m p) a"
proof -
  show "gf_double m p a = clock m (low_poly m p) a"
  proof (rule bit_eqI)
    fix n
    have "n < m" if "0 < n" "bit a (n - 1)" "n \<noteq> m" using in_widthD [OF a that(2)] that by linarith
    then show "bit (gf_double m p a) n \<longleftrightarrow> bit (clock m (low_poly m p) a) n"
      using m by (auto simp: gf_double_def bit_clock [OF m in_width_low_poly] primitive_bits [OF p] register_bits
          dest: in_widthD [OF in_width_low_poly])
  qed
  then show "(if and (push_bit 1 a) (int (2 ^ m)) \<noteq> 0 then xor (push_bit 1 a) p else push_bit 1 a) = clock m (low_poly m p) a"
    using m by (simp add: gf_double_def register_bits)
qed

lemma in_width_pow: "0 < m \<Longrightarrow> in_width m q \<Longrightarrow> in_width m ((clock m q ^^ i) 1)"
  by (cases i) (simp_all add: in_width_clock, simp add: in_width_def)

lemma double_pow:
  assumes "0 < m" "2 ^ m \<le> p" "p < 2 ^ Suc m" "in_width m a"
  shows "(gf_double m p ^^ i) a = (clock m (low_poly m p) ^^ i) a \<and> in_width m ((gf_double m p ^^ i) a)"
proof (induction i)
  case (Suc i)
  then have eq: "(gf_double m p ^^ i) a = (clock m (low_poly m p) ^^ i) a"
    and w: "in_width m ((clock m (low_poly m p) ^^ i) a)" by auto
  show ?case
    by (simp add: eq double_clock(1) [OF assms(1-3) w] in_width_clock [OF assms(1) in_width_low_poly])
qed (use assms(4) in simp)

lemma gf_mul_clock:
  assumes "0 < m" "2 ^ m \<le> p" "p < 2 ^ Suc m" "in_width m a"
  shows "gf_mul m p (clock m (low_poly m p) a) b = clock m (low_poly m p) (gf_mul m p a b)"
proof -
  let ?c = "clock m (low_poly m p)"
  note lin = clock_xor [OF assms(1) in_width_low_poly]
  have "fold (\<lambda>i r. if bit b i then xor r ((?c ^^ i) (?c a)) else r) js (?c acc)
      = ?c (fold (\<lambda>i r. if bit b i then xor r ((?c ^^ i) a) else r) js acc)" for js acc
  proof (induction js arbitrary: acc)
    case (Cons j js)
    have "xor (?c acc) ((?c ^^ j) (?c a)) = ?c (xor acc ((?c ^^ j) a))" by (simp add: lin funpow_swap1)
    then show ?case by (simp only: fold_simps comp_apply Cons.IH split: if_split) simp
  qed simp
  from this [of "[0..<m]" 0] have "fold (\<lambda>i r. if bit b i then xor r ((?c ^^ i) (?c a)) else r) [0..<m] 0
      = ?c (fold (\<lambda>i r. if bit b i then xor r ((?c ^^ i) a) else r) [0..<m] 0)"
    by (simp add: clock_def)
  then show ?thesis
    by (simp add: gf_mul_def double_pow [OF assms, THEN conjunct1]
        double_pow [OF assms(1-3) in_width_clock [OF assms(1) in_width_low_poly], THEN conjunct1] cong: if_cong)
qed

lemma gf_mul_one:
  assumes "0 < m" "2 ^ m \<le> p" "p < 2 ^ Suc m" "in_width m b"
  shows "gf_mul m p 1 b = b"
proof -
  let ?c = "clock m (low_poly m p)"
  have one: "in_width m 1" using assms(1) by (simp add: in_width_def)
  have pow: "(?c ^^ i) 1 = push_bit i 1" if "i < m" for i
    using that by (intro clock_pow_small [OF assms(1) in_width_low_poly]) (auto simp: in_width_def)
  have "fold (\<lambda>i r. if bit b i then xor r ((?c ^^ i) 1) else r) [0..<n] 0 = take_bit n b" if "n \<le> m" for n
    using that
  proof (induction n)
    case (Suc n)
    then have "fold (\<lambda>i r. if bit b i then xor r ((?c ^^ i) 1) else r) [0..<Suc n] 0
        = (if bit b n then xor (take_bit n b) (push_bit n 1) else take_bit n b)" by (simp add: pow)
    also have "\<dots> = take_bit (Suc n) b"
      by (rule bit_eqI) (auto simp: register_bits bit_1_iff less_Suc_eq)
    finally show ?case .
  qed simp
  from this [of m] show ?thesis
    using assms(4) by (simp add: gf_mul_def in_width_bits double_pow [OF assms(1-3) one, THEN conjunct1] cong: if_cong)
qed

lemma gf_mul_pow:
  assumes "0 < m" "2 ^ m \<le> p" "p < 2 ^ Suc m" "in_width m b"
  shows "gf_mul m p ((clock m (low_poly m p) ^^ i) 1) b = (clock m (low_poly m p) ^^ i) b"
proof (induction i)
  case (Suc i)
  then show ?case using gf_mul_clock [OF assms(1-3) in_width_pow [OF assms(1) in_width_low_poly]] by simp
qed (simp add: gf_mul_one [OF assms])

section \<open>The tables\<close>

text \<open>Clocking an odd primitive loses nothing.\<close>

lemma clock_inj:
  assumes m: "0 < m" and q: "in_width m q" "bit q 0" and a: "in_width m a" "in_width m b" and eq: "clock m q a = clock m q b"
  shows "a = b"
proof (rule bit_eqI)
  have step: "bit (clock m q a) i \<longleftrightarrow> bit (clock m q b) i" for i using eq by simp
  have top: "bit a (m - 1) \<longleftrightarrow> bit b (m - 1)" using step [of 0] m q by (simp add: bit_clock)
  fix i
  show "bit a i \<longleftrightarrow> bit b i"
  proof (cases "Suc i < m")
    case True
    then show ?thesis using step [of "Suc i"] top m q(1) by (auto simp: bit_clock)
  next
    case False
    then show ?thesis using top in_widthD [OF a(1), of i] in_widthD [OF a(2), of i] by (cases "i = m - 1") auto
  qed
qed

lemma store_eq_Some [simp]: "store xs i x = Some ys \<longleftrightarrow> i < length xs \<and> ys = xs[i := x]"
  by (auto simp: store_def)

lemma gf_loop_facts:
  assumes "0 < m" "2 ^ m \<le> p" "p < 2 ^ Suc m"
  defines "v \<equiv> \<lambda>i. (clock m (low_poly m p) ^^ i) 1"
  shows "gf_loop (int (2 ^ m)) p [s..<s + n] (antilog, log, v s) = Some (antilog', log', x) \<Longrightarrow>
    length antilog' = length antilog \<and> (\<forall>i. s \<le> i \<and> i < s + n \<longrightarrow> antilog' ! i = v i)
    \<and> (inj_on v {..<s + n} \<longrightarrow> (\<forall>i. s \<le> i \<and> i < s + n \<longrightarrow> log' ! nat (v i) = i)
         \<and> (\<forall>j. (\<forall>i. s \<le> i \<and> i < s + n \<longrightarrow> nat (v i) \<noteq> j) \<longrightarrow> log' ! j = log ! j))
    \<and> (\<forall>i. i < s \<longrightarrow> antilog' ! i = antilog ! i)"
proof (induction n arbitrary: s antilog log)
  case (Suc n)
  have w: "in_width m (v i)" for i unfolding v_def by (rule in_width_pow [OF assms(1) in_width_low_poly])
  have nat_v: "nat (v i) = nat (v j) \<longleftrightarrow> v i = v j" for i j
    using w [of i] w [of j] by (auto simp: in_width_def eq_nat_nat_iff)
  have list: "[s..<s + Suc n] = s # [Suc s..<Suc s + n]" by (simp add: upt_conv_Cons del: upt_Suc)
  have v_Suc: "v (Suc i) = clock m (low_poly m p) (v i)" for i by (simp add: v_def)
  have step: "gf_loop (int (2 ^ m)) p [Suc s..<Suc s + n] (antilog[s := v s], log[nat (v s) := s], v (Suc s))
      = Some (antilog', log', x)" "s < length antilog" "nat (v s) < length log"
    using Suc.prems [unfolded list] double_clock(2) [OF assms(1-3) w [of s]]
    by (auto simp: Let_def v_Suc simp del: upt_Suc split: option.splits cong: if_cong)
  note ih = Suc.IH [OF step(1)]
  have range: "s \<le> i \<and> i < s + Suc n \<longleftrightarrow> i = s \<or> Suc s \<le> i \<and> i < Suc s + n" for i by auto
  show ?case
  proof (intro conjI impI)
    show "length antilog' = length antilog" "\<forall>i < s. antilog' ! i = antilog ! i" using ih by auto
    have "antilog' ! s = v s" using ih step(2) by auto
    then show "\<forall>i. s \<le> i \<and> i < s + Suc n \<longrightarrow> antilog' ! i = v i" using ih unfolding range by blast
    assume inj: "inj_on v {..<s + Suc n}"
    have other: "v i \<noteq> v s" if "Suc s \<le> i" "i < Suc s + n" for i
    proof
      assume "v i = v s"
      then have "i = s" by (rule inj_onD [OF inj]) (use that in auto)
      then show False using that by simp
    qed
    have logs: "\<forall>i. Suc s \<le> i \<and> i < Suc s + n \<longrightarrow> log' ! nat (v i) = i"
        "\<And>j. (\<forall>i. Suc s \<le> i \<and> i < Suc s + n \<longrightarrow> nat (v i) \<noteq> j) \<Longrightarrow> log' ! j = log[nat (v s) := s] ! j"
      using ih inj by auto
    have "log' ! nat (v s) = s" using logs(2) [of "nat (v s)"] other step(3) by (simp add: nat_v)
    then show "\<forall>i. s \<le> i \<and> i < s + Suc n \<longrightarrow> log' ! nat (v i) = i" using logs(1) unfolding range by blast
    show "\<forall>j. (\<forall>i. s \<le> i \<and> i < s + Suc n \<longrightarrow> nat (v i) \<noteq> j) \<longrightarrow> log' ! j = log ! j"
    proof (intro allI impI)
      fix j assume "\<forall>i. s \<le> i \<and> i < s + Suc n \<longrightarrow> nat (v i) \<noteq> j"
      then have "nat (v s) \<noteq> j" "\<forall>i. Suc s \<le> i \<and> i < Suc s + n \<longrightarrow> nat (v i) \<noteq> j" unfolding range by blast+
      then show "log' ! j = log ! j" using logs(2) [of j] by simp
    qed
  qed
qed simp

lemma double_loop_facts:
  "double_loop order [s..<s + n] antilog = Some antilog' \<Longrightarrow> order \<le> s \<Longrightarrow> s + n \<le> 2 * order \<Longrightarrow>
     (\<forall>i < s. antilog' ! i = antilog ! i)
     \<and> (\<forall>i. s \<le> i \<and> i < s + n \<longrightarrow> antilog' ! i = antilog ! (i - order))"
proof (induction n arbitrary: s antilog)
  case (Suc n)
  have list: "[s..<s + Suc n] = s # [Suc s..<Suc s + n]" by (simp add: upt_conv_Cons del: upt_Suc)
  have step: "double_loop order [Suc s..<Suc s + n] (antilog[s := antilog ! (s - order)]) = Some antilog'" "s < length antilog"
    using Suc.prems(1) [unfolded list] by (auto simp del: upt_Suc split: option.splits)
  have range: "s \<le> i \<and> i < s + Suc n \<longleftrightarrow> i = s \<or> Suc s \<le> i \<and> i < Suc s + n" for i by auto
  show ?case using Suc.IH [OF step(1)] Suc.prems(2,3) step(2) unfolding range by auto
qed simp

lemma primitive_power_cycle:
  assumes m: "0 < m" and q: "in_width m q" "bit q 0"
    and all: "\<And>a. 0 < a \<Longrightarrow> a < 2 ^ m \<Longrightarrow> \<exists>i<2 ^ m - 1. (clock m q ^^ i) 1 = a"
  shows "inj_on (\<lambda>i. (clock m q ^^ i) 1) {..<2 ^ m - 1}" "(clock m q ^^ (2 ^ m - 1)) 1 = 1"
proof -
  let ?v = "\<lambda>i. (clock m q ^^ i) 1" and ?n = "2 ^ m - 1 :: nat"
  have w: "in_width m (?v i)" for i by (rule in_width_pow [OF m q(1)])
  have n: "0 < ?n" using one_less_power [of "2::nat" m] m by simp
  have "{0<..<2 ^ m} \<subseteq> ?v ` {..<?n}" using all by fastforce
  then have "card {0<..<(2 ^ m :: int)} \<le> card (?v ` {..<?n})" by (intro card_mono) auto
  then have "card (?v ` {..<?n}) = ?n" using card_image_le [of "{..<?n}" ?v] by (simp add: nat_diff_distrib nat_power_eq)
  then show inj: "inj_on ?v {..<?n}" by (intro eq_card_imp_inj_on) auto
  have nz: "?v i \<noteq> 0" for i
  proof (induction i)
    case (Suc i)
    have "clock m q 0 = 0" by (simp add: clock_def)
    then show ?case using clock_inj [OF m q w [of i], of 0] Suc by (auto simp: in_width_def)
  qed simp
  have "0 < ?v ?n \<and> ?v ?n < 2 ^ m" using w [of ?n] nz [of ?n] by (simp add: in_width_def)
  then obtain j where j: "j < ?n" "?v j = ?v ?n" using all by blast
  show "?v ?n = 1"
  proof (cases j)
    case (Suc i)
    have "clock m q (?v i) = clock m q (?v (?n - 1))"
      using j(2) Suc n by (metis Suc_diff_1 comp_apply funpow.simps(2))
    then have "?v i = ?v (?n - 1)" by (rule clock_inj [OF m q w w])
    then have "i = ?n - 1" using inj j(1) Suc n by (auto simp: inj_on_def)
    then show ?thesis using j(1) Suc by simp
  qed (use j(2) in simp)
qed

text \<open>
  The logarithm tables multiply: over the field of \<open>2 ^ m\<close> elements a primitive polynomial
  defines, looking up the antilog of the sum of two logs is the product of the two elements, with no
  modulo, for every pair of non-zero elements.
\<close>

theorem gf_tables_multiply:
  assumes tables: "gf_tables (2 ^ m) p = Some (antilog, log)"
    and p: "0 < m" "2 ^ m \<le> p" "p < 2 ^ Suc m" "bit p 0"
    and primitive: "\<And>a. 0 < a \<Longrightarrow> a < 2 ^ m \<Longrightarrow> \<exists>i<2 ^ m - 1. (gf_double m p ^^ i) 1 = a"
    and ab: "0 < a" "a < 2 ^ m" "0 < b" "b < 2 ^ m"
  shows "antilog ! (log ! nat a + log ! nat b) = gf_mul m p a b"
proof -
  let ?q = "low_poly m p" and ?n = "2 ^ m - 1 :: nat"
  let ?v = "\<lambda>i. (clock m ?q ^^ i) 1"
  have q: "in_width m ?q" "bit ?q 0"
    by (rule in_width_low_poly) (use p in \<open>simp add: low_poly_def bit_take_bit_iff\<close>)
  have one: "in_width m 1" using p(1) by (simp add: in_width_def)
  note cycle = primitive_power_cycle [OF p(1) q]
  have all: "\<exists>i<?n. ?v i = x" if "0 < x" "x < 2 ^ m" for x
    using primitive [OF that] double_pow [OF p(1-3) one] by metis
  note inj = cycle(1) [OF all] and period = cycle(2) [OF all]
  obtain first elem where loops: "gf_loop (int (2 ^ m)) p [0..<0 + ?n] (replicate (2 * 2 ^ m) 0, replicate (2 ^ m) 0, ?v 0)
        = Some (first, log, elem)" "double_loop ?n [?n..<?n + ?n] first = Some antilog"
    using tables by (auto simp: gf_tables_def Let_def mult_2 split: option.splits)
  have first: "\<forall>i<?n. first ! i = ?v i" "\<forall>i<?n. log ! nat (?v i) = i"
    using gf_loop_facts [OF p(1-3) loops(1)] inj by auto
  have antilog: "antilog ! i = ?v i" if "i < 2 * ?n" for i
  proof (cases "i < ?n")
    case True
    then show ?thesis using double_loop_facts [OF loops(2)] first(1) by simp
  next
    case False
    then have "?v i = ?v (i - ?n)"
      using funpow_add [of "i - ?n" ?n "clock m ?q"] period by simp
    then show ?thesis using double_loop_facts [OF loops(2)] first(1) False that by simp
  qed
  obtain i j where ij: "i < ?n" "?v i = a" "j < ?n" "?v j = b" using all [OF ab(1,2)] all [OF ab(3,4)] by blast
  have "gf_mul m p a b = (clock m ?q ^^ i) b"
    using gf_mul_pow [OF p(1-3), of b i] ab ij(2) by (simp add: in_width_def)
  also have "\<dots> = ?v (i + j)" using ij(4) by (simp add: funpow_add)
  also have "\<dots> = antilog ! (i + j)" using antilog [of "i + j"] ij by simp
  also have "i + j = log ! nat a + log ! nat b" using first(2) ij by auto
  finally show ?thesis by simp
qed

theorem gf_tables_multiply_witness:
  "\<exists>antilog log. gf_tables 8 11 = Some (antilog, log) \<and> antilog ! (log ! 5 + log ! 6) = gf_mul 3 11 5 6"
proof -
  obtain antilog log where t: "gf_tables (2 ^ 3) 11 = Some (antilog, log)"
  proof -
    have "gf_tables (2 ^ 3) 11 \<noteq> None" by code_simp
    then show thesis using that by fastforce
  qed
  have turns: "map (\<lambda>i. (gf_double 3 11 ^^ i) 1) [0..<7] = [1, 2, 4, 3, 6, 7, 5]" by code_simp
  have "\<exists>i<2 ^ 3 - 1. (gf_double 3 11 ^^ i) 1 = a" if "0 < a" "a < 2 ^ 3" for a
  proof -
    have "a \<in> set [1, 2, 4, 3, 6, 7, 5]" using that by auto
    then have "a \<in> (\<lambda>i. (gf_double 3 11 ^^ i) 1) ` set [0..<7]" unfolding turns [symmetric] set_map .
    then show ?thesis by auto
  qed
  then show ?thesis using gf_tables_multiply [OF t, of 5 6] t by (simp add: bit_iff_odd)
qed

end
