(* ===== verification/Bytecode.thy ===== *)
theory Bytecode
  imports Expr_Syntax
begin

text \<open>
  The expression bytecode: the compiler in \<open>situc/pack.py\<close> (\<open>Op\<close>, \<open>Program.compile\<close>, \<open>_call\<close>,
  \<open>compile_relation\<close>) and the evaluator in \<open>walker/vm.py\<close>, down to the bytes.  A stack is held top
  first.  \<open>PackError\<close> is the exception of that name, \<open>EncodeError\<close> a \<open>struct.error\<close>,
  \<open>ByteRange\<close> the \<open>ValueError\<close> of appending a number that is no byte; the machine's callbacks answer a number or raise.
\<close>

section \<open>Opcodes\<close>

abbreviation (input) "OP_END \<equiv> 0x00 :: byte"
abbreviation (input) "OP_PUSH \<equiv> 0x01 :: byte"
abbreviation (input) "OP_FIELD \<equiv> 0x02 :: byte"
abbreviation (input) "OP_REMAINING \<equiv> 0x03 :: byte"
abbreviation (input) "OP_SIZE \<equiv> 0x04 :: byte"
abbreviation (input) "OP_OFFSET \<equiv> 0x05 :: byte"
abbreviation (input) "OP_COUNT \<equiv> 0x06 :: byte"
abbreviation (input) "OP_ARG_FIELD \<equiv> 0x07 :: byte"
abbreviation (input) "OP_FIELD_IN \<equiv> 0x08 :: byte"
abbreviation (input) "OP_TAG \<equiv> 0x09 :: byte"
abbreviation (input) "OP_SUM \<equiv> 0x0A :: byte"
abbreviation (input) "OP_NEG \<equiv> 0x1A :: byte"
abbreviation (input) "OP_NOT \<equiv> 0x1B :: byte"
abbreviation (input) "OP_POPCOUNT \<equiv> 0x33 :: byte"

definition PACK_BINARY :: "(string \<times> byte) list" where
  "PACK_BINARY =
    [(''+'', 0x10), (''-'', 0x11), (''*'', 0x12), (''/'', 0x13), (''%'', 0x14), (''&'', 0x15), (''|'', 0x16),
     (''^'', 0x17), (''<<'', 0x18), (''>>'', 0x19), (''=='', 0x20), (''!='', 0x21), (''<'', 0x22),
     (''<='', 0x23), (''>'', 0x24), (''>='', 0x25), (''&&'', 0x26), (''||'', 0x27)]"

text \<open>Unary \<open>+\<close> is the identity and emits nothing.\<close>

definition PACK_UNARY :: "(string \<times> byte option) list" where
  "PACK_UNARY = [(''-'', Some OP_NEG), (''~'', Some OP_NOT), (''+'', None)]"

definition PATH_CALLS :: "(string \<times> byte) list" where
  "PATH_CALLS = [(''size'', OP_SIZE), (''offset'', OP_OFFSET), (''count'', OP_COUNT), (''sum'', OP_SUM)]"

definition VALUE_CALLS :: "(string \<times> byte) list" where
  "VALUE_CALLS = [(''min'', 0x30), (''max'', 0x31), (''align_up'', 0x32)]"

section \<open>The compiler\<close>

datatype pack_failure = PackError | EncodeError | ByteRange

fun path_of :: "expr \<Rightarrow> string option" where
  "path_of (NameRef name) = Some name"
| "path_of (Access b name) = (case path_of b of None \<Rightarrow> None | Some p \<Rightarrow> Some (p @ ''.'' @ name))"
| "path_of (Index b index) = path_of b"
| "path_of other = None"

text \<open>\<open>struct.pack\<close> of one operand: \<open><q\<close>, \<open><I\<close> and \<open><i\<close>.\<close>

definition operand :: "bool \<Rightarrow> nat \<Rightarrow> int \<Rightarrow> pack_failure + bytes" where
  "operand is_signed width x =
     (if (if is_signed then - (2 ^ (8 * width - 1)) \<le> x \<and> x < 2 ^ (8 * width - 1) else 0 \<le> x \<and> x < 2 ^ (8 * width))
      then Inr (le_bytes width x) else Inl EncodeError)"

definition emit :: "byte \<Rightarrow> pack_failure + bytes" where
  "emit op = Inr [op]"

definition emit_with :: "byte \<Rightarrow> bool \<Rightarrow> nat \<Rightarrow> int \<Rightarrow> pack_failure + bytes" where
  "emit_with op is_signed width x = bindE (operand is_signed width x) (\<lambda>bs. Inr (op # bs))"

abbreviation push :: "int \<Rightarrow> pack_failure + bytes" where
  "push x \<equiv> emit_with OP_PUSH True 8 x"

text \<open>A placement index, and the byte offset its struct sits at in the frame being walked.\<close>

type_synonym resolver = "string \<Rightarrow> (int \<times> int) option"
type_synonym names = "(string \<times> int) list"

definition resolved :: "resolver \<Rightarrow> string option \<Rightarrow> (int \<times> int) option" where
  "resolved resolve path = (case path of None \<Rightarrow> None | Some p \<Rightarrow> if p = [] then None else resolve p)"

definition folded_name :: "names \<Rightarrow> string option \<Rightarrow> int option" where
  "folded_name names path = (case path of None \<Rightarrow> None | Some p \<Rightarrow> map_of names p)"

definition compile_name :: "resolver \<Rightarrow> names \<Rightarrow> names \<Rightarrow> expr \<Rightarrow> pack_failure + bytes" where
  "compile_name resolve known enum_members e =
     (let path = path_of e in
      case folded_name known path of
        Some v \<Rightarrow> push v
      | None \<Rightarrow>
          (case resolved resolve path of
             None \<Rightarrow> (case folded_name enum_members path of Some v \<Rightarrow> push v | None \<Rightarrow> Inl PackError)
           | Some (index, base) \<Rightarrow>
               if base \<noteq> 0 then
                 bindE (emit_with OP_FIELD_IN False 4 index) (\<lambda>a.
                 bindE (operand True 4 base) (\<lambda>b. Inr (a @ b)))
               else emit_with OP_FIELD False 4 index))"

definition compile_path_call :: "byte \<Rightarrow> resolver \<Rightarrow> expr list \<Rightarrow> pack_failure + bytes" where
  "compile_path_call op resolve args =
     (if length args \<noteq> 1 then Inl PackError
      else case resolved resolve (path_of (hd args)) of
        None \<Rightarrow> Inl PackError
      | Some (index, base) \<Rightarrow> if base \<noteq> 0 then Inl PackError else emit_with op False 4 index)"

fun compile_expr :: "resolver \<Rightarrow> names \<Rightarrow> names \<Rightarrow> expr \<Rightarrow> pack_failure + bytes"
  and compile_args :: "resolver \<Rightarrow> names \<Rightarrow> names \<Rightarrow> expr list \<Rightarrow> pack_failure + bytes" where
  "compile_expr resolve known enum_members (IntLiteral literal s) = push literal"
| "compile_expr resolve known enum_members (CharLiteral s code) = push code"
| "compile_expr resolve known enum_members Remaining = emit OP_REMAINING"
| "compile_expr resolve known enum_members (NameRef name) = compile_name resolve known enum_members (NameRef name)"
| "compile_expr resolve known enum_members (Access b name) = compile_name resolve known enum_members (Access b name)"
| "compile_expr resolve known enum_members (Index b i) = compile_name resolve known enum_members (Index b i)"
| "compile_expr resolve known enum_members (Unary op e) =
     bindE (compile_expr resolve known enum_members e) (\<lambda>code.
       case map_of PACK_UNARY op of
         None \<Rightarrow> Inl PackError
       | Some None \<Rightarrow> Inr code
       | Some (Some byte) \<Rightarrow> Inr (code @ [byte]))"
| "compile_expr resolve known enum_members (Binary op l r) =
     (case map_of PACK_BINARY op of
        None \<Rightarrow> Inl PackError
      | Some byte \<Rightarrow>
          bindE (compile_expr resolve known enum_members l) (\<lambda>a.
          bindE (compile_expr resolve known enum_members r) (\<lambda>b. Inr (a @ b @ [byte]))))"
| "compile_expr resolve known enum_members (Call name args) =
     (case map_of PATH_CALLS name of
        Some byte \<Rightarrow> compile_path_call byte resolve args
      | None \<Rightarrow>
          if name = ''popcount'' \<and> length args = 1 then
            bindE (compile_args resolve known enum_members args) (\<lambda>code. Inr (code @ [OP_POPCOUNT]))
          else (case map_of VALUE_CALLS name of
            None \<Rightarrow> Inl PackError
          | Some byte \<Rightarrow>
              if length args \<noteq> 2 then Inl PackError
              else bindE (compile_args resolve known enum_members args) (\<lambda>code. Inr (code @ [byte]))))"
| "compile_expr resolve known enum_members (StringLiteral s) = Inl PackError"
| "compile_args resolve known enum_members [] = Inr []"
| "compile_args resolve known enum_members (e # es) =
     bindE (compile_expr resolve known enum_members e) (\<lambda>a.
     bindE (compile_args resolve known enum_members es) (\<lambda>b. Inr (a @ b)))"

text \<open>One size program in the shared buffer, as \<open>pack\<close> adds it: on \<open>PackError\<close> what was emitted is
  deleted again, otherwise \<open>END\<close> follows and the start is kept.\<close>

definition add_program :: "resolver \<Rightarrow> names \<Rightarrow> names \<Rightarrow> expr \<Rightarrow> bytes \<Rightarrow> pack_failure + bytes \<times> nat option" where
  "add_program resolve known enum_members e code =
     (case compile_expr resolve known enum_members e of
        Inr prog \<Rightarrow> Inr (code @ prog @ [OP_END], Some (length code))
      | Inl PackError \<Rightarrow> Inr (code, None)
      | Inl other \<Rightarrow> Inl other)"

text \<open>A relation's paths name a parameter and a placement of its struct.\<close>

type_synonym relation_resolver = "string \<Rightarrow> (int \<times> int) option"

definition compile_arg_field :: "relation_resolver \<Rightarrow> expr \<Rightarrow> pack_failure + bytes" where
  "compile_arg_field resolve e =
     (case resolved resolve (path_of e) of
        None \<Rightarrow> Inl PackError
      | Some (arg, index) \<Rightarrow>
          if arg < 0 \<or> 255 < arg then Inl ByteRange
          else bindE (operand False 4 index) (\<lambda>bs. Inr (OP_ARG_FIELD # byte_of arg # bs)))"

fun compile_relation :: "relation_resolver \<Rightarrow> expr \<Rightarrow> pack_failure + bytes" where
  "compile_relation resolve (IntLiteral literal s) = push literal"
| "compile_relation resolve (CharLiteral s code) = push code"
| "compile_relation resolve (NameRef name) = compile_arg_field resolve (NameRef name)"
| "compile_relation resolve (Access b name) = compile_arg_field resolve (Access b name)"
| "compile_relation resolve (Unary op e) =
     bindE (compile_relation resolve e) (\<lambda>code.
       case map_of PACK_UNARY op of
         None \<Rightarrow> Inl PackError
       | Some None \<Rightarrow> Inr code
       | Some (Some byte) \<Rightarrow> Inr (code @ [byte]))"
| "compile_relation resolve (Binary op l r) =
     (case map_of PACK_BINARY op of
        None \<Rightarrow> Inl PackError
      | Some byte \<Rightarrow>
          bindE (compile_relation resolve l) (\<lambda>a.
          bindE (compile_relation resolve r) (\<lambda>b. Inr (a @ b @ [byte]))))"
| "compile_relation resolve other = Inl PackError"

section \<open>The evaluator\<close>

datatype vm_error = VmError | StructError | IndexError | Raised

type_synonym 'a loaded = "vm_error + 'a"

record machine =
  load_field :: "int \<Rightarrow> int loaded"
  size_of :: "int \<Rightarrow> int loaded"
  offset_of :: "int \<Rightarrow> int loaded"
  count_of :: "int \<Rightarrow> int loaded"
  remaining :: "int loaded"
  load_arg :: "(int \<Rightarrow> int \<Rightarrow> int loaded) option"
  load_field_in :: "(int \<Rightarrow> int \<Rightarrow> int loaded) option"
  tag :: "int option"
  sum_of :: "(int \<Rightarrow> int loaded) option"

definition vm_align_up :: operation where
  "vm_align_up a to = (if to \<le> 0 then None else Some (((a + to - 1) div to) * to))"

definition vm_div :: operation where
  "vm_div a b = (if b = 0 then None else Some (\<bar>a\<bar> div \<bar>b\<bar> * (if (a < 0) = (b < 0) then 1 else -1)))"

definition vm_mod :: operation where
  "vm_mod a b = (case vm_div a b of None \<Rightarrow> None | Some q \<Rightarrow> Some (a - q * b))"

definition VM_BINARY :: "(byte \<times> operation) list" where
  "VM_BINARY =
    [(0x10, \<lambda>a b. Some (a + b)), (0x11, \<lambda>a b. Some (a - b)), (0x12, \<lambda>a b. Some (a * b)),
     (0x13, vm_div), (0x14, vm_mod),
     (0x15, \<lambda>a b. Some (and a b)), (0x16, \<lambda>a b. Some (or a b)), (0x17, \<lambda>a b. Some (xor a b)),
     (0x18, \<lambda>a b. Some (if 0 \<le> b \<and> b < 64 then push_bit (nat b) a else 0)),
     (0x19, \<lambda>a b. Some (if 0 \<le> b \<and> b < 64 then drop_bit (nat b) a else 0)),
     (0x20, \<lambda>a b. Some (of_bool (a = b))), (0x21, \<lambda>a b. Some (of_bool (a \<noteq> b))),
     (0x22, \<lambda>a b. Some (of_bool (a < b))), (0x23, \<lambda>a b. Some (of_bool (a \<le> b))),
     (0x24, \<lambda>a b. Some (of_bool (a > b))), (0x25, \<lambda>a b. Some (of_bool (a \<ge> b))),
     (0x26, \<lambda>a b. Some (of_bool (a \<noteq> 0 \<and> b \<noteq> 0))), (0x27, \<lambda>a b. Some (of_bool (a \<noteq> 0 \<or> b \<noteq> 0))),
     (0x30, \<lambda>a b. Some (min a b)), (0x31, \<lambda>a b. Some (max a b)), (0x32, vm_align_up)]"

text \<open>\<open>struct.unpack_from\<close> of one operand.\<close>

definition unpack :: "bool \<Rightarrow> nat \<Rightarrow> bytes \<Rightarrow> nat \<Rightarrow> int loaded" where
  "unpack is_signed width code pc =
     (if pc + width \<le> length code then Inr (from_bytes False is_signed (slice code pc width)) else Inl StructError)"

text \<open>One turn of the loop: the value \<open>END\<close> returns, or where the next turn starts and with what
  stack.\<close>

definition vm_step :: "machine \<Rightarrow> bytes \<Rightarrow> nat \<Rightarrow> int list \<Rightarrow> (int + nat \<times> int list) loaded" where
  "vm_step m code pc stack =
     (if length code \<le> pc then Inl VmError
      else
        let op = code ! pc; pc = pc + 1;
            next = (\<lambda>n x. Inr (Inr (n, x # stack)));
            indexed = (\<lambda>load. bindE (unpack False 4 code pc) (\<lambda>i. bindE (load i) (next (pc + 4)))) in
        if op = OP_END then (if length stack \<noteq> 1 then Inl VmError else Inr (Inl (hd stack)))
        else if op = OP_PUSH then bindE (unpack True 8 code pc) (next (pc + 8))
        else if op = OP_SUM then (case sum_of m of None \<Rightarrow> Inl VmError | Some load \<Rightarrow> indexed load)
        else if op = OP_FIELD then indexed (load_field m)
        else if op = OP_SIZE then indexed (size_of m)
        else if op = OP_OFFSET then indexed (offset_of m)
        else if op = OP_COUNT then indexed (count_of m)
        else if op = OP_FIELD_IN then
          bindE (unpack False 4 code pc) (\<lambda>index. bindE (unpack True 4 code (pc + 4)) (\<lambda>base.
            case load_field_in m of None \<Rightarrow> Inl VmError | Some load \<Rightarrow> bindE (load index base) (next (pc + 8))))
        else if op = OP_ARG_FIELD then
          (case load_arg m of None \<Rightarrow> Inl VmError
           | Some load \<Rightarrow>
               if length code \<le> pc then Inl IndexError
               else bindE (unpack False 4 code (pc + 1)) (\<lambda>index.
                 bindE (load (uint (code ! pc)) index) (next (pc + 5))))
        else if op = OP_REMAINING then bindE (remaining m) (next pc)
        else if op = OP_TAG then (case tag m of None \<Rightarrow> Inl VmError | Some t \<Rightarrow> next pc t)
        else if op = OP_NEG \<or> op = OP_NOT then
          (case stack of [] \<Rightarrow> Inl VmError
           | x # rest \<Rightarrow> Inr (Inr (pc, (if op = OP_NEG then - x else not x) # rest)))
        else if op = OP_POPCOUNT then
          (case stack of [] \<Rightarrow> Inl VmError
           | x # rest \<Rightarrow> Inr (Inr (pc, bit_count (and x (push_bit 64 1 - 1)) # rest)))
        else (case map_of VM_BINARY op of None \<Rightarrow> Inl VmError
          | Some operator \<Rightarrow>
              (case stack of
                 right # left # rest \<Rightarrow>
                   (case operator left right of None \<Rightarrow> Inl VmError | Some x \<Rightarrow> Inr (Inr (pc, x # rest)))
               | _ \<Rightarrow> Inl VmError)))"

text \<open>The program counter only advances, and never past the code.\<close>

lemma unpack_Inr: "unpack g w code pc = Inr x \<Longrightarrow> pc + w \<le> length code"
  by (auto simp: unpack_def split: if_splits)

lemma vm_step_advances: "vm_step m code pc stack = Inr (Inr (pc', stack')) \<Longrightarrow> pc < pc' \<and> pc' \<le> length code"
  unfolding vm_step_def Let_def
  by (auto split: if_splits option.splits list.splits dest!: unpack_Inr)

function run_loop :: "machine \<Rightarrow> bytes \<Rightarrow> nat \<Rightarrow> int list \<Rightarrow> int loaded" where
  "run_loop m code pc stack =
     (case vm_step m code pc stack of
        Inl e \<Rightarrow> Inl e
      | Inr (Inl x) \<Rightarrow> Inr x
      | Inr (Inr (pc', stack')) \<Rightarrow> run_loop m code pc' stack')"
  by auto

termination
  by (relation "measure (\<lambda>(m, code, pc, stack). length code - pc)")
    (auto dest!: vm_step_advances)

declare run_loop.simps [simp del]

definition run :: "machine \<Rightarrow> bytes \<Rightarrow> nat \<Rightarrow> int loaded" where
  "run m code at = run_loop m code at []"

section \<open>Every program ends\<close>

text \<open>The steps of the loop as a relation, for programs of any bytes.\<close>

inductive vm_steps :: "machine \<Rightarrow> bytes \<Rightarrow> nat \<Rightarrow> nat \<times> int list \<Rightarrow> nat \<times> int list \<Rightarrow> bool"
  for m code where
  start: "vm_steps m code 0 s s"
| turn: "vm_steps m code n (pc, stack) s \<Longrightarrow> vm_step m code pc0 stack0 = Inr (Inr (pc, stack))
    \<Longrightarrow> vm_steps m code (Suc n) (pc0, stack0) s"

inductive_cases vm_steps_Suc: "vm_steps m code (Suc n) s t"

lemma vm_steps_bound: "vm_steps m code n s t \<Longrightarrow> n + fst s \<le> fst t \<and> (0 < n \<longrightarrow> fst t \<le> length code)"
  by (induction rule: vm_steps.induct) (auto dest!: vm_step_advances elim: vm_steps.cases)

text \<open>
  C33: A program's length is its own bound: over any bytes and any callbacks, an execution that starts
  at \<open>at\<close> takes at most as many turns as there are bytes from there on, so the evaluator needs no
  step limit.
\<close>

theorem vm_terminates:
  assumes "vm_steps m code n (at, []) t"
  shows "n \<le> length code - at"
  using vm_steps_bound [OF assms] by (cases n) auto

definition no_machine :: machine where
  "no_machine = \<lparr>load_field = (\<lambda>i. Inl Raised), size_of = (\<lambda>i. Inl Raised), offset_of = (\<lambda>i. Inl Raised),
     count_of = (\<lambda>i. Inl Raised), remaining = Inr 9, load_arg = None, load_field_in = None, tag = None, sum_of = None\<rparr>"

theorem vm_terminates_witness:
  "vm_steps no_machine [OP_REMAINING, OP_NEG, OP_END] 2 (0, []) (2, [- 9]) \<and> (2::nat) \<le> length [OP_REMAINING, OP_NEG, OP_END] - 0"
proof -
  let ?code = "[OP_REMAINING, OP_NEG, OP_END]"
  have run: "vm_steps no_machine ?code (Suc (Suc 0)) (0, []) (2, [-9])"
    by (rule turn [where pc = 1 and stack = "[9]"], rule turn [where pc = 2 and stack = "[-9]"], rule start)
      (simp_all add: vm_step_def no_machine_def Let_def)
  then show ?thesis using vm_terminates [OF run] by (simp add: numeral_2_eq_2)
qed

section \<open>What a program computes\<close>

text \<open>
  What an expression means to the schema, read without the packer's opcode tables: the operators and
  the value builtins by the tables of \<open>expr.py\<close>, with the machine's answer for a shift outside its 64
  bits; \<open>size\<close>, \<open>offset\<close>, \<open>count\<close> and \<open>sum\<close> by the callback of that name; a path by the callbacks that
  load a field.
\<close>

definition operator_value :: "string \<Rightarrow> int \<Rightarrow> int \<Rightarrow> int loaded" where
  "operator_value op a b =
     (if op \<in> {''<<'', ''>>''} \<and> \<not> (0 \<le> b \<and> b < 64) then Inr 0
      else case map_of BINARY_OPS op of
        None \<Rightarrow> Inl VmError
      | Some f \<Rightarrow> (case f a b of None \<Rightarrow> Inl VmError | Some x \<Rightarrow> Inr x))"

definition builtin_value :: "string \<Rightarrow> int list \<Rightarrow> int loaded" where
  "builtin_value name vs =
     (if name = ''popcount'' then Inr (bit_count (and (hd vs) (push_bit 64 1 - 1)))
      else case value_call name vs of Inl e \<Rightarrow> Inl VmError | Inr x \<Rightarrow> Inr x)"

definition path_value :: "machine \<Rightarrow> string \<Rightarrow> int \<Rightarrow> int loaded" where
  "path_value m name index =
     (if name = ''size'' then size_of m index
      else if name = ''offset'' then offset_of m index
      else if name = ''count'' then count_of m index
      else (case sum_of m of None \<Rightarrow> Inl VmError | Some load \<Rightarrow> load index))"

definition name_loaded :: "machine \<Rightarrow> resolver \<Rightarrow> names \<Rightarrow> names \<Rightarrow> expr \<Rightarrow> int loaded" where
  "name_loaded m resolve known enum_members e =
     (let path = path_of e in
      case folded_name known path of
        Some v \<Rightarrow> Inr v
      | None \<Rightarrow>
          (case resolved resolve path of
             None \<Rightarrow> (case folded_name enum_members path of Some v \<Rightarrow> Inr v | None \<Rightarrow> Inl VmError)
           | Some (index, base) \<Rightarrow>
               if base \<noteq> 0 then (case load_field_in m of None \<Rightarrow> Inl VmError | Some load \<Rightarrow> load index base)
               else load_field m index))"

definition path_loaded :: "machine \<Rightarrow> byte \<Rightarrow> int \<Rightarrow> int loaded" where
  "path_loaded m op index =
     (if op = OP_SIZE then size_of m index
      else if op = OP_OFFSET then offset_of m index
      else if op = OP_COUNT then count_of m index
      else (case sum_of m of None \<Rightarrow> Inl VmError | Some load \<Rightarrow> load index))"

definition applied :: "byte \<Rightarrow> int \<Rightarrow> int \<Rightarrow> int loaded" where
  "applied op a b =
     (case map_of VM_BINARY op of None \<Rightarrow> Inl VmError
      | Some operator \<Rightarrow> (case operator a b of None \<Rightarrow> Inl VmError | Some x \<Rightarrow> Inr x))"

fun machine_value :: "machine \<Rightarrow> resolver \<Rightarrow> names \<Rightarrow> names \<Rightarrow> expr \<Rightarrow> int loaded"
  and machine_values :: "machine \<Rightarrow> resolver \<Rightarrow> names \<Rightarrow> names \<Rightarrow> expr list \<Rightarrow> int list loaded" where
  "machine_value m resolve known enum_members (IntLiteral literal s) = Inr literal"
| "machine_value m resolve known enum_members (CharLiteral s code) = Inr code"
| "machine_value m resolve known enum_members Remaining = remaining m"
| "machine_value m resolve known enum_members (NameRef name) = name_loaded m resolve known enum_members (NameRef name)"
| "machine_value m resolve known enum_members (Access b name) = name_loaded m resolve known enum_members (Access b name)"
| "machine_value m resolve known enum_members (Index b i) = name_loaded m resolve known enum_members (Index b i)"
| "machine_value m resolve known enum_members (Unary op e) =
     bindE (machine_value m resolve known enum_members e) (\<lambda>x.
       Inr (if op = ''-'' then - x else if op = ''~'' then not x else x))"
| "machine_value m resolve known enum_members (Binary op l r) =
     bindE (machine_value m resolve known enum_members l) (\<lambda>a.
     bindE (machine_value m resolve known enum_members r) (\<lambda>b. operator_value op a b))"
| "machine_value m resolve known enum_members (Call name args) =
     (if name \<in> {''size'', ''offset'', ''count'', ''sum''} then
        (case resolved resolve (path_of (hd args)) of None \<Rightarrow> Inl VmError | Some (index, base) \<Rightarrow> path_value m name index)
      else bindE (machine_values m resolve known enum_members args) (builtin_value name))"
| "machine_value m resolve known enum_members (StringLiteral s) = Inl VmError"
| "machine_values m resolve known enum_members [] = Inr []"
| "machine_values m resolve known enum_members (e # es) =
     bindE (machine_value m resolve known enum_members e) (\<lambda>v.
     bindE (machine_values m resolve known enum_members es) (\<lambda>vs. Inr (v # vs)))"

section \<open>The opcodes mean what the operators mean\<close>

lemma applied_operator:
  assumes "map_of PACK_BINARY op = Some byte"
  shows "applied byte a b = operator_value op a b"
proof -
  have "(op, byte) \<in> set PACK_BINARY" using assms by (rule map_of_SomeD)
  then show ?thesis
    unfolding PACK_BINARY_def list.set
    by (elim insertE emptyE Pair_inject; hypsubst;
        simp add: operator_value_def BINARY_OPS_def applied_def VM_BINARY_def vm_div_def vm_mod_def trunc_div_def)
qed

lemma applied_builtin:
  assumes "map_of VALUE_CALLS name = Some byte"
  shows "applied byte a b = builtin_value name [a, b]"
proof -
  have "(name, byte) \<in> set VALUE_CALLS" using assms by (rule map_of_SomeD)
  then show ?thesis
    unfolding VALUE_CALLS_def list.set
    by (elim insertE emptyE Pair_inject; hypsubst;
        simp add: builtin_value_def value_call_def applied_def VM_BINARY_def vm_align_up_def align_up_value_def
          round_up_def min.commute max.commute)
qed

lemma path_loaded_value:
  assumes "map_of PATH_CALLS name = Some op"
  shows "name \<in> {''size'', ''offset'', ''count'', ''sum''}" "path_loaded m op index = path_value m name index"
  using assms by (auto simp: PATH_CALLS_def path_loaded_def path_value_def split: if_splits)

lemma no_path_call: "map_of PATH_CALLS name = None \<Longrightarrow> name \<notin> {''size'', ''offset'', ''count'', ''sum''}"
  by (auto simp: PATH_CALLS_def)

section \<open>One instruction\<close>

lemma operand_unpack:
  assumes "operand is_signed width x = Inr bs" "0 < width"
  shows "length bs = width" "unpack is_signed width (pre @ bs @ post) (length pre) = Inr x"
proof -
  have bs: "bs = le_bytes width x" using assms(1) by (auto simp: operand_def split: if_splits)
  then show "length bs = width" by simp
  have "to_bytes False is_signed width x = Inr bs"
    using assms bs by (auto simp: operand_def to_bytes_def fits_def order_bytes_def split: if_splits)
  then have "from_bytes False is_signed bs = x" by (rule from_to_bytes) (rule assms(2))
  then show "unpack is_signed width (pre @ bs @ post) (length pre) = Inr x"
    using bs by (simp add: unpack_def slice_def)
qed

text \<open>Where the loop stands after a run of code: behind it, with one more value, or at an error.\<close>

definition pushed :: "machine \<Rightarrow> bytes \<Rightarrow> nat \<Rightarrow> int list \<Rightarrow> int loaded \<Rightarrow> int loaded" where
  "pushed m code pc stack r = bindE r (\<lambda>x. run_loop m code pc (x # stack))"

lemma run_loop_next: "vm_step m code pc stack = Inr (Inr (pc', stack')) \<Longrightarrow> run_loop m code pc stack = run_loop m code pc' stack'"
  by (simp add: run_loop.simps [of m code pc stack])

lemma run_loop_load:
  "vm_step m code pc stack = bindE r (\<lambda>x. Inr (Inr (pc', x # stack'))) \<Longrightarrow>
     run_loop m code pc stack = pushed m code pc' stack' r"
  by (cases r) (simp_all add: run_loop.simps [of m code pc stack] pushed_def)

lemma run_push:
  assumes "emit_with OP_PUSH True 8 x = Inr prog"
  shows "run_loop m (pre @ prog @ post) (length pre) st = pushed m (pre @ prog @ post) (length pre + length prog) st (Inr x)"
proof -
  obtain bs where bs: "operand True 8 x = Inr bs" "prog = OP_PUSH # bs" using assms by (auto simp: emit_with_def)
  have "length bs = 8" "unpack True 8 (pre @ prog @ post) (Suc (length pre)) = Inr x"
    using operand_unpack(1) [OF bs(1)] operand_unpack(2) [OF bs(1), where pre = "pre @ [OP_PUSH]" and post = post] bs(2) by simp_all
  then show ?thesis using bs(2)
    by (intro run_loop_load) (simp add: vm_step_def Let_def nth_append)
qed

definition indexed_load :: "machine \<Rightarrow> byte \<Rightarrow> int \<Rightarrow> int loaded" where
  "indexed_load m op index = (if op = OP_FIELD then load_field m index else path_loaded m op index)"

lemma run_indexed:
  assumes "emit_with op False 4 index = Inr prog" "op \<in> {OP_FIELD, OP_SIZE, OP_OFFSET, OP_COUNT, OP_SUM}"
  shows "run_loop m (pre @ prog @ post) (length pre) st
    = pushed m (pre @ prog @ post) (length pre + length prog) st (indexed_load m op index)"
proof -
  obtain bs where bs: "operand False 4 index = Inr bs" "prog = op # bs" using assms by (auto simp: emit_with_def)
  have len: "length bs = 4" and "unpack False 4 (pre @ prog @ post) (Suc (length pre)) = Inr index"
    using operand_unpack(1) [OF bs(1)] operand_unpack(2) [OF bs(1), where pre = "pre @ [op]" and post = post] bs(2) by simp_all
  then have step: "vm_step m (pre @ prog @ post) (length pre) st
      = bindE (indexed_load m op index) (\<lambda>x. Inr (Inr (Suc (length pre) + 4, x # st)))"
    using assms(2) bs(2)
    by (elim insertE emptyE)
      (simp_all add: vm_step_def Let_def nth_append indexed_load_def path_loaded_def split: option.split)
  have "length pre + length prog = Suc (length pre) + 4" using bs(2) len by simp
  then show ?thesis using run_loop_load [OF step] by (simp only:)
qed

lemma run_field_in:
  assumes "emit_with OP_FIELD_IN False 4 index = Inr a" "operand True 4 base = Inr b"
  shows "run_loop m (pre @ (a @ b) @ post) (length pre) st
    = pushed m (pre @ (a @ b) @ post) (length pre + length (a @ b)) st
        (case load_field_in m of None \<Rightarrow> Inl VmError | Some load \<Rightarrow> load index base)"
proof -
  obtain bs where bs: "operand False 4 index = Inr bs" "a = OP_FIELD_IN # bs" using assms by (auto simp: emit_with_def)
  have i: "length bs = 4" "unpack False 4 (pre @ (a @ b) @ post) (Suc (length pre)) = Inr index"
    using operand_unpack(1) [OF bs(1)] operand_unpack(2) [OF bs(1), where pre = "pre @ [OP_FIELD_IN]" and post = "b @ post"] bs(2) by simp_all
  have "length b = 4" "unpack True 4 (pre @ (a @ b) @ post) (5 + length pre) = Inr base"
    using operand_unpack(1) [OF assms(2)] operand_unpack(2) [OF assms(2), where pre = "pre @ a" and post = post] bs(2) i(1) by (simp_all add: add.commute)
  then have step: "vm_step m (pre @ (a @ b) @ post) (length pre) st
      = bindE (case load_field_in m of None \<Rightarrow> Inl VmError | Some load \<Rightarrow> load index base)
          (\<lambda>x. Inr (Inr (Suc (length pre) + 8, x # st)))"
    using bs(2) i
    by (simp add: vm_step_def Let_def nth_append split: option.split)
  have "length pre + length (a @ b) = Suc (length pre) + 8" using bs(2) i(1) \<open>length b = 4\<close> by simp
  then show ?thesis using run_loop_load [OF step] by (simp only:)
qed

definition vm_ops :: "byte set" where
  "vm_ops = fst ` set VM_BINARY"

lemma vm_ops_plain:
  "op \<in> vm_ops \<Longrightarrow> op \<notin> {OP_END, OP_PUSH, OP_SUM, OP_FIELD, OP_SIZE, OP_OFFSET, OP_COUNT, OP_FIELD_IN, OP_ARG_FIELD,
     OP_REMAINING, OP_TAG, OP_NEG, OP_NOT, OP_POPCOUNT}"
  by (auto simp: vm_ops_def VM_BINARY_def)

lemma run_binary:
  assumes "op \<in> vm_ops"
  shows "run_loop m (pre @ [op] @ post) (length pre) (b # a # st)
    = pushed m (pre @ [op] @ post) (Suc (length pre)) st (applied op a b)"
proof (rule run_loop_load)
  show "vm_step m (pre @ [op] @ post) (length pre) (b # a # st)
      = bindE (applied op a b) (\<lambda>x. Inr (Inr (Suc (length pre), x # st)))"
    using vm_ops_plain [OF assms]
    by (simp add: vm_step_def Let_def nth_append applied_def split: option.split)
qed

lemma run_unary:
  assumes "op \<in> {OP_NEG, OP_NOT}"
  shows "run_loop m (pre @ [op] @ post) (length pre) (a # st)
    = run_loop m (pre @ [op] @ post) (Suc (length pre)) ((if op = OP_NEG then - a else not a) # st)"
  using assms by (intro run_loop_next) (auto simp: vm_step_def Let_def nth_append)

lemma run_popcount:
  "run_loop m (pre @ [OP_POPCOUNT] @ post) (length pre) (a # st)
    = run_loop m (pre @ [OP_POPCOUNT] @ post) (Suc (length pre)) (bit_count (and a (push_bit 64 1 - 1)) # st)"
  by (intro run_loop_next) (simp add: vm_step_def Let_def nth_append)

lemma run_remaining:
  "run_loop m (pre @ [OP_REMAINING] @ post) (length pre) st
    = pushed m (pre @ [OP_REMAINING] @ post) (Suc (length pre)) st (remaining m)"
  by (intro run_loop_load) (simp add: vm_step_def Let_def nth_append)

section \<open>The compiler is correct\<close>

lemma compile_name_run:
  assumes "compile_name resolve known enum_members e = Inr prog"
  shows "run_loop m (pre @ prog @ post) (length pre) st
    = pushed m (pre @ prog @ post) (length pre + length prog) st (name_loaded m resolve known enum_members e)"
proof -
  consider v where "emit_with OP_PUSH True 8 v = Inr prog" "name_loaded m resolve known enum_members e = Inr v"
    | index where "emit_with OP_FIELD False 4 index = Inr prog" "name_loaded m resolve known enum_members e = load_field m index"
    | index base a b where "emit_with OP_FIELD_IN False 4 index = Inr a" "operand True 4 base = Inr b" "prog = a @ b"
        "name_loaded m resolve known enum_members e
           = (case load_field_in m of None \<Rightarrow> Inl VmError | Some load \<Rightarrow> load index base)"
    using assms by (auto simp: compile_name_def name_loaded_def Let_def split: option.splits if_splits)
  then show ?thesis
  proof cases
    case 1
    then show ?thesis by (simp only: run_push)
  next
    case 2
    then show ?thesis using run_indexed [OF 2(1), of m pre post st] by (simp add: indexed_load_def)
  next
    case 3
    then show ?thesis by (simp only: run_field_in)
  qed
qed

lemma compile_path_call_run:
  assumes "compile_path_call op resolve args = Inr prog" "op \<in> {OP_SIZE, OP_OFFSET, OP_COUNT, OP_SUM}"
  obtains index where "resolved resolve (path_of (hd args)) = Some (index, 0)"
    "run_loop m (pre @ prog @ post) (length pre) st
      = pushed m (pre @ prog @ post) (length pre + length prog) st (path_loaded m op index)"
proof -
  obtain index where i: "resolved resolve (path_of (hd args)) = Some (index, 0)" "emit_with op False 4 index = Inr prog"
    using assms(1) by (auto simp: compile_path_call_def split: if_splits option.splits)
  have "op \<noteq> OP_FIELD" using assms(2) by auto
  then show thesis using that [OF i(1)] run_indexed [OF i(2), of m pre post st] assms(2)
    by (auto simp: indexed_load_def)
qed

lemma compile_ops:
  "map_of PACK_BINARY name = Some op \<Longrightarrow> op \<in> vm_ops"
  "map_of VALUE_CALLS name = Some op \<Longrightarrow> op \<in> vm_ops"
  "map_of PATH_CALLS name = Some op \<Longrightarrow> op \<in> {OP_SIZE, OP_OFFSET, OP_COUNT, OP_SUM}"
  by (auto simp: PACK_BINARY_def VALUE_CALLS_def PATH_CALLS_def vm_ops_def VM_BINARY_def split: if_splits)

text \<open>A piece of code that pushes \<open>r\<close>, wherever it stands and whatever is below it on the stack.\<close>

definition runs :: "machine \<Rightarrow> bytes \<Rightarrow> int loaded \<Rightarrow> bool" where
  "runs m prog r =
     (\<forall>pre post st. run_loop m (pre @ prog @ post) (length pre) st
        = pushed m (pre @ prog @ post) (length pre + length prog) st r)"

lemma runsI:
  "(\<And>pre post st. run_loop m (pre @ prog @ post) (length pre) st
      = pushed m (pre @ prog @ post) (length pre + length prog) st r) \<Longrightarrow> runs m prog r"
  by (simp add: runs_def)

lemma runsD:
  "runs m prog r \<Longrightarrow> run_loop m (pre @ prog @ post) (length pre) st
      = pushed m (pre @ prog @ post) (length pre + length prog) st r"
  by (simp add: runs_def)

lemma runs_push: "emit_with OP_PUSH True 8 x = Inr prog \<Longrightarrow> runs m prog (Inr x)"
  by (rule runsI) (rule run_push)

definition unary_result :: "string \<Rightarrow> int loaded \<Rightarrow> int loaded" where
  "unary_result op r = bindE r (\<lambda>x. Inr (if op = ''-'' then - x else if op = ''~'' then not x else x))"

definition binary_result :: "byte \<Rightarrow> int loaded \<Rightarrow> int loaded \<Rightarrow> int loaded" where
  "binary_result byte r s = bindE r (\<lambda>a. bindE s (\<lambda>b. applied byte a b))"

lemma runs_op:
  assumes "runs m code r" "\<And>x pre post st. r = Inr x \<Longrightarrow>
      run_loop m (pre @ [op] @ post) (length pre) (x # st) = pushed m (pre @ [op] @ post) (Suc (length pre)) st (f x)"
  shows "runs m (code @ [op]) (bindE r f)"
proof (rule runsI)
  fix pre post st
  show "run_loop m (pre @ (code @ [op]) @ post) (length pre) st
      = pushed m (pre @ (code @ [op]) @ post) (length pre + length (code @ [op])) st (bindE r f)"
    using runsD [OF assms(1), of pre "[op] @ post" st] assms(2) [of _ "pre @ code" post st]
    by (cases r) (simp_all add: pushed_def)
qed

lemma runs_unary:
  assumes "runs m code r"
    and "(case map_of PACK_UNARY op of None \<Rightarrow> Inl PackError | Some None \<Rightarrow> Inr code
         | Some (Some byte) \<Rightarrow> Inr (code @ [byte])) = (Inr prog :: pack_failure + bytes)"
  shows "runs m prog (unary_result op r)"
proof -
  have op: "op = ''-'' \<and> prog = code @ [OP_NEG] \<or> op = ''~'' \<and> prog = code @ [OP_NOT] \<or> op = ''+'' \<and> prog = code"
    using assms(2) by (auto simp: PACK_UNARY_def split: if_splits option.splits)
  have neg: "runs m (code @ [OP_NEG]) (bindE r (\<lambda>x. Inr (- x)))"
    by (rule runs_op [OF assms(1)]) (use run_unary [of OP_NEG m] in \<open>simp add: pushed_def\<close>)
  have not: "runs m (code @ [OP_NOT]) (bindE r (\<lambda>x. Inr (not x)))"
    by (rule runs_op [OF assms(1)]) (use run_unary [of OP_NOT m] in \<open>simp add: pushed_def\<close>)
  have "bindE r Inr = r" by (cases r) simp_all
  then show ?thesis using op neg not assms(1) by (auto simp: unary_result_def)
qed

lemma runs_binary:
  assumes "runs m a r" "runs m b s" "op \<in> vm_ops"
  shows "runs m (a @ b @ [op]) (binary_result op r s)"
proof (rule runsI)
  fix pre post st
  have "run_loop m (pre @ (a @ b @ [op]) @ post) (length pre) st
      = pushed m (pre @ (a @ b @ [op]) @ post) (length pre + length a) st r"
    using runsD [OF assms(1), of pre "b @ [op] @ post" st] by simp
  moreover have "run_loop m (pre @ (a @ b @ [op]) @ post) (length pre + length a) (x # st)
      = pushed m (pre @ (a @ b @ [op]) @ post) (length pre + length a + length b) (x # st) s" for x
    using runsD [OF assms(2), of "pre @ a" "[op] @ post" "x # st"] by simp
  moreover have "run_loop m (pre @ (a @ b @ [op]) @ post) (length pre + length a + length b) (y # x # st)
      = pushed m (pre @ (a @ b @ [op]) @ post) (length pre + length (a @ b @ [op])) st (applied op x y)" for x y
    using run_binary [OF assms(3), of m "pre @ a @ b" post y x st] by (simp add: add.assoc)
  ultimately show "run_loop m (pre @ (a @ b @ [op]) @ post) (length pre) st
      = pushed m (pre @ (a @ b @ [op]) @ post) (length pre + length (a @ b @ [op])) st (binary_result op r s)"
    by (cases r; cases s) (simp_all add: pushed_def binary_result_def)
qed

lemma compile_correct:
  "compile_expr resolve known enum_members e = Inr prog \<Longrightarrow> runs m prog (machine_value m resolve known enum_members e)"
  "compile_args resolve known enum_members es = Inr prog \<Longrightarrow>
     run_loop m (pre @ prog @ post) (length pre) st
       = bindE (machine_values m resolve known enum_members es)
           (\<lambda>vs. run_loop m (pre @ prog @ post) (length pre + length prog) (rev vs @ st))"
proof (induction resolve known enum_members e and resolve known enum_members es arbitrary: prog and prog pre post st
    rule: compile_expr_compile_args.induct)
  case (1 resolve known enum_members literal s)
  then show ?case by (simp add: runs_push)
next
  case (2 resolve known enum_members s code)
  then show ?case by (simp add: runs_push)
next
  case (3 resolve known enum_members)
  then have "prog = [OP_REMAINING]" by (simp add: emit_def)
  then show ?case by (auto intro!: runsI run_remaining [simplified] simp: run_remaining [simplified])
next
  case (4 resolve known enum_members name)
  then show ?case by (auto intro!: runsI compile_name_run)
next
  case (5 resolve known enum_members b name)
  then show ?case by (auto intro!: runsI compile_name_run)
next
  case (6 resolve known enum_members b i)
  then show ?case by (auto intro!: runsI compile_name_run)
next
  case (7 resolve known enum_members op e)
  then obtain code where code: "compile_expr resolve known enum_members e = Inr code"
      "(case map_of PACK_UNARY op of None \<Rightarrow> Inl PackError | Some None \<Rightarrow> Inr code
        | Some (Some byte) \<Rightarrow> Inr (code @ [byte])) = (Inr prog :: pack_failure + bytes)"
    by auto
  show ?case using runs_unary [OF 7(1) [OF code(1)] code(2)] by (simp add: unary_result_def)
next
  case (8 resolve known enum_members op l r)
  then obtain byte a b where c: "map_of PACK_BINARY op = Some byte" "compile_expr resolve known enum_members l = Inr a"
      "compile_expr resolve known enum_members r = Inr b" "prog = a @ b @ [byte]"
    by (auto split: option.splits)
  show ?case using runs_binary [OF 8(1) [OF c(1,2)] 8(2) [OF c(1,3)] compile_ops(1) [OF c(1)]] c(1,4)
    by (simp add: binary_result_def applied_operator [OF c(1)])
next
  case (9 resolve known enum_members name args)
  show ?case
  proof (cases "map_of PATH_CALLS name")
    case (Some op)
    then have call: "compile_path_call op resolve args = Inr prog" using 9(3) by simp
    show ?thesis
    proof (rule runsI)
      fix pre post st
      obtain index where "resolved resolve (path_of (hd args)) = Some (index, 0)"
          "run_loop m (pre @ prog @ post) (length pre) st
            = pushed m (pre @ prog @ post) (length pre + length prog) st (path_loaded m op index)"
        using compile_path_call_run [OF call compile_ops(3) [OF Some]] by metis
      then show "run_loop m (pre @ prog @ post) (length pre) st = pushed m (pre @ prog @ post) (length pre + length prog) st
          (machine_value m resolve known enum_members (Call name args))"
        using path_loaded_value [OF Some] by simp
    qed
  next
    case None
    note builtin = no_path_call [OF None]
    obtain code op where code: "compile_args resolve known enum_members args = Inr code" "prog = code @ [op]"
        "name = ''popcount'' \<and> length args = 1 \<and> op = OP_POPCOUNT
         \<or> name \<noteq> ''popcount'' \<and> map_of VALUE_CALLS name = Some op \<and> length args = 2"
      using 9(3) None by (auto simp: VALUE_CALLS_def split: if_splits option.splits)
    have args: "\<And>pre post st. run_loop m (pre @ prog @ post) (length pre) st
      = bindE (machine_values m resolve known enum_members args)
          (\<lambda>vs. run_loop m (pre @ prog @ post) (length pre + length code) (rev vs @ st))"
      using 9 None code by (auto simp: append_assoc)
    have len: "length vs = length args" if "machine_values m resolve known enum_members args = Inr vs" for vs
      using that by (induction args arbitrary: vs) auto
    have "run_loop m (pre @ prog @ post) (length pre) st = pushed m (pre @ prog @ post) (length pre + length prog) st
        (machine_value m resolve known enum_members (Call name args))" for pre post st
    proof (cases "machine_values m resolve known enum_members args")
      case (Inl e)
      then show ?thesis using args builtin by (simp add: pushed_def)
    next
      case (Inr vs)
      from code(3) show ?thesis
      proof (elim disjE conjE)
        assume o: "name = ''popcount''" "length args = 1" "op = OP_POPCOUNT"
        then obtain v where "vs = [v]" using len [OF Inr] by (auto simp: length_Suc_conv)
        then show ?thesis using args Inr o builtin code(2) run_popcount [of m "pre @ code" post v st]
          by (simp add: pushed_def builtin_value_def)
      next
        assume o: "name \<noteq> ''popcount''" "map_of VALUE_CALLS name = Some op" "length args = 2"
        then obtain v w where "vs = [v, w]" using len [OF Inr] by (auto simp: length_Suc_conv numeral_2_eq_2)
        then show ?thesis using args Inr o builtin code(2) run_binary [OF compile_ops(2) [OF o(2)], of m "pre @ code" post w v st]
          by (simp add: pushed_def applied_builtin [OF o(2)])
      qed
    qed
    then show ?thesis by (rule runsI)
  qed
next
  case (12 resolve known enum_members e es)
  then obtain a b where c: "compile_expr resolve known enum_members e = Inr a"
      "compile_args resolve known enum_members es = Inr b" "prog = a @ b" by auto
  have l: "run_loop m (pre @ prog @ post) (length pre) st
      = pushed m (pre @ prog @ post) (length pre + length a) st (machine_value m resolve known enum_members e)"
    using runsD [OF 12(1) [OF c(1)], of pre "b @ post" st] c(3) by simp
  have r: "run_loop m (pre @ prog @ post) (length pre + length a) (x # st)
      = bindE (machine_values m resolve known enum_members es)
          (\<lambda>vs. run_loop m (pre @ prog @ post) (length pre + length prog) (rev vs @ x # st))" for x
    using 12(2) [OF c(2), of "pre @ a" post "x # st"] c(3) by (simp add: add.assoc)
  show ?case unfolding l
    by (cases "machine_value m resolve known enum_members e"; cases "machine_values m resolve known enum_members es")
      (simp_all add: pushed_def r)
qed auto

section \<open>Relations\<close>

text \<open>The value of a relation by its structure: every path loads from one of the two messages.\<close>

fun relation_value :: "machine \<Rightarrow> relation_resolver \<Rightarrow> expr \<Rightarrow> int loaded" where
  "relation_value m resolve (IntLiteral literal s) = Inr literal"
| "relation_value m resolve (CharLiteral s code) = Inr code"
| "relation_value m resolve (Unary op e) =
     bindE (relation_value m resolve e) (\<lambda>x. Inr (if op = ''-'' then - x else if op = ''~'' then not x else x))"
| "relation_value m resolve (Binary op l r) =
     bindE (relation_value m resolve l) (\<lambda>a.
     bindE (relation_value m resolve r) (\<lambda>b. operator_value op a b))"
| "relation_value m resolve e =
     (case (resolved resolve (path_of e), load_arg m) of
        (Some (arg, index), Some load) \<Rightarrow> load arg index
      | other \<Rightarrow> Inl VmError)"

lemma run_arg_field:
  assumes "resolved resolve (path_of e) = Some (arg, index)" "compile_arg_field resolve e = Inr prog"
  shows "run_loop m (pre @ prog @ post) (length pre) st
    = pushed m (pre @ prog @ post) (length pre + length prog) st
        (case load_arg m of None \<Rightarrow> Inl VmError | Some load \<Rightarrow> load arg index)"
proof -
  obtain bs where bs: "operand False 4 index = Inr bs" "prog = OP_ARG_FIELD # byte_of arg # bs" "0 \<le> arg" "arg \<le> 255"
    using assms by (auto simp: compile_arg_field_def split: if_splits)
  have i: "length bs = 4" "unpack False 4 (pre @ prog @ post) (length pre + 2) = Inr index"
    using operand_unpack(1) [OF bs(1)] operand_unpack(2) [OF bs(1), where pre = "pre @ [OP_ARG_FIELD, byte_of arg]" and post = post]
      bs(2) by simp_all
  have "uint (byte_of arg) = arg" using bs(3,4) by simp
  then have step: "vm_step m (pre @ prog @ post) (length pre) st
      = bindE (case load_arg m of None \<Rightarrow> Inl VmError | Some load \<Rightarrow> load arg index)
          (\<lambda>x. Inr (Inr (6 + length pre, x # st)))"
    using bs(2) i by (simp add: vm_step_def Let_def nth_append split: option.split)
  have "length pre + length prog = 6 + length pre" using bs(2) i(1) by simp
  then show ?thesis using run_loop_load [OF step] by (simp only:)
qed

lemma compile_arg_field_runs:
  assumes "compile_arg_field resolve e = Inr prog"
    and "relation_value m resolve e = (case (resolved resolve (path_of e), load_arg m) of
        (Some (arg, index), Some load) \<Rightarrow> load arg index | other \<Rightarrow> Inl VmError)"
  shows "runs m prog (relation_value m resolve e)"
proof -
  obtain arg index where r: "resolved resolve (path_of e) = Some (arg, index)"
    using assms(1) by (auto simp: compile_arg_field_def split: option.splits)
  show ?thesis
    by (rule runsI) (simp only: run_arg_field [OF r assms(1)] assms(2) r option.case prod.case; simp split: option.split)
qed

lemma compile_relation_correct:
  "compile_relation resolve e = Inr prog \<Longrightarrow> runs m prog (relation_value m resolve e)"
proof (induction resolve e arbitrary: prog rule: compile_relation.induct)
  case (5 resolve op e)
  then obtain code where code: "compile_relation resolve e = Inr code"
      "(case map_of PACK_UNARY op of None \<Rightarrow> Inl PackError | Some None \<Rightarrow> Inr code
        | Some (Some byte) \<Rightarrow> Inr (code @ [byte])) = (Inr prog :: pack_failure + bytes)"
    by auto
  show ?case using runs_unary [OF 5(1) [OF code(1)] code(2)] by (simp add: unary_result_def)
next
  case (6 resolve op l r)
  then obtain byte a b where c: "map_of PACK_BINARY op = Some byte" "compile_relation resolve l = Inr a"
      "compile_relation resolve r = Inr b" "prog = a @ b @ [byte]"
    by (auto split: option.splits)
  show ?case using runs_binary [OF 6(1) [OF c(1,2)] 6(2) [OF c(1,3)] compile_ops(1) [OF c(1)]] c(1,4)
    by (simp add: binary_result_def applied_operator [OF c(1)])
next
  case (3 resolve name)
  then have "compile_arg_field resolve (NameRef name) = Inr prog" by simp
  then show ?case by (rule compile_arg_field_runs) (rule relation_value.simps)
next
  case (4 resolve b name)
  then have "compile_arg_field resolve (Access b name) = Inr prog" by simp
  then show ?case by (rule compile_arg_field_runs) (rule relation_value.simps)
qed (auto intro: runs_push)

end
