(* ===== verification/Bytecode_Sound.thy ===== *)
theory Bytecode_Sound
  imports Bytecode Expr_Sound
begin

text \<open>
  The packed program of an expression against the expression's value: what the walker's machine
  answers is what \<open>ev\<close> says, whenever the image resolves names to the placements that hold them, and
  so lies in the interval the compiler accepted it with.
\<close>

section \<open>The program is the value by structure\<close>

lemma compiled_run:
  assumes "add_program resolve known enum_members e code = Inr (code', Some start)"
  shows "run m (code' @ later) start = machine_value m resolve known enum_members e"
proof -
  obtain prog where prog: "compile_expr resolve known enum_members e = Inr prog"
      "code' = code @ prog @ [OP_END]" "start = length code"
    using assms by (auto simp: add_program_def split: sum.splits pack_failure.splits)
  have last: "run_loop m (code @ prog @ [OP_END] @ later) (length code + length prog) [x] = Inr x" for x
    by (subst run_loop.simps) (simp add: vm_step_def nth_append)
  show ?thesis
    using runsD [OF compile_correct(1) [OF prog(1)], of m code "[OP_END] @ later" "[]"] last prog(2,3)
    by (cases "machine_value m resolve known enum_members e") (simp_all add: run_def pushed_def)
qed

text \<open>
  C2: Compiler correctness down to the bytes: where an expression's program is added to the shared
  buffer, whatever programs come before and after it there, running the machine from its start
  computes the expression operator by operator, each operator and builtin with the meaning \<open>expr.py\<close>
  gives its spelling (but a shift by an amount outside 0 to 63 is 0, and \<open>popcount\<close> counts the low 64
  bits), each of \<open>size\<close>, \<open>offset\<close>, \<open>count\<close> and \<open>sum\<close> the callback of that name, and each path the
  constant it spells, the load of the placement it resolves to, or the enum member; errors of
  the callbacks and of the operators included.
\<close>

theorem added_program_runs:
  assumes "add_program resolve known enum_members e code = Inr (code', Some start)"
  shows "run m (code' @ later) start = machine_value m resolve known enum_members e"
  by (rule compiled_run [OF assms])

section \<open>The image agrees with the schema\<close>

definition load_placement :: "machine \<Rightarrow> int \<times> int \<Rightarrow> int loaded" where
  "load_placement m found =
     (case found of (index, base) \<Rightarrow>
        if base \<noteq> 0 then (case load_field_in m of None \<Rightarrow> Inl VmError | Some load \<Rightarrow> load index base)
        else load_field m index)"

text \<open>
  The packer's two tables of compile-time names, from an environment and the constants written as an
  integer literal: those are asked before a path is resolved, all the others and the enum members
  where it resolves to nothing.
\<close>

definition pack_consts :: "string set \<Rightarrow> env \<Rightarrow> names" where
  "pack_consts literals env = filter (\<lambda>(name, v). name \<in> literals) (constants env)"

definition pack_members :: "string set \<Rightarrow> env \<Rightarrow> names" where
  "pack_members literals env =
     filter (\<lambda>(name, v). map_of (pack_consts literals env) name = None) (named_constants env)"

text \<open>The names of a schema's declarations are identifiers, and a dict has each key once.\<close>

definition declared_names :: "env \<Rightarrow> bool" where
  "declared_names env =
     (distinct (map fst (constants env)) \<and> distinct (map fst (enums env))
      \<and> list_all (\<lambda>(name, v). CHR ''.'' \<notin> set name) (constants env)
      \<and> list_all (\<lambda>(enum, members). CHR ''.'' \<notin> set enum \<and> distinct (map fst members)) (enums env))"

definition tables_agree :: "names \<Rightarrow> names \<Rightarrow> env \<Rightarrow> bool" where
  "tables_agree known enum_members env =
     ((\<forall>name v. map_of known name = Some v \<longrightarrow> map_of (constants env) name = Some v \<and> CHR ''.'' \<notin> set name)
      \<and> (\<forall>name v. map_of (constants env) name = Some v \<longrightarrow> map_of known name = None \<longrightarrow> map_of enum_members name = Some v)
      \<and> (\<forall>enum members member v. map_of (enums env) enum = Some members \<longrightarrow> map_of members member = Some v
           \<longrightarrow> map_of enum_members (enum @ ''.'' @ member) = Some v))"

lemma map_of_unique: "(k, v) \<in> set xs \<Longrightarrow> (\<And>v'. (k, v') \<in> set xs \<Longrightarrow> v' = v) \<Longrightarrow> map_of xs k = Some v"
  by (metis map_of_SomeD weak_map_of_SomeI)

lemma map_of_filter_key: "map_of (filter (\<lambda>(k, v). P k) xs) k = (if P k then map_of xs k else None)"
  by (induction xs) auto

lemma map_of_updated:
  "map_of (fold (\<lambda>(k, v) named. AList.update k v named) xs ys) = map_of (rev xs @ ys)"
  by (induction xs arbitrary: ys) (auto simp: AList.update_conv' map_of_append fun_eq_iff split: option.splits)

lemma dotted_eq:
  "CHR ''.'' \<notin> set a \<Longrightarrow> CHR ''.'' \<notin> set b \<Longrightarrow> a @ ''.'' @ x = b @ ''.'' @ y \<longleftrightarrow> a = b \<and> x = y"
proof (induction a arbitrary: b)
  case Nil
  then show ?case by (cases b) auto
next
  case (Cons c a)
  then show ?case by (cases b) auto
qed

text \<open>What \<open>pack\<close> hands the compiler is such a pair of tables.\<close>

lemma pack_tables_agree:
  assumes "declared_names env"
  shows "tables_agree (pack_consts literals env) (pack_members literals env) env"
proof -
  let ?known = "pack_consts literals env"
    and ?dotted = "concat (map (\<lambda>(enum, members). map (\<lambda>(member, v). (enum @ ''.'' @ member, v)) members) (enums env))"
  let ?entries = "rev ?dotted @ constants env"
  have dist: "distinct (map fst (constants env))" "distinct (map fst (enums env))"
    and dotless: "\<And>name v. (name, v) \<in> set (constants env) \<Longrightarrow> CHR ''.'' \<notin> set name"
    and enum: "\<And>enum ms. (enum, ms) \<in> set (enums env) \<Longrightarrow> CHR ''.'' \<notin> set enum \<and> distinct (map fst ms)"
    using assms by (auto simp: declared_names_def list_all_iff)
  have entries: "(k, v) \<in> set ?entries \<longleftrightarrow> (k, v) \<in> set (constants env)
      \<or> (\<exists>enum ms m. (enum, ms) \<in> set (enums env) \<and> (m, v) \<in> set ms \<and> k = enum @ ''.'' @ m)" for k v
    by auto force+
  have plain: "(name, v) \<in> set ?entries \<longleftrightarrow> (name, v) \<in> set (constants env)" if "CHR ''.'' \<notin> set name" for name v
    using that by (auto simp: entries)
  have known: "map_of ?known name = Some v \<Longrightarrow> (name, v) \<in> set (constants env)" for name v
    by (auto simp: pack_consts_def dest!: map_of_SomeD)
  have held: "map_of (pack_members literals env) k = Some v"
    if "(k, v) \<in> set ?entries" "map_of ?known k = None" "\<And>v'. (k, v') \<in> set ?entries \<Longrightarrow> v' = v" for k v
  proof -
    have "map_of (named_constants env) k = map_of ?entries k" by (simp add: named_constants_def map_of_updated)
    then show ?thesis using map_of_unique [OF that(1,3)] that(2) by (simp add: pack_members_def map_of_filter_key)
  qed
  show ?thesis
    unfolding tables_agree_def
  proof (intro conjI allI impI)
    fix name v
    assume "map_of ?known name = Some v"
    from known [OF this] show "map_of (constants env) name = Some v" "CHR ''.'' \<notin> set name"
      using dist(1) dotless by auto
  next
    fix name v
    assume c: "map_of (constants env) name = Some v" and "map_of ?known name = None"
    then show "map_of (pack_members literals env) name = Some v"
      using plain [OF dotless [OF map_of_SomeD [OF c]]] map_of_SomeD [OF c]
      by (intro held) (auto intro: eq_key_imp_eq_value [OF dist(1)])
  next
    fix e ms m v
    assume e: "map_of (enums env) e = Some ms" and m: "map_of ms m = Some v"
    have em: "(e, ms) \<in> set (enums env)" "(m, v) \<in> set ms" using e m by (auto dest: map_of_SomeD)
    have "(e @ ''.'' @ m, v) \<in> set ?entries" using em unfolding entries by blast
    moreover have "map_of ?known (e @ ''.'' @ m) = None"
      using known [of "e @ ''.'' @ m"] dotless [of "e @ ''.'' @ m"] by (cases "map_of ?known (e @ ''.'' @ m)") auto
    moreover have "v' = v" if dup: "(e @ ''.'' @ m, v') \<in> set ?entries" for v'
    proof -
      have "(e @ ''.'' @ m, v') \<notin> set (constants env)" using dotless [of "e @ ''.'' @ m" v'] by auto
      then obtain e' ms' m' where o: "(e', ms') \<in> set (enums env)" "(m', v') \<in> set ms'" "e @ ''.'' @ m = e' @ ''.'' @ m'"
        using dup unfolding entries by blast
      have "e' = e" "m' = m" using dotted_eq [of e e' m m'] enum [OF em(1)] enum [OF o(1)] o(3) by auto
      moreover have "ms' = ms" using o(1) e dist(2) \<open>e' = e\<close> by (metis map_of_is_SomeI option.inject)
      ultimately show ?thesis using o(2) m enum [OF em(1)] by (metis map_of_is_SomeI option.inject)
    qed
    ultimately show "map_of (pack_members literals env) (e @ ''.'' @ m) = Some v" by (rule held)
  qed
qed

text \<open>
  The image and the machine's callbacks against a message, on what an expression reads: each field it
  names resolves to a placement that loads the field; each enum member and each constant that is no
  literal resolves to none; the frame is the message's; and each \<open>size\<close>, \<open>offset\<close>, \<open>count\<close> and \<open>sum\<close>
  it asks is answered, with the solved layout's number or the message's sum.
\<close>

definition field_loads :: "machine \<Rightarrow> resolver \<Rightarrow> valuation \<Rightarrow> string \<Rightarrow> bool" where
  "field_loads m resolve w p =
     (case resolved resolve (Some p) of None \<Rightarrow> False | Some found \<Rightarrow> load_placement m found = Inr (field_at w p))"

definition call_answers :: "machine \<Rightarrow> resolver \<Rightarrow> env \<Rightarrow> valuation \<Rightarrow> string \<Rightarrow> expr \<Rightarrow> bool" where
  "call_answers m resolve env w name a =
     (case path_text a of
        None \<Rightarrow> True
      | Some p \<Rightarrow>
          (case resolved resolve (Some p) of
             None \<Rightarrow> True
           | Some (index, base) \<Rightarrow>
               if name = ''sum'' then path_value m name index = Inr (sum_at w [Some p])
               else (case layout env of
                  None \<Rightarrow> True
                | Some resolver \<Rightarrow>
                    (case resolver name p of None \<Rightarrow> True | Some v \<Rightarrow> path_value m name index = Inr v))))"

fun image_agrees :: "machine \<Rightarrow> resolver \<Rightarrow> names \<Rightarrow> env \<Rightarrow> valuation \<Rightarrow> expr \<Rightarrow> bool"
  and image_agrees_all :: "machine \<Rightarrow> resolver \<Rightarrow> names \<Rightarrow> env \<Rightarrow> valuation \<Rightarrow> expr list \<Rightarrow> bool" where
  "image_agrees m resolve known env w (NameRef n) =
     (case map_of (constants env) n of
        Some v \<Rightarrow> map_of known n \<noteq> None \<or> resolved resolve (Some n) = None
      | None \<Rightarrow> map_of (known_fields env) n \<noteq> None \<longrightarrow> field_loads m resolve w n)"
| "image_agrees m resolve known env w (Access b n) =
     (case path_text (Access b n) of
        None \<Rightarrow> True
      | Some p \<Rightarrow> if map_of (known_fields env) p \<noteq> None then field_loads m resolve w p else resolved resolve (Some p) = None)"
| "image_agrees m resolve known env w (Unary op e) = image_agrees m resolve known env w e"
| "image_agrees m resolve known env w (Binary op l r) =
     (image_agrees m resolve known env w l \<and> image_agrees m resolve known env w r)"
| "image_agrees m resolve known env w (Call name args) =
     (if name \<in> {''size'', ''offset'', ''count'', ''sum''} then list_all (call_answers m resolve env w name) args
      else image_agrees_all m resolve known env w args)"
| "image_agrees m resolve known env w Remaining = (remaining m = Inr (remaining_at w))"
| "image_agrees m resolve known env w e = True"
| "image_agrees_all m resolve known env w [] = True"
| "image_agrees_all m resolve known env w (e # es) =
     (image_agrees m resolve known env w e \<and> image_agrees_all m resolve known env w es)"

text \<open>
  The expressions on which the machine's 64-bit limits and the packer's paths do not show: shifts by
  less than 64, \<open>popcount\<close> of a number below \<open>2^64\<close>, no subscript inside a path.
\<close>

fun plain :: "expr \<Rightarrow> bool" where
  "plain (Access b name) = plain b"
| "plain (Index b index) = False"
| "plain e = True"

fun in_machine_range :: "env \<Rightarrow> valuation \<Rightarrow> expr \<Rightarrow> bool"
  and all_in_machine_range :: "env \<Rightarrow> valuation \<Rightarrow> expr list \<Rightarrow> bool" where
  "in_machine_range env w (Access b name) = plain b"
| "in_machine_range env w (Unary op e) = in_machine_range env w e"
| "in_machine_range env w (Binary op l r) =
     (in_machine_range env w l \<and> in_machine_range env w r
      \<and> (op \<in> {''<<'', ''>>''} \<longrightarrow> (case ev env w r of Some b \<Rightarrow> b < 64 | None \<Rightarrow> True)))"
| "in_machine_range env w (Call name args) =
     (if name \<in> {''size'', ''offset'', ''count'', ''sum''} then list_all plain args
      else all_in_machine_range env w args
        \<and> (name = ''popcount'' \<longrightarrow> (case evs env w args of Some [x] \<Rightarrow> 0 \<le> x \<and> x < 2 ^ 64 | _ \<Rightarrow> True)))"
| "in_machine_range env w e = True"
| "all_in_machine_range env w [] = True"
| "all_in_machine_range env w (e # es) = (in_machine_range env w e \<and> all_in_machine_range env w es)"

lemma plain_path: "plain e \<Longrightarrow> path_text e = path_of e"
  by (induction e rule: plain.induct) (auto split: option.splits)

section \<open>The machine's operators are the compiler's\<close>

lemma operator_ev:
  assumes "map_of BINARY_OPS op = Some f" "f a b = Some x" "op \<in> {''<<'', ''>>''} \<longrightarrow> b < 64"
  shows "operator_value op a b = Inr x"
proof -
  have "op \<in> {''<<'', ''>>''} \<longrightarrow> 0 \<le> b"
  proof
    assume "op \<in> {''<<'', ''>>''}"
    then show "0 \<le> b" using assms(1,2) by (auto simp: BINARY_OPS_def split: if_splits)
  qed
  then show ?thesis using assms by (auto simp: operator_value_def)
qed

lemma popcount_masked: "0 \<le> x \<Longrightarrow> x < 2 ^ 64 \<Longrightarrow> and x (push_bit 64 1 - 1) = (x::int)"
  using int_and_mask [of x 64] by (simp add: push_bit_eq_mult)

section \<open>The machine computes the value\<close>

lemma field_loaded:
  assumes "map_of known p = None" "field_loads m resolve w p" "path_of e = Some p"
  shows "name_loaded m resolve known enum_members e = Inr (field_at w p)"
  using assms
  by (auto simp: field_loads_def name_loaded_def folded_name_def load_placement_def split: option.splits prod.splits)

lemma member_loaded:
  assumes "map_of known p = None" "resolved resolve (Some p) = None" "map_of enum_members p = Some v" "path_of e = Some p"
  shows "name_loaded m resolve known enum_members e = Inr v"
  using assms by (simp add: name_loaded_def folded_name_def)

lemma name_loaded_ev:
  assumes t: "tables_agree known enum_members env" and ag: "image_agrees m resolve known env w (NameRef n)"
    and v: "ev env w (NameRef n) = Some x"
  shows "name_loaded m resolve known enum_members (NameRef n) = Inr x"
proof (cases "map_of (constants env) n")
  case (Some c)
  then have c: "x = c" using v by simp
  show ?thesis
  proof (cases "map_of known n")
    case None
    then have "map_of enum_members n = Some c" using t Some by (simp add: tables_agree_def)
    then show ?thesis using None Some ag c by (intro member_loaded) simp_all
  next
    case (Some k)
    then have "map_of (constants env) n = Some k" using t by (simp add: tables_agree_def)
    then show ?thesis using Some c \<open>map_of (constants env) n = Some c\<close> by (simp add: name_loaded_def folded_name_def)
  qed
next
  case None
  then have "map_of known n = None" using t by (cases "map_of known n") (simp_all add: tables_agree_def)
  moreover have "field_loads m resolve w n" "x = field_at w n" using None v ag by (auto split: option.splits)
  ultimately show ?thesis by (simp add: field_loaded)
qed

lemma name_loaded_access:
  assumes t: "tables_agree known enum_members env" and ag: "image_agrees m resolve known env w (Access b n)"
    and v: "ev env w (Access b n) = Some x" and b: "plain b"
  shows "name_loaded m resolve known enum_members (Access b n) = Inr x"
proof (cases "path_text (Access b n)")
  case None
  then have "path_text b = None" by (auto split: option.splits)
  then show ?thesis using v by (auto simp: access_value_def split: expr.splits)
next
  case (Some p)
  then have p: "path_of (Access b n) = Some p" using plain_path [of "Access b n"] b by simp
  have "CHR ''.'' \<in> set p" using Some by (auto split: option.splits)
  then have k: "map_of known p = None" using t by (cases "map_of known p") (auto simp: tables_agree_def)
  show ?thesis
  proof (cases "map_of (known_fields env) p")
    case (Some i)
    then have "x = field_at w p" "field_loads m resolve w p"
      using v ag \<open>path_text (Access b n) = Some p\<close> by (simp_all del: path_text.simps)
    then show ?thesis using field_loaded [OF k _ p] by simp
  next
    case None
    then have "access_value b n env = Inr x" and r: "resolved resolve (Some p) = None"
      using v ag \<open>path_text (Access b n) = Some p\<close> by (simp_all del: path_text.simps)
    then obtain enum members where e: "b = NameRef enum" "map_of (enums env) enum = Some members" "map_of members n = Some x"
      by (auto simp: access_value_def split: expr.splits option.splits)
    then have "p = enum @ ''.'' @ n" using Some by simp
    then have "map_of enum_members p = Some x" using t e(2,3) unfolding tables_agree_def by blast
    then show ?thesis by (rule member_loaded [OF k r _ p])
  qed
qed

lemma path_call_loaded:
  assumes v: "ev env w (Call name args) = Some x" and op: "map_of PATH_CALLS name = Some byte"
    and c: "compile_path_call byte resolve args = Inr prog" and p: "list_all plain args"
    and ag: "list_all (call_answers m resolve env w name) args"
  shows "machine_value m resolve known enum_members (Call name args) = Inr x"
proof -
  note name = path_loaded_value(1) [OF op]
  obtain a where a: "args = [a]" using c by (auto simp: compile_path_call_def length_Suc_conv split: if_splits)
  obtain index where i: "resolved resolve (path_of a) = Some (index, 0)"
    using c a by (auto simp: compile_path_call_def split: option.splits if_splits)
  obtain q where q: "path_of a = Some q" using i by (cases "path_of a") (auto simp: resolved_def)
  have pt: "path_text a = Some q" using plain_path [of a] p a q by simp
  have "path_value m name index = Inr x"
  proof (cases "name = ''sum''")
    case True
    then show ?thesis using v a pt ag i q by (simp add: call_answers_def)
  next
    case False
    then have "layout_call name [a] env = Inr x" using v a name
      by (auto simp: VALUE_BUILTINS_def LAYOUT_BUILTINS_def call_value_def check_arity_def)
    then obtain resolver where "layout env = Some resolver" "resolver name q = Some x"
      using pt by (auto simp: layout_call_def split: option.splits)
    then show ?thesis using ag False a pt i q by (simp add: call_answers_def)
  qed
  then show ?thesis using name i a q by auto
qed

lemma value_call_loaded:
  assumes v: "ev env w (Call name args) = Some x" and n: "map_of PATH_CALLS name = None"
    and c: "compile_expr resolve known enum_members (Call name args) = Inr prog"
    and vs: "\<And>vs. evs env w args = Some vs \<Longrightarrow> machine_values m resolve known enum_members args = Inr vs"
    and r: "in_machine_range env w (Call name args)"
  shows "machine_value m resolve known enum_members (Call name args) = Inr x"
proof -
  note path = no_path_call [OF n]
  have "name = ''popcount'' \<or> (\<exists>byte. map_of VALUE_CALLS name = Some byte)"
    using c n by (auto split: if_splits option.splits)
  then have "map_of VALUE_BUILTINS name \<noteq> None" by (auto simp: VALUE_CALLS_def VALUE_BUILTINS_def split: if_splits)
  then obtain expected vs where e: "map_of VALUE_BUILTINS name = Some expected" "evs env w args = Some vs"
      "length args = expected" "value_call name vs = Inr x"
    using v path by (auto split: option.splits if_splits)
  have "builtin_value name vs = Inr x"
  proof (cases "name = ''popcount''")
    case True
    have "length vs = length args" using e(2) by (induction args arbitrary: vs) (auto split: option.splits)
    then obtain y where y: "vs = [y]" using e(1,3) True by (cases vs) (auto simp: VALUE_BUILTINS_def)
    then have "0 \<le> y" "y < 2 ^ 64" using r True e(2) by auto
    then show ?thesis using True y e(4) popcount_masked by (simp add: builtin_value_def value_call_def)
  qed (use e(4) in \<open>simp add: builtin_value_def\<close>)
  then show ?thesis using vs [OF e(2)] path by simp
qed

lemma machine_value_ev:
  "compile_expr resolve known enum_members e = Inr prog \<Longrightarrow> tables_agree known enum_members env \<Longrightarrow>
     image_agrees m resolve known env w e \<Longrightarrow> in_machine_range env w e \<Longrightarrow> ev env w e = Some x \<Longrightarrow>
     machine_value m resolve known enum_members e = Inr x"
  "compile_args resolve known enum_members es = Inr prog \<Longrightarrow> tables_agree known enum_members env \<Longrightarrow>
     image_agrees_all m resolve known env w es \<Longrightarrow> all_in_machine_range env w es \<Longrightarrow> evs env w es = Some xs \<Longrightarrow>
     machine_values m resolve known enum_members es = Inr xs"
proof (induction resolve known enum_members e and resolve known enum_members es arbitrary: prog x and prog xs
    rule: compile_expr_compile_args.induct)
  case (4 resolve known enum_members name)
  then show ?case using name_loaded_ev by simp
next
  case (5 resolve known enum_members b name)
  then show ?case using name_loaded_access [OF 5(2,3,5)] by simp
next
  case (7 resolve known enum_members op e)
  then obtain code y where c: "compile_expr resolve known enum_members e = Inr code" "ev env w e = Some y"
    by (auto split: option.splits)
  then have "machine_value m resolve known enum_members e = Inr y" using 7 by simp
  then show ?case using 7(2,6) c(2)
    by (auto simp: UNARY_OPS_def PACK_UNARY_def split: if_splits)
next
  case (8 resolve known enum_members op l r)
  then obtain byte f cl cr a b where o: "map_of PACK_BINARY op = Some byte" "map_of BINARY_OPS op = Some f" "f a b = Some x"
      "compile_expr resolve known enum_members l = Inr cl" "compile_expr resolve known enum_members r = Inr cr"
      "ev env w l = Some a" "ev env w r = Some b"
    by (auto split: option.splits)
  have "op \<in> {''<<'', ''>>''} \<longrightarrow> b < 64" using 8(6) o(7) by auto
  then have "operator_value op a b = Inr x" by (rule operator_ev [OF o(2,3)])
  moreover have "machine_value m resolve known enum_members l = Inr a"
    by (rule 8(1) [OF o(1) o(4) 8(4) _ _ o(6)]) (use 8(5,6) in simp_all)
  moreover have "machine_value m resolve known enum_members r = Inr b"
    by (rule 8(2) [OF o(1) o(5) 8(4) _ _ o(7)]) (use 8(5,6) in simp_all)
  ultimately show ?case by simp
next
  case (9 resolve known enum_members name args)
  show ?case
  proof (cases "map_of PATH_CALLS name")
    case (Some byte)
    note name = path_loaded_value(1) [OF Some]
    have "compile_path_call byte resolve args = Inr prog" using 9(3) Some by simp
    moreover have "list_all plain args" "list_all (call_answers m resolve env w name) args"
      using 9(5,6) name by (simp_all only: image_agrees.simps in_machine_range.simps if_True)
    ultimately show ?thesis by (rule path_call_loaded [OF 9(7) Some])
  next
    case None
    note name = no_path_call [OF None]
    have r: "image_agrees_all m resolve known env w args" "all_in_machine_range env w args"
      using 9(5,6) name by (simp_all only: image_agrees.simps in_machine_range.simps if_False)
    have "machine_values m resolve known enum_members args = Inr vs" if "evs env w args = Some vs" for vs
      using 9(1,2,3,4) None r that by (auto split: if_splits option.splits)
    then show ?thesis by (rule value_call_loaded [OF 9(7) None 9(3) _ 9(6)])
  qed
next
  case (12 resolve known enum_members e es)
  then show ?case by (auto split: option.splits)
qed (auto split: option.splits)

section \<open>End to end\<close>

text \<open>
  C1: An accepted expression, packed and walked.  Let \<open>interval_of\<close> accept an expression whose paths
  carry no subscript and whose unary operators are the parser's, in a schema whose names are
  identifiers declared once, and let its program be packed over the packer's own tables.  Let the message
  keep the declared ranges, with alignments that are positive in it, shift amounts below 64 and
  \<open>popcount\<close> taken of numbers from 0 below \<open>2^64\<close>; let no path inside an argument of \<open>min\<close>, \<open>max\<close>,
  \<open>align_up\<close> or \<open>popcount\<close> spell both a field and an enum member; and let the image answer what the
  expression reads: the fields it names load, its enum members and computed constants resolve to no
  placement, and the \<open>size\<close>, \<open>offset\<close>, \<open>count\<close> and \<open>sum\<close> calls in it are answered.  Then the walker's
  machine answers a number, that number is the expression's value, and it lies inside the interval
  the compiler accepted.
\<close>

theorem packed_expression_sound:
  assumes "interval_of e env = Inr i" and "declared_names env"
    and "add_program resolve (pack_consts literals env) (pack_members literals env) e code = Inr (code', Some start)"
    and "admits env w" "unshadowed False env e" "proper env w e" "in_machine_range env w e"
    and "image_agrees m resolve (pack_consts literals env) env w e"
  shows "\<exists>x. run m (code' @ later) start = Inr x \<and> ev env w e = Some x \<and> mem x i"
proof -
  let ?known = "pack_consts literals env" and ?members = "pack_members literals env"
  obtain x where x: "ev env w e = Some x" "mem x i"
    using interval_of_covers(1) [OF assms(1,4,5)] assms(6) by (auto simp: covers_def)
  obtain prog where "compile_expr resolve ?known ?members e = Inr prog"
    using assms(3) by (auto simp: add_program_def split: sum.splits pack_failure.splits)
  then have "machine_value m resolve ?known ?members e = Inr x"
    using machine_value_ev(1) pack_tables_agree [OF assms(2)] assms(7,8) x(1) by blast
  then have "run m (code' @ later) start = Inr x"
    using compiled_run [OF assms(3)] by simp
  then show ?thesis using x by blast
qed

text \<open>The padding expression of \<open>Expr_Sound\<close>, behind another program in the buffer: \<open>n\<close> is placement 3,
  \<open>k\<close> placement 4 of a struct nested at byte 6.\<close>

definition example_resolver :: resolver where
  "example_resolver p = (if p = ''n'' then Some (3, 0) else if p = ''k'' then Some (4, 6) else None)"

definition example_machine :: machine where
  "example_machine = no_machine\<lparr>load_field := (\<lambda>i. if i = 3 then Inr 13 else Inl Raised),
     load_field_in := Some (\<lambda>i base. if i = 4 \<and> base = 6 then Inr 1 else Inl Raised),
     remaining := Inr 0, sum_of := Some (\<lambda>i. Inr 0)\<rparr>"

definition example_code :: bytes where
  "example_code = [OP_REMAINING, OP_END]"

theorem packed_expression_sound_witness:
  "\<exists>code' start x. add_program example_resolver [(''four'', 4)] [] example_expr example_code = Inr (code', Some start)
     \<and> run example_machine (code' @ [0xFF]) start = Inr x \<and> ev example_env example_message example_expr = Some x
     \<and> mem x (Interval 0 (Some 10))"
proof -
  have tables: "pack_consts {''four''} example_env = [(''four'', 4)]" "pack_members {''four''} example_env = []"
    by code_simp+
  let ?add = "add_program example_resolver [(''four'', 4)] [] example_expr example_code"
  have "case ?add of Inr (c, Some s) \<Rightarrow> s = 2 | other \<Rightarrow> False" by code_simp
  then obtain code' where a: "?add = Inr (code', Some 2)"
    by (cases ?add) (auto split: option.splits prod.splits)
  have "declared_names example_env" "in_machine_range example_env example_message example_expr"
    "image_agrees example_machine example_resolver [(''four'', 4)] example_env example_message example_expr"
    by code_simp+
  from packed_expression_sound [OF example_facts(1) this(1), where literals = "{''four''}", unfolded tables,
      OF a example_facts(2,3,5) this(2,3)]
  show ?thesis using a by blast
qed

theorem added_program_runs_witness:
  "run no_machine ([OP_REMAINING, OP_END, OP_REMAINING, OP_NEG, OP_END] @ [0]) 2 = Inr (- 9)"
proof -
  have "add_program example_resolver [] [] (Unary ''-'' Remaining) example_code
      = Inr ([OP_REMAINING, OP_END, OP_REMAINING, OP_NEG, OP_END], Some 2)" by code_simp
  from added_program_runs [OF this, of no_machine "[0]"] show ?thesis by (simp add: no_machine_def)
qed

text \<open>Where the limits show: a constant shift by exactly 64 is accepted and folded as a number, and the
  walker answers zero.\<close>

lemma shift_by_64_differs:
  shows "evaluate (Binary ''<<'' (IntLiteral a s) (IntLiteral 64 t)) env = Inr (a * 2 ^ 64)"
    and "machine_value m resolve known enum_members (Binary ''<<'' (IntLiteral a s) (IntLiteral 64 t)) = Inr 0"
  by (simp_all add: binary_value_def guard_binary_def run_op_def BINARY_OPS_def push_bit_eq_mult operator_value_def)

text \<open>A literal outside the operand's 64 signed bits is no \<open>PackError\<close>: the packer raises \<open>struct.error\<close>.\<close>

lemma wide_literal_escapes:
  "2 ^ 63 \<le> literal \<Longrightarrow> add_program resolve known enum_members (IntLiteral literal s) code = Inl EncodeError"
  by (simp add: add_program_def emit_with_def operand_def)

end
