(* ===== verification/Checksum.thy ===== *)
theory Checksum
  imports Kernel_Math
begin

text \<open>
  A derived checksum from schema to value: the kernel row \<open>situc/pack.py\<close> packs into an image
  (\<open>_kernel_row\<close>, the kernel-table section) and \<open>walker/derived.py\<close>, which computes the checksum
  from the row.  The image is what \<open>walker/image.py\<close> reads back of it: tags, kernels and tables.
\<close>

section \<open>Packing a kernel\<close>

definition NONE :: int where "NONE = 0xFFFFFFFF"
definition KERNEL_NONE :: int where "KERNEL_NONE = 0"
definition KERNEL_POLYNOMIAL :: int where "KERNEL_POLYNOMIAL = 1"
definition KERNEL_ONES_COMPLEMENT :: int where "KERNEL_ONES_COMPLEMENT = 2"
definition KERNEL_BYTE_SUM :: int where "KERNEL_BYTE_SUM = 3"

record kernel_row =
  row_family :: int
  row_width :: int
  row_start :: int
  row_xorout :: int
  row_table :: int
  row_shift :: int
  row_reflect :: int

datatype pack_error = StructError | NegativeShiftCount

definition is_u32 :: "int \<Rightarrow> bool" where
  "is_u32 x = (0 \<le> x \<and> x < 2 ^ 32)"

text \<open>\<open>struct.pack\<close> of \<open><IIIII\<close> and \<open><ii\<close>: a number out of its field's range is \<open>struct.error\<close>.\<close>

definition pack_row :: "int \<Rightarrow> int \<Rightarrow> int \<Rightarrow> int \<Rightarrow> int \<Rightarrow> int \<Rightarrow> int \<Rightarrow> pack_error + kernel_row" where
  "pack_row fam width start xorout at shift reflect =
     (if is_u32 fam \<and> is_u32 width \<and> is_u32 start \<and> is_u32 xorout \<and> is_u32 at
         \<and> - (2 ^ 31) \<le> shift \<and> shift < 2 ^ 31 \<and> - (2 ^ 31) \<le> reflect \<and> reflect < 2 ^ 31
      then Inr \<lparr>row_family = fam, row_width = width, row_start = start, row_xorout = xorout,
                 row_table = at, row_shift = shift, row_reflect = reflect\<rparr>
      else Inl StructError)"

definition no_kernel :: "pack_error + kernel_row" where
  "no_kernel = pack_row KERNEL_NONE 0 0 0 NONE 0 0"

text \<open>\<open>_kernel_row\<close>: the row, and the tables with this kernel's own appended.  The kernel is None for
  a codec that has none.\<close>

definition kernel_row_of :: "kernel_decl option \<Rightarrow> int list list \<Rightarrow> pack_error + kernel_row \<times> int list list" where
  "kernel_row_of decl tables =
     (case decl of None \<Rightarrow> bindE no_kernel (\<lambda>r. Inr (r, tables))
      | Some k \<Rightarrow>
          if family k = POLYNOMIAL then
            (case crc_width k of
               None \<Rightarrow> bindE no_kernel (\<lambda>r. Inr (r, tables))
             | Some width \<Rightarrow>
                 let poly = number k ''poly''; reflect = flag k ''reflect'' in
                 if poly = 0 then bindE no_kernel (\<lambda>r. Inr (r, tables))
                 else case crc_init k of
                   None \<Rightarrow> Inl NegativeShiftCount
                 | Some init \<Rightarrow>
                     bindE (pack_row KERNEL_POLYNOMIAL (int width) (crc_start init width reflect)
                              (number k ''xorout'') (int (length tables)) (int (crc_shift width reflect)) (of_bool reflect))
                       (\<lambda>r. Inr (r, tables @ [crc_table width poly reflect])))
          else if family k = ONES_COMPLEMENT then
            (let width = (case crc_width k of Some w \<Rightarrow> w | None \<Rightarrow> 16) in
             bindE (pack_row KERNEL_ONES_COMPLEMENT (int width) 0
                      (if flag k ''complement'' then push_bit width 1 - 1 else 0) NONE 0
                      (of_bool (flag k ''zero_means_none'')))
               (\<lambda>r. Inr (r, tables)))
          else if family k = BYTE_SUM then
            bindE (pack_row KERNEL_BYTE_SUM (number k ''width'') 0 0 NONE 0 (of_bool (flag k ''negate'')))
              (\<lambda>r. Inr (r, tables))
          else bindE no_kernel (\<lambda>r. Inr (r, tables)))"

text \<open>The kernel-table section: every entry as a \<open>u32\<close>.\<close>

definition pack_tables :: "int list list \<Rightarrow> pack_error + int list list" where
  "pack_tables tables =
     (if \<forall>t\<in>set tables. \<forall>x\<in>set t. is_u32 x then Inr tables else Inl StructError)"

section \<open>Computing a checksum from an image\<close>

record tag =
  tag_codec :: int
  tag_first :: int
  tag_last :: int
  tag_fill :: int
  tag_prefix :: int
  tag_endian :: int

record image =
  tags :: "int \<Rightarrow> tag option"
  kernels :: "int \<Rightarrow> kernel_row option"
  kernel_tables :: "int list list"

datatype uncomputable =
    NoCodec | NoKernel | HasPrefix | FillUnstated | HoleUnstated | HoleOutside
  | NoTable | NotSixteenBits | UnknownFamily | Crash

definition computes :: "'a image_scheme \<Rightarrow> int \<Rightarrow> bool" where
  "computes img t =
     (case tags img t of None \<Rightarrow> False
      | Some held \<Rightarrow> tag_codec held \<noteq> NONE \<and>
          (case kernels img (tag_codec held) of None \<Rightarrow> False | Some k \<Rightarrow> row_family k \<noteq> KERNEL_NONE))"

definition filled :: "bytes \<Rightarrow> int \<times> int \<Rightarrow> int \<Rightarrow> uncomputable + bytes" where
  "filled covered hole fill =
     (case hole of (at, span) \<Rightarrow>
        if at < 0 \<or> span < 0 \<or> int (length covered) < at + span then Inl HoleOutside
        else if fill < 0 \<or> 255 < fill then Inl Crash
        else Inr (take (nat at) covered @ replicate (nat span) (byte_of fill) @ drop (nat (at + span)) covered))"

definition table_at :: "int list \<Rightarrow> int \<Rightarrow> uncomputable + int" where
  "table_at table i = (if 0 \<le> i \<and> i < int (length table) then Inr (table ! nat i) else Inl Crash)"

text \<open>One byte, in whichever of the three directions the code runs.\<close>

definition poly_byte :: "kernel_row \<Rightarrow> int list \<Rightarrow> int \<Rightarrow> int \<Rightarrow> byte \<Rightarrow> uncomputable + int" where
  "poly_byte k table wmask crc b =
     (if row_reflect k \<noteq> 0 then
        bindE (table_at table (and (xor crc (uint b)) 0xFF)) (\<lambda>t. Inr (and (xor t (drop_bit 8 crc)) wmask))
      else if row_shift k \<noteq> 0 then table_at table (xor crc (uint b))
      else if row_width k < 8 then Inl Crash
      else bindE (table_at table (and (xor (drop_bit (nat (row_width k - 8)) crc) (uint b)) 0xFF))
             (\<lambda>t. Inr (and (xor t (push_bit 8 crc)) wmask)))"

fun poly_loop :: "kernel_row \<Rightarrow> int list \<Rightarrow> int \<Rightarrow> int \<Rightarrow> bytes \<Rightarrow> uncomputable + int" where
  "poly_loop k table wmask crc [] = Inr crc"
| "poly_loop k table wmask crc (b # bs) =
     bindE (poly_byte k table wmask crc b) (\<lambda>crc. poly_loop k table wmask crc bs)"

definition polynomial :: "'a image_scheme \<Rightarrow> kernel_row \<Rightarrow> bytes \<Rightarrow> uncomputable + int" where
  "polynomial img k covered =
     (if row_table k = NONE \<or> int (length (kernel_tables img)) \<le> row_table k then Inl NoTable
      else
        let table = kernel_tables img ! nat (row_table k);
            wmask = (if row_shift k = 0 then push_bit (nat (row_width k)) 1 - 1 else 0xFF) in
        bindE (poly_loop k table wmask (row_start k) covered) (\<lambda>crc.
          if row_shift k < 0 then Inl Crash
          else let held = (if row_shift k \<noteq> 0 then drop_bit (nat (row_shift k)) crc else crc) in
            Inr (and (xor held (row_xorout k)) (push_bit (nat (row_width k)) 1 - 1))))"

definition byte_sum :: "kernel_row \<Rightarrow> bytes \<Rightarrow> int" where
  "byte_sum k covered =
     (let acc = sum_list (map uint covered) in
      and (if row_reflect k \<noteq> 0 then - acc else acc) (push_bit (nat (row_width k)) 1 - 1))"

text \<open>The sum over sixteen-bit words, an odd last byte the high half of one.\<close>

fun word_sum :: "bytes \<Rightarrow> nat" where
  "word_sum [] = 0"
| "word_sum [a] = push_bit 8 (unat a)"
| "word_sum (a # b # rest) = or (push_bit 8 (unat a)) (unat b) + word_sum rest"

lemma and_FFFF_nat: "and acc 0xFFFF = acc mod (65536::nat)"
  using take_bit_eq_mask [of 16 acc] by (simp add: take_bit_eq_mod mask_eq_exp_minus_1)

function carry_around :: "nat \<Rightarrow> nat" where
  "carry_around acc = (if drop_bit 16 acc \<noteq> 0 then carry_around (and acc 0xFFFF + drop_bit 16 acc) else acc)"
  by auto

termination
proof (relation "measure id")
  fix acc :: nat
  assume "drop_bit 16 acc \<noteq> 0"
  then have "0 < acc div 65536" by (simp add: drop_bit_eq_div)
  then have "acc mod 65536 + acc div 65536 < acc mod 65536 + 65536 * (acc div 65536)" by linarith
  then show "(and acc 0xFFFF + drop_bit 16 acc, acc) \<in> measure id"
    by (simp add: and_FFFF_nat drop_bit_eq_div)
qed simp

declare carry_around.simps [simp del]

definition ones_complement :: "kernel_row \<Rightarrow> bytes \<Rightarrow> uncomputable + int" where
  "ones_complement k covered =
     (if row_width k \<noteq> 16 then Inl NotSixteenBits
      else let acc = and (xor (int (carry_around (word_sum covered))) (row_xorout k)) 0xFFFF in
        if row_reflect k \<noteq> 0 \<and> acc = 0 then Inr 0xFFFF else Inr acc)"

definition compute_kernel :: "'a image_scheme \<Rightarrow> kernel_row \<Rightarrow> bytes \<Rightarrow> uncomputable + int" where
  "compute_kernel img k covered =
     (if row_family k = KERNEL_POLYNOMIAL then polynomial img k covered
      else if row_family k = KERNEL_ONES_COMPLEMENT then ones_complement k covered
      else if row_family k = KERNEL_BYTE_SUM then Inr (byte_sum k covered)
      else Inl UnknownFamily)"

definition compute :: "'a image_scheme \<Rightarrow> int \<Rightarrow> bytes \<Rightarrow> (int \<times> int) option \<Rightarrow> uncomputable + int" where
  "compute img t covered hole =
     (case tags img t of None \<Rightarrow> Inl NoCodec
      | Some held \<Rightarrow>
          if tag_codec held = NONE then Inl NoCodec
          else case kernels img (tag_codec held) of None \<Rightarrow> Inl NoKernel
          | Some k \<Rightarrow>
              if row_family k = KERNEL_NONE then Inl NoKernel
              else if tag_prefix held \<noteq> 0 then Inl HasPrefix
              else if tag_fill held = NONE \<and> hole \<noteq> None then Inl FillUnstated
              else bindE (if tag_fill held = NONE then Inr covered
                          else case hole of None \<Rightarrow> Inl HoleUnstated
                          | Some h \<Rightarrow> filled covered h (tag_fill held))
                     (\<lambda>covered. compute_kernel img k covered))"

section \<open>The table loop is the serial register\<close>

definition polynomial_row :: "nat \<Rightarrow> int \<Rightarrow> int \<Rightarrow> bool \<Rightarrow> int \<Rightarrow> int \<Rightarrow> kernel_row \<Rightarrow> bool" where
  "polynomial_row w poly init reflect xorout at k =
     (k = \<lparr>row_family = KERNEL_POLYNOMIAL, row_width = int w, row_start = crc_start init w reflect,
           row_xorout = xorout, row_table = at, row_shift = int (crc_shift w reflect), row_reflect = of_bool reflect\<rparr>)"

lemma length_crc_table [simp]: "length (crc_table w p r) = 256"
  by (simp add: crc_table_def)

lemma table_at_byte: "in_width 8 i \<Longrightarrow> length t = 256 \<Longrightarrow> table_at t i = Inr (t ! nat i)"
  by (auto simp: table_at_def in_width_def)

lemma in_width_and_FF: "in_width 8 (and x 0xFF)"
  unfolding and_FF by (rule in_width_take)

lemma mask_literal: "2 ^ w - 1 = mask_of w" "(0xFF::int) = mask_of 8"
  by (simp_all add: mask_of_def push_bit_eq_mult)

lemma poly_loop_reflected:
  assumes "0 < w" "row_reflect k \<noteq> 0"
  shows "in_width w c \<Longrightarrow> poly_loop k (crc_table w p True) (mask_of w) c bs
    = Inr (foldl (mirror_step (reverse_bits p w)) c (concat (map (bits_of True) bs)))"
proof (induction bs arbitrary: c)
  case (Cons b bs)
  have "poly_byte k (crc_table w p True) (mask_of w) c b = Inr (foldl (mirror_step (reverse_bits p w)) c (bits_of True b))"
    using assms reflected_table_byte [OF assms(1) Cons.prems, of p b]
    by (simp add: poly_byte_def table_at_byte in_width_and_FF)
  then show ?case using Cons in_width_mirror_fold [OF assms(1) in_width_reverse Cons.prems] by simp
qed simp

lemma poly_loop_aligned:
  assumes "0 < w" "w < 8" "in_width w p" "row_reflect k = 0" "row_shift k \<noteq> 0"
  shows "in_width 8 c \<Longrightarrow> poly_loop k (crc_table w p False) wmask c bs
    = Inr (foldl (serial_step 8 (push_bit (8 - w) p)) c (concat (map (bits_of False) bs)))"
proof (induction bs arbitrary: c)
  case (Cons b bs)
  have p: "in_width 8 (push_bit (8 - w) p)" using in_width_push [OF assms(3), of "8 - w"] assms(2) by simp
  have "poly_byte k (crc_table w p False) wmask c b = Inr (foldl (serial_step 8 (push_bit (8 - w) p)) c (bits_of False b))"
    using assms aligned_table_byte [OF assms(1-3) Cons.prems, of b]
    by (simp add: poly_byte_def table_at_byte in_width_xor [OF Cons.prems in_width_uint])
  then show ?case using Cons in_width_serial_fold [OF _ p Cons.prems] by simp
qed simp

lemma poly_loop_top:
  assumes "8 \<le> w" "in_width w p" "row_reflect k = 0" "row_shift k = 0" "row_width k = int w"
  shows "in_width w c \<Longrightarrow> poly_loop k (crc_table w p False) (mask_of w) c bs
    = Inr (foldl (serial_step w p) c (concat (map (bits_of False) bs)))"
proof (induction bs arbitrary: c)
  case (Cons b bs)
  have "poly_byte k (crc_table w p False) (mask_of w) c b = Inr (foldl (serial_step w p) c (bits_of False b))"
    using assms top_table_byte [OF assms(1,2) Cons.prems, of b]
    by (simp add: poly_byte_def table_at_byte in_width_and_FF nat_diff_distrib)
  then show ?case using Cons in_width_serial_fold [OF _ assms(2) Cons.prems] assms(1) by simp
qed simp

lemma polynomial_reference:
  assumes w: "0 < w" and p: "in_width w p" and init: "in_width w init" and xorout: "in_width w xorout"
    and k: "polynomial_row w p init reflect xorout (int at) k"
    and table: "at < length (kernel_tables img)" "kernel_tables img ! at = crc_table w p reflect" "int at \<noteq> NONE"
  shows "polynomial img k covered = Inr (crc_reference w p init reflect xorout covered)"
proof -
  let ?bits = "concat (map (bits_of reflect) covered)"
  have out: "and (xor held xorout) (mask_of w) = xor held xorout" if "in_width w held" for held
    using in_width_xor [OF that xorout] unfolding and_mask_of in_width_bits .
  consider "reflect" | "\<not> reflect" "w < 8" | "\<not> reflect" "8 \<le> w" by linarith
  then show ?thesis
  proof cases
    case 1
    have "in_width w (foldl (mirror_step (reverse_bits p w)) (reverse_bits init w) ?bits)"
      by (intro in_width_mirror_fold w in_width_reverse)
    moreover have "poly_loop k (crc_table w p True) (mask_of w) (reverse_bits init w) covered
        = Inr (foldl (mirror_step (reverse_bits p w)) (reverse_bits init w) ?bits)"
      using 1 k by (simp add: poly_loop_reflected [OF w] in_width_reverse polynomial_row_def)
    ultimately show ?thesis
      using 1 k table mirror_fold [OF w p, of init ?bits] out
      by (simp add: polynomial_def polynomial_row_def crc_start_def crc_shift_def crc_reference_def Let_def mask_literal(1))
  next
    case 2
    let ?reg = "foldl (serial_step w p) init ?bits"
    have narrow: "nat (8 - int w) = 8 - w" by (simp add: nat_diff_distrib)
    have start: "and (push_bit (8 - w) init) 0xFF = push_bit (8 - w) init"
      using in_width_push [OF init, of "8 - w"] 2 unfolding and_FF in_width_bits by simp
    have "poly_loop k (crc_table w p False) 0xFF (push_bit (8 - w) init) covered
        = Inr (push_bit (8 - w) ?reg)"
      using 2 k w in_width_push [OF init, of "8 - w"] aligned_fold [OF w _ p init]
      by (simp add: poly_loop_aligned [OF w _ p] polynomial_row_def crc_shift_def)
    moreover have "drop_bit (8 - w) (push_bit (8 - w) ?reg) = ?reg"
      by (rule bit_eqI) (simp add: register_bits)
    ultimately show ?thesis
      using 2 k w table start narrow out [OF in_width_serial_fold [OF w p init]]
      by (simp add: polynomial_def polynomial_row_def crc_start_def crc_shift_def crc_reference_def Let_def mask_literal(1))
  next
    case 3
    then show ?thesis
      using k w table out [OF in_width_serial_fold [OF w p init]]
      by (simp add: polynomial_def polynomial_row_def crc_start_def crc_shift_def crc_reference_def Let_def
          mask_literal(1) poly_loop_top [OF _ p] init)
  qed
qed

section \<open>From schema to checksum\<close>

text \<open>What packing and reading one polynomial codec leaves in an image.\<close>

definition holds_codec :: "'a image_scheme \<Rightarrow> int \<Rightarrow> kernel_decl \<Rightarrow> int list list \<Rightarrow> bool" where
  "holds_codec img t k tables =
     (\<exists>row packed c p q endian.
        bindE (kernel_row_of (Some k) tables) (\<lambda>(row, tables). bindE (pack_tables tables) (\<lambda>packed. Inr (row, packed)))
          = Inr (row, packed)
        \<and> c \<noteq> NONE \<and> tags img t = Some \<lparr>tag_codec = c, tag_first = p, tag_last = q, tag_fill = NONE, tag_prefix = 0, tag_endian = endian\<rparr>
        \<and> kernels img c = Some row \<and> kernel_tables img = packed)"

lemma holds_polynomial:
  assumes img: "holds_codec img t k tables" and k: "family k = POLYNOMIAL" "crc_width k = Some w"
    and poly: "number k ''poly'' = poly" "poly \<noteq> 0" and init: "crc_init k = Some init"
    and r: "flag k ''reflect'' = reflect"
  obtains row where "compute img t covered None = polynomial img row covered"
    "polynomial_row w poly init reflect (number k ''xorout'') (int (length tables)) row"
    "kernel_tables img = tables @ [crc_table w poly reflect]"
proof -
  obtain row packed c p q endian where row: "bindE (kernel_row_of (Some k) tables)
        (\<lambda>(row, tables). bindE (pack_tables tables) (\<lambda>packed. Inr (row, packed))) = Inr (row, packed)"
      "c \<noteq> NONE" "tags img t = Some \<lparr>tag_codec = c, tag_first = p, tag_last = q, tag_fill = NONE, tag_prefix = 0, tag_endian = endian\<rparr>"
      "kernels img c = Some row" "kernel_tables img = packed"
    using img unfolding holds_codec_def by blast
  have "polynomial_row w poly init reflect (number k ''xorout'') (int (length tables)) row"
      and "packed = tables @ [crc_table w poly reflect]"
    using row(1) k poly init r
    by (auto simp: kernel_row_of_def pack_row_def pack_tables_def polynomial_row_def Let_def split: if_splits)
  moreover from this have "compute img t covered None = polynomial img row covered"
    using row(2-5) by (simp add: compute_def compute_kernel_def polynomial_row_def KERNEL_POLYNOMIAL_def KERNEL_NONE_def)
  ultimately show thesis using that row(5) by blast
qed

text \<open>
  C3: From the schema's polynomial to the walker's checksum: for a codec the packer could write, the
  table-driven loop over the packed row, in whichever of its three directions, computes the
  bit-serial CRC of the catalogue with the codec's own width, polynomial, initial value, reflection
  and final xor, for every message and every width from 1 to 64.
\<close>

theorem packed_crc_is_reference:
  assumes "holds_codec img t k tables" "family k = POLYNOMIAL" "crc_width k = Some w"
    and "number k ''poly'' \<noteq> 0" "in_width w (number k ''poly'')" "crc_init k = Some init" "in_width w init"
    and "in_width w (number k ''xorout'')" "int (length tables) \<noteq> NONE"
  shows "compute img t covered None =
    Inr (crc_reference w (number k ''poly'') init (flag k ''reflect'') (number k ''xorout'') covered)"
proof -
  have w: "0 < w" using assms(3) by (auto simp: crc_width_def split: option.splits expr.splits if_splits)
  obtain row where row: "compute img t covered None = polynomial img row covered"
    "polynomial_row w (number k ''poly'') init (flag k ''reflect'') (number k ''xorout'') (int (length tables)) row"
    "kernel_tables img = tables @ [crc_table w (number k ''poly'') (flag k ''reflect'')]"
    by (rule holds_polynomial [OF assms(1-3) refl assms(4,6) refl])
  show ?thesis
    unfolding row(1) by (rule polynomial_reference [OF w assms(5,7,8) row(2)]) (use row(3) assms(9) in simp_all)
qed

lemma in_width_clock_pow: "0 < w \<Longrightarrow> in_width w p \<Longrightarrow> in_width w x \<Longrightarrow> in_width w ((clock w p ^^ n) x)"
  by (induction n) (simp_all add: in_width_clock)

lemma in_width_table:
  assumes "0 < w" "in_width w p" "x \<in> set (crc_table w p r)"
  shows "in_width (max 8 w) x"
proof -
  obtain i where i: "i < 256" "x = crc_table w p r ! i" using assms(3) by (auto simp: in_set_conv_nth)
  have b: "in_width 8 (int i)" "nat (int i) = i" using i(1) by (auto simp: in_width_def)
  have wide: "in_width (max 8 w) y" if "in_width v y" "v \<in> {8, w}" for v y
    using that by (auto intro!: in_widthI dest!: in_widthD)
  show ?thesis
  proof (cases r)
    case True
    have "in_width w x" using mirror_entry [OF b(1), of w p] True i(2) b(2) by (simp add: in_width_take)
    then show ?thesis by (rule wide) simp
  next
    case False
    show ?thesis
    proof (cases "8 \<le> w")
      case True
      have "in_width w (push_bit (w - 8) (int i))" using in_width_push [OF b(1), of "w - 8"] True by simp
      then have "in_width w x" using top_entry [OF True assms(2) b(1)] False i(2) b(2) in_width_clock_pow assms by simp
      then show ?thesis by (rule wide) simp
    next
      case small: False
      have "in_width 8 (xor 0 (uint (byte_of (int i))))" using i(1) b(1) by simp
      then have "x = foldl (serial_step 8 (push_bit (8 - w) p)) 0 (bits_of False (byte_of (int i)))"
        using aligned_table_byte [of w p 0 "byte_of (int i)"] assms(1,2) small False i b(2) by (simp add: in_width_def)
      moreover have "in_width 8 (push_bit (8 - w) p)" using in_width_push [OF assms(2), of "8 - w"] small by simp
      ultimately have "in_width 8 x" using in_width_serial_fold [of 8 _ 0] by (simp add: in_width_def)
      then show ?thesis by (rule wide) simp
    qed
  qed
qed

lemma in_width_u32: "in_width w x \<Longrightarrow> w \<le> 32 \<Longrightarrow> is_u32 x"
proof -
  assume "in_width w x" "w \<le> 32"
  then have "in_width 32 x" by (auto intro!: in_widthI dest!: in_widthD)
  then show ?thesis by (simp add: in_width_def is_u32_def)
qed

lemma in_width_start: "in_width w init \<Longrightarrow> in_width (max 8 w) (crc_start init w r)"
  by (rule in_widthI) (auto simp: crc_start_def and_FF register_bits dest: in_widthD split: if_splits)

lemma narrow_packs:
  assumes "family k = POLYNOMIAL" "crc_width k = Some w" "w \<le> 32"
    and "number k ''poly'' \<noteq> 0" "in_width w (number k ''poly'')"
    and "crc_init k = Some init" "in_width w init" "in_width w (number k ''xorout'')"
    and "int (length tables) < 2 ^ 32" "\<forall>t\<in>set tables. \<forall>x\<in>set t. is_u32 x"
  shows "\<exists>row. kernel_row_of (Some k) tables = Inr (row, tables @ [crc_table w (number k ''poly'') (flag k ''reflect'')])
    \<and> pack_tables (tables @ [crc_table w (number k ''poly'') (flag k ''reflect'')])
      = Inr (tables @ [crc_table w (number k ''poly'') (flag k ''reflect'')])"
proof -
  have w: "0 < w" using assms(2) by (auto simp: crc_width_def split: option.splits expr.splits if_splits)
  have m: "max 8 w \<le> 32" using assms(3) by simp
  have "is_u32 (int w)" "is_u32 (int (length tables))" "is_u32 KERNEL_POLYNOMIAL"
    using assms(3,9) by (auto simp: is_u32_def KERNEL_POLYNOMIAL_def)
  moreover have "is_u32 (crc_start init w (flag k ''reflect''))" "is_u32 (number k ''xorout'')"
    using in_width_u32 [OF in_width_start [OF assms(7)] m] in_width_u32 [OF assms(8,3)] by auto
  moreover have "\<forall>x\<in>set (crc_table w (number k ''poly'') (flag k ''reflect'')). is_u32 x"
    using in_width_u32 [OF in_width_table [OF w assms(5)] m] by blast
  moreover have "int (crc_shift w (flag k ''reflect'')) < 2 ^ 31" "of_bool (flag k ''reflect'') < (2 ^ 31 :: int)"
    by (auto simp: crc_shift_def)
  ultimately show ?thesis
    using assms(1,2,4,6,10) by (simp add: kernel_row_of_def pack_row_def pack_tables_def Let_def)
qed

text \<open>The three directions, on USB's five-bit code, MMC's seven-bit one and XMODEM's sixteen.\<close>

definition codec :: "int \<Rightarrow> int \<Rightarrow> int \<Rightarrow> int \<Rightarrow> string list \<Rightarrow> kernel_decl" where
  "codec width poly init xorout flags =
     \<lparr>family = POLYNOMIAL,
      args = [(''width'', Some (IntLiteral width [])), (''poly'', Some (IntLiteral poly [])),
              (''init'', Some (IntLiteral init [])), (''xorout'', Some (IntLiteral xorout []))]
             @ map (\<lambda>f. (f, None)) flags\<rparr>"

definition image_of :: "kernel_decl \<Rightarrow> image" where
  "image_of k =
     (case kernel_row_of (Some k) [] of
        Inr (row, tables) \<Rightarrow>
          \<lparr>tags = (\<lambda>t. if t = 0 then Some \<lparr>tag_codec = 0, tag_first = NONE, tag_last = NONE, tag_fill = NONE, tag_prefix = 0, tag_endian = 0\<rparr> else None),
           kernels = (\<lambda>c. if c = 0 then Some row else None), kernel_tables = tables\<rparr>
      | Inl e \<Rightarrow> \<lparr>tags = (\<lambda>t. None), kernels = (\<lambda>c. None), kernel_tables = []\<rparr>)"

definition check_bytes :: bytes where
  "check_bytes = [0x31, 0x32, 0x33, 0x34, 0x35, 0x36, 0x37, 0x38, 0x39]"

lemma holds_image_of:
  assumes "family k = POLYNOMIAL" "crc_width k = Some w" "w \<le> 32"
    and "number k ''poly'' \<noteq> 0" "in_width w (number k ''poly'')"
    and "crc_init k = Some init" "in_width w init" "in_width w (number k ''xorout'')"
  shows "holds_codec (image_of k) 0 k []"
proof -
  obtain row ts where row: "kernel_row_of (Some k) [] = Inr (row, ts)" "pack_tables ts = Inr ts"
    using narrow_packs [OF assms, of "[]"] by auto
  then have "bindE (kernel_row_of (Some k) []) (\<lambda>(row, tables). bindE (pack_tables tables) (\<lambda>packed. Inr (row, packed)))
      = Inr (row, ts)" by simp
  then show ?thesis
    unfolding holds_codec_def image_of_def row(1)
    by (intro exI [of _ row] exI [of _ ts] exI [of _ 0] exI [of _ NONE]) (simp add: NONE_def)
qed

lemma codec_facts:
  "family (codec w p i x fs) = POLYNOMIAL" "number (codec w p i x fs) ''poly'' = p"
  "number (codec w p i x fs) ''xorout'' = x" "number (codec w p i x fs) ''init'' = i"
  "number (codec w p i x fs) ''width'' = w"
  "crc_width (codec w p i x fs) = (if 1 \<le> w \<and> w \<le> 64 then Some (nat w) else None)"
  "flag (codec w p i x fs) f \<longleftrightarrow> f \<in> set fs"
  "''augmented'' \<notin> set fs \<Longrightarrow> crc_init (codec w p i x fs) = Some i"
  by (auto simp: codec_def number_def argument_def crc_width_def flag_def crc_init_def Let_def)

theorem packed_crc_is_reference_witness:
  "compute (image_of (codec 5 0x05 0x1F 0x1F [''reflect''])) 0 check_bytes None
     = Inr (crc_reference 5 0x05 0x1F True 0x1F check_bytes)
   \<and> compute (image_of (codec 7 0x09 0 0 [])) 0 check_bytes None = Inr (crc_reference 7 0x09 0 False 0 check_bytes)
   \<and> compute (image_of (codec 16 0x1021 0 0 [])) 0 check_bytes None = Inr (crc_reference 16 0x1021 0 False 0 check_bytes)"
proof -
  have a: "holds_codec (image_of (codec 5 0x05 0x1F 0x1F [''reflect''])) 0 (codec 5 0x05 0x1F 0x1F [''reflect'']) []"
    by (rule holds_image_of [where w = 5 and init = 31]) (simp_all add: codec_facts in_width_def)
  have b: "holds_codec (image_of (codec 7 0x09 0 0 [])) 0 (codec 7 0x09 0 0 []) []"
    by (rule holds_image_of [where w = 7 and init = 0]) (simp_all add: codec_facts in_width_def)
  have c: "holds_codec (image_of (codec 16 0x1021 0 0 [])) 0 (codec 16 0x1021 0 0 []) []"
    by (rule holds_image_of [where w = 16 and init = 0]) (simp_all add: codec_facts in_width_def)
  show ?thesis
    using packed_crc_is_reference [OF a, of 5 "0x1F" check_bytes]
      packed_crc_is_reference [OF b, of 7 0 check_bytes]
      packed_crc_is_reference [OF c, of 16 0 check_bytes]
    by (simp add: codec_facts in_width_def NONE_def)
qed

text \<open>
  The packed row is thirty-two bits wide and the codec is not: every polynomial codec of at most
  32 bits packs, and one whose final xor does not fit in 32 bits, such as \<open>crc40_gsm\<close> and \<open>crc64_xz\<close>
  of the standard library, makes the packer raise \<open>struct.error\<close>.
\<close>

theorem wide_kernel_unpackable:
  assumes "family k = POLYNOMIAL" "crc_width k = Some w"
    and "number k ''poly'' \<noteq> 0" "in_width w (number k ''poly'')"
    and "crc_init k = Some init" "in_width w init" "in_width w (number k ''xorout'')"
  shows "(w \<le> 32 \<longrightarrow> (\<exists>row tables. kernel_row_of (Some k) [] = Inr (row, tables) \<and> pack_tables tables = Inr tables))
    \<and> (2 ^ 32 \<le> number k ''xorout'' \<longrightarrow> kernel_row_of (Some k) tables = Inl StructError)"
proof
  show "w \<le> 32 \<longrightarrow> (\<exists>row tables. kernel_row_of (Some k) [] = Inr (row, tables) \<and> pack_tables tables = Inr tables)"
    using narrow_packs [OF assms(1,2) _ assms(3-7), of "[]"] by fastforce
  show "2 ^ 32 \<le> number k ''xorout'' \<longrightarrow> kernel_row_of (Some k) tables = Inl StructError"
    using assms by (simp add: kernel_row_of_def pack_row_def is_u32_def Let_def)
qed

theorem wide_kernel_unpackable_witness:
  "kernel_row_of (Some (codec 40 0x0004820009 0 0xFFFFFFFFFF [])) [] = Inl StructError
   \<and> kernel_row_of (Some (codec 64 0x42F0E1EBA9EA3693 0xFFFFFFFFFFFFFFFF 0xFFFFFFFFFFFFFFFF [''reflect''])) []
       = Inl StructError"
  using wide_kernel_unpackable [of "codec 40 0x0004820009 0 0xFFFFFFFFFF []" 40 0 "[]"]
    wide_kernel_unpackable [of "codec 64 0x42F0E1EBA9EA3693 0xFFFFFFFFFFFFFFFF 0xFFFFFFFFFFFFFFFF [''reflect'']" 64
      "0xFFFFFFFFFFFFFFFF" "[]"]
  by (simp add: codec_facts in_width_def)

text \<open>
  Both conventions of \<open>init\<close> are one algorithm: a codec declared \<open>augmented\<close>, whose register takes
  the message in at the bottom and then \<open>width\<close> zero bits, ends where the ordinary register ends
  when it starts from the value \<open>crc_init\<close> works out.
\<close>

theorem augmented_init_agrees:
  assumes "crc_width k = Some w" "in_width w (number k ''poly'')" "flag k ''augmented''"
  shows "\<exists>start. crc_init k = Some start \<and>
    foldl (serial_step w (number k ''poly'')) start bits
      = foldl (augmented_step w (number k ''poly'')) (number k ''init'') (bits @ replicate w False)"
proof -
  have w: "0 < w" "nat (number k ''width'') = w" "0 \<le> number k ''width''"
    using assms(1) by (auto simp: crc_width_def number_def split: option.splits expr.splits if_splits)
  then have "crc_init k = Some ((clock w (number k ''poly'') ^^ w) (number k ''init''))"
    using assms(3) by (simp add: crc_init_def Let_def)
  then show ?thesis
    using augmented_run [OF w(1) assms(2)] by (simp add: augmented_flush [OF w(1) assms(2)])
qed

theorem augmented_init_agrees_witness:
  "\<exists>start. crc_init (codec 16 0x1021 0xFFFF 0 [''augmented'']) = Some start \<and>
     foldl (serial_step 16 0x1021) start [True, False]
       = foldl (augmented_step 16 0x1021) 0xFFFF ([True, False] @ replicate 16 False)"
  using augmented_init_agrees [of "codec 16 0x1021 0xFFFF 0 [''augmented'']" 16 "[True, False]"]
  by (simp add: codec_facts in_width_def)

section \<open>The internet checksum\<close>

lemma carry_around_step:
  "carry_around n = (if n div 65536 \<noteq> 0 then carry_around (n mod 65536 + n div 65536) else n)"
  by (subst carry_around.simps) (simp add: and_FFFF_nat drop_bit_eq_div)

lemma carry_around_facts: "carry_around n < 65536 \<and> carry_around n mod 65535 = n mod 65535 \<and> (carry_around n = 0 \<longleftrightarrow> n = 0)"
proof (induction n rule: carry_around.induct)
  case (1 n)
  show ?case
  proof (cases "n div 65536 = 0")
    case True
    then show ?thesis by (auto simp: carry_around_step [of n] div_eq_0_iff)
  next
    case False
    let ?m = "n mod 65536 + n div 65536"
    have "n = ?m + 65535 * (n div 65536)" using div_mult_mod_eq [of n 65536] by linarith
    then have "n mod 65535 = ?m mod 65535" by (metis mod_mult_self2)
    moreover have "drop_bit 16 n \<noteq> 0" "and n 0xFFFF + drop_bit 16 n = ?m"
      using False by (simp_all add: and_FFFF_nat drop_bit_eq_div)
    then have "carry_around ?m < 65536 \<and> carry_around ?m mod 65535 = ?m mod 65535 \<and> (carry_around ?m = 0 \<longleftrightarrow> ?m = 0)"
      using 1 by simp
    moreover have "carry_around n = carry_around ?m" "n \<noteq> 0" using False by (auto simp: carry_around_step [of n])
    moreover have "?m \<noteq> 0" using False by simp
    ultimately show ?thesis by simp
  qed
qed

text \<open>The complement of a folded sum brings the sum to all ones.\<close>

lemma carry_around_complement:
  assumes "n + r = s" "r mod 65535 = (65535 - carry_around n) mod 65535" "s \<noteq> 0"
  shows "carry_around s = 65535"
proof -
  let ?c = "carry_around n"
  have "?c \<le> 65535" using carry_around_facts [of n] by simp
  have "s mod 65535 = (n mod 65535 + r mod 65535) mod 65535"
    unfolding assms(1) [symmetric] by (rule mod_add_eq [symmetric])
  also have "\<dots> = (?c mod 65535 + (65535 - ?c) mod 65535) mod 65535"
    using carry_around_facts [of n] assms(2) by simp
  also have "\<dots> = (?c + (65535 - ?c)) mod 65535" by (rule mod_add_eq)
  finally have "s mod 65535 = (?c + (65535 - ?c)) mod 65535" .
  then have "s mod 65535 = 0" using \<open>?c \<le> 65535\<close> by simp
  then have "65535 dvd carry_around s" using carry_around_facts [of s] by auto
  moreover have "carry_around s \<noteq> 0" "carry_around s < 65536" using carry_around_facts [of s] assms(3) by auto
  ultimately show ?thesis by (auto elim!: dvdE)
qed

lemma push_or_byte: "or (push_bit 8 (unat (a::byte))) (unat (b::byte)) = 256 * unat a + unat b"
proof -
  have "take_bit 8 (unat b) = unat b"
    using unsigned_less [of b, where ?'a = nat] by (simp add: take_bit_nat_eq_self)
  then have "bit (unat b) n \<Longrightarrow> n < 8" for n by (metis bit_take_bit_iff)
  then have "\<not> bit (push_bit 8 (unat a)) n \<or> \<not> bit (unat b) n" for n
    by (force simp: bit_push_bit_iff_nat)
  then have "push_bit 8 (unat a) + unat b = or (push_bit 8 (unat a)) (unat b)" by (rule disjunctive_add)
  then show ?thesis by (simp add: push_bit_eq_mult)
qed

lemma complement_16:
  assumes "0 \<le> x" "x < 65536"
  shows "and (xor x 0xFFFF) 0xFFFF = 65535 - (x::int)"
proof -
  have m: "(0xFFFF::int) = mask_of 16" by (simp add: mask_of_def)
  have "and (xor x 0xFFFF) 0xFFFF = take_bit 16 (not x)"
    unfolding m by (rule bit_eqI) (auto simp: bit_and_iff register_bits bit_not_iff)
  also have "\<dots> = 65535 - x"
    using assms by (simp add: take_bit_not_eq_mask_diff mask_eq_exp_minus_1 take_bit_int_eq_self)
  finally show ?thesis .
qed

lemma word_sum_append: "even (length xs) \<Longrightarrow> word_sum (xs @ ys) = word_sum xs + word_sum ys"
  by (induction xs rule: word_sum.induct) auto

text \<open>
  C35: The internet checksum verifies: when an inverted 16-bit ones' complement checksum covers the two
  bytes it is written into, at an even offset and filled with zeros while it is computed, its value
  written there makes the folded sum of the whole span all ones, whatever the span held before and
  whether or not a computed zero is sent as all ones.
\<close>

theorem internet_checksum_verifies:
  assumes "tags img t = Some \<lparr>tag_codec = c, tag_first = p, tag_last = q, tag_fill = 0, tag_prefix = 0, tag_endian = endian\<rparr>" "c \<noteq> NONE" "kernels img c = Some k"
    and k: "row_family k = KERNEL_ONES_COMPLEMENT" "row_width k = 16" "row_xorout k = 0xFFFF"
    and at: "even at" "at + 2 \<le> length covered"
    and r: "compute img t covered (Some (int at, 2)) = Inr r"
  shows "carry_around (word_sum (take at covered @ [byte_of (r div 256), byte_of r] @ drop (at + 2) covered)) = 0xFFFF"
proof -
  let ?n = "word_sum (take at covered) + word_sum (drop (at + 2) covered)"
  let ?c = "carry_around ?n"
  have len: "even (length (take at covered))" using at by simp
  have two: "word_sum ([a, b] @ rest) = 256 * unat a + unat b + word_sum rest" for a b rest
    by (simp add: push_or_byte)
  have "word_sum (take at covered @ replicate 2 (byte_of 0) @ drop (at + 2) covered) = ?n"
    unfolding word_sum_append [OF len] by (simp add: numeral_2_eq_2 push_or_byte byte_of_def)
  moreover have "ones_complement k (take at covered @ replicate 2 (byte_of 0) @ drop (at + 2) covered) = Inr r"
    using assms by (simp add: compute_def filled_def compute_kernel_def KERNEL_ONES_COMPLEMENT_def
        KERNEL_POLYNOMIAL_def KERNEL_NONE_def NONE_def nat_add_distrib)
  moreover have c: "?c < 65536" using carry_around_facts by blast
  then have "and (xor (int ?c) 0xFFFF) 0xFFFF = 65535 - int ?c" by (intro complement_16) auto
  ultimately have r': "r = 65535 - int ?c \<or> ?c = 65535 \<and> r = 65535"
    using k by (auto simp: ones_complement_def Let_def split: if_splits)
  then have "0 \<le> r" "r < 65536" using c by auto
  then have "256 * unat (byte_of (r div 256)) + unat (byte_of r) = nat r"
  proof -
    have "int (256 * unat (byte_of (r div 256)) + unat (byte_of r)) = 256 * (r div 256 mod 256) + r mod 256"
      by (simp add: unat_eq_nat_uint uint_byte_of)
    also have "r div 256 mod 256 = r div 256" using \<open>0 \<le> r\<close> \<open>r < 65536\<close> by (intro mod_pos_pos_trivial) linarith+
    also have "256 * (r div 256) + r mod 256 = r" by simp
    finally have "nat (int (256 * unat (byte_of (r div 256)) + unat (byte_of r))) = nat r" by (rule arg_cong)
    then show ?thesis unfolding nat_int .
  qed
  moreover have "nat r = 65535 - ?c \<or> ?c = 65535 \<and> nat r = 65535" using r' c by (auto simp: nat_eq_iff)
  then have "nat r mod 65535 = (65535 - ?c) mod 65535" by auto
  moreover have "?n + nat r \<noteq> 0" using r' carry_around_facts [of ?n] by auto
  ultimately show ?thesis
    unfolding word_sum_append [OF len] two by (intro carry_around_complement [OF _ \<open>nat r mod 65535 = _\<close>]) auto
qed


definition udp_image :: image where
  "udp_image = \<lparr>tags = (\<lambda>t. if t = 0 then Some \<lparr>tag_codec = 0, tag_first = NONE, tag_last = NONE, tag_fill = 0, tag_prefix = 0, tag_endian = 0\<rparr> else None),
     kernels = (\<lambda>c. if c = 0 then Some \<lparr>row_family = KERNEL_ONES_COMPLEMENT, row_width = 16, row_start = 0,
        row_xorout = 0xFFFF, row_table = NONE, row_shift = 0, row_reflect = 1\<rparr> else None),
     kernel_tables = []\<rparr>"

theorem internet_checksum_verifies_witness:
  "compute udp_image 0 [0x12, 0x34, 0xAB, 0xCD, 0xFF] (Some (2, 2)) = Inr 0xEECA
   \<and> carry_around (word_sum [0x12, 0x34, 0xEE, 0xCA, 0xFF]) = 0xFFFF"
proof
  have "word_sum [0x12, 0x34, 0, 0, 0xFF] = 0x11134" by (simp add: push_or_byte)
  moreover have "carry_around 0x11134 = 0x1135"
    using carry_around_step [of "0x11134"] carry_around_step [of "0x1135"] by simp
  ultimately have "ones_complement \<lparr>row_family = KERNEL_ONES_COMPLEMENT, row_width = 16, row_start = 0,
      row_xorout = 0xFFFF, row_table = NONE, row_shift = 0, row_reflect = 1\<rparr> [0x12, 0x34, 0, 0, 0xFF] = Inr 0xEECA"
    by (simp add: ones_complement_def)
  then show c: "compute udp_image 0 [0x12, 0x34, 0xAB, 0xCD, 0xFF] (Some (2, 2)) = Inr 0xEECA"
    by (simp add: compute_def udp_image_def filled_def compute_kernel_def NONE_def KERNEL_NONE_def
        KERNEL_ONES_COMPLEMENT_def KERNEL_POLYNOMIAL_def byte_of_def numeral_2_eq_2)
  have low: "(0xEECA :: byte) = 0xCA" by simp
  show "carry_around (word_sum [0x12, 0x34, 0xEE, 0xCA, 0xFF]) = 0xFFFF"
    using internet_checksum_verifies [of udp_image 0 0 NONE NONE 0 _ 2 "[0x12, 0x34, 0xAB, 0xCD, 0xFF]" "0xEECA"] c
    by (simp add: udp_image_def NONE_def byte_of_def low del: word_sum.simps)
qed

end
