(* ===== verification/Image_Format.thy ===== *)
theory Image_Format
  imports Checksum Capability
begin

text \<open>
  The packed image as bytes: the records of Python's \<open>struct\<close>, the packer's string pool and assembly
  (\<open>situc/pack.py\<close>: \<open>_u32\<close>, \<open>_Pool\<close>, \<open>_assemble\<close>) and the walker's loader (\<open>walker/image.py\<close>: \<open>load\<close>
  and the queries on an image).  A dictionary of the image is a partial map from its keys; text decoded
  with \<open>replace\<close> is a list of code points.
\<close>

section \<open>Records\<close>

text \<open>The little-endian format characters the image uses: \<open>B H I i q x\<close>.\<close>

datatype struct_code = U8 | U16 | U32 | I32 | I64 | PAD

type_synonym struct_format = "struct_code list"

fun code_bytes :: "struct_code \<Rightarrow> nat" where
  "code_bytes U8 = 1" | "code_bytes U16 = 2" | "code_bytes U32 = 4"
| "code_bytes I32 = 4" | "code_bytes I64 = 8" | "code_bytes PAD = 1"

definition code_signed :: "struct_code \<Rightarrow> bool" where
  "code_signed c = (c = I32 \<or> c = I64)"

definition struct_bytes :: "struct_format \<Rightarrow> nat" where
  "struct_bytes fmt = sum_list (map code_bytes fmt)"

datatype image_fault = BadMagic | WrongVersion int | WrongTotal int | SectionPast int | MustsLacking nat

datatype image_error = ImageError image_fault | StructError

type_synonym 'a image_res = "image_error + 'a"

fun read_codes :: "struct_format \<Rightarrow> bytes \<Rightarrow> int list" where
  "read_codes [] bs = []"
| "read_codes (c # fmt) bs =
     (if c = PAD then read_codes fmt (drop 1 bs)
      else from_bytes False (code_signed c) (take (code_bytes c) bs) # read_codes fmt (drop (code_bytes c) bs))"

definition unpack_from :: "struct_format \<Rightarrow> bytes \<Rightarrow> nat \<Rightarrow> int list image_res" where
  "unpack_from fmt blob at =
     (if at + struct_bytes fmt \<le> length blob then Inr (read_codes fmt (drop at blob)) else Inl StructError)"

fun pack_codes :: "struct_format \<Rightarrow> int list \<Rightarrow> bytes image_res" where
  "pack_codes [] [] = Inr []"
| "pack_codes (c # fmt) vs =
     (if c = PAD then bindE (pack_codes fmt vs) (\<lambda>bs. Inr (0 # bs))
      else case vs of [] \<Rightarrow> Inl StructError
      | v # rest \<Rightarrow>
          (if fits (code_signed c) (code_bytes c) v
           then bindE (pack_codes fmt rest) (\<lambda>bs. Inr (le_bytes (code_bytes c) v @ bs)) else Inl StructError))"
| "pack_codes [] (v # vs) = Inl StructError"

section \<open>Assembling an image\<close>

definition MAGIC :: bytes where "MAGIC = [0x53, 0x49, 0x54, 0x55]"
definition FORMAT_VERSION :: int where "FORMAT_VERSION = 8"
definition HEADER_BYTES :: nat where "HEADER_BYTES = 20"
definition SECTION_BYTES :: nat where "SECTION_BYTES = 16"

definition u32 :: "int option \<Rightarrow> int" where
  "u32 v = (case v of None \<Rightarrow> NONE | Some x \<Rightarrow> min x (NONE - 1))"

text \<open>The string pool: its bytes, and where each text was put.\<close>

type_synonym pool = "bytes \<times> (string \<times> nat) list"

definition ascii_replace :: "string \<Rightarrow> bytes" where
  "ascii_replace s = map (\<lambda>c. let n = of_char c :: nat in byte_of (int (if n < 128 then n else 63))) s"

definition intern :: "string \<Rightarrow> pool \<Rightarrow> nat \<times> pool" where
  "intern s pool =
     (case pool of (held, at) \<Rightarrow>
        (case map_of at s of
           Some offset \<Rightarrow> (offset, pool)
         | None \<Rightarrow> (length held, (held @ ascii_replace s @ [0], (s, length held) # at))))"

fun intern_all :: "string list \<Rightarrow> pool \<Rightarrow> nat list \<times> pool" where
  "intern_all [] pool = ([], pool)"
| "intern_all (s # ss) pool =
     (case intern s pool of (offset, pool) \<Rightarrow>
        (case intern_all ss pool of (offsets, pool) \<Rightarrow> (offset # offsets, pool)))"

text \<open>One placement's capability vector in the optional tail, from the vector resolution found for it.\<close>

definition vector_byte :: "cap_vector option \<Rightarrow> axis \<Rightarrow> byte" where
  "vector_byte entry ax =
     (case entry of None \<Rightarrow> 0xFF
      | Some v \<Rightarrow> (case list_index (DOMAINS ax) (base (vget v ax)) of Inl e \<Rightarrow> 0xFF | Inr i \<Rightarrow> of_nat i))"

definition vector_row :: "cap_vector option \<Rightarrow> bytes" where
  "vector_row entry = map (vector_byte entry) all_axes"

type_synonym packed_section = "int \<times> bytes \<times> nat"

datatype assemble_error = TwoSections int | OutOfRange

fun second_tag :: "int list \<Rightarrow> int list \<Rightarrow> int option" where
  "second_tag seen [] = None"
| "second_tag seen (k # ks) = (if k \<in> set seen then Some k else second_tag (seen @ [k]) ks)"

definition packed :: "struct_format \<Rightarrow> int list \<Rightarrow> assemble_error + bytes" where
  "packed fmt vs = (case pack_codes fmt vs of Inl e \<Rightarrow> Inl OutOfRange | Inr bs \<Rightarrow> Inr bs)"

fun directory_of :: "nat \<Rightarrow> packed_section list \<Rightarrow> assemble_error + bytes" where
  "directory_of at [] = Inr []"
| "directory_of at ((kind, blob, stride) # sections) =
     bindE (packed [U32, U32, U32, U32]
              [kind, int at, int (if stride \<noteq> 0 then length blob div stride else 0), int stride]) (\<lambda>row.
     bindE (directory_of (at + length blob) sections) (\<lambda>rows. Inr (row @ rows)))"

definition bodies_of :: "packed_section list \<Rightarrow> bytes" where
  "bodies_of sections = concat (map (\<lambda>(kind, blob, stride). blob) sections)"

definition assemble :: "packed_section list \<Rightarrow> bool \<Rightarrow> assemble_error + bytes" where
  "assemble sections metadata =
     (case second_tag [] (map fst sections) of
        Some kind \<Rightarrow> Inl (TwoSections kind)
      | None \<Rightarrow>
          let body_at = HEADER_BYTES + length sections * SECTION_BYTES; bodies = bodies_of sections in
          bindE (directory_of body_at sections) (\<lambda>directory.
          bindE (packed [U16, U16] [FORMAT_VERSION, if metadata then 1 else 0]) (\<lambda>version.
          bindE (packed [U32] [int (body_at + length bodies)]) (\<lambda>total.
          bindE (packed [U32, U32] [int (length sections), int HEADER_BYTES]) (\<lambda>counts.
            Inr (MAGIC @ version @ total @ counts @ directory @ bodies))))))"

section \<open>Reading the directory\<close>

type_synonym directory = "int \<Rightarrow> (nat \<times> nat \<times> nat) option"

fun foldE :: "('s \<Rightarrow> 'a \<Rightarrow> 'e + 's) \<Rightarrow> 'a list \<Rightarrow> 's \<Rightarrow> 'e + 's" where
  "foldE f [] s = Inr s"
| "foldE f (x # xs) s = bindE (f s x) (foldE f xs)"

definition read_entry :: "bytes \<Rightarrow> nat \<Rightarrow> directory \<Rightarrow> nat \<Rightarrow> directory image_res" where
  "read_entry blob directory found i =
     bindE (unpack_from [U32, U32, U32, U32] blob (directory + i * SECTION_BYTES)) (\<lambda>row.
       let kind = row ! 0; offset = nat (row ! 1); records = nat (row ! 2); stride = nat (row ! 3) in
       if length blob < offset + records * stride then Inl (ImageError (SectionPast kind))
       else Inr (found(kind \<mapsto> (offset, records, stride))))"

definition read_directory :: "bytes \<Rightarrow> directory image_res" where
  "read_directory blob =
     (if length blob < HEADER_BYTES \<or> take 4 blob \<noteq> MAGIC then Inl (ImageError BadMagic)
      else bindE (unpack_from [U16, U16] blob 4) (\<lambda>version.
        if version ! 0 \<noteq> FORMAT_VERSION then Inl (ImageError (WrongVersion (version ! 0)))
        else bindE (unpack_from [U32, U32, U32] blob 8) (\<lambda>header.
          if header ! 0 \<noteq> int (length blob) then Inl (ImageError (WrongTotal (header ! 0)))
          else foldE (read_entry blob (nat (header ! 2))) [0..<nat (header ! 1)] Map.empty)))"

section \<open>The tables of an image\<close>

record placement =
  p_kind :: int
  p_endian :: int
  p_bit_order :: int
  p_flags :: int
  p_offset_bits :: int
  p_size_bits :: int
  p_size_max_bits :: int
  p_element_bits :: int
  p_array_count :: int
  p_size_code :: int
  p_type_struct :: int
  p_located_code :: int
  p_repeat_code :: int
  p_radix :: int
  p_text_flags :: int
  p_radix_digits :: int
  p_since :: int
  p_repeat_cap :: int
  p_pad_to :: int

definition OFFSET_KNOWN :: int where "OFFSET_KNOWN = 1"
definition SIZE_FIXED :: int where "SIZE_FIXED = 4"
definition SIGNED :: int where "SIGNED = 16"
definition MARKER_GOVERNED :: int where "MARKER_GOVERNED = 32"
definition IS_TAG :: int where "IS_TAG = 64"
definition PINNED :: int where "PINNED = 128"
definition PARAMETER :: int where "PARAMETER = 64"

definition p_pinned :: "placement \<Rightarrow> bool" where "p_pinned p = (and (p_flags p) PINNED \<noteq> 0)"
definition p_offset_known :: "placement \<Rightarrow> bool" where "p_offset_known p = (and (p_flags p) OFFSET_KNOWN \<noteq> 0)"
definition p_fixed :: "placement \<Rightarrow> bool" where "p_fixed p = (and (p_flags p) SIZE_FIXED \<noteq> 0)"
definition p_signed :: "placement \<Rightarrow> bool" where "p_signed p = (and (p_flags p) SIGNED \<noteq> 0)"
definition p_marker_governed :: "placement \<Rightarrow> bool" where
  "p_marker_governed p = (and (p_flags p) MARKER_GOVERNED \<noteq> 0)"
definition p_is_tag :: "placement \<Rightarrow> bool" where "p_is_tag p = (and (p_flags p) IS_TAG \<noteq> 0)"
definition p_parameter :: "placement \<Rightarrow> bool" where "p_parameter p = (and (p_text_flags p) PARAMETER \<noteq> 0)"

record struct_row =
  first_placement :: int
  placement_count :: int
  size_bits :: int
  struct_flags :: int
  size_min_bits :: int

definition validatable :: "struct_row \<Rightarrow> bool" where "validatable r = (and (struct_flags r) 1 \<noteq> 0)"
definition measurable :: "struct_row \<Rightarrow> bool" where "measurable r = (and (struct_flags r) 2 \<noteq> 0)"
definition to_the_end :: "struct_row \<Rightarrow> bool" where "to_the_end r = (and (struct_flags r) 4 \<noteq> 0)"
definition struct_fixed :: "struct_row \<Rightarrow> bool" where "struct_fixed r = (size_bits r \<noteq> NONE)"

record relation_row =
  relation_text :: int
  request :: int
  response :: int
  musts :: "int list"

record message_row =
  message_text :: int
  message_body :: int
  owner :: int
  message_code :: int
  severity :: int

text \<open>The walker's own copy of the axes and their domains.\<close>

definition AXES :: "string list" where
  "AXES = [''size'', ''offset'', ''access'', ''mutate'', ''address'', ''align'', ''repr'', ''atomic'',
     ''canonical'', ''stage'', ''auth'', ''secrecy'', ''effect'']"

definition WALKER_DOMAINS :: "(string \<times> string list) list" where
  "WALKER_DOMAINS =
    [(''size'', [''Fixed'', ''Bounded'', ''Unbounded'']),
     (''offset'', [''AbsoluteStatic'', ''FrameStatic'', ''MessageStatic'', ''Dynamic'', ''DataPlaced'', ''Scanned'']),
     (''access'', [''Random'', ''Sequential'']),
     (''mutate'', [''InPlaceFixed'', ''InPlaceSlack'', ''Shifting'', ''RewriteRequired'', ''Immutable'']),
     (''address'', [''Stable'', ''FrameStable'', ''Unstable'']),
     (''align'', [''Aligned'', ''Unaligned'']),
     (''repr'', [''MemoryIdentical'', ''ValueConverted'', ''TextConverted'', ''ConditionallyConverted'']),
     (''atomic'', [''AtomicWord'', ''NonAtomic'']),
     (''canonical'', [''Canonical'', ''CanonicalGiven'', ''NonCanonical'']),
     (''stage'', [''CompileTime'', ''ParseTime'', ''TransformTime'', ''VerifyGated'']),
     (''auth'', [''Uncovered'', ''Covered'']),
     (''secrecy'', [''Public'', ''Secret'']),
     (''effect'', [''Pure'', ''EffectOnRead'', ''EffectOnWrite'', ''EffectBoth''])]"

type_synonym code_points = "nat list"
type_synonym 'a by_index = "int \<Rightarrow> 'a option"

record walker_image = Checksum.image +
  structs :: "struct_row list"
  placements :: "placement list"
  code_section :: bytes
  relations :: "relation_row list"
  messages :: "message_row list"
  strings :: bytes
  pinned_runs :: "bytes list by_index"
  delimiters :: "bytes list by_index"
  delimiter_rules :: "(int \<times> int \<times> int) by_index"
  delimiter_consumed :: "bool by_index"
  whitespace :: "int list by_index"
  skip_bytes :: "int list by_index"
  regions :: "int set"
  region_flags :: "int by_index"
  region_owner :: "int by_index"
  varints :: "int set"
  varint_rules :: "(int \<times> int \<times> bool) by_index"
  varint_minimal :: "int set"
  varint_zigzag :: "int set"
  markers :: "int by_index"
  constraints :: "(int \<times> int) list by_index"
  constraint_order :: "int list"
  enum_values :: "int set by_index"
  versions :: "int by_index"
  tlvs :: "(int \<times> int \<times> int \<times> bool \<times> bool) by_index"
  tlv_unenforceable :: "int set"
  tlv_rules :: "(int \<times> int \<times> int \<times> int \<times> (int \<times> int \<times> bool \<times> bool) \<times> int) list by_index"
  indexes :: "(int \<times> int \<times> int) by_index"
  index_bases :: "int by_index"
  arguments :: "(int \<times> int) list by_index"
  holds :: "int by_index"
  depths :: "(int \<times> int) by_index"
  arms :: "(int \<times> (int \<times> int \<times> int) list) by_index"
  struct_names :: "code_points list"
  placement_names :: "code_points list"
  placement_vectors :: "(string \<times> string) list list"

definition empty_image :: walker_image where
  "empty_image = \<lparr>tags = Map.empty, kernels = Map.empty, kernel_tables = [],
     structs = [], placements = [], code_section = [], relations = [], messages = [], strings = [],
     pinned_runs = Map.empty, delimiters = Map.empty, delimiter_rules = Map.empty, delimiter_consumed = Map.empty,
     whitespace = Map.empty, skip_bytes = Map.empty, regions = {}, region_flags = Map.empty,
     region_owner = Map.empty, varints = {}, varint_rules = Map.empty, varint_minimal = {}, varint_zigzag = {},
     markers = Map.empty, constraints = Map.empty, constraint_order = [], enum_values = Map.empty,
     versions = Map.empty, tlvs = Map.empty, tlv_unenforceable = {}, tlv_rules = Map.empty,
     indexes = Map.empty, index_bases = Map.empty, arguments = Map.empty, holds = Map.empty,
     depths = Map.empty, arms = Map.empty, struct_names = [], placement_names = [], placement_vectors = []\<rparr>"

section \<open>Loading one section\<close>

text \<open>\<open>dict.setdefault(key, []).append(value)\<close>, and the same over a set.\<close>

definition append_at :: "'a list by_index \<Rightarrow> int \<Rightarrow> 'a \<Rightarrow> 'a list by_index" where
  "append_at m k v = m(k \<mapsto> (case m k of None \<Rightarrow> [v] | Some vs \<Rightarrow> vs @ [v]))"

definition insert_at :: "'a set by_index \<Rightarrow> int \<Rightarrow> 'a \<Rightarrow> 'a set by_index" where
  "insert_at m k v = m(k \<mapsto> (case m k of None \<Rightarrow> {v} | Some vs \<Rightarrow> insert v vs))"

text \<open>One pass over a section's records: each is unpacked at its position and handed on with it.\<close>

definition each_row :: "bytes \<Rightarrow> directory \<Rightarrow> int \<Rightarrow> (nat \<Rightarrow> struct_format) \<Rightarrow>
    (walker_image \<Rightarrow> nat \<Rightarrow> int list \<Rightarrow> walker_image image_res) \<Rightarrow> walker_image \<Rightarrow> walker_image image_res" where
  "each_row blob found kind fmt step img =
     (case found kind of None \<Rightarrow> Inr img
      | Some (at, records, stride) \<Rightarrow>
          foldE (\<lambda>img i. bindE (unpack_from (fmt stride) blob (at + i * stride)) (step img (at + i * stride)))
            [0..<records] img)"

abbreviation load_rows where
  "load_rows blob found kind fmt step \<equiv> each_row blob found kind (\<lambda>stride. fmt) (\<lambda>img pos row. Inr (step img pos row))"

definition load_structs :: "bytes \<Rightarrow> directory \<Rightarrow> walker_image \<Rightarrow> walker_image image_res" where
  "load_structs blob found =
     each_row blob found 1 (\<lambda>stride. if 20 \<le> stride then [U32, U32, U32, U32, U32] else [U32, U32, U32, U32])
       (\<lambda>img pos row. Inr (img\<lparr>structs := structs img @
          [\<lparr>first_placement = row ! 0, placement_count = row ! 1, size_bits = row ! 2, struct_flags = row ! 3,
            size_min_bits = (if length row = 5 then row ! 4 else NONE)\<rparr>]\<rparr>))"

definition load_placements :: "bytes \<Rightarrow> directory \<Rightarrow> walker_image \<Rightarrow> walker_image image_res" where
  "load_placements blob found =
     load_rows blob found 2
       [U8, U8, U8, U8, U32, U32, U32, U32, U32, U32, U32, U32, U32, U8, U8, U16, U16, U16, U16]
       (\<lambda>img pos row. img\<lparr>placements := placements img @
          [\<lparr>p_kind = row ! 0, p_endian = row ! 1, p_bit_order = row ! 2, p_flags = row ! 3,
            p_offset_bits = row ! 4, p_size_bits = row ! 5, p_size_max_bits = row ! 6, p_element_bits = row ! 7,
            p_array_count = row ! 8, p_size_code = row ! 9, p_type_struct = row ! 10, p_located_code = row ! 11,
            p_repeat_code = row ! 12, p_radix = row ! 13, p_text_flags = row ! 14, p_radix_digits = row ! 15,
            p_since = row ! 16, p_repeat_cap = row ! 17, p_pad_to = row ! 18\<rparr>]\<rparr>)"

definition whole_section :: "bytes \<Rightarrow> directory \<Rightarrow> int \<Rightarrow> bytes" where
  "whole_section blob found kind =
     (case found kind of None \<Rightarrow> [] | Some (at, records, stride) \<Rightarrow> slice blob at (records * stride))"

definition load_relations :: "bytes \<Rightarrow> directory \<Rightarrow> walker_image \<Rightarrow> walker_image image_res" where
  "load_relations blob found =
     (case (case found 19 of None \<Rightarrow> (0, 0, 0) | Some entry \<Rightarrow> entry) of
        (musts_at, musts_n, musts_stride) \<Rightarrow>
          each_row blob found 18 (\<lambda>stride. [U32, U32, U32, U32, U32, U32])
            (\<lambda>img pos row.
               let first = nat (row ! 3); count = nat (row ! 4) in
               if musts_n < first + count then Inl (ImageError (MustsLacking (length (relations img))))
               else bindE (foldE (\<lambda>held j. bindE (unpack_from [U32] blob (musts_at + (first + j) * musts_stride))
                                        (\<lambda>must. Inr (held @ [must ! 0]))) [0..<count] []) (\<lambda>held.
                 Inr (img\<lparr>relations := relations img @
                   [\<lparr>relation_text = row ! 0, request = row ! 1, response = row ! 2, musts = held\<rparr>]\<rparr>))))"

definition load_messages :: "bytes \<Rightarrow> directory \<Rightarrow> walker_image \<Rightarrow> walker_image image_res" where
  "load_messages blob found =
     load_rows blob found 25 [U32, U32, U32, U32, U8]
       (\<lambda>img pos row. img\<lparr>messages := messages img @
          [\<lparr>message_text = row ! 0, message_body = row ! 1, owner = row ! 2, message_code = row ! 3,
            severity = row ! 4\<rparr>]\<rparr>)"

definition load_pinned_runs :: "bytes \<Rightarrow> directory \<Rightarrow> walker_image \<Rightarrow> walker_image image_res" where
  "load_pinned_runs blob found =
     load_rows blob found 20 [U32, U8]
       (\<lambda>img pos row. img\<lparr>pinned_runs := append_at (pinned_runs img) (row ! 0) (slice blob (pos + 5) (nat (row ! 1)))\<rparr>)"

definition load_delimiters :: "bytes \<Rightarrow> directory \<Rightarrow> walker_image \<Rightarrow> walker_image image_res" where
  "load_delimiters blob found =
     load_rows blob found 6 [U32, U32, U32, U32, U8, U8]
       (\<lambda>img pos row. img\<lparr>
          delimiters := append_at (delimiters img) (row ! 0) (slice blob (pos + 18) (nat (row ! 4))),
          delimiter_rules := (delimiter_rules img)(row ! 0 \<mapsto> (row ! 1, row ! 2, row ! 3)),
          delimiter_consumed := (delimiter_consumed img)(row ! 0 \<mapsto> row ! 5 \<noteq> 0)\<rparr>)"

definition load_whitespace :: "bytes \<Rightarrow> directory \<Rightarrow> walker_image \<Rightarrow> walker_image image_res" where
  "load_whitespace blob found =
     load_rows blob found 23 [U32, U8]
       (\<lambda>img pos row. img\<lparr>whitespace := append_at (whitespace img) (row ! 0) (row ! 1)\<rparr>)"

definition load_skips :: "bytes \<Rightarrow> directory \<Rightarrow> walker_image \<Rightarrow> walker_image image_res" where
  "load_skips blob found =
     load_rows blob found 22 [U32, U8]
       (\<lambda>img pos row. img\<lparr>skip_bytes := append_at (skip_bytes img) (row ! 0) (row ! 1)\<rparr>)"

definition load_regions :: "bytes \<Rightarrow> directory \<Rightarrow> walker_image \<Rightarrow> walker_image image_res" where
  "load_regions blob found =
     load_rows blob found 7 [U32, U32, U32, U8]
       (\<lambda>img pos row. img\<lparr>
          regions := insert (row ! 0) (regions img),
          region_flags := (region_flags img)(row ! 0 \<mapsto> row ! 3),
          region_owner := (if row ! 1 \<noteq> NONE then (region_owner img)(row ! 0 \<mapsto> row ! 1) else region_owner img)\<rparr>)"

definition load_varints :: "bytes \<Rightarrow> directory \<Rightarrow> walker_image \<Rightarrow> walker_image image_res" where
  "load_varints blob found =
     load_rows blob found 9 [U32, U32, U8, U8, U8]
       (\<lambda>img pos row. img\<lparr>
          varints := insert (row ! 0) (varints img),
          varint_rules := (varint_rules img)(row ! 0 \<mapsto> (row ! 2, row ! 3, and (row ! 4) 2 \<noteq> 0)),
          varint_minimal := (if and (row ! 4) 1 \<noteq> 0 then insert (row ! 0) (varint_minimal img) else varint_minimal img),
          varint_zigzag := (if and (row ! 4) 4 \<noteq> 0 then insert (row ! 0) (varint_zigzag img) else varint_zigzag img)\<rparr>)"

definition load_constraints :: "bytes \<Rightarrow> directory \<Rightarrow> walker_image \<Rightarrow> walker_image image_res" where
  "load_constraints blob found =
     load_rows blob found 15 [U32, I64, U8]
       (\<lambda>img pos row. img\<lparr>
          constraints := append_at (constraints img) (row ! 0) (row ! 2, row ! 1),
          constraint_order := constraint_order img @ [row ! 0]\<rparr>)"

definition load_enum_values :: "bytes \<Rightarrow> directory \<Rightarrow> walker_image \<Rightarrow> walker_image image_res" where
  "load_enum_values blob found =
     load_rows blob found 16 [U32, I64, U32]
       (\<lambda>img pos row. img\<lparr>enum_values := insert_at (enum_values img) (row ! 0) (row ! 1)\<rparr>)"

definition number_is_big :: "bool \<Rightarrow> int \<Rightarrow> bool" where
  "number_is_big host_big flags = (and flags 2 \<noteq> 0 \<or> and flags 4 \<noteq> 0 \<and> host_big)"

definition load_tlvs :: "bool \<Rightarrow> bytes \<Rightarrow> directory \<Rightarrow> walker_image \<Rightarrow> walker_image image_res" where
  "load_tlvs host_big blob found =
     load_rows blob found 10 [U32, U8, U8, U8, PAD, U32, U8, U8, U8, PAD]
       (\<lambda>img pos row. img\<lparr>
          tlv_unenforceable := (if and (row ! 1) 7 \<noteq> 0 then insert (row ! 0) (tlv_unenforceable img) else tlv_unenforceable img),
          tlvs := (tlvs img)(row ! 0 \<mapsto>
            (row ! 4, row ! 5, row ! 6, number_is_big host_big (row ! 7), and (row ! 7) 1 \<noteq> 0))\<rparr>)"

definition load_tlv_rules :: "bool \<Rightarrow> bytes \<Rightarrow> directory \<Rightarrow> walker_image \<Rightarrow> walker_image image_res" where
  "load_tlv_rules host_big blob found =
     each_row blob found 24
       (\<lambda>stride. if 28 \<le> stride then [U32, I64, U8, U8, PAD, PAD, U32, U8, U8, U8, PAD, U32]
                 else [U32, I64, U8, U8, PAD, PAD, U32, U8, U8, U8, PAD])
       (\<lambda>img pos row. Inr (img\<lparr>tlv_rules := append_at (tlv_rules img) (row ! 0)
          (row ! 1, row ! 2, row ! 3, row ! 4,
           (row ! 5, row ! 6, number_is_big host_big (row ! 7), and (row ! 7) 1 \<noteq> 0),
           if 8 < length row then row ! 8 else NONE)\<rparr>))"

definition load_indexes :: "bytes \<Rightarrow> directory \<Rightarrow> walker_image \<Rightarrow> walker_image image_res" where
  "load_indexes blob found =
     (let stride = (case found 11 of None \<Rightarrow> 0 | Some (at, records, stride) \<Rightarrow> stride) in
      each_row blob found 11 (\<lambda>stride. [U32, U32, U32, U8])
       (\<lambda>img pos row.
          bindE (if 20 \<le> stride then bindE (unpack_from [U32] blob (pos + 16)) (\<lambda>held. Inr (held ! 0)) else Inr NONE)
            (\<lambda>member. Inr (img\<lparr>
               indexes := (indexes img)(row ! 0 \<mapsto> (row ! 1, row ! 2, row ! 3)),
               index_bases := (index_bases img)(row ! 0 \<mapsto> member)\<rparr>))))"

definition load_arguments :: "bytes \<Rightarrow> directory \<Rightarrow> walker_image \<Rightarrow> walker_image image_res" where
  "load_arguments blob found =
     load_rows blob found 28 [U32, U32, U32]
       (\<lambda>img pos row. img\<lparr>arguments := append_at (arguments img) (row ! 0) (row ! 1, row ! 2)\<rparr>)"

definition load_holds :: "bytes \<Rightarrow> directory \<Rightarrow> walker_image \<Rightarrow> walker_image image_res" where
  "load_holds blob found =
     load_rows blob found 29 [U32, U32] (\<lambda>img pos row. img\<lparr>holds := (holds img)(row ! 0 \<mapsto> row ! 1)\<rparr>)"

definition load_depths :: "bytes \<Rightarrow> directory \<Rightarrow> walker_image \<Rightarrow> walker_image image_res" where
  "load_depths blob found =
     load_rows blob found 21 [U32, U32, U32]
       (\<lambda>img pos row. img\<lparr>depths := (depths img)(row ! 0 \<mapsto> (row ! 1, row ! 2))\<rparr>)"

definition load_versions :: "bytes \<Rightarrow> directory \<Rightarrow> walker_image \<Rightarrow> walker_image image_res" where
  "load_versions blob found =
     load_rows blob found 17 [U32, U32] (\<lambda>img pos row. img\<lparr>versions := (versions img)(row ! 0 \<mapsto> row ! 1)\<rparr>)"

text \<open>A codec's kernel is keyed by its row, and read only where the stride says the row carries it.\<close>

definition load_codecs :: "bytes \<Rightarrow> directory \<Rightarrow> walker_image \<Rightarrow> walker_image image_res" where
  "load_codecs blob found img =
     (case found 8 of None \<Rightarrow> Inr img
      | Some (at, records, stride) \<Rightarrow>
          if stride < 32 then Inr img
          else foldE (\<lambda>img i. bindE (unpack_from [U32, U32, U32, U32, U32, U32, I32, I32] blob (at + i * stride)) (\<lambda>row.
                 Inr (img\<lparr>kernels := (kernels img)(int i \<mapsto>
                   \<lparr>row_family = row ! 1, row_width = row ! 2, row_start = row ! 3, row_xorout = row ! 4,
                    row_table = row ! 5, row_shift = row ! 6, row_reflect = row ! 7\<rparr>)\<rparr>)))
               [0..<records] img)"

definition load_kernel_tables :: "bytes \<Rightarrow> directory \<Rightarrow> walker_image \<Rightarrow> walker_image image_res" where
  "load_kernel_tables blob found =
     load_rows blob found 27 (replicate 256 U32)
       (\<lambda>img pos row. img\<lparr>kernel_tables := kernel_tables img @ [row]\<rparr>)"

definition load_tags :: "bytes \<Rightarrow> directory \<Rightarrow> walker_image \<Rightarrow> walker_image image_res" where
  "load_tags blob found =
     each_row blob found 26
       (\<lambda>stride. if 28 \<le> stride then [U32, U32, U32, U32, U32, U32, U32] else [U32, U32, U32, U32])
       (\<lambda>img pos row.
          let whole = (length row = 7) in
          Inr (img\<lparr>tags := (tags img)(row ! 0 \<mapsto>
            \<lparr>tag_codec = row ! 1, tag_first = row ! 2, tag_last = row ! 3,
             tag_fill = (if whole then row ! 4 else NONE), tag_prefix = (if whole then row ! 5 else 0),
             tag_endian = (if whole then row ! 6 else 0)\<rparr>)\<rparr>))"

definition load_markers :: "bytes \<Rightarrow> directory \<Rightarrow> walker_image \<Rightarrow> walker_image image_res" where
  "load_markers blob found =
     load_rows blob found 14 [U32, I64, U32] (\<lambda>img pos row. img\<lparr>markers := (markers img)(row ! 0 \<mapsto> row ! 1)\<rparr>)"

definition load_arms :: "bytes \<Rightarrow> directory \<Rightarrow> walker_image \<Rightarrow> walker_image image_res" where
  "load_arms blob found =
     load_rows blob found 5 [U32, U32, I64, U32, U8]
       (\<lambda>img pos row. img\<lparr>arms := (arms img)(row ! 0 \<mapsto>
          (case arms img (row ! 0) of
             None \<Rightarrow> (row ! 3, [(row ! 2, row ! 1, row ! 4)])
           | Some (selects, cases) \<Rightarrow> (selects, cases @ [(row ! 2, row ! 1, row ! 4)])))\<rparr>)"

definition vector_of :: "bytes \<Rightarrow> (string \<times> string) list" where
  "vector_of row =
     concat (map (\<lambda>(j, axis).
       let domain = (case map_of WALKER_DOMAINS axis of None \<Rightarrow> [] | Some names \<Rightarrow> names) in
       if j < length row \<and> unat (row ! j) < length domain then [(axis, domain ! unat (row ! j))] else [])
      (enumerate 0 AXES))"

definition load_vectors :: "bytes \<Rightarrow> directory \<Rightarrow> walker_image \<Rightarrow> walker_image image_res" where
  "load_vectors blob found img =
     (case found 13 of None \<Rightarrow> Inr img
      | Some (at, records, stride) \<Rightarrow>
          Inr (img\<lparr>placement_vectors := placement_vectors img @
            map (\<lambda>i. vector_of (slice blob (at + i * stride) stride)) [0..<records]\<rparr>))"

definition find_zero :: "bytes \<Rightarrow> nat \<Rightarrow> nat option" where
  "find_zero pool offset =
     (let run = length (takeWhile (\<lambda>b. b \<noteq> 0) (drop offset pool)) in
      if offset + run < length pool then Some (offset + run) else None)"

definition string_at :: "bytes \<Rightarrow> nat \<Rightarrow> code_points" where
  "string_at pool offset =
     (let stop = (case find_zero pool offset of Some e \<Rightarrow> e | None \<Rightarrow> length pool) in
      map (\<lambda>b. if b < 128 then unat b else 0xFFFD) (slice pool offset (stop - offset)))"

definition load_names :: "bytes \<Rightarrow> directory \<Rightarrow> walker_image \<Rightarrow> walker_image image_res" where
  "load_names blob found img =
     (case (found 12, found 4) of
        (Some (at, records, stride), Some strings_entry) \<Rightarrow>
          bindE (foldE (\<lambda>held i. bindE (unpack_from [U32] blob (at + i * stride)) (\<lambda>row. Inr (held @ [nat (row ! 0)])))
                   [0..<records] []) (\<lambda>offsets.
            let names = map (string_at (strings img)) offsets; split = length (structs img) in
            Inr (img\<lparr>struct_names := take split names, placement_names := drop split names\<rparr>))
      | other \<Rightarrow> Inr img)"

section \<open>Loading an image\<close>

text \<open>The sections in the order \<open>load\<close> reads them; \<open>host_big\<close> is the byte order of the machine.\<close>

definition loaders :: "bool \<Rightarrow> bytes \<Rightarrow> directory \<Rightarrow> (walker_image \<Rightarrow> walker_image image_res) list" where
  "loaders host_big blob found =
     [load_structs blob found, load_placements blob found,
      (\<lambda>img. Inr (img\<lparr>code_section := whole_section blob found 3\<rparr>)),
      (\<lambda>img. Inr (img\<lparr>strings := whole_section blob found 4\<rparr>)),
      load_relations blob found, load_messages blob found, load_pinned_runs blob found,
      load_delimiters blob found, load_whitespace blob found, load_skips blob found, load_regions blob found,
      load_varints blob found, load_constraints blob found, load_enum_values blob found,
      load_tlvs host_big blob found, load_tlv_rules host_big blob found, load_indexes blob found,
      load_arguments blob found, load_holds blob found, load_depths blob found, load_versions blob found,
      load_codecs blob found, load_kernel_tables blob found, load_tags blob found, load_markers blob found,
      load_arms blob found, load_vectors blob found, load_names blob found]"

definition load :: "bool \<Rightarrow> bytes \<Rightarrow> walker_image image_res" where
  "load host_big blob =
     bindE (read_directory blob) (\<lambda>found. foldE (\<lambda>img f. f img) (loaders host_big blob found) empty_image)"

section \<open>Questions about an image\<close>

definition capability_of :: "walker_image \<Rightarrow> nat \<Rightarrow> string \<Rightarrow> string option" where
  "capability_of img index axis =
     (if length (placement_vectors img) \<le> index then None else map_of (placement_vectors img ! index) axis)"

text \<open>Where the tail was omitted, a placement is named by its index.\<close>

definition name_of :: "walker_image \<Rightarrow> nat \<Rightarrow> code_points + nat" where
  "name_of img index = (if index < length (placement_names img) then Inl (placement_names img ! index) else Inr index)"

definition struct_name :: "walker_image \<Rightarrow> nat \<Rightarrow> code_points + nat" where
  "struct_name img index = (if index < length (struct_names img) then Inl (struct_names img ! index) else Inr index)"

definition relation_name :: "walker_image \<Rightarrow> nat \<Rightarrow> code_points + nat" where
  "relation_name img index =
     (if length (relations img) \<le> index then Inr index
      else Inl (string_at (strings img) (nat (relation_text (relations img ! index)))))"

definition members :: "struct_row \<Rightarrow> int list" where
  "members r = [first_placement r .. first_placement r + placement_count r - 1]"

end
