(* ===== verification/Image_Roundtrip.thy ===== *)
theory Image_Roundtrip
  imports Image_Format
begin

text \<open>
  What the packer assembles the walker reads back: the records of \<open>struct\<close>, the directory and the
  section bodies, the string pool; and what the loader refuses, or does not.
\<close>

section \<open>Records\<close>

lemma code_bytes_pos [simp]: "0 < code_bytes c" "code_bytes c \<noteq> 0"
  by (cases c; simp)+

lemma struct_bytes_simps [simp]:
  "struct_bytes [] = 0" "struct_bytes (c # fmt) = code_bytes c + struct_bytes fmt"
  by (simp_all add: struct_bytes_def)

lemma le_bytes_read: "fits sg n v \<Longrightarrow> 0 < n \<Longrightarrow> from_bytes False sg (le_bytes n v) = v"
  using from_to_bytes [of False sg n v "le_bytes n v"] by (simp add: to_bytes_def order_bytes_def)

lemma pack_read: "pack_codes fmt vs = Inr bs \<Longrightarrow> read_codes fmt (bs @ rest) = vs \<and> length bs = struct_bytes fmt"
proof (induction fmt vs arbitrary: bs rule: pack_codes.induct)
  case (2 c fmt vs)
  show ?case
  proof (cases "c = PAD")
    case True
    then show ?thesis using 2 by auto
  next
    case False
    then obtain v vs' bs' where v: "vs = v # vs'" "fits (code_signed c) (code_bytes c) v"
        "pack_codes fmt vs' = Inr bs'" "bs = le_bytes (code_bytes c) v @ bs'"
      using 2(3) by (auto split: list.splits if_splits)
    then show ?thesis using 2(2) [OF False v(1,2,3)] False by (simp add: le_bytes_read)
  qed
qed auto

lemma packed_read:
  assumes "packed fmt vs = Inr bs"
  shows "length bs = struct_bytes fmt" "unpack_from fmt (pre @ bs @ post) (length pre) = Inr vs"
  using assms pack_read [of fmt vs bs] by (auto simp: packed_def unpack_from_def split: sum.splits)

section \<open>The directory\<close>

fun placed :: "nat \<Rightarrow> packed_section list \<Rightarrow> (int \<times> nat \<times> nat \<times> nat) list" where
  "placed at [] = []"
| "placed at ((kind, blob, stride) # sections) =
     (kind, at, length blob div stride, stride) # placed (at + length blob) sections"

definition entered :: "directory \<Rightarrow> (int \<times> nat \<times> nat \<times> nat) list \<Rightarrow> directory" where
  "entered found es = foldl (\<lambda>f (kind, e). f(kind \<mapsto> e)) found es"

lemma entered_simps [simp]:
  "entered found [] = found" "entered found ((kind, e) # es) = entered (found(kind \<mapsto> e)) es"
  by (simp_all add: entered_def)

lemma entered_outside: "kind \<notin> fst ` set es \<Longrightarrow> entered found es kind = found kind"
  by (induction es arbitrary: found) auto

lemma entered_inside: "distinct (map fst es) \<Longrightarrow> (kind, e) \<in> set es \<Longrightarrow> entered found es kind = Some e"
  by (induction es arbitrary: found) (auto simp: entered_outside)

lemma keys_placed: "map fst (placed at sections) = map fst sections"
  by (induction at sections rule: placed.induct) auto

lemma second_tag_None: "second_tag seen ks = None \<Longrightarrow> distinct ks \<and> set ks \<inter> set seen = {}"
  by (induction seen ks rule: second_tag.induct) (auto split: if_splits)

lemma second_tag_Some: "second_tag seen ks = Some k \<Longrightarrow> distinct seen \<Longrightarrow> \<not> distinct (seen @ ks)"
  by (induction seen ks rule: second_tag.induct) (auto split: if_splits)

lemma length_directory: "directory_of at sections = Inr dir \<Longrightarrow> length dir = SECTION_BYTES * length sections"
  by (induction at sections arbitrary: dir rule: directory_of.induct)
    (auto dest!: packed_read(1) simp: SECTION_BYTES_def)

lemma read_entries:
  "directory_of at sections = Inr dir \<Longrightarrow> out = pre @ dir @ post \<Longrightarrow> length pre = d + i * SECTION_BYTES \<Longrightarrow>
   at + length (bodies_of sections) \<le> length out \<Longrightarrow>
     foldE (read_entry out d) [i..<i + length sections] found = Inr (entered found (placed at sections))"
proof (induction at sections arbitrary: dir pre i found rule: directory_of.induct)
  case (2 at kind blob stride sections)
  obtain row rows where r: "packed [U32, U32, U32, U32]
        [kind, int at, int (if stride \<noteq> 0 then length blob div stride else 0), int stride] = Inr row"
      "directory_of (at + length blob) sections = Inr rows" "dir = row @ rows"
    using 2(2) by auto
  have u: "unpack_from [U32, U32, U32, U32] out (d + i * SECTION_BYTES)
      = Inr [kind, int at, int (length blob div stride), int stride]"
    using packed_read(2) [OF r(1), of pre "rows @ post"] 2(3,4) r(3) by simp
  have len: "length (bodies_of ((kind, blob, stride) # sections)) = length blob + length (bodies_of sections)"
    by (simp add: bodies_of_def)
  have "length blob div stride * stride \<le> length blob" by simp
  then have inside: "\<not> length out < at + length blob div stride * stride"
    using 2(5) unfolding len by linarith
  have "read_entry out d found i = Inr (found(kind \<mapsto> (at, length blob div stride, stride)))"
    using inside by (simp add: read_entry_def u)
  moreover have "[i..<i + length ((kind, blob, stride) # sections)] = i # [Suc i..<Suc i + length sections]"
    using upt_conv_Cons [of i "Suc i + length sections"] by simp
  moreover have "foldE (read_entry out d) [Suc i..<Suc i + length sections] (found(kind \<mapsto> (at, length blob div stride, stride)))
      = Inr (entered (found(kind \<mapsto> (at, length blob div stride, stride))) (placed (at + length blob) sections))"
    using 2(5) 2(3,4) r packed_read(1) [OF r(1)] unfolding len
    by (intro 2(1) [OF r(2), where pre = "pre @ row"]) (simp_all add: SECTION_BYTES_def)
  ultimately show ?case by simp
qed simp

lemma placed_body:
  "(kind, blob, stride) \<in> set sections \<Longrightarrow> length head = at \<Longrightarrow>
     \<exists>p. (kind, p, length blob div stride, stride) \<in> set (placed at sections)
       \<and> slice (head @ bodies_of sections) p (length blob) = blob"
proof (induction at sections arbitrary: head rule: placed.induct)
  case (2 at kind' blob' stride' sections)
  show ?case
  proof (cases "(kind, blob, stride) = (kind', blob', stride')")
    case True
    then show ?thesis using 2(3) by (auto simp: bodies_of_def slice_def)
  next
    case False
    then have "\<exists>p. (kind, p, length blob div stride, stride) \<in> set (placed (at + length blob') sections)
       \<and> slice ((head @ blob') @ bodies_of sections) p (length blob) = blob"
      using 2(2,3) by (intro 2(1)) auto
    then show ?thesis by (auto simp: bodies_of_def)
  qed
qed simp

lemma assemble_shape:
  assumes "assemble sections metadata = Inr out"
  obtains version total counts dir where
    "out = MAGIC @ version @ total @ counts @ dir @ bodies_of sections"
    "packed [U16, U16] [FORMAT_VERSION, if metadata then 1 else 0] = Inr version"
    "packed [U32] [int (HEADER_BYTES + length sections * SECTION_BYTES + length (bodies_of sections))] = Inr total"
    "packed [U32, U32] [int (length sections), int HEADER_BYTES] = Inr counts"
    "directory_of (HEADER_BYTES + length sections * SECTION_BYTES) sections = Inr dir"
    "distinct (map fst sections)"
  using assms second_tag_None [of "[]" "map fst sections"]
  by (auto simp: assemble_def Let_def split: option.splits)

lemma read_assembled:
  assumes "assemble sections metadata = Inr out"
  shows "read_directory out = Inr (entered Map.empty (placed (HEADER_BYTES + length sections * SECTION_BYTES) sections))"
proof -
  obtain version total counts dir where s: "out = MAGIC @ version @ total @ counts @ dir @ bodies_of sections"
      "packed [U16, U16] [FORMAT_VERSION, if metadata then 1 else 0] = Inr version"
      "packed [U32] [int (HEADER_BYTES + length sections * SECTION_BYTES + length (bodies_of sections))] = Inr total"
      "packed [U32, U32] [int (length sections), int HEADER_BYTES] = Inr counts"
      "directory_of (HEADER_BYTES + length sections * SECTION_BYTES) sections = Inr dir"
    using assms by (rule assemble_shape)
  have len: "length MAGIC = 4" "length version = 4" "length total = 4" "length counts = 8"
      "length dir = SECTION_BYTES * length sections"
    using packed_read(1) [OF s(2)] packed_read(1) [OF s(3)] packed_read(1) [OF s(4)] length_directory [OF s(5)]
    by (simp_all add: MAGIC_def)
  then have out: "length out = HEADER_BYTES + length sections * SECTION_BYTES + length (bodies_of sections)"
    by (simp add: s(1) HEADER_BYTES_def)
  have v: "unpack_from [U16, U16] out 4 = Inr [FORMAT_VERSION, if metadata then 1 else 0]"
    using packed_read(2) [OF s(2), of MAGIC "total @ counts @ dir @ bodies_of sections"] by (simp add: s(1) len)
  have "pack_codes [U32, U32, U32] [int (length out), int (length sections), int HEADER_BYTES] = Inr (total @ counts)"
    using s(3,4) out by (auto simp: packed_def split: sum.splits if_splits)
  then have h: "unpack_from [U32, U32, U32] out 8 = Inr [int (length out), int (length sections), int HEADER_BYTES]"
    using packed_read(2) [of "[U32, U32, U32]" _ "total @ counts" "MAGIC @ version" "dir @ bodies_of sections"]
    by (simp add: s(1) len packed_def)
  have e: "foldE (read_entry out HEADER_BYTES) [0..<0 + length sections] Map.empty
      = Inr (entered Map.empty (placed (HEADER_BYTES + length sections * SECTION_BYTES) sections))"
    by (rule read_entries [OF s(5), where pre = "MAGIC @ version @ total @ counts" and post = "bodies_of sections"])
      (simp_all add: s(1) len HEADER_BYTES_def SECTION_BYTES_def out)
  have "HEADER_BYTES \<le> length out" "take 4 out = MAGIC" by (simp add: out, simp add: s(1) len(1))
  then show ?thesis using e by (simp add: read_directory_def v h linorder_not_less)
qed

text \<open>
  C26: Whatever sections the packer assembles, each under its own tag, the walker's directory names
  every one of them, with as many records as its body holds, and at the offset the body stands at.
\<close>

theorem assembled_sections_found:
  assumes "assemble sections metadata = Inr out" "(kind, blob, stride) \<in> set sections" "stride dvd length blob"
  shows "\<exists>found at. read_directory out = Inr found \<and> found kind = Some (at, length blob div stride, stride)
    \<and> whole_section out found kind = blob"
proof -
  let ?at = "HEADER_BYTES + length sections * SECTION_BYTES"
  obtain version total counts dir where s: "out = MAGIC @ version @ total @ counts @ dir @ bodies_of sections"
      "packed [U16, U16] [FORMAT_VERSION, if metadata then 1 else 0] = Inr version"
      "packed [U32] [int (?at + length (bodies_of sections))] = Inr total"
      "packed [U32, U32] [int (length sections), int HEADER_BYTES] = Inr counts"
      "directory_of ?at sections = Inr dir" "distinct (map fst sections)"
    using assms(1) by (rule assemble_shape)
  have "length (MAGIC @ version @ total @ counts @ dir) = ?at"
    using packed_read(1) [OF s(2)] packed_read(1) [OF s(3)] packed_read(1) [OF s(4)] length_directory [OF s(5)]
    by (simp add: MAGIC_def HEADER_BYTES_def)
  from placed_body [OF assms(2) this]
  obtain p where p: "(kind, p, length blob div stride, stride) \<in> set (placed ?at sections)"
      "slice out p (length blob) = blob" by (auto simp: s(1))
  let ?found = "entered Map.empty (placed ?at sections)"
  have f: "?found kind = Some (p, length blob div stride, stride)"
    using entered_inside [OF _ p(1)] s(6) by (simp add: keys_placed)
  moreover have "whole_section out ?found kind = blob"
    using assms(3) p(2) by (simp add: whole_section_def f)
  ultimately show ?thesis using read_assembled [OF assms(1)] by blast
qed

theorem assembled_sections_found_witness:
  "\<exists>out found at. assemble [(3, [7, 9], 1), (22, [5, 0, 0, 0, 0x20, 0, 0, 0], 8)] True = Inr out
     \<and> read_directory out = Inr found \<and> found 22 = Some (at, 1, 8)
     \<and> whole_section out found 22 = [5, 0, 0, 0, 0x20, 0, 0, 0]"
proof -
  let ?a = "assemble [(3, [7, 9], 1), (22, [5, 0, 0, 0, 0x20, 0, 0, 0], 8)] True"
  have "\<not> isl ?a" by code_simp
  then obtain out where "?a = Inr out" by (cases ?a) auto
  have "8 dvd length [5, 0, 0, 0, 0x20, 0, 0, 0 :: byte]" and one: "length [5, 0, 0, 0, 0x20, 0, 0, 0 :: byte] div 8 = 1"
    by (code_simp, simp)
  from assembled_sections_found [OF \<open>?a = Inr out\<close> _ this(1), of 22] show ?thesis
    unfolding one using \<open>?a = Inr out\<close> by auto
qed

section \<open>What the loader refuses\<close>

lemma load_directory_error: "read_directory blob = Inl e \<Longrightarrow> load host_big blob = Inl e"
  by (simp add: load_def)

lemma header_of:
  assumes "assemble sections metadata = Inr out" "take HEADER_BYTES blob = take HEADER_BYTES out" "length blob \<noteq> length out"
  shows "read_directory blob = Inl (ImageError (WrongTotal (int (length out))))"
proof -
  obtain version total counts dir where s: "out = MAGIC @ version @ total @ counts @ dir @ bodies_of sections"
      "packed [U16, U16] [FORMAT_VERSION, if metadata then 1 else 0] = Inr version"
      "packed [U32] [int (HEADER_BYTES + length sections * SECTION_BYTES + length (bodies_of sections))] = Inr total"
      "packed [U32, U32] [int (length sections), int HEADER_BYTES] = Inr counts"
      "directory_of (HEADER_BYTES + length sections * SECTION_BYTES) sections = Inr dir"
    using assms(1) by (rule assemble_shape)
  have len: "length MAGIC = 4" "length version = 4" "length total = 4" "length counts = 8"
    using packed_read(1) [OF s(2)] packed_read(1) [OF s(3)] packed_read(1) [OF s(4)] by (simp_all add: MAGIC_def)
  have out: "length out = HEADER_BYTES + length sections * SECTION_BYTES + length (bodies_of sections)"
    using length_directory [OF s(5)] by (simp add: s(1) len HEADER_BYTES_def)
  have head: "take HEADER_BYTES out = MAGIC @ version @ total @ counts" by (simp add: s(1) len HEADER_BYTES_def)
  then obtain tail where b: "blob = MAGIC @ version @ (total @ counts) @ tail"
    using append_take_drop_id [of HEADER_BYTES blob] assms(2) by (metis append.assoc)
  have v: "unpack_from [U16, U16] blob 4 = Inr [FORMAT_VERSION, if metadata then 1 else 0]"
    using packed_read(2) [OF s(2), of MAGIC "(total @ counts) @ tail"] by (simp add: b len)
  have "pack_codes [U32, U32, U32] [int (length out), int (length sections), int HEADER_BYTES] = Inr (total @ counts)"
    using s(3,4) out by (auto simp: packed_def split: sum.splits if_splits)
  then have h: "unpack_from [U32, U32, U32] blob 8 = Inr [int (length out), int (length sections), int HEADER_BYTES]"
    using packed_read(2) [of "[U32, U32, U32]" _ "total @ counts" "MAGIC @ version" tail]
    by (simp add: b len packed_def)
  have "HEADER_BYTES \<le> length blob" "take 4 blob = MAGIC" by (simp_all add: b len HEADER_BYTES_def)
  then show ?thesis using assms(3) by (simp add: read_directory_def v h)
qed

text \<open>
  C27: An image cut short or run on is refused as an image: no proper prefix of what the packer
  assembled loads, and any file that begins with its header and is not as long, whatever its bytes,
  is refused for its length; the refusal is the walker's own \<open>ImageError\<close>, never a stray
  \<open>struct.error\<close>.
\<close>

theorem cut_image_refused:
  assumes "assemble sections metadata = Inr out"
  shows "(n < length out \<longrightarrow> (\<exists>fault. load host_big (take n out) = Inl (ImageError fault)))
    \<and> (take HEADER_BYTES blob = take HEADER_BYTES out \<longrightarrow> length blob \<noteq> length out
        \<longrightarrow> load host_big blob = Inl (ImageError (WrongTotal (int (length out)))))"
proof (intro conjI impI)
  assume n: "n < length out"
  show "\<exists>fault. load host_big (take n out) = Inl (ImageError fault)"
  proof (cases "n < HEADER_BYTES")
    case True
    then have "read_directory (take n out) = Inl (ImageError BadMagic)" using n by (simp add: read_directory_def min_def)
    then show ?thesis using load_directory_error by blast
  next
    case False
    then have "read_directory (take n out) = Inl (ImageError (WrongTotal (int (length out))))"
      using n by (intro header_of [OF assms]) (simp_all add: min_def)
    then show ?thesis using load_directory_error by blast
  qed
next
  assume "take HEADER_BYTES blob = take HEADER_BYTES out" "length blob \<noteq> length out"
  then show "load host_big blob = Inl (ImageError (WrongTotal (int (length out))))"
    by (intro load_directory_error header_of [OF assms])
qed

theorem cut_image_refused_witness:
  "\<exists>out fault. assemble [(3, [7, 9], 1)] False = Inr out
     \<and> load False (take 17 out) = Inl (ImageError fault)
     \<and> load True (take HEADER_BYTES out @ [0xFF]) = Inl (ImageError (WrongTotal (int (length out))))"
proof -
  let ?a = "assemble [(3, [7, 9], 1)] False"
  have "\<not> isl ?a" "(case ?a of Inr out \<Rightarrow> length out = 38 | Inl e \<Rightarrow> False)" by code_simp+
  then obtain out where out: "?a = Inr out" "length out = 38" by (cases ?a) auto
  have "take HEADER_BYTES (take HEADER_BYTES out @ [0xFF]) = take HEADER_BYTES out" "length (take HEADER_BYTES out @ [0xFF]) \<noteq> length out"
    using out(2) by (simp_all add: HEADER_BYTES_def)
  then show ?thesis
    using cut_image_refused [OF out(1), of 17 False] cut_image_refused [OF out(1), of 0 True "take HEADER_BYTES out @ [0xFF]"] out
    by auto
qed

section \<open>What the loader does not refuse\<close>

text \<open>An image of one directory entry: white space, \<open>n\<close> records, no stride.\<close>

definition zero_stride_image :: "nat \<Rightarrow> bytes" where
  "zero_stride_image n =
     MAGIC @ [8, 0, 0, 0] @ [36, 0, 0, 0] @ [1, 0, 0, 0] @ [20, 0, 0, 0]
       @ [23, 0, 0, 0] @ [0, 0, 0, 0] @ le_bytes 4 (int n) @ [0, 0, 0, 0]"

lemma append_at_eq: "append_at m k v = m(k \<mapsto> (case m k of None \<Rightarrow> [] | Some vs \<Rightarrow> vs) @ [v])"
  by (auto simp: append_at_def split: option.split)

lemma foldE_append_same:
  "foldE (\<lambda>img (i::nat). Inr (img\<lparr>whitespace := append_at (whitespace img) k v\<rparr>)) xs img
     = (Inr (if xs = [] then img else img\<lparr>whitespace := (whitespace img)(k \<mapsto>
         (case whitespace img k of None \<Rightarrow> [] | Some vs \<Rightarrow> vs) @ replicate (length xs) v)\<rparr>) :: walker_image image_res)"
proof (induction xs arbitrary: img)
  case (Cons x xs)
  show ?case
    by (cases "xs = []"; simp add: Cons.IH; simp add: append_at_eq fun_upd_def cong: if_cong)
qed simp

lemma no_section [simp]: "found kind = None \<Longrightarrow> each_row blob found kind fmt step img = Inr img"
  by (simp add: each_row_def)

lemmas load_section_defs =
  load_structs_def load_placements_def load_relations_def load_messages_def load_pinned_runs_def load_delimiters_def
  load_skips_def load_regions_def load_varints_def load_constraints_def load_enum_values_def load_tlvs_def
  load_tlv_rules_def load_indexes_def load_arguments_def load_holds_def load_depths_def load_versions_def
  load_codecs_def load_kernel_tables_def load_tags_def load_markers_def load_arms_def load_vectors_def load_names_def
  whole_section_def

lemma zero_stride_bytes: "zero_stride_image n =
    [0x53, 0x49, 0x54, 0x55, 8, 0, 0, 0, 36, 0, 0, 0, 1, 0, 0, 0, 20, 0, 0, 0, 23, 0, 0, 0, 0, 0, 0, 0]
      @ le_bytes 4 (int n) @ [0, 0, 0, 0]"
  by (simp add: zero_stride_image_def MAGIC_def)

lemma le_bytes_23: "le_bytes 4 23 = [23, 0, 0, 0]"
  by (simp add: numeral_eq_Suc byte_of_def)

lemma le_bytes_0: "le_bytes 4 0 = [0, 0, 0, 0]"
  by (simp add: numeral_eq_Suc byte_of_def)

lemma zero_stride_directory:
  assumes "n < 2 ^ 32"
  shows "read_directory (zero_stride_image n) = Inr [23 \<mapsto> (0, n, 0)]"
proof -
  let ?blob = "zero_stride_image n"
  have len: "length ?blob = 36" by (simp add: zero_stride_bytes)
  have m: "take 4 ?blob = MAGIC" by (simp add: zero_stride_image_def MAGIC_def)
  have v: "unpack_from [U16, U16] ?blob 4 = Inr [8, 0]"
    by (simp add: unpack_from_def len) (simp add: zero_stride_bytes code_signed_def unsigned_from_def)
  have h: "unpack_from [U32, U32, U32] ?blob 8 = Inr [36, 1, 20]"
    by (simp add: unpack_from_def len) (simp add: zero_stride_bytes code_signed_def unsigned_from_def)
  have "pack_codes [U32, U32, U32, U32] [23, 0, int n, 0] = Inr (drop 20 ?blob)"
    using assms by (simp add: zero_stride_bytes fits_def code_signed_def le_bytes_23 le_bytes_0)
  then have e: "unpack_from [U32, U32, U32, U32] ?blob 20 = Inr [23, 0, int n, 0]"
    using pack_read [of "[U32, U32, U32, U32]" "[23, 0, int n, 0]" "drop 20 ?blob" "[]"]
    by (simp add: unpack_from_def len)
  show ?thesis
    using len m by (simp add: read_directory_def v h HEADER_BYTES_def SECTION_BYTES_def FORMAT_VERSION_def
        read_entry_def e)
qed

text \<open>
  A record count costs nothing to claim: an image of thirty-six bytes whose one section has no
  stride loads, without an error, into a table with as many entries as its directory says, up to
  \<open>2^32 - 1\<close> of them.
\<close>

theorem zero_stride_accepted:
  assumes "0 < n" "n < 2 ^ 32"
  shows "length (zero_stride_image n) = 36
    \<and> (\<exists>img. load host_big (zero_stride_image n) = Inr img
         \<and> (case whitespace img 0x55544953 of Some octets \<Rightarrow> length octets = n | None \<Rightarrow> False))"
proof -
  let ?blob = "zero_stride_image n"
  have len: "length ?blob = 36" by (simp add: zero_stride_bytes)
  have row: "unpack_from [U32, U8] ?blob 0 = Inr [0x55544953, 8]"
    by (simp add: unpack_from_def len) (simp add: zero_stride_bytes code_signed_def unsigned_from_def)
  have "load_whitespace ?blob [23 \<mapsto> (0, n, 0)] img
      = Inr (img\<lparr>whitespace := (whitespace img)(0x55544953 \<mapsto>
          (case whitespace img 0x55544953 of None \<Rightarrow> [] | Some vs \<Rightarrow> vs) @ replicate n 8)\<rparr>)" for img
    using assms(1) by (simp add: load_whitespace_def each_row_def row foldE_append_same)
  then show ?thesis
    by (simp add: len load_def zero_stride_directory [OF assms(2)] loaders_def load_section_defs empty_image_def)
qed

theorem zero_stride_accepted_witness: "length (zero_stride_image 4294967295) = 36"
  using zero_stride_accepted [of 4294967295 False] by simp

section \<open>The string pool\<close>

definition plain_text :: "string \<Rightarrow> bool" where
  "plain_text s = list_all (\<lambda>c. 0 < (of_char c :: nat) \<and> (of_char c :: nat) < 128) s"

definition text_points :: "string \<Rightarrow> code_points" where
  "text_points s = map of_char s"

text \<open>Every offset handed out points at its text, closed by a zero, wherever the pool has grown to.\<close>

definition pool_ok :: "pool \<Rightarrow> bool" where
  "pool_ok pool = (\<forall>s offset. map_of (snd pool) s = Some offset \<longrightarrow>
     plain_text s \<and> (\<exists>before after. fst pool = before @ ascii_replace s @ [0] @ after \<and> length before = offset))"

lemma ascii_plain:
  assumes "plain_text s"
  shows "0 \<notin> set (ascii_replace s)" "map (\<lambda>b. if b < 128 then unat b else 0xFFFD) (ascii_replace s) = text_points s"
    "map (\<lambda>b. b \<noteq> 0) (ascii_replace s) = replicate (length s) True" "length (ascii_replace s) = length s"
proof -
  have u: "unat (byte_of (int n)) = n" if "n < 128" for n
    using that by (simp add: unat_eq_nat_uint uint_byte_of)
  have b: "byte_of (int n) \<noteq> 0 \<and> byte_of (int n) < 128" if "0 < n" "n < 128" for n
    using that u [of n] by (auto simp: word_less_nat_alt)
  show "0 \<notin> set (ascii_replace s)" using assms b by (fastforce simp: ascii_replace_def plain_text_def list_all_iff Let_def)
  show "map (\<lambda>b. if b < 128 then unat b else 0xFFFD) (ascii_replace s) = text_points s"
    using assms b u by (simp add: ascii_replace_def plain_text_def list_all_iff Let_def text_points_def)
  show "map (\<lambda>b. b \<noteq> 0) (ascii_replace s) = replicate (length s) True"
    using assms b by (intro replicate_eqI) (auto simp: ascii_replace_def plain_text_def list_all_iff Let_def)
  show "length (ascii_replace s) = length s" by (simp add: ascii_replace_def)
qed

lemma string_at_text:
  assumes "plain_text s"
  shows "string_at (before @ ascii_replace s @ [0] @ after) (length before) = text_points s"
proof -
  have "takeWhile (\<lambda>b. b \<noteq> 0) (ascii_replace s @ 0 # after) = ascii_replace s"
    using ascii_plain(1) [OF assms] by (subst takeWhile_append2) auto
  then show ?thesis
    using ascii_plain(2) [OF assms] by (simp add: string_at_def find_zero_def slice_def)
qed

lemma intern_ok:
  assumes "pool_ok pool" "plain_text s" "intern s pool = (offset, pool')"
  shows "pool_ok pool'" "map_of (snd pool') s = Some offset"
    and "\<And>t o'. map_of (snd pool) t = Some o' \<Longrightarrow> map_of (snd pool') t = Some o'"
proof -
  have i: "(pool' = pool \<and> map_of (snd pool) s = Some offset) \<or>
      (map_of (snd pool) s = None \<and> offset = length (fst pool)
        \<and> pool' = (fst pool @ ascii_replace s @ [0], (s, offset) # snd pool))"
    using assms(3) by (cases pool) (auto simp: intern_def split: option.splits)
  then show "map_of (snd pool') s = Some offset"
    and "\<And>t o'. map_of (snd pool) t = Some o' \<Longrightarrow> map_of (snd pool') t = Some o'" by auto
  show "pool_ok pool'"
    using i
  proof
    assume new: "map_of (snd pool) s = None \<and> offset = length (fst pool)
        \<and> pool' = (fst pool @ ascii_replace s @ [0], (s, offset) # snd pool)"
    show ?thesis
      unfolding pool_ok_def
    proof (intro allI impI)
      fix t o' assume t: "map_of (snd pool') t = Some o'"
      show "plain_text t \<and> (\<exists>before after. fst pool' = before @ ascii_replace t @ [0] @ after \<and> length before = o')"
      proof (cases "t = s")
        case True
        then show ?thesis using new t assms(2) by auto
      next
        case False
        then have "map_of (snd pool) t = Some o'" using new t by simp
        then show ?thesis using assms(1) new unfolding pool_ok_def by fastforce
      qed
    qed
  qed (use assms(1) in simp)
qed

lemma intern_all_ok:
  "pool_ok pool \<Longrightarrow> list_all plain_text ss \<Longrightarrow> intern_all ss pool = (offsets, pool') \<Longrightarrow>
     pool_ok pool' \<and> map (map_of (snd pool')) ss = map Some offsets
     \<and> (\<forall>t o'. map_of (snd pool) t = Some o' \<longrightarrow> map_of (snd pool') t = Some o')"
proof (induction ss arbitrary: pool offsets)
  case (Cons s ss)
  obtain offset mid where m: "intern s pool = (offset, mid)" by (cases "intern s pool")
  obtain rest where r: "intern_all ss mid = (rest, pool')" "offsets = offset # rest"
    using Cons(4) m by (auto split: prod.splits)
  have "pool_ok mid" "map_of (snd mid) s = Some offset"
      "\<And>t o'. map_of (snd pool) t = Some o' \<Longrightarrow> map_of (snd mid) t = Some o'"
    using intern_ok [OF Cons(2) _ m] Cons(3) by simp_all
  then show ?case using Cons(1) [OF _ _ r(1)] Cons(3) r(2) by simp
qed simp

text \<open>
  Every name the packer interns is the name the walker reads at the offset it was given, whatever
  was interned before or after, and two names have the same offset only when they are the same name.
\<close>

theorem interned_text_read_back:
  assumes "list_all plain_text texts" "intern_all texts ([], []) = (offsets, pool)"
    and "i < length texts" "j < length texts"
  shows "string_at (fst pool) (offsets ! i) = text_points (texts ! i)
    \<and> (offsets ! i = offsets ! j \<longleftrightarrow> texts ! i = texts ! j)"
proof -
  have start: "pool_ok ([], [])" by (simp add: pool_ok_def)
  have ok: "pool_ok pool" "map (map_of (snd pool)) texts = map Some offsets"
    using intern_all_ok [OF start assms(1,2)] by simp_all
  have "length texts = length offsets" using arg_cong [OF ok(2), of length] by simp
  then have at: "map_of (snd pool) (texts ! k) = Some (offsets ! k)" if "k < length texts" for k
    using arg_cong [OF ok(2), of "\<lambda>xs. xs ! k"] that by simp
  have read: "string_at (fst pool) (offsets ! k) = text_points (texts ! k)" if "k < length texts" for k
    using ok(1) at [OF that] string_at_text unfolding pool_ok_def by metis
  have "inj (of_char :: char \<Rightarrow> nat)" by (rule inj_of_char)
  then have "text_points s = text_points t \<longleftrightarrow> s = t" for s t
    by (simp add: text_points_def inj_map_eq_map)
  then show ?thesis using read [OF assms(3)] read [OF assms(4)] at [OF assms(3)] at [OF assms(4)] by auto
qed

theorem interned_text_read_back_witness:
  "string_at (fst (snd (intern_all [''crc'', ''hdr.len'', ''crc''] ([], [])))) 4 = text_points ''hdr.len''"
proof -
  have "intern_all [''crc'', ''hdr.len'', ''crc''] ([], [])
      = ([0, 4, 0], snd (intern_all [''crc'', ''hdr.len'', ''crc''] ([], [])))" by code_simp
  from interned_text_read_back [OF _ this, of 1 0] show ?thesis by (simp add: plain_text_def)
qed

section \<open>The capability tail\<close>

lemma walker_domains: "map_of WALKER_DOMAINS (axis_value ax) = Some (DOMAINS ax)"
  by (cases ax; simp add: WALKER_DOMAINS_def)

lemma walker_axes: "AXES = map axis_value all_axes"
  by (simp add: AXES_def all_axes_def)

lemma axis_value_inj: "axis_value a = axis_value b \<longleftrightarrow> a = b"
  by (cases a; cases b; simp)

lemma domain_size: "length (DOMAINS ax) \<le> 6"
  by (cases ax) simp_all

lemma map_of_concat_axes:
  "distinct axs \<Longrightarrow> ax \<in> set axs \<Longrightarrow> map_of (concat (map (\<lambda>a. case f a of None \<Rightarrow> [] | Some x \<Rightarrow> [(axis_value a, x)]) axs)) (axis_value ax) = f ax"
proof (induction axs)
  case (Cons a axs)
  have out: "map_of (concat (map (\<lambda>a. case f a of None \<Rightarrow> [] | Some x \<Rightarrow> [(axis_value a, x)]) axs)) (axis_value a) = None" if "a \<notin> set axs"
    using that by (induction axs) (auto simp: axis_value_inj map_add_Some_iff split: option.split)
  show ?case using Cons out by (cases "ax = a") (auto simp: axis_value_inj split: option.split)
qed simp

lemma vector_of_map:
  "length axs = length row \<Longrightarrow> whole = pre @ row \<Longrightarrow> concat (map (\<lambda>(j, axis).
       let domain = (case map_of WALKER_DOMAINS axis of None \<Rightarrow> [] | Some names \<Rightarrow> names) in
       if j < length whole \<and> unat (whole ! j) < length domain then [(axis, domain ! unat (whole ! j))] else [])
      (enumerate (length pre) (map axis_value axs)))
   = concat (map (\<lambda>(a, b). if unat b < length (DOMAINS a) then [(axis_value a, DOMAINS a ! unat b)] else []) (zip axs row))"
proof (induction axs arbitrary: row pre)
  case (Cons a axs)
  then obtain b bs where row: "row = b # bs" "length axs = length bs" by (auto simp: Suc_length_conv)
  have "whole ! length pre = b" "length pre < length whole" using Cons(3) row by simp_all
  then show ?case using Cons(1) [of bs "pre @ [b]"] Cons(3) row by (simp add: walker_domains)
qed simp

text \<open>
  The optional tail says of a placement what resolution found: for every axis, the base the
  packer wrote is the one \<open>capability_of\<close> answers, and an axis nobody worked out is answered with
  nothing, although the walker's domains are a copy the compiler never sees.
\<close>

theorem capability_read_back:
  assumes "placement_vectors img ! index = vector_of (vector_row entry)" "index < length (placement_vectors img)"
  shows "capability_of img index (axis_value ax)
    = (case entry of None \<Rightarrow> None
       | Some v \<Rightarrow> if base (vget v ax) \<in> set (DOMAINS ax) then Some (base (vget v ax)) else None)"
proof -
  let ?f = "\<lambda>a. if unat (vector_byte entry a) < length (DOMAINS a) then Some (DOMAINS a ! unat (vector_byte entry a)) else None"
  have "vector_of (vector_row entry)
      = concat (map (\<lambda>a. case ?f a of None \<Rightarrow> [] | Some x \<Rightarrow> [(axis_value a, x)]) all_axes)"
    using vector_of_map [of all_axes "vector_row entry" "vector_row entry" "[]"]
    by (simp add: vector_of_def walker_axes vector_row_def zip_map2 zip_same_conv_map comp_def
        if_distrib [of "case_option _ _"] cong: if_cong)
  then have "capability_of img index (axis_value ax) = ?f ax"
    using assms map_of_concat_axes [OF distinct_all_axes, of ax ?f] set_all_axes by (simp add: capability_of_def)
  moreover have "?f ax = (case entry of None \<Rightarrow> None
       | Some v \<Rightarrow> if base (vget v ax) \<in> set (DOMAINS ax) then Some (base (vget v ax)) else None)"
  proof (cases entry)
    case None
    then show ?thesis using domain_size [of ax] by (simp add: vector_byte_def)
  next
    case (Some v)
    have small: "index_in (DOMAINS ax) x < 6" if "x \<in> set (DOMAINS ax)" for x
      using index_in_less [OF that] domain_size [of ax] by simp
    have "unat (of_nat n :: byte) = n" if "n < 6" for n
      using that by (simp add: unat_of_nat)
    then show ?thesis using Some index_in_less [of _ "DOMAINS ax"] small domain_size [of ax]
      by (auto simp: vector_byte_def list_index_eq)
  qed
  ultimately show ?thesis by simp
qed

theorem capability_read_back_witness:
  "capability_of (empty_image\<lparr>placement_vectors := [vector_of (vector_row (Some [(AUTH, \<lparr>base = ''Covered'', params = [''mac'']\<rparr>)]))]\<rparr>)
     0 (axis_value AUTH) = Some ''Covered''"
  by (subst capability_read_back [where entry = "Some [(AUTH, \<lparr>base = ''Covered'', params = [''mac'']\<rparr>)]"])
    (simp_all add: vget_def)

end
