(* ===== verification/Scalar_Types.thy ===== *)
theory Scalar_Types
  imports Capability
begin

text \<open>
  \<open>situc/types.py\<close>: the scalar types a name spells, the largest number a packed-decimal field holds,
  the bytes of a literal and their rendering, and what a character is worth under several encodings;
  and \<open>narrowed\<close> of \<open>situc/layout.py\<close>, which gives a packed-decimal field fewer bits than its type.
\<close>

section \<open>Scalars\<close>

datatype scalar_kind = UINT | SINT | FLOAT | BIT | SFIXED | UFIXED | BCD

record scalar =
  scalar_name :: string
  scalar_kind :: scalar_kind
  bits :: int
  frac_bits :: int
  digits :: int

definition MAX_WIDTH :: int where "MAX_WIDTH = 64"
definition BITS_PER_DIGIT :: int where "BITS_PER_DIGIT = 4"

definition scalar_type :: "string \<Rightarrow> scalar_kind \<Rightarrow> int \<Rightarrow> scalar" where
  "scalar_type name k width = \<lparr>scalar_name = name, scalar_kind = k, bits = width, frac_bits = 0, digits = 0\<rparr>"

definition signed :: "scalar \<Rightarrow> bool" where
  "signed t = (scalar_kind t \<in> {SINT, SFIXED})"

definition is_fixed_point :: "scalar \<Rightarrow> bool" where
  "is_fixed_point t = (scalar_kind t \<in> {SFIXED, UFIXED})"

definition is_bcd :: "scalar \<Rightarrow> bool" where
  "is_bcd t = (scalar_kind t = BCD)"

definition int_bits :: "scalar \<Rightarrow> int" where
  "int_bits t = bits t - frac_bits t"

definition scale :: "scalar \<Rightarrow> int" where
  "scale t = push_bit (nat (frac_bits t)) 1"

definition decimal_max :: "scalar \<Rightarrow> int" where
  "decimal_max t =
     (if digits t < 1 then 0
      else let low = 10 ^ nat (digits t - 1);
               top_bits = bits t - BITS_PER_DIGIT * (digits t - 1);
               top_digit = (if 0 < top_bits then min 9 (push_bit (nat top_bits) 1 - 1) else 0) in
        top_digit * low + low - 1)"

definition is_bit_packed :: "scalar \<Rightarrow> bool" where
  "is_bit_packed t = (bits t mod 8 \<noteq> 0)"

definition crosses_byte_boundary :: "scalar \<Rightarrow> bool" where
  "crosses_byte_boundary t = (is_bit_packed t \<and> 8 < bits t)"

section \<open>Names\<close>

definition NAMED_SCALARS :: "(string \<times> scalar) list" where
  "NAMED_SCALARS =
    [(''bit'', scalar_type ''bit'' BIT 1), (''bool'', scalar_type ''bool'' UINT 1), (''byte'', scalar_type ''byte'' UINT 8),
     (''f16'', scalar_type ''f16'' FLOAT 16), (''f32'', scalar_type ''f32'' FLOAT 32), (''f64'', scalar_type ''f64'' FLOAT 64)]"

datatype width_error = LeadingZero | OutOfRange | NoIntegerBits | NoFraction | TooWide | NoDigits

datatype lookup_error = WidthError width_error | LookupValueError

definition is_decimal :: "char \<Rightarrow> bool" where
  "is_decimal c = (let n = of_char c :: nat in 48 \<le> n \<and> n \<le> 57)"

text \<open>The three patterns: what each one's groups match.\<close>

definition decimal_run :: "string \<Rightarrow> bool" where
  "decimal_run s = (s \<noteq> [] \<and> list_all is_decimal s)"

definition width_suffix :: "string \<Rightarrow> (bool \<times> string) option" where
  "width_suffix name =
     (case name of [] \<Rightarrow> None
      | c # ds \<Rightarrow> if c \<in> {CHR ''u'', CHR ''i''} \<and> decimal_run ds then Some (c = CHR ''u'', ds) else None)"

definition fixed_suffix :: "string \<Rightarrow> (bool \<times> string \<times> string) option" where
  "fixed_suffix name =
     (let is_unsigned = (case name of c # rest \<Rightarrow> c = CHR ''u'' | [] \<Rightarrow> False);
          rest = (if is_unsigned then tl name else name) in
      case rest of [] \<Rightarrow> None
      | c # rest \<Rightarrow>
          if c \<noteq> CHR ''q'' then None
          else let whole = takeWhile is_decimal rest in
            (case dropWhile is_decimal rest of [] \<Rightarrow> None
             | u # fraction \<Rightarrow>
                 if u = CHR ''_'' \<and> whole \<noteq> [] \<and> decimal_run fraction then Some (is_unsigned, whole, fraction) else None))"

definition bcd_suffix :: "string \<Rightarrow> string option" where
  "bcd_suffix name = (if take 3 name = ''bcd'' \<and> decimal_run (drop 3 name) then Some (drop 3 name) else None)"

definition digits_ok :: "string \<Rightarrow> lookup_error + int" where
  "digits_ok ds =
     (if 1 < length ds \<and> hd ds = CHR ''0'' then Inl (WidthError LeadingZero)
      else case int_of_string ds of Inl e \<Rightarrow> Inl LookupValueError | Inr n \<Rightarrow> Inr n)"

definition fixed_point :: "string \<Rightarrow> lookup_error + scalar option" where
  "fixed_point name =
     (case fixed_suffix name of None \<Rightarrow> Inr None
      | Some (is_unsigned, whole, fraction) \<Rightarrow>
          bindE (digits_ok whole) (\<lambda>w. bindE (digits_ok fraction) (\<lambda>f.
            if w < 1 then Inl (WidthError NoIntegerBits)
            else if f < 1 then Inl (WidthError NoFraction)
            else if MAX_WIDTH < w + f then Inl (WidthError TooWide)
            else Inr (Some \<lparr>scalar_name = name, scalar_kind = (if is_unsigned then UFIXED else SFIXED),
                            bits = w + f, frac_bits = f, digits = 0\<rparr>))))"

definition bcd_type :: "string \<Rightarrow> lookup_error + scalar option" where
  "bcd_type name =
     (case bcd_suffix name of None \<Rightarrow> Inr None
      | Some ds \<Rightarrow>
          bindE (digits_ok ds) (\<lambda>n.
            if n < 1 then Inl (WidthError NoDigits)
            else if MAX_WIDTH < n * BITS_PER_DIGIT then Inl (WidthError TooWide)
            else Inr (Some \<lparr>scalar_name = name, scalar_kind = BCD, bits = n * BITS_PER_DIGIT, frac_bits = 0, digits = n\<rparr>)))"

definition lookup :: "string \<Rightarrow> lookup_error + scalar option" where
  "lookup name =
     (case map_of NAMED_SCALARS name of
        Some t \<Rightarrow> Inr (Some t)
      | None \<Rightarrow>
          bindE (fixed_point name) (\<lambda>fixed. case fixed of Some t \<Rightarrow> Inr (Some t)
          | None \<Rightarrow>
          bindE (bcd_type name) (\<lambda>bcd. case bcd of Some t \<Rightarrow> Inr (Some t)
          | None \<Rightarrow>
             (case width_suffix name of None \<Rightarrow> Inr None
              | Some (is_unsigned, ds) \<Rightarrow>
                  bindE (digits_ok ds) (\<lambda>width.
                    if width < 1 \<or> MAX_WIDTH < width then Inl (WidthError OutOfRange)
                    else Inr (Some (scalar_type name (if is_unsigned then UINT else SINT) width)))))))"

definition is_scalar_name :: "string \<Rightarrow> lookup_error + bool" where
  "is_scalar_name name =
     (case lookup name of
        Inr found \<Rightarrow> Inr (found \<noteq> None)
      | Inl (WidthError e) \<Rightarrow> Inr True
      | Inl LookupValueError \<Rightarrow> Inl LookupValueError)"

text \<open>\<open>narrowed\<close>: \<open>[bits = n]\<close> over a field's type; the attribute may be absent, or have no value.\<close>

datatype narrow_error = NotBcd | NeedsWidth | WiderThanType | NoRoom

definition narrowed :: "scalar \<Rightarrow> int option option \<Rightarrow> narrow_error + scalar" where
  "narrowed t attr =
     (case attr of None \<Rightarrow> Inr t
      | Some held \<Rightarrow>
          if \<not> is_bcd t then Inl NotBcd
          else case held of None \<Rightarrow> Inl NeedsWidth
          | Some n \<Rightarrow>
              if bits t < n then Inl WiderThanType
              else if n \<le> (digits t - 1) * BITS_PER_DIGIT then Inl NoRoom
              else Inr (t\<lparr>bits := n\<rparr>))"

section \<open>Literals\<close>

definition hex_digit :: "nat \<Rightarrow> char" where
  "hex_digit n = char_of (if n < 10 then 48 + n else 87 + n)"

definition shown_byte :: "byte \<Rightarrow> string" where
  "shown_byte b =
     (if b = 0x5C then [CHR 0x5C, CHR 0x5C]
      else if 0x20 \<le> b \<and> b < 0x7F \<and> b \<noteq> 0x22 then [char_of (unat b)]
      else [CHR 0x5C, CHR ''x'', hex_digit (unat b div 16), hex_digit (unat b mod 16)])"

definition pinned_shown :: "bytes \<Rightarrow> string" where
  "pinned_shown expected = concat (map shown_byte expected)"

text \<open>A literal's text is its code points.\<close>

definition literal_bytes :: "nat list \<Rightarrow> bytes option" where
  "literal_bytes text = (if list_all (\<lambda>p. p < 256) text then Some (map of_nat text) else None)"

section \<open>Characters\<close>

definition TEXT_ENCODINGS :: "(string \<times> string) list" where
  "TEXT_ENCODINGS =
    [(''ascii'', ''ascii''), (''utf8'', ''utf-8''), (''utf16le'', ''utf-16-le''), (''utf16be'', ''utf-16-be''),
     (''latin1'', ''iso-8859-1''), (''iso8859_1'', ''iso-8859-1''), (''iso8859_2'', ''iso-8859-2''),
     (''iso8859_3'', ''iso-8859-3''), (''iso8859_4'', ''iso-8859-4''), (''iso8859_5'', ''iso-8859-5''),
     (''iso8859_6'', ''iso-8859-6''), (''iso8859_7'', ''iso-8859-7''), (''iso8859_8'', ''iso-8859-8''),
     (''iso8859_9'', ''iso-8859-9''), (''iso8859_10'', ''iso-8859-10''), (''iso8859_11'', ''iso-8859-11''),
     (''iso8859_13'', ''iso-8859-13''), (''iso8859_14'', ''iso-8859-14''), (''iso8859_15'', ''iso-8859-15''),
     (''iso8859_16'', ''iso-8859-16'')]"

definition code_unit_bytes :: "string \<Rightarrow> nat" where
  "code_unit_bytes name = (if take 5 name = ''utf16'' then 2 else 1)"

datatype encoding_error = CannotRepresent string | NeedsBytes string nat | Disagree | NoEncoding | UnknownEncoding string

text \<open>The codecs are Python's: \<open>encode codec point\<close> is None where \<open>str.encode\<close> raises.\<close>

type_synonym encoder = "string \<Rightarrow> nat \<Rightarrow> bytes option"

definition unit_value :: "encoder \<Rightarrow> nat \<Rightarrow> string \<Rightarrow> encoding_error + int" where
  "unit_value encode point name =
     (case map_of TEXT_ENCODINGS name of
        None \<Rightarrow> Inl (UnknownEncoding name)
      | Some codec \<Rightarrow>
          (case encode codec point of
             None \<Rightarrow> Inl (CannotRepresent name)
           | Some raw \<Rightarrow>
               if length raw \<noteq> code_unit_bytes name then Inl (NeedsBytes name (length raw))
               else Inr (from_bytes (name \<noteq> ''utf16le'') False raw)))"

fun values_seen :: "encoder \<Rightarrow> nat \<Rightarrow> string list \<Rightarrow> int list \<Rightarrow> encoding_error + int list" where
  "values_seen encode point [] seen = Inr seen"
| "values_seen encode point (name # names) seen =
     bindE (unit_value encode point name) (\<lambda>v.
       values_seen encode point names (if v \<in> set seen then seen else seen @ [v]))"

definition character_value :: "encoder \<Rightarrow> nat \<Rightarrow> string list \<Rightarrow> encoding_error + int" where
  "character_value encode point encodings =
     bindE (values_seen encode point encodings []) (\<lambda>seen.
       if 1 < length seen then Inl Disagree
       else case seen of [] \<Rightarrow> Inl NoEncoding | v # rest \<Rightarrow> Inr v)"

section \<open>What a name spells\<close>

lemma digits_ok_Inr: "digits_ok ds = Inr n \<Longrightarrow> int_of_string ds = Inr n"
  by (auto simp: digits_ok_def split: if_splits sum.splits)

lemma named_sound:
  assumes "map_of NAMED_SCALARS name = Some t"
  shows "scalar_name t = name \<and> 1 \<le> bits t \<and> bits t \<le> 64 \<and> frac_bits t = 0 \<and> digits t = 0 \<and> scalar_kind t \<in> {UINT, FLOAT, BIT}"
  using assms by (auto simp: NAMED_SCALARS_def scalar_type_def split: if_splits)

text \<open>
  C32: A name that spells a scalar spells one the compiler can hold: between one bit and sixty-four
  bits, under the name that was written; a fixed-point type keeps an integer and a fractional part, a
  packed decimal takes four bits to each of its digits, and no other kind has either.
\<close>

theorem lookup_sound:
  assumes "lookup name = Inr (Some t)"
  shows "scalar_name t = name \<and> 1 \<le> bits t \<and> bits t \<le> 64
    \<and> (if is_fixed_point t then 1 \<le> int_bits t \<and> 1 \<le> frac_bits t else frac_bits t = 0)
    \<and> (if is_bcd t then 1 \<le> digits t \<and> bits t = 4 * digits t else digits t = 0)"
proof -
  consider "map_of NAMED_SCALARS name = Some t" | "fixed_point name = Inr (Some t)" | "bcd_type name = Inr (Some t)"
    | k n where "t = scalar_type name k n" "k \<in> {UINT, SINT}" "1 \<le> n" "n \<le> 64"
    using assms by (fastforce simp: lookup_def MAX_WIDTH_def split: option.splits if_splits)
  then show ?thesis
  proof cases
    case 1
    then show ?thesis using named_sound [OF 1] by (auto simp: is_fixed_point_def is_bcd_def)
  next
    case 2
    then show ?thesis
      by (auto simp: fixed_point_def is_fixed_point_def is_bcd_def int_bits_def MAX_WIDTH_def split: option.splits if_splits)
  next
    case 3
    then show ?thesis
      by (auto simp: bcd_type_def is_fixed_point_def is_bcd_def MAX_WIDTH_def BITS_PER_DIGIT_def split: option.splits if_splits)
  next
    case 4
    then show ?thesis by (auto simp: scalar_type_def is_fixed_point_def is_bcd_def)
  qed
qed

theorem lookup_sound_witness: "\<exists>t. lookup ''uq12_20'' = Inr (Some t) \<and> bits t = 32 \<and> 1 \<le> int_bits t"
proof -
  have "lookup ''uq12_20'' = Inr (Some \<lparr>scalar_name = ''uq12_20'', scalar_kind = UFIXED, bits = 32, frac_bits = 20, digits = 0\<rparr>)"
    by code_simp
  with lookup_sound [OF this] show ?thesis by (simp add: is_fixed_point_def)
qed

text \<open>A width beyond the digits Python converts is no \<open>WidthError\<close>, here or in \<open>is_scalar_name\<close>.\<close>

lemma long_width_escapes:
  "4300 < n \<Longrightarrow> lookup (CHR ''u'' # replicate n (CHR ''9'')) = Inl LookupValueError
     \<and> is_scalar_name (CHR ''u'' # replicate n (CHR ''9'')) = Inl LookupValueError"
proof -
  assume n: "4300 < n"
  then obtain k where k: "n = Suc k" by (cases n) auto
  have d: "is_digit 10 0x39" by code_simp
  have "int_of_string (replicate n (CHR ''9'')) = Inl PyValueError"
    using py_int_digits [of 10 "replicate n 0x39"] n d k
    by (simp add: int_of_string_def too_long_def unlimited_base_def byte_of_def)
  then have ok: "digits_ok (replicate n (CHR ''9'')) = Inl LookupValueError" using n k by (simp add: digits_ok_def)
  have w: "width_suffix (CHR ''u'' # replicate n (CHR ''9'')) = Some (True, replicate n (CHR ''9''))"
    using n by (simp add: width_suffix_def decimal_run_def is_decimal_def list_all_iff)
  have "fixed_point (CHR ''u'' # replicate n (CHR ''9'')) = Inr None" "bcd_type (CHR ''u'' # replicate n (CHR ''9'')) = Inr None"
    by (simp_all add: fixed_point_def fixed_suffix_def bcd_type_def bcd_suffix_def k)
  then have "lookup (CHR ''u'' # replicate n (CHR ''9'')) = Inl LookupValueError"
    using ok w by (simp add: lookup_def NAMED_SCALARS_def)
  then show ?thesis by (simp add: is_scalar_name_def)
qed

section \<open>Packed decimal\<close>

lemma bcd_enc_top: "bcd_enc (Suc n) v = (v div 10 ^ n mod 10) * 16 ^ n + bcd_enc n v"
proof (induction n arbitrary: v)
  case (Suc n)
  have "v div 10 div 10 ^ n = v div 10 ^ Suc n" by (simp add: zdiv_zmult2_eq)
  then show ?case using Suc.IH [of "v div 10"] by (simp add: algebra_simps)
qed simp

lemma bcd_enc_less: "bcd_enc n v < 16 ^ n"
proof (induction n arbitrary: v)
  case (Suc n)
  have "v mod 10 < 10" by simp
  moreover have "bcd_enc n (v div 10) + 1 \<le> 16 ^ n" using Suc [of "v div 10"] by linarith
  ultimately show ?case unfolding bcd_enc.simps power_Suc by linarith
qed simp

lemma bcd_dec_less: "bcd_valid p n \<Longrightarrow> bcd_dec n p < 10 ^ n"
proof (induction n arbitrary: p)
  case (Suc n)
  have v: "p mod 16 \<le> 9" "bcd_valid (p div 16) n" using Suc.prems by (simp_all add: bcd_valid_Suc)
  have "bcd_dec n (p div 16) + 1 \<le> 10 ^ n" using Suc.IH [OF v(2)] by linarith
  then show ?case using v(1) unfolding bcd_dec.simps power_Suc by linarith
qed simp

lemma bcd_valid_top: "bcd_valid p (Suc n) \<longleftrightarrow> bcd_valid p n \<and> p div 16 ^ n mod 16 \<le> 9"
  by (auto simp: bcd_valid_def drop_nibbles)

lemma narrowed_bcd:
  assumes "lookup name = Inr (Some t)" "is_bcd t" "narrowed t attr = Inr t'"
  obtains n k where "digits t' = int n + 1" "bits t' = int (4 * n + k)" "1 \<le> k" "k \<le> 4" "digits t' = digits t"
proof -
  have t: "1 \<le> digits t" "bits t = 4 * digits t" using lookup_sound [OF assms(1)] assms(2) by simp_all
  have "digits t' = digits t \<and> 4 * digits t - 4 < bits t' \<and> bits t' \<le> 4 * digits t"
    using assms(3) t assms(2) by (auto simp: narrowed_def BITS_PER_DIGIT_def split: option.splits if_splits)
  then show thesis using that [of "nat (digits t - 1)" "nat (bits t' - 4 * (digits t - 1))"] t by auto
qed

text \<open>
  The largest number documented for a packed-decimal field is exactly the largest one it can
  hold: over the type's own width or narrowed by \<open>[bits]\<close>, some valid packing of that many bits decodes
  to it, and no valid packing of that many bits decodes to more.
\<close>

theorem decimal_max_exact:
  assumes "lookup name = Inr (Some t)" "is_bcd t" "narrowed t attr = Inr t'"
  shows "(\<exists>p. 0 \<le> p \<and> p < 2 ^ nat (bits t') \<and> bcd_valid p (nat (digits t')) \<and> bcd_decode p (nat (digits t')) = decimal_max t')
    \<and> (0 \<le> p \<and> p < 2 ^ nat (bits t') \<and> bcd_valid p (nat (digits t')) \<longrightarrow> bcd_decode p (nat (digits t')) \<le> decimal_max t')"
proof -
  obtain n k where d: "digits t' = int n + 1" "bits t' = int (4 * n + k)" "1 \<le> k" "k \<le> 4"
    using assms by (rule narrowed_bcd)
  define m :: int where "m = min 9 (2 ^ k - 1)"
  have m: "0 \<le> m" "m \<le> 9" "m < 2 ^ k" "m < 16" using d(3) by (auto simp: m_def)
  have dm: "decimal_max t' = m * 10 ^ n + 10 ^ n - 1"
    using d by (simp add: decimal_max_def Let_def BITS_PER_DIGIT_def m_def push_bit_eq_mult min_def)
  have nd: "nat (digits t') = Suc n" "nat (bits t') = 4 * n + k" using d by simp_all
  have w: "(2::int) ^ (4 * n + k) = 2 ^ k * 16 ^ n" by (simp add: power_add power_mult)
  let ?v = "decimal_max t'"
  have v: "?v div 10 ^ n = m" "0 \<le> ?v" "?v < 10 ^ Suc n"
  proof -
    have "?v = (10 ^ n - 1) + m * 10 ^ n" by (simp add: dm)
    then show "?v div 10 ^ n = m" by (simp add: div_mult_self1)
    have "(1::int) \<le> 10 ^ n" by simp
    then show "0 \<le> ?v" using m(1) unfolding dm by (smt (verit) mult_nonneg_nonneg)
    have "m * 10 ^ n \<le> 9 * 10 ^ n" using m(2) by (intro mult_right_mono) simp_all
    then show "?v < 10 ^ Suc n" unfolding dm power_Suc by linarith
  qed
  have "bcd_enc (Suc n) ?v = m * 16 ^ n + bcd_enc n ?v" using m(1,2) by (simp only: bcd_enc_top v(1)) simp
  also have "\<dots> < (m + 1) * 16 ^ n" using bcd_enc_less [of n ?v] by (simp add: algebra_simps)
  also have "\<dots> \<le> 2 ^ k * 16 ^ n" using m(3) by (intro mult_right_mono) simp_all
  finally have "bcd_enc (Suc n) ?v < 2 ^ nat (bits t')" by (simp add: nd w del: bcd_enc.simps)
  moreover have "bcd_decode (bcd_enc (Suc n) ?v) (Suc n) = ?v"
    using v by (simp only: bcd_decode_dec bcd_dec_enc mod_pos_pos_trivial)
  ultimately have hit: "\<exists>p. 0 \<le> p \<and> p < 2 ^ nat (bits t') \<and> bcd_valid p (nat (digits t')) \<and> bcd_decode p (nat (digits t')) = ?v"
    unfolding nd(1) using bcd_enc_nonneg bcd_valid_enc by blast
  have "bcd_decode p (Suc n) \<le> ?v" if p: "0 \<le> p" "p < 2 ^ k * 16 ^ n" "bcd_valid p (Suc n)"
  proof -
    have "p div 16 ^ n * 16 ^ n \<le> p" by (simp flip: minus_mod_eq_div_mult)
    then have "p div 16 ^ n * 16 ^ n < 2 ^ k * 16 ^ n" using p(2) by linarith
    then have "p div 16 ^ n < 2 ^ k" by (simp only: mult_less_cancel_right_pos [OF zero_less_power [OF zero_less_numeral]])
    moreover have "0 \<le> p div 16 ^ n" using p(1) by (simp add: pos_imp_zdiv_nonneg_iff)
    moreover have "(2::int) ^ k \<le> 16" using power_increasing [OF d(4), of "2::int"] by simp
    ultimately have "p div 16 ^ n mod 16 \<le> m" using p(3) by (auto simp: bcd_valid_top m_def mod_pos_pos_trivial)
    then have "p div 16 ^ n mod 16 * 10 ^ n \<le> m * 10 ^ n" by (intro mult_right_mono) simp_all
    moreover have "bcd_dec n p < 10 ^ n" using p(3) bcd_dec_less by (simp add: bcd_valid_top)
    ultimately show ?thesis unfolding dm bcd_decode_dec bcd_dec_top by linarith
  qed
  then show ?thesis using hit by (auto simp: nd w)
qed

theorem decimal_max_exact_witness:
  "\<exists>t. lookup ''bcd2'' = Inr (Some t) \<and> bcd_decode 0x79 2 \<le> decimal_max (t\<lparr>bits := 7\<rparr>)"
proof -
  let ?t = "\<lparr>scalar_name = ''bcd2'', scalar_kind = BCD, bits = 8, frac_bits = 0, digits = 2\<rparr>"
  have "lookup ''bcd2'' = Inr (Some ?t)" "narrowed ?t (Some (Some 7)) = Inr (?t\<lparr>bits := 7\<rparr>)" "bcd_valid 0x79 2" by code_simp+
  then show ?thesis using decimal_max_exact [where name = "''bcd2''" and t = ?t and attr = "Some (Some 7)" and t' = "?t\<lparr>bits := 7\<rparr>" and p = "0x79"]
    by (simp add: is_bcd_def)
qed

section \<open>Packing with the neighbours\<close>

lemma crosses_everywhere:
  assumes "is_bit_packed t" "0 < bits t"
  shows "crosses_byte_boundary t \<longleftrightarrow> (\<forall>start. (start + bits t - 1) div 8 \<noteq> start div 8)"
proof
  assume "crosses_byte_boundary t"
  then have "8 \<le> bits t - 1" by (simp add: crosses_byte_boundary_def)
  then have "(start + 8) div 8 \<le> (start + bits t - 1) div 8" for start by (intro zdiv_mono1) simp_all
  then have "start div 8 + 1 \<le> (start + bits t - 1) div 8" for start by (metis div_add_self2 zero_neq_numeral)
  then show "\<forall>start. (start + bits t - 1) div 8 \<noteq> start div 8" by (smt (verit))
next
  assume "\<forall>start. (start + bits t - 1) div 8 \<noteq> start div 8"
  from this [rule_format, of 0] have "(bits t - 1) div 8 \<noteq> 0" by simp
  then have "8 < bits t" using assms by (auto simp: is_bit_packed_def)
  then show "crosses_byte_boundary t" using assms(1) by (simp add: crosses_byte_boundary_def)
qed

section \<open>Pinned bytes, shown\<close>

text \<open>What a reader of the rendering takes back from it.\<close>

definition hex_value :: "char \<Rightarrow> nat" where
  "hex_value c = (let n = of_char c in if n < 58 then n - 48 else n - 87)"

fun read_shown :: "string \<Rightarrow> bytes" where
  "read_shown (c # d # rest) =
     (if c \<noteq> CHR 0x5C then of_nat (of_char c) # read_shown (d # rest)
      else if d = CHR 0x5C then 0x5C # read_shown rest
      else case rest of h # l # rest \<Rightarrow> of_nat (16 * hex_value h + hex_value l) # read_shown rest | _ \<Rightarrow> [])"
| "read_shown [c] = [of_nat (of_char c)]"
| "read_shown [] = []"

lemma of_hex_digit: "n < 16 \<Longrightarrow> (of_char (hex_digit n) :: nat) = (if n < 10 then 48 + n else 87 + n)"
  by (simp add: hex_digit_def)

lemma hex_digit_facts:
  assumes "n < 16"
  shows "hex_value (hex_digit n) = n" "32 \<le> (of_char (hex_digit n) :: nat)" "(of_char (hex_digit n) :: nat) < 127"
    "(of_char (hex_digit n) :: nat) \<noteq> 34"
  using assms of_hex_digit [OF assms] by (auto simp: hex_value_def)

lemma byte_small: "unat (b :: byte) < 256"
  using unsigned_less [of b, where ?'a = nat] by simp

lemma byte_unat: "unat (b :: byte) = k \<Longrightarrow> b = of_nat k"
  by auto

lemma of_char_byte: "(of_char (char_of (unat (b :: byte)) :: char) :: nat) = unat b"
  using byte_small [of b] by simp

lemma char_92: "char_of (92 :: nat) = CHR 0x5C"
  by code_simp

lemma read_shown_byte: "read_shown (shown_byte b @ rest) = b # read_shown rest"
proof -
  have "of_nat (16 * (unat b div 16) + unat b mod 16) = b" by simp
  then have again: "16 * of_nat (unat b div 16) + of_nat (unat b mod 16) = b"
    by (simp only: of_nat_add of_nat_mult of_nat_numeral)
  have h: "unat b div 16 < 16" "unat b mod 16 < 16" using byte_small [of b] by (simp_all add: div_less_iff_less_mult)
  have bs: "char_of (unat b) = CHR 0x5C \<longleftrightarrow> b = 0x5C"
  proof
    assume "char_of (unat b) = CHR 0x5C"
    then have "unat b = 92" using of_char_byte [of b] by simp
    then show "b = 0x5C" using byte_unat [of b 92] by simp
  qed (simp add: char_92)
  show ?thesis
    using h bs of_char_byte [of b] by (cases rest) (auto simp: shown_byte_def hex_digit_facts again)
qed

lemma shown_byte_chars: "c \<in> set (shown_byte b) \<Longrightarrow> 32 \<le> (of_char c :: nat) \<and> (of_char c :: nat) < 127 \<and> (of_char c :: nat) \<noteq> 34"
  using of_char_byte [of b] byte_small [of b] byte_unat [of b 34] hex_digit_facts [of "unat b div 16"] hex_digit_facts [of "unat b mod 16"]
  by (auto simp: shown_byte_def div_less_iff_less_mult word_le_nat_alt word_less_nat_alt split: if_splits)

text \<open>
  The rendering of a pinned run is reversible by eye and safe in a comment: the bytes can be read
  back from it, every character of it is printable ASCII, so none is a line break, and none is a
  quotation mark.
\<close>

theorem pinned_shown_readable:
  "read_shown (pinned_shown expected) = expected
   \<and> list_all (\<lambda>c. 32 \<le> (of_char c :: nat) \<and> (of_char c :: nat) < 127 \<and> c \<noteq> CHR 0x22) (pinned_shown expected)"
proof (induction expected)
  case (Cons b bs)
  have quote: "c \<noteq> CHR 0x22" if "c \<in> set (shown_byte b)" for c
    using shown_byte_chars [OF that] by auto
  show ?case
    using Cons quote shown_byte_chars [of _ b] by (auto simp: pinned_shown_def read_shown_byte list_all_iff)
qed (simp add: pinned_shown_def)

lemma literal_bytes_iff: "literal_bytes points = Some bs \<longleftrightarrow> list_all (\<lambda>p. p < 256) points \<and> map unat bs = points"
proof -
  have "map unat (map (of_nat :: nat \<Rightarrow> byte) points) = points" if "list_all (\<lambda>p. p < 256) points"
    using that by (induction points) (simp_all add: unat_of_nat)
  moreover have "map (of_nat \<circ> unat) bs = bs" by (simp add: comp_def)
  ultimately show ?thesis by (auto simp: literal_bytes_def)
qed

section \<open>Characters\<close>

lemma values_seen_Inr:
  "values_seen encode point names seen = Inr vs \<longleftrightarrow>
     (\<exists>us. map (unit_value encode point) names = map Inr us \<and> vs = fold (\<lambda>v seen. if v \<in> set seen then seen else seen @ [v]) us seen)"
proof (induction names arbitrary: seen)
  case (Cons name names)
  show ?case
  proof (cases "unit_value encode point name")
    case (Inr v)
    show ?thesis
    proof
      assume "values_seen encode point (name # names) seen = Inr vs"
      then obtain us where "map (unit_value encode point) names = map Inr us"
          "vs = fold (\<lambda>v seen. if v \<in> set seen then seen else seen @ [v]) us (if v \<in> set seen then seen else seen @ [v])"
        using Inr by (auto simp: Cons.IH)
      then show "\<exists>us. map (unit_value encode point) (name # names) = map Inr us
          \<and> vs = fold (\<lambda>v seen. if v \<in> set seen then seen else seen @ [v]) us seen"
        using Inr by (intro exI [of _ "v # us"]) simp
    qed (use Inr in \<open>auto simp: Cons.IH Cons_eq_map_conv map_eq_Cons_conv\<close>)
  qed (auto simp: map_eq_Cons_conv)
qed auto

lemma fold_seen:
  "set (fold (\<lambda>v seen. if v \<in> set seen then seen else seen @ [v]) us seen) = set seen \<union> set us"
  "distinct seen \<Longrightarrow> distinct (fold (\<lambda>v seen. if v \<in> set seen then seen else seen @ [v]) us seen)"
  by (induction us arbitrary: seen) auto

lemma value_agreed:
  "character_value encode point encodings = Inr v \<longleftrightarrow>
     encodings \<noteq> [] \<and> list_all (\<lambda>name. unit_value encode point name = Inr v) encodings"
proof
  assume "character_value encode point encodings = Inr v"
  then obtain rest where s: "values_seen encode point encodings [] = Inr (v # rest)" "length (v # rest) \<le> 1"
    by (auto simp: character_value_def split: if_splits list.splits)
  then obtain us where us: "map (unit_value encode point) encodings = map Inr us"
      "[v] = fold (\<lambda>v seen. if v \<in> set seen then seen else seen @ [v]) us []"
    by (auto simp: values_seen_Inr)
  then have "set us = {v}" using fold_seen(1) [of us "[]"] by (metis empty_set list.simps(15) sup_bot_left)
  have "encodings \<noteq> []" using us by auto
  moreover have "unit_value encode point name = Inr v" if "name \<in> set encodings" for name
  proof -
    have "unit_value encode point name \<in> set (map Inr us)" using that us(1) by (metis image_eqI list.set_map)
    then show ?thesis using \<open>set us = {v}\<close> by auto
  qed
  ultimately show "encodings \<noteq> [] \<and> list_all (\<lambda>name. unit_value encode point name = Inr v) encodings"
    by (simp add: list_all_iff)
next
  assume a: "encodings \<noteq> [] \<and> list_all (\<lambda>name. unit_value encode point name = Inr v) encodings"
  let ?us = "replicate (length encodings) v"
  let ?seen = "fold (\<lambda>v seen. if v \<in> set seen then seen else seen @ [v]) ?us []"
  have "map (unit_value encode point) encodings = map Inr ?us"
    using a by (simp add: list_all_iff map_replicate_const [symmetric] cong: map_cong)
  then have s: "values_seen encode point encodings [] = Inr ?seen" by (subst values_seen_Inr) blast
  have "set ?seen = {v}" using a fold_seen(1) [of ?us "[]"] by (simp add: set_replicate_conv_if)
  moreover have "distinct ?seen" by (rule fold_seen(2)) simp
  ultimately have "?seen = [v]" by (cases ?seen) (auto simp: subset_singleton_iff)
  then show "character_value encode point encodings = Inr v" by (simp add: character_value_def s)
qed

text \<open>
  A character has a value exactly when the declared encodings leave no doubt about it: the answer
  is \<open>v\<close> if and only if some encoding is declared and under every one of them the character is a
  single code unit worth \<open>v\<close>.
\<close>

theorem character_value_agreed:
  "character_value encode point encodings = Inr v \<longleftrightarrow>
     encodings \<noteq> [] \<and> list_all (\<lambda>name. unit_value encode point name = Inr v) encodings"
  by (rule value_agreed)

end
