(* ===== verification/Lexer.thy ===== *)
theory Lexer
  imports Scalar_Types
begin

text \<open>
  \<open>situc/lexer.py\<close>: source text into tokens.  The scanner's \<open>pos\<close> is held as the text that is still
  to come, so \<open>self.text[self.pos]\<close> is its head and \<open>pos\<close> its distance from the end; a token's span is
  its two positions.  The text is a \<open>string\<close>, so its characters are code points below 256; a literal
  that holds a larger one is out of scope.  A refusal is a constructor of \<open>lex_error\<close>, without its
  wording; \<open>IntValueError\<close> is the \<open>ValueError\<close> of \<open>int(body, radix)\<close>, which nothing catches.
\<close>

section \<open>Tokens\<close>

datatype token_kind = IDENT | INTEGER | STRING | CHARACTER | SYMBOL | EOF

record token =
  tok_kind :: token_kind
  tok_text :: string
  tok_value :: int

definition is_ident :: "token \<Rightarrow> string set \<Rightarrow> bool" where
  "is_ident t names = (tok_kind t = IDENT \<and> tok_text t \<in> names)"

definition is_symbol :: "token \<Rightarrow> string set \<Rightarrow> bool" where
  "is_symbol t symbols = (tok_kind t = SYMBOL \<and> tok_text t \<in> symbols)"

definition EOF_TOKEN :: token where
  "EOF_TOKEN = \<lparr>tok_kind = EOF, tok_text = [], tok_value = 0\<rparr>"

type_synonym spanned = "token \<times> nat \<times> nat"

datatype lex_error =
    UnterminatedComment | NoDigitsAfter char | MalformedInteger | InvalidDigit int | IntValueError
  | UnterminatedString | UnterminatedChar | NotOneCharacter nat
  | UnterminatedEscape | UnknownEscape char | BadHexEscape string
  | NonAscii char | UnexpectedCharacter char

section \<open>Character classes\<close>

definition SYMBOLS :: "string list" where
  "SYMBOLS =
    [''<<'', ''>>'', ''=='', ''!='', ''<='', ''>='', ''&&'', ''||'', ''|>'', ''::'',
     '';'', '','', '':'', ''.'', ''@'', ''='', ''+'', ''-'', ''*'', ''/'', ''%'',
     ''&'', ''|'', ''^'', ''~'', ''<'', ''>'', ''!'', ''('', '')'', ''['', '']'', ''{'', ''}'']"

definition IDENT_START :: "char set" where
  "IDENT_START = set ''abcdefghijklmnopqrstuvwxyzABCDEFGHIJKLMNOPQRSTUVWXYZ_''"

definition Lexer_DIGITS :: "char set" where
  "Lexer_DIGITS = set ''0123456789''"

definition IDENT_BODY :: "char set" where
  "IDENT_BODY = IDENT_START \<union> Lexer_DIGITS"

definition HEX_DIGITS :: "char set" where
  "HEX_DIGITS = set ''0123456789abcdefABCDEF''"

definition RADIX_DIGITS :: "(char \<times> char set) list" where
  "RADIX_DIGITS = [(CHR ''x'', set ''0123456789abcdefABCDEF''), (CHR ''b'', set ''01'')]"

definition starts_with :: "string \<Rightarrow> string \<Rightarrow> bool" where
  "starts_with s symbol = (take (length symbol) s = symbol)"

section \<open>Trivia\<close>

fun skip_line :: "string \<Rightarrow> string" where
  "skip_line [] = []"
| "skip_line (c # rest) = (if c = CHR 0x0A then c # rest else skip_line rest)"

fun block_loop :: "nat \<Rightarrow> string \<Rightarrow> string option" where
  "block_loop depth [] = None"
| "block_loop depth [c] = None"
| "block_loop depth (c # d # rest) =
     (if c = CHR ''/'' \<and> d = CHR ''*'' then block_loop (Suc depth) rest
      else if c = CHR ''*'' \<and> d = CHR ''/'' then
        (if depth = 1 then Some rest else block_loop (depth - 1) rest)
      else block_loop depth (d # rest))"

definition skip_block_comment :: "string \<Rightarrow> lex_error + string" where
  "skip_block_comment s = (case block_loop 0 s of None \<Rightarrow> Inl UnterminatedComment | Some rest \<Rightarrow> Inr rest)"

lemma skip_line_length: "length (skip_line s) \<le> length s"
  by (induction s) auto

lemma block_loop_length: "block_loop depth s = Some rest \<Longrightarrow> length rest + 2 \<le> length s"
  by (induction depth s rule: block_loop.induct) (fastforce split: if_splits)+

lemma skip_block_comment_length: "skip_block_comment s = Inr rest \<Longrightarrow> length rest < length s"
  by (auto simp: skip_block_comment_def dest: block_loop_length split: option.splits)

lemma skip_line_comment_length: "starts_with s ''//'' \<Longrightarrow> length (skip_line s) < length s"
  by (cases s) (auto simp: starts_with_def le_imp_less_Suc skip_line_length)

function skip_trivia :: "string \<Rightarrow> lex_error + string" where
  "skip_trivia s =
     (if s = [] then Inr s
      else if hd s \<in> {CHR '' '', CHR 0x09, CHR 0x0D, CHR 0x0A} then skip_trivia (tl s)
      else if starts_with s ''//'' then skip_trivia (skip_line s)
      else if starts_with s ''/*'' then
        (case skip_block_comment s of Inl e \<Rightarrow> Inl e | Inr rest \<Rightarrow> skip_trivia rest)
      else Inr s)"
  by pat_completeness auto
termination
  by (relation "measure length") (auto simp: skip_line_comment_length skip_block_comment_length)

declare skip_trivia.simps [simp del]

section \<open>Literals\<close>

definition scan_ident :: "string \<Rightarrow> token \<times> string" where
  "scan_ident s =
     (\<lparr>tok_kind = IDENT, tok_text = takeWhile (\<lambda>c. c \<in> IDENT_BODY) s, tok_value = 0\<rparr>,
      dropWhile (\<lambda>c. c \<in> IDENT_BODY) s)"

text \<open>The part of \<open>scan_int\<close> after the marker: \<open>start\<close> is the text at the token, \<open>body\<close> at its digits.\<close>

definition scan_digits :: "nat \<Rightarrow> char set \<Rightarrow> string \<Rightarrow> string \<Rightarrow> lex_error + token \<times> string" where
  "scan_digits radix allowed start body =
     (let run = takeWhile (\<lambda>c. c \<in> allowed \<or> c = CHR ''_'') body;
          rest = dropWhile (\<lambda>c. c \<in> allowed \<or> c = CHR ''_'') body;
          held = filter (\<lambda>c. c \<noteq> CHR ''_'') run in
      if held = [] then Inl MalformedInteger
      else if rest \<noteq> [] \<and> hd rest \<in> IDENT_BODY then Inl (InvalidDigit (int radix))
      else case py_int (map (\<lambda>c. byte_of (of_char c)) held) radix of
          None \<Rightarrow> Inl IntValueError
        | Some v \<Rightarrow> Inr (\<lparr>tok_kind = INTEGER, tok_text = take (length start - length rest) start, tok_value = v\<rparr>, rest))"

definition scan_int :: "string \<Rightarrow> lex_error + token \<times> string" where
  "scan_int s =
     (case s of
        zero # marker # body \<Rightarrow>
          (case (if zero = CHR ''0'' then map_of RADIX_DIGITS marker else None) of
             Some allowed \<Rightarrow>
               if body = [] \<or> hd body \<notin> allowed then Inl (NoDigitsAfter marker)
               else scan_digits (if marker = CHR ''x'' then 16 else 2) allowed s body
           | None \<Rightarrow> scan_digits 10 Lexer_DIGITS s s)
      | _ \<Rightarrow> scan_digits 10 Lexer_DIGITS s s)"

definition scan_hex_escape :: "string \<Rightarrow> lex_error + char \<times> string" where
  "scan_hex_escape s =
     (let digits = take 2 s in
      if length digits < 2 \<or> list_ex (\<lambda>c. c \<notin> HEX_DIGITS) digits then Inl (BadHexEscape digits)
      else case py_int (map (\<lambda>c. byte_of (of_char c)) digits) 16 of
          None \<Rightarrow> Inl IntValueError
        | Some v \<Rightarrow> Inr (char_of (nat v), drop 2 s))"

text \<open>\<open>s\<close> is the text behind the backslash.\<close>

definition scan_escape :: "char \<Rightarrow> string \<Rightarrow> lex_error + char \<times> string" where
  "scan_escape quote s =
     (case s of
        [] \<Rightarrow> Inl UnterminatedEscape
      | c # rest \<Rightarrow>
          (case map_of [(quote, quote), (CHR ''n'', CHR 0x0A), (CHR ''t'', CHR 0x09), (CHR ''r'', CHR 0x0D),
                        (CHR ''0'', CHR 0x00), (CHR 0x5C, CHR 0x5C)] c of
             Some held \<Rightarrow> Inr (held, rest)
           | None \<Rightarrow> if c = CHR ''x'' then scan_hex_escape rest else Inl (UnknownEscape c)))"

lemma scan_hex_escape_length: "scan_hex_escape s = Inr (c, rest) \<Longrightarrow> length rest + 2 \<le> length s"
  by (auto simp: scan_hex_escape_def Let_def split: if_splits option.splits)

lemma scan_escape_length: "scan_escape quote s = Inr (c, rest) \<Longrightarrow> length rest < length s"
  by (auto simp: scan_escape_def dest: scan_hex_escape_length split: list.splits option.splits if_splits)

text \<open>The loop that \<open>scan_string\<close> and \<open>scan_char\<close> both are, up to the closing quote.\<close>

function quoted_loop :: "char \<Rightarrow> lex_error \<Rightarrow> string \<Rightarrow> string \<Rightarrow> lex_error + string \<times> string" where
  "quoted_loop quote open chunks [] = Inl open"
| "quoted_loop quote open chunks (c # rest) =
     (if c = quote then Inr (chunks, rest)
      else if c = CHR 0x0A then Inl open
      else if c = CHR 0x5C then
        (case scan_escape quote rest of
           Inl e \<Rightarrow> Inl e
         | Inr (held, after) \<Rightarrow> quoted_loop quote open (chunks @ [held]) after)
      else quoted_loop quote open (chunks @ [c]) rest)"
  by pat_completeness auto
termination
  by (relation "measure (length \<circ> snd \<circ> snd \<circ> snd)") (auto dest: scan_escape_length)

definition scan_string :: "string \<Rightarrow> lex_error + token \<times> string" where
  "scan_string s =
     bindE (quoted_loop (CHR 0x22) UnterminatedString [] (tl s)) (\<lambda>(held, rest).
       Inr (\<lparr>tok_kind = STRING, tok_text = held, tok_value = 0\<rparr>, rest))"

definition scan_char :: "string \<Rightarrow> lex_error + token \<times> string" where
  "scan_char s =
     bindE (quoted_loop (CHR 0x27) UnterminatedChar [] (tl s)) (\<lambda>(body, rest).
       if length body \<noteq> 1 then Inl (NotOneCharacter (length body))
       else Inr (\<lparr>tok_kind = CHARACTER, tok_text = body, tok_value = 0\<rparr>, rest))"

section \<open>Tokens of a text\<close>

definition scan_token :: "string \<Rightarrow> lex_error + token \<times> string" where
  "scan_token s =
     (let c = hd s in
      if c \<in> IDENT_START then Inr (scan_ident s)
      else if c \<in> Lexer_DIGITS then scan_int s
      else if c = CHR 0x22 then scan_string s
      else if c = CHR 0x27 then scan_char s
      else case find (starts_with s) SYMBOLS of
          Some symbol \<Rightarrow> Inr (\<lparr>tok_kind = SYMBOL, tok_text = symbol, tok_value = 0\<rparr>, drop (length symbol) s)
        | None \<Rightarrow> if 128 \<le> (of_char c :: nat) then Inl (NonAscii c) else Inl (UnexpectedCharacter c))"

lemma dropWhile_shorter: "s \<noteq> [] \<Longrightarrow> P (hd s) \<Longrightarrow> length (dropWhile P s) < length s"
  by (cases s) (auto simp: le_imp_less_Suc length_dropWhile_le)

lemma scan_digits_length: "scan_digits radix allowed start body = Inr (t, rest) \<Longrightarrow> length rest < length body"
proof -
  assume a: "scan_digits radix allowed start body = Inr (t, rest)"
  let ?P = "\<lambda>c. c \<in> allowed \<or> c = CHR ''_''"
  from a have "takeWhile ?P body \<noteq> []" "rest = dropWhile ?P body"
    by (auto simp: scan_digits_def Let_def split: if_splits option.splits)
  then show ?thesis by (cases body) (auto simp: le_imp_less_Suc length_dropWhile_le split: if_splits)
qed

lemma scan_int_length: "scan_int s = Inr (t, rest) \<Longrightarrow> length rest < length s"
  by (auto simp: scan_int_def dest!: scan_digits_length split: list.splits option.splits if_splits)

lemma quoted_loop_length: "quoted_loop quote open chunks s = Inr (held, rest) \<Longrightarrow> length rest < length s"
proof (induction quote "open" chunks s rule: quoted_loop.induct)
  case (2 quote "open" chunks c s)
  show ?case
    using 2 by (auto split: if_splits sum.splits prod.splits dest: scan_escape_length) (meson less_SucI less_trans scan_escape_length)
qed simp

lemma tl_length: "length rest < length (tl s) \<Longrightarrow> length rest < length s"
  by (cases s) auto

lemma scan_string_length: "scan_string s = Inr (t, rest) \<Longrightarrow> length rest < length s"
  by (auto simp: scan_string_def dest!: quoted_loop_length intro: tl_length)

lemma scan_char_length: "scan_char s = Inr (t, rest) \<Longrightarrow> length rest < length s"
  by (auto simp: scan_char_def dest!: quoted_loop_length intro: tl_length split: if_splits)

lemma SYMBOLS_nonempty: "symbol \<in> set SYMBOLS \<Longrightarrow> symbol \<noteq> []"
  by (auto simp: SYMBOLS_def)

lemma scan_token_length:
  assumes "scan_token s = Inr (t, rest)" "s \<noteq> []"
  shows "length rest < length s"
proof -
  have "length rest < length s" if "find (starts_with s) SYMBOLS = Some symbol" "rest = drop (length symbol) s" for symbol
    using that assms(2) SYMBOLS_nonempty [of symbol] by (auto simp: find_Some_iff)
  then show ?thesis
    using assms by (auto simp: scan_token_def Let_def scan_ident_def IDENT_BODY_def dropWhile_shorter
        dest: scan_int_length scan_string_length scan_char_length split: if_splits option.splits)
qed

lemma skip_trivia_length: "skip_trivia s = Inr rest \<Longrightarrow> length rest \<le> length s"
proof (induction s rule: skip_trivia.induct)
  case (1 s)
  show ?case
    using "1.prems" "1.IH"
    by (subst (asm) skip_trivia.simps)
      (auto split: if_splits sum.splits dest: skip_line_comment_length skip_block_comment_length)
qed

function tokenize_from :: "nat \<Rightarrow> string \<Rightarrow> lex_error + spanned list" where
  "tokenize_from n s =
     (case skip_trivia s of
        Inl e \<Rightarrow> Inl e
      | Inr at \<Rightarrow>
          if at = [] then Inr [(EOF_TOKEN, n, n)]
          else (case scan_token at of
              Inl e \<Rightarrow> Inl e
            | Inr (t, rest) \<Rightarrow>
                (case tokenize_from n rest of
                   Inl e \<Rightarrow> Inl e
                 | Inr tokens \<Rightarrow> Inr ((t, n - length at, n - length rest) # tokens))))"
  by pat_completeness auto
termination
  by (relation "measure (length \<circ> snd)")
    (auto dest!: scan_token_length skip_trivia_length)

declare tokenize_from.simps [simp del]

definition tokenize :: "string \<Rightarrow> lex_error + spanned list" where
  "tokenize source = tokenize_from (length source) source"

end
