(* ===== verification/Lex_Facts.thy ===== *)
theory Lex_Facts
  imports Lexer "HOL-Library.Sublist"
begin

text \<open>
  What \<open>Lexer\<close> makes of a text, against a grammar of its own: the tokens and the blanks and comments
  between them cover the text in order, each token a piece of the shape its kind says.
\<close>

section \<open>The token stream\<close>

text \<open>
  Blanks and comments, as the grammar has them: \<open>in_comment d s\<close> says that \<open>s\<close> closes \<open>d\<close> open block
  comments and ends there; a line comment ends before the line break.
\<close>

inductive in_comment :: "nat \<Rightarrow> string \<Rightarrow> bool" where
  close: "in_comment 1 ''*/''"
| leave: "in_comment d s \<Longrightarrow> 0 < d \<Longrightarrow> in_comment (Suc d) (''*/'' @ s)"
| enter: "in_comment (Suc d) s \<Longrightarrow> in_comment d (''/*'' @ s)"
| other: "in_comment d s \<Longrightarrow> \<not> prefix ''/*'' (c # s) \<Longrightarrow> \<not> prefix ''*/'' (c # s) \<Longrightarrow> in_comment d (c # s)"

inductive trivia :: "string \<Rightarrow> bool" where
  none: "trivia []"
| blank: "trivia s \<Longrightarrow> c \<in> {CHR '' '', CHR 0x09, CHR 0x0D, CHR 0x0A} \<Longrightarrow> trivia (c # s)"
| line: "trivia s \<Longrightarrow> CHR 0x0A \<notin> set comment \<Longrightarrow> s = [] \<or> hd s = CHR 0x0A \<Longrightarrow> trivia (''//'' @ comment @ s)"
| block: "trivia s \<Longrightarrow> in_comment 1 comment \<Longrightarrow> trivia (''/*'' @ comment @ s)"

text \<open>
  The shapes of the tokens: \<open>piece\<close> is the source a token's span names and \<open>after\<close> what follows it.
  An identifier or a number runs as far as it can, a symbol is the longest that stands there and opens
  no comment, and a string or a character lies between its quotation marks on one line.
\<close>

definition quotation :: "char \<Rightarrow> string \<Rightarrow> bool" where
  "quotation quote piece \<longleftrightarrow> (\<exists>inner. piece = quote # inner @ [quote] \<and> CHR 0x0A \<notin> set inner)"

definition word_piece :: "char set \<Rightarrow> string \<Rightarrow> string \<Rightarrow> bool" where
  "word_piece starts piece after \<longleftrightarrow>
     piece \<noteq> [] \<and> hd piece \<in> starts \<and> set piece \<subseteq> IDENT_BODY \<and> (after = [] \<or> hd after \<notin> IDENT_BODY)"

definition symbol_piece :: "string \<Rightarrow> string \<Rightarrow> bool" where
  "symbol_piece piece after \<longleftrightarrow>
     piece \<in> set SYMBOLS \<and> (\<forall>symbol \<in> set SYMBOLS. prefix symbol (piece @ after) \<longrightarrow> length symbol \<le> length piece)
     \<and> \<not> prefix ''//'' (piece @ after) \<and> \<not> prefix ''/*'' (piece @ after)"

definition token_shape :: "token \<Rightarrow> string \<Rightarrow> string \<Rightarrow> bool" where
  "token_shape t piece after =
     (case tok_kind t of
        IDENT \<Rightarrow> tok_text t = piece \<and> word_piece IDENT_START piece after
      | INTEGER \<Rightarrow> tok_text t = piece \<and> word_piece Lexer_DIGITS piece after
      | SYMBOL \<Rightarrow> tok_text t = piece \<and> symbol_piece piece after
      | STRING \<Rightarrow> quotation (CHR 0x22) piece
      | CHARACTER \<Rightarrow> quotation (CHR 0x27) piece \<and> length (tok_text t) = 1
      | EOF \<Rightarrow> False)"

text \<open>The tokens from position \<open>low\<close> on: trivia, a token, trivia, and so on to the end of the source.\<close>

fun covered :: "string \<Rightarrow> nat \<Rightarrow> spanned list \<Rightarrow> bool" where
  "covered source low [] = False"
| "covered source low ((t, first, stop) # ts) =
     (if ts = [] then t = EOF_TOKEN \<and> first = length source \<and> stop = length source \<and> trivia (drop low source)
      else low \<le> first \<and> first < stop \<and> stop \<le> length source \<and> trivia (slice source low (first - low))
        \<and> token_shape t (slice source first (stop - first)) (drop stop source) \<and> covered source stop ts)"

definition trivial :: "string \<Rightarrow> bool" where
  "trivial s = (skip_trivia s = Inr [])"

lemma skip_line_suffix: "suffix (skip_line s) s"
  by (induction s) (auto intro: suffix_ConsI)

lemma block_loop_suffix: "block_loop depth s = Some rest \<Longrightarrow> suffix rest s"
  by (induction depth s rule: block_loop.induct) (auto split: if_splits intro: suffix_ConsI)

lemma skip_block_comment_suffix: "skip_block_comment s = Inr rest \<Longrightarrow> suffix rest s"
  by (auto simp: skip_block_comment_def dest: block_loop_suffix split: option.splits)

lemma skip_trivia_suffix: "skip_trivia s = Inr rest \<Longrightarrow> suffix rest s"
proof (induction s rule: skip_trivia.induct)
  case (1 s)
  note e = skip_trivia.simps [of s]
  let ?space = "hd s \<in> {CHR '' '', CHR 0x09, CHR 0x0D, CHR 0x0A}"
  consider "s = []" | "s \<noteq> []" ?space | "s \<noteq> []" "\<not> ?space" "starts_with s ''//''"
    | "s \<noteq> []" "\<not> ?space" "\<not> starts_with s ''//''" "starts_with s ''/*''"
    | "s \<noteq> []" "\<not> ?space" "\<not> starts_with s ''//''" "\<not> starts_with s ''/*''" by blast
  then show ?case
  proof cases
    case 2
    then have "skip_trivia (tl s) = Inr rest" using "1.prems" e by simp
    then show ?thesis using "1.IH"(1) 2 suffix_tl suffix_order.trans by blast
  next
    case 3
    then have "skip_trivia (skip_line s) = Inr rest" using "1.prems" e by simp
    then show ?thesis using "1.IH"(2) 3 skip_line_suffix suffix_order.trans by blast
  next
    case 4
    then obtain after where a: "skip_block_comment s = Inr after" "skip_trivia after = Inr rest"
      using "1.prems" e by (auto split: sum.splits)
    then show ?thesis using "1.IH"(3) 4 skip_block_comment_suffix suffix_order.trans by blast
  qed (use "1.prems" e in simp_all)
qed

lemma scan_hex_escape_suffix: "scan_hex_escape s = Inr (c, rest) \<Longrightarrow> suffix rest s"
  by (auto simp: scan_hex_escape_def Let_def suffix_drop split: if_splits option.splits)

lemma scan_escape_suffix: "scan_escape quote s = Inr (c, rest) \<Longrightarrow> suffix rest s"
  by (auto simp: scan_escape_def dest!: scan_hex_escape_suffix intro: suffix_ConsI split: list.splits option.splits if_splits)

lemma quoted_loop_suffix: "quoted_loop quote open chunks s = Inr (held, rest) \<Longrightarrow> suffix rest s"
proof (induction quote "open" chunks s rule: quoted_loop.induct)
  case (2 quote "open" chunks c s)
  consider "c = quote" | "c \<noteq> quote" "c = CHR 0x5C" | "c \<noteq> quote" "c \<noteq> CHR 0x5C" by blast
  then show ?case
  proof cases
    case 2
    then obtain h after where e: "scan_escape quote s = Inr (h, after)"
        "quoted_loop quote open (chunks @ [h]) after = Inr (held, rest)"
      using "2.prems" by (auto split: sum.splits prod.splits)
    then have "suffix rest after" using "2.IH"(1) [of "(h, after)" h after] 2 by auto
    then show ?thesis using scan_escape_suffix [OF e(1)] by (meson suffix_ConsI suffix_order.trans)
  next
    case 3
    then show ?thesis using "2.prems" "2.IH"(2) by (auto split: if_splits intro: suffix_ConsI)
  qed (use "2.prems" in \<open>auto intro: suffix_ConsI\<close>)
qed simp

lemma take_suffix: "suffix rest s \<Longrightarrow> s = take (length s - length rest) s @ rest"
  by (auto simp: suffix_def)

lemma scan_digits_suffix:
  assumes "scan_digits radix allowed start body = Inr (t, rest)" "suffix body start"
  shows "start = tok_text t @ rest \<and> tok_kind t = INTEGER"
proof -
  let ?P = "\<lambda>c. c \<in> allowed \<or> c = CHR ''_''"
  from assms(1) have t: "rest = dropWhile ?P body" "tok_text t = take (length start - length rest) start" "tok_kind t = INTEGER"
    by (auto simp: scan_digits_def Let_def split: if_splits option.splits)
  have "suffix rest body" unfolding t(1) by (rule suffix_dropWhile)
  then have "suffix rest start" using assms(2) by (rule suffix_order.trans)
  then show ?thesis using t(2,3) take_suffix by metis
qed

lemma scan_int_suffix:
  assumes "scan_int s = Inr (t, rest)"
  shows "s = tok_text t @ rest \<and> tok_kind t = INTEGER"
proof -
  have "suffix b (a # c # b)" for a c and b :: string by (simp add: suffix_ConsI)
  moreover obtain radix allowed body where "scan_digits radix allowed s body = Inr (t, rest)"
      "body = s \<or> (\<exists>a c. s = a # c # body)"
    using assms by (auto simp: scan_int_def split: list.splits option.splits if_splits)
  ultimately show ?thesis using scan_digits_suffix [of radix allowed s body] by auto
qed

lemma scan_token_suffix:
  assumes "scan_token s = Inr (t, rest)" "s \<noteq> []"
  shows "suffix rest s \<and> (tok_kind t \<in> {IDENT, INTEGER, SYMBOL} \<longrightarrow> s = tok_text t @ rest) \<and> tok_kind t \<noteq> EOF"
proof -
  have quoted: "suffix rest s" if "quoted_loop q e [] (tl s) = Inr (h, rest)" for q e h
    using quoted_loop_suffix [OF that] suffix_tl suffix_order.trans by blast
  have symbol: "s = symbol @ drop (length symbol) s" if "find (starts_with s) SYMBOLS = Some symbol" for symbol
  proof -
    have "take (length symbol) s = symbol" using that by (auto simp: find_Some_iff starts_with_def)
    then show ?thesis by (metis append_take_drop_id)
  qed
  have int: "suffix rest s \<and> s = tok_text t @ rest \<and> tok_kind t = INTEGER" if "scan_int s = Inr (t, rest)"
    using scan_int_suffix [OF that] suffixI by metis
  show ?thesis
    using assms(1) symbol
    by (auto simp: scan_token_def Let_def scan_ident_def scan_string_def scan_char_def suffix_dropWhile suffix_drop suffixI
        dest: int quoted split: if_splits option.splits)
qed

lemma tokenize_from_Inr:
  assumes "tokenize_from n s = Inr ts"
  obtains (eof) "trivial s" "ts = [(EOF_TOKEN, n, n)]"
    | (token) at t rest us where "skip_trivia s = Inr at" "at \<noteq> []" "scan_token at = Inr (t, rest)"
        "tokenize_from n rest = Inr us" "ts = (t, n - length at, n - length rest) # us"
proof -
  have "(\<exists>at t rest us. skip_trivia s = Inr at \<and> at \<noteq> [] \<and> scan_token at = Inr (t, rest)
      \<and> tokenize_from n rest = Inr us \<and> ts = (t, n - length at, n - length rest) # us)
      \<or> trivial s \<and> ts = [(EOF_TOKEN, n, n)]"
    using assms by (subst (asm) tokenize_from.simps) (auto simp: trivial_def split: sum.splits if_splits)
  then show ?thesis using that by blast
qed

lemma tokenize_from_ne: "tokenize_from n s = Inr ts \<Longrightarrow> ts \<noteq> []"
  by (erule tokenize_from_Inr) auto

section \<open>Trivia between the tokens\<close>

lemma starts_with_prefix: "starts_with s symbol \<longleftrightarrow> prefix symbol s"
  by (metis append_eq_conv_conj prefix_def starts_with_def)

lemma skip_line_gap:
  "\<exists>comment. s = comment @ skip_line s \<and> CHR 0x0A \<notin> set comment \<and> (skip_line s = [] \<or> hd (skip_line s) = CHR 0x0A)"
proof (induction s)
  case (Cons c s)
  then obtain comment where "s = comment @ skip_line s" "CHR 0x0A \<notin> set comment"
    "skip_line s = [] \<or> hd (skip_line s) = CHR 0x0A" by blast
  then show ?case by (cases "c = CHR 0x0A") (auto intro: exI [of _ "c # comment"])
qed simp

lemma block_loop_gap:
  "block_loop depth s = Some rest \<Longrightarrow> 0 < depth \<Longrightarrow> \<exists>comment. s = comment @ rest \<and> in_comment depth comment"
proof (induction depth s rule: block_loop.induct)
  case (3 depth c d s)
  consider "c = CHR ''/'' \<and> d = CHR ''*''" | "\<not> (c = CHR ''/'' \<and> d = CHR ''*'')" "c = CHR ''*'' \<and> d = CHR ''/''" "depth = 1"
    | "\<not> (c = CHR ''/'' \<and> d = CHR ''*'')" "c = CHR ''*'' \<and> d = CHR ''/''" "depth \<noteq> 1"
    | "\<not> (c = CHR ''/'' \<and> d = CHR ''*'')" "\<not> (c = CHR ''*'' \<and> d = CHR ''/'')" by blast
  then show ?case
  proof cases
    case 1
    then obtain comment where "s = comment @ rest" "in_comment (Suc depth) comment" using 3 by auto
    then show ?thesis using 1 in_comment.enter [of depth comment] by (intro exI [of _ "''/*'' @ comment"]) simp
  next
    case 2
    then show ?thesis using 3(4) in_comment.close by (intro exI [of _ "''*/''"]) simp
  next
    case 3
    then obtain comment where "s = comment @ rest" "in_comment (depth - 1) comment" using "3.IH"(2) "3.prems" by auto
    then show ?thesis using 3 "3.prems"(2) in_comment.leave [of "depth - 1" comment]
      by (intro exI [of _ "''*/'' @ comment"]) simp
  next
    case 4
    then obtain comment where at: "d # s = comment @ rest" "in_comment depth comment" using "3.IH"(3) "3.prems" by auto
    have "comment \<noteq> []" using at(2) by (cases rule: in_comment.cases) auto
    then have "\<not> prefix ''/*'' (c # comment)" "\<not> prefix ''*/'' (c # comment)" using 4 at(1) by (cases comment; auto)+
    then show ?thesis using at in_comment.other by (intro exI [of _ "c # comment"]) auto
  qed
qed auto

lemma comment_opens: "prefix ''//'' (comment @ r) \<Longrightarrow> r = [] \<or> hd r \<noteq> CHR ''/'' \<Longrightarrow> prefix ''//'' comment"
proof (cases comment)
  case (Cons c cs)
  assume "prefix ''//'' (comment @ r)" "r = [] \<or> hd r \<noteq> CHR ''/''"
  then show ?thesis using Cons by (cases cs; cases r) auto
qed (cases r, auto)

lemma skip_trivia_gap: "skip_trivia s = Inr rest \<Longrightarrow> \<exists>gap. s = gap @ rest \<and> trivia gap"
proof (induction s rule: skip_trivia.induct)
  case (1 s)
  note e = skip_trivia.simps [of s]
  let ?space = "hd s \<in> {CHR '' '', CHR 0x09, CHR 0x0D, CHR 0x0A}"
  consider (space) "s \<noteq> []" ?space | (line) "s \<noteq> []" "\<not> ?space" "starts_with s ''//''"
    | (block) "s \<noteq> []" "\<not> ?space" "\<not> starts_with s ''//''" "starts_with s ''/*''"
    | (token) "s = [] \<or> \<not> ?space \<and> \<not> starts_with s ''//'' \<and> \<not> starts_with s ''/*''" by blast
  then show ?case
  proof cases
    case space
    then have "skip_trivia (tl s) = Inr rest" using "1.prems" e by simp
    then obtain gap where "tl s = gap @ rest" "trivia gap" using "1.IH"(1) space by blast
    then show ?thesis using space trivia.blank [of gap "hd s"] by (intro exI [of _ "hd s # gap"]) (cases s, auto)
  next
    case line
    then have again: "skip_trivia (skip_line s) = Inr rest" using "1.prems" e by simp
    then obtain gap where gap: "skip_line s = gap @ rest" "trivia gap" using "1.IH"(2) line by blast
    obtain comment where c: "s = comment @ skip_line s" "CHR 0x0A \<notin> set comment"
      "skip_line s = [] \<or> hd (skip_line s) = CHR 0x0A" using skip_line_gap by blast
    have "gap = [] \<or> hd gap = CHR 0x0A"
      using c(3) gap(1) by (cases gap) auto
    moreover have "prefix ''//'' (comment @ skip_line s)" using line(3) c(1) by (simp add: starts_with_prefix)
    then have "prefix ''//'' comment" by (rule comment_opens) (use c(3) in auto)
    then obtain body where "comment = ''//'' @ body" by (auto simp: prefix_def)
    ultimately have "trivia (comment @ gap)" using trivia.line [OF gap(2), of body] c(2) by simp
    then show ?thesis using c(1) gap(1) by (intro exI [of _ "comment @ gap"]) simp
  next
    case block
    then obtain after where a: "skip_block_comment s = Inr after" "skip_trivia after = Inr rest"
      using "1.prems" e by (auto split: sum.splits)
    obtain gap where gap: "after = gap @ rest" "trivia gap" using "1.IH"(3) block a by blast
    obtain body where s: "s = ''/*'' @ body" using block(4) by (auto simp: starts_with_prefix prefix_def)
    then have "block_loop 1 body = Some after" using a(1) by (auto simp: skip_block_comment_def split: option.splits)
    then obtain comment where "body = comment @ after" "in_comment 1 comment" using block_loop_gap [of 1 body after] by auto
    then show ?thesis using s gap trivia.block [OF gap(2)] by (intro exI [of _ "''/*'' @ comment @ gap"]) simp
  next
    case token
    then have "s = rest" using "1.prems" e by (auto split: if_splits)
    then show ?thesis using trivia.none by auto
  qed
qed

lemma skip_trivia_stops:
  "skip_trivia s = Inr rest \<Longrightarrow> rest \<noteq> [] \<Longrightarrow> \<not> prefix ''//'' rest \<and> \<not> prefix ''/*'' rest"
proof (induction s rule: skip_trivia.induct)
  case (1 s)
  then show ?case using skip_trivia.simps [of s] by (auto simp: starts_with_prefix split: if_splits sum.splits)
qed

section \<open>The shapes of the tokens\<close>

lemma scan_escape_gap:
  assumes "scan_escape quote s = Inr (h, after)" "quote \<noteq> CHR 0x0A"
  shows "\<exists>e. s = e @ after \<and> CHR 0x0A \<notin> set e"
proof -
  obtain c rest where s: "s = c # rest" using assms(1) by (auto simp: scan_escape_def split: list.splits)
  have c: "c \<noteq> CHR 0x0A" using assms by (auto simp: scan_escape_def s split: if_splits)
  consider "after = rest" | "scan_hex_escape rest = Inr (h, after)"
    using assms(1) by (auto simp: scan_escape_def s split: option.splits if_splits)
  then show ?thesis
  proof cases
    case 1
    then show ?thesis using s c by (intro exI [of _ "[c]"]) simp
  next
    case 2
    then have "after = drop 2 rest" "list_all (\<lambda>c. c \<in> HEX_DIGITS) (take 2 rest)"
      by (auto simp: scan_hex_escape_def Let_def list_all_iff list_ex_iff split: if_splits option.splits)
    moreover have "CHR 0x0A \<notin> HEX_DIGITS" by (simp add: HEX_DIGITS_def)
    ultimately have "rest = take 2 rest @ after" "CHR 0x0A \<notin> set (take 2 rest)"
      unfolding list_all_iff by (simp, blast)
    then show ?thesis using s c by (intro exI [of _ "c # take 2 rest"]) simp
  qed
qed

lemma quoted_loop_gap:
  "quoted_loop quote open chunks s = Inr (held, rest) \<Longrightarrow> quote \<noteq> CHR 0x0A \<Longrightarrow>
     \<exists>inner. s = inner @ quote # rest \<and> CHR 0x0A \<notin> set inner"
proof (induction quote "open" chunks s rule: quoted_loop.induct)
  case (2 quote "open" chunks c s)
  consider "c = quote" | "c \<noteq> quote" "c = CHR 0x5C" | "c \<noteq> quote" "c \<noteq> CHR 0x5C" "c \<noteq> CHR 0x0A"
    using "2.prems" by (auto split: if_splits)
  then show ?case
  proof cases
    case 1
    then show ?thesis using "2.prems" by (intro exI [of _ "[]"]) simp
  next
    case 2
    then obtain h after where e: "scan_escape quote s = Inr (h, after)"
        "quoted_loop quote open (chunks @ [h]) after = Inr (held, rest)"
      using "2.prems" by (auto split: sum.splits prod.splits)
    obtain inner where "after = inner @ quote # rest" "CHR 0x0A \<notin> set inner"
      using "2.IH"(1) [of "(h, after)" h after] 2 e "2.prems"(2) by auto
    moreover obtain d where "s = d @ after" "CHR 0x0A \<notin> set d" using scan_escape_gap [OF e(1) "2.prems"(2)] by blast
    ultimately show ?thesis using 2 by (intro exI [of _ "c # d @ inner"]) simp
  next
    case 3
    then obtain inner where "s = inner @ quote # rest" "CHR 0x0A \<notin> set inner"
      using "2.prems" "2.IH"(2) by (auto split: if_splits)
    then show ?thesis using 3 by (intro exI [of _ "c # inner"]) simp
  qed
qed simp

lemma quoted_piece:
  assumes "quoted_loop quote open [] (tl s) = Inr (held, rest)" "s \<noteq> []" "hd s = quote" "quote \<noteq> CHR 0x0A"
  shows "\<exists>piece. s = piece @ rest \<and> quotation quote piece"
proof -
  obtain inner where "tl s = inner @ quote # rest" "CHR 0x0A \<notin> set inner" using quoted_loop_gap [OF assms(1,4)] by blast
  then have "s = (quote # inner @ [quote]) @ rest" using assms(2,3) by (cases s) auto
  then show ?thesis using \<open>CHR 0x0A \<notin> set inner\<close> unfolding quotation_def by blast
qed

lemma scan_digits_piece:
  assumes "scan_digits radix allowed (pre @ body) body = Inr (t, rest)" "allowed \<subseteq> IDENT_BODY"
  shows "tok_kind t = INTEGER \<and> body = drop (length pre) (tok_text t) @ rest \<and> tok_text t = pre @ drop (length pre) (tok_text t)
    \<and> set (drop (length pre) (tok_text t)) \<subseteq> IDENT_BODY \<and> (rest = [] \<or> hd rest \<notin> IDENT_BODY)"
proof -
  let ?P = "\<lambda>c. c \<in> allowed \<or> c = CHR ''_''"
  have t: "rest = dropWhile ?P body" "tok_text t = take (length (pre @ body) - length rest) (pre @ body)" "tok_kind t = INTEGER"
    "rest = [] \<or> hd rest \<notin> IDENT_BODY"
    using assms(1) by (auto simp: scan_digits_def Let_def split: if_splits option.splits)
  have "CHR ''_'' \<in> IDENT_BODY" by (simp add: IDENT_BODY_def IDENT_START_def)
  then have "set (takeWhile ?P body) \<subseteq> IDENT_BODY" using assms(2) by (auto dest: set_takeWhileD)
  moreover have "body = takeWhile ?P body @ rest" unfolding t(1) by simp
  ultimately obtain run where run: "body = run @ rest" "set run \<subseteq> IDENT_BODY" by blast
  have "tok_text t = pre @ run" unfolding t(2) run(1) by simp
  then show ?thesis using t(3,4) run by simp
qed

lemma word_pieceI:
  assumes "s = piece @ rest" "piece \<noteq> []" "hd s \<in> starts" "set piece \<subseteq> IDENT_BODY" "rest = [] \<or> hd rest \<notin> IDENT_BODY"
  shows "word_piece starts piece rest"
  using assms by (auto simp: word_piece_def)

lemma scan_int_piece:
  assumes "scan_int s = Inr (t, rest)" "s \<noteq> []" "hd s \<in> Lexer_DIGITS"
  shows "\<exists>piece. s = piece @ rest \<and> token_shape t piece rest"
proof -
  have sub: "Lexer_DIGITS \<subseteq> IDENT_BODY" by (simp add: IDENT_BODY_def)
  obtain radix allowed pre body where s: "s = pre @ body" "set pre \<subseteq> IDENT_BODY"
      and at: "scan_digits radix allowed s body = Inr (t, rest)" "allowed \<subseteq> IDENT_BODY"
  proof (cases "scan_digits 10 Lexer_DIGITS s s = Inr (t, rest)")
    case True
    then show thesis using that [of "[]" s 10 Lexer_DIGITS] sub by simp
  next
    case False
    then obtain marker body allowed where "s = CHR ''0'' # marker # body" "map_of RADIX_DIGITS marker = Some allowed"
      "scan_digits (if marker = CHR ''x'' then 16 else 2) allowed s body = Inr (t, rest)"
      using assms(1) by (auto simp: scan_int_def split: list.splits option.splits if_splits)
    moreover from this(2) have "marker \<in> IDENT_BODY" "allowed \<subseteq> IDENT_BODY"
      by (auto simp: RADIX_DIGITS_def IDENT_BODY_def IDENT_START_def Lexer_DIGITS_def split: if_splits)
    moreover have "CHR ''0'' \<in> IDENT_BODY" by (simp add: IDENT_BODY_def Lexer_DIGITS_def)
    ultimately show thesis using that [of "[CHR ''0'', marker]" body] by simp
  qed
  define run where "run = drop (length pre) (tok_text t)"
  have r: "tok_kind t = INTEGER" "body = run @ rest" "tok_text t = pre @ run" "set run \<subseteq> IDENT_BODY"
    "rest = [] \<or> hd rest \<notin> IDENT_BODY"
    using scan_digits_piece [OF at(1) [unfolded s(1)] at(2)] unfolding run_def by blast+
  have "tok_text t \<noteq> []" using scan_int_length [OF assms(1)] s(1) r(2,3) by auto
  then have "word_piece Lexer_DIGITS (tok_text t) rest"
    using s r assms(3) by (intro word_pieceI [of s]) auto
  then show ?thesis using s(1) r by (intro exI [of _ "tok_text t"]) (simp add: token_shape_def)
qed

lemma symbols_longest_first: "sorted_wrt (\<lambda>a b. length b \<le> length a) SYMBOLS"
  by code_simp

lemma find_longest:
  "find P xs = Some x \<Longrightarrow> sorted_wrt (\<lambda>a b. length b \<le> length a) xs \<Longrightarrow> y \<in> set xs \<Longrightarrow> P y \<Longrightarrow> length y \<le> length x"
  by (induction xs) (auto split: if_splits)

lemma symbol_pieceI:
  assumes "find (starts_with s) SYMBOLS = Some symbol" "\<not> prefix ''//'' s \<and> \<not> prefix ''/*'' s"
  shows "s = symbol @ drop (length symbol) s \<and> symbol_piece symbol (drop (length symbol) s)"
proof -
  have "symbol \<in> set SYMBOLS" "starts_with s symbol" using assms(1) by (auto simp: find_Some_iff)
  then have s: "s = symbol @ drop (length symbol) s" by (auto simp: starts_with_prefix prefix_def)
  have "length y \<le> length symbol" if "y \<in> set SYMBOLS" "prefix y s" for y
    using find_longest [OF assms(1) symbols_longest_first that(1)] that(2) by (simp add: starts_with_prefix)
  then show ?thesis using s assms(2) \<open>symbol \<in> set SYMBOLS\<close> by (simp add: symbol_piece_def)
qed

lemma scan_token_piece:
  assumes "scan_token s = Inr (t, rest)" "s \<noteq> []" "\<not> prefix ''//'' s \<and> \<not> prefix ''/*'' s"
  shows "\<exists>piece. s = piece @ rest \<and> token_shape t piece rest"
proof -
  consider (ident) "hd s \<in> IDENT_START" "scan_ident s = (t, rest)"
    | (int) "hd s \<in> Lexer_DIGITS" "scan_int s = Inr (t, rest)"
    | (string) "hd s = CHR 0x22" "scan_string s = Inr (t, rest)"
    | (char) "hd s = CHR 0x27" "scan_char s = Inr (t, rest)"
    | (symbol) symbol where "find (starts_with s) SYMBOLS = Some symbol" "t = \<lparr>tok_kind = SYMBOL, tok_text = symbol, tok_value = 0\<rparr>"
        "rest = drop (length symbol) s"
    using assms(1) by (auto simp: scan_token_def Let_def split: if_splits option.splits)
  then show ?thesis
  proof cases
    case ident
    let ?P = "\<lambda>c. c \<in> IDENT_BODY"
    have t: "tok_kind t = IDENT" "tok_text t = takeWhile ?P s" "rest = dropWhile ?P s" using ident(2) by (auto simp: scan_ident_def)
    have "takeWhile ?P s \<noteq> []" using ident(1) assms(2) by (cases s) (auto simp: IDENT_BODY_def)
    moreover have "set (takeWhile ?P s) \<subseteq> IDENT_BODY" by (auto dest: set_takeWhileD)
    moreover have "rest = [] \<or> hd rest \<notin> IDENT_BODY" unfolding t(3) using hd_dropWhile [of ?P s] by blast
    ultimately have "word_piece IDENT_START (takeWhile ?P s) rest"
      using ident(1) t(3) by (intro word_pieceI [of s]) simp_all
    then show ?thesis using t by (intro exI [of _ "takeWhile ?P s"]) (simp add: token_shape_def)
  next
    case int
    then show ?thesis using scan_int_piece assms(2) by blast
  next
    case string
    then obtain held where q: "quoted_loop (CHR 0x22) UnterminatedString [] (tl s) = Inr (held, rest)" "tok_kind t = STRING"
      by (auto simp: scan_string_def)
    then show ?thesis using quoted_piece [OF q(1) assms(2) string(1)] by (auto simp: token_shape_def)
  next
    case char
    then obtain body where q: "quoted_loop (CHR 0x27) UnterminatedChar [] (tl s) = Inr (body, rest)" "tok_kind t = CHARACTER"
        "length (tok_text t) = 1"
      by (auto simp: scan_char_def split: if_splits)
    then show ?thesis using quoted_piece [OF q(1) assms(2) char(1)] by (auto simp: token_shape_def)
  next
    case symbol
    then show ?thesis using symbol_pieceI [OF symbol(1) assms(3)] by (auto simp: token_shape_def)
  qed
qed

section \<open>The tokens cover the source\<close>

lemma suffix_drop_eq: "suffix s source \<Longrightarrow> drop (length source - length s) source = s"
  by (auto simp: suffix_def)

lemma tokenize_from_covers:
  assumes "tokenize_from (length source) s = Inr ts" "suffix s source"
  shows "covered source (length source - length s) ts"
  using assms
proof (induction "length source" s arbitrary: ts rule: tokenize_from.induct)
  case (1 s)
  note whole = suffix_drop_eq [OF "1.prems"(2)]
  from "1.prems"(1) show ?case
  proof (cases rule: tokenize_from_Inr)
    case eof
    then obtain gap where "s = gap @ []" "trivia gap" using skip_trivia_gap [of s "[]"] by (auto simp: trivial_def)
    then show ?thesis using eof(2) whole by simp
  next
    case (token at t rest us)
    obtain gap where gap: "s = gap @ at" "trivia gap" using skip_trivia_gap [OF token(1)] by blast
    obtain piece where piece: "at = piece @ rest" "token_shape t piece rest"
      using scan_token_piece [OF token(3,2) skip_trivia_stops [OF token(1,2)]] by blast
    have suff: "suffix at source" "suffix rest source"
      using gap(1) piece(1) "1.prems"(2) by (auto simp: suffix_def)
    have len: "length rest < length at" "length at \<le> length s" "length s \<le> length source"
      using scan_token_length [OF token(3,2)] gap(1) suffix_length_le [OF "1.prems"(2)] by simp_all
    have "covered source (length source - length rest) us"
      using "1.hyps" [OF token(1,2,3) refl token(4) suff(2)] .
    moreover have "slice source (length source - length s) (length source - length at - (length source - length s)) = gap"
      unfolding slice_def whole using gap(1) len by simp
    moreover have "slice source (length source - length at) (length source - length rest - (length source - length at)) = piece"
      unfolding slice_def suffix_drop_eq [OF suff(1)] using piece(1) len by simp
    ultimately show ?thesis
      using token(5) len tokenize_from_ne [OF token(4)] gap(2) piece(2) suffix_drop_eq [OF suff(2)]
      by (simp add: diff_less_mono2 diff_le_mono2)
  qed
qed

text \<open>
  C25: Scanning covers the source.  The tokens of a text lie in order with one end-of-file token at the
  very end, and what lies before, between and behind them is blanks, line comments and nested block
  comments and nothing else.  Each token is a piece of the source, not empty, of the shape its kind
  says: an identifier or an integer that is not cut short, the longest symbol that stands there, a
  string or a single character between its quotation marks.
\<close>

theorem tokenize_spans:
  assumes "tokenize source = Inr tokens"
  shows "covered source 0 tokens"
  using tokenize_from_covers [of source source tokens] assms by (simp add: tokenize_def)

theorem tokenize_spans_witness:
  "\<exists>tokens. tokenize ''len /* of it */ <= 0x1_f'' = Inr tokens \<and> covered ''len /* of it */ <= 0x1_f'' 0 tokens
     \<and> length tokens = 4"
proof -
  let ?r = "tokenize ''len /* of it */ <= 0x1_f''"
  have "(case ?r of Inl e \<Rightarrow> False | Inr ts \<Rightarrow> length ts = 4)" by code_simp
  then obtain tokens where "?r = Inr tokens" "length tokens = 4" by (cases ?r) auto
  then show ?thesis using tokenize_spans [of "''len /* of it */ <= 0x1_f''" tokens] by blast
qed

end
