(* ===== verification/Unparse.thy ===== *)
theory Unparse
  imports Expr_Syntax Scalar_Types
begin

text \<open>
  The expression part of \<open>situc/unparse.py\<close>: \<open>expr_to_source\<close> with its parentheses, and the escapes of
  literals.  None stands for the \<open>KeyError\<close> of an operator the binding table does not have.
\<close>

section \<open>Literals\<close>

definition hex_upper :: "nat \<Rightarrow> char" where
  "hex_upper n = char_of (if n < 10 then 48 + n else 55 + n)"

definition escape_char :: "char \<Rightarrow> char \<Rightarrow> string" where
  "escape_char quote c =
     (if c = CHR 0x5C \<or> c = quote then [CHR 0x5C, c]
      else if c = CHR 0x0A then [CHR 0x5C, CHR ''n'']
      else if c = CHR 0x09 then [CHR 0x5C, CHR ''t'']
      else if c = CHR 0x0D then [CHR 0x5C, CHR ''r'']
      else if c = CHR 0x00 then [CHR 0x5C, CHR ''0'']
      else if 32 \<le> (of_char c :: nat) \<and> (of_char c :: nat) \<le> 126 then [c]
      else [CHR 0x5C, CHR ''x'', hex_upper (of_char c div 16), hex_upper (of_char c mod 16)])"

definition escape :: "char \<Rightarrow> string \<Rightarrow> string" where
  "escape quote text = concat (map (escape_char quote) text)"

text \<open>\<open>str\<close> of an integer.\<close>

fun str_nat :: "nat \<Rightarrow> string" where
  "str_nat n = (if n < 10 then [char_of (48 + n)] else str_nat (n div 10) @ [char_of (48 + n mod 10)])"

definition str_int :: "int \<Rightarrow> string" where
  "str_int v = (if v < 0 then CHR ''-'' # str_nat (nat (- v)) else str_nat (nat v))"

section \<open>Expressions\<close>

definition BINDING :: "(string \<times> nat) list" where
  "BINDING =
    [(''||'', 0), (''&&'', 1), (''|'', 2), (''^'', 3), (''&'', 4), (''=='', 5), (''!='', 5),
     (''<'', 6), (''>'', 6), (''<='', 6), (''>='', 6), (''<<'', 7), (''>>'', 7),
     (''+'', 8), (''-'', 8), (''*'', 9), (''/'', 9), (''%'', 9)]"

definition UNARY_BINDING :: nat where "UNARY_BINDING = 10"
definition ATOM_BINDING :: nat where "ATOM_BINDING = 99"

definition wrap_text :: "string \<Rightarrow> nat \<Rightarrow> nat \<Rightarrow> string" where
  "wrap_text rendered binding parent_binding =
     (if binding < parent_binding then ''('' @ rendered @ '')'' else rendered)"

fun join_args :: "string list \<Rightarrow> string" where
  "join_args [] = []"
| "join_args [a] = a"
| "join_args (a # as) = a @ '', '' @ join_args as"

fun expr_text :: "expr \<Rightarrow> nat \<Rightarrow> bool \<Rightarrow> bool \<Rightarrow> string option" where
  "expr_text (IntLiteral v t) parent explicit wrap = Some t"
| "expr_text (CharLiteral c code) parent explicit wrap =
     Some (if explicit then str_int code else [CHR 0x27] @ escape (CHR 0x27) c @ [CHR 0x27])"
| "expr_text (StringLiteral s) parent explicit wrap = Some ([CHR 0x22] @ escape (CHR 0x22) s @ [CHR 0x22])"
| "expr_text (NameRef name) parent explicit wrap = Some name"
| "expr_text Remaining parent explicit wrap = Some ''remaining''"
| "expr_text (Access b name) parent explicit wrap =
     (case expr_text b ATOM_BINDING explicit True of None \<Rightarrow> None | Some s \<Rightarrow> Some (s @ ''.'' @ name))"
| "expr_text (Index b index) parent explicit wrap =
     (case (case index of None \<Rightarrow> Some [] | Some i \<Rightarrow> expr_text i 0 explicit False) of
        None \<Rightarrow> None
      | Some inner \<Rightarrow>
          (case expr_text b ATOM_BINDING explicit True of None \<Rightarrow> None | Some s \<Rightarrow> Some (s @ ''['' @ inner @ '']'')))"
| "expr_text (Call name args) parent explicit wrap =
     (case those (map (\<lambda>arg. expr_text arg 0 explicit False) args) of
        None \<Rightarrow> None | Some ss \<Rightarrow> Some (name @ ''('' @ join_args ss @ '')''))"
| "expr_text (Unary op operand) parent explicit wrap =
     (case expr_text operand UNARY_BINDING explicit True of
        None \<Rightarrow> None
      | Some s \<Rightarrow>
          let rendered = op @ s in
          Some (if explicit then (if wrap then ''('' @ rendered @ '')'' else rendered)
                else wrap_text rendered UNARY_BINDING parent))"
| "expr_text (Binary op l r) parent explicit wrap =
     (case map_of BINDING op of
        None \<Rightarrow> None
      | Some binding \<Rightarrow>
          (case expr_text l binding explicit True of
             None \<Rightarrow> None
           | Some left \<Rightarrow>
               (case expr_text r (binding + 1) explicit True of
                  None \<Rightarrow> None
                | Some right \<Rightarrow>
                    let rendered = left @ '' '' @ op @ '' '' @ right in
                    Some (if explicit then (if wrap then ''('' @ rendered @ '')'' else rendered)
                          else wrap_text rendered binding parent))))"

definition expr_to_source :: "expr \<Rightarrow> bool \<Rightarrow> string option" where
  "expr_to_source e explicit = expr_text e 0 explicit False"

end
