(* ===== verification/Lex_Emit.thy ===== *)
theory Lex_Emit
  imports Lex_Facts Unparse
begin

text \<open>
  Text that splits into the tokens it was written from.  \<open>emits P x ts\<close>: before any text that satisfies
  \<open>P\<close>, scanning \<open>x\<close> gives \<open>ts\<close> and goes on behind it.
\<close>

section \<open>Tokens without their spans\<close>

function lex :: "string \<Rightarrow> lex_error + token list" where
  "lex s =
     (case skip_trivia s of
        Inl e \<Rightarrow> Inl e
      | Inr at \<Rightarrow>
          if at = [] then Inr [EOF_TOKEN]
          else (case scan_token at of
              Inl e \<Rightarrow> Inl e
            | Inr (t, rest) \<Rightarrow> (case lex rest of Inl e \<Rightarrow> Inl e | Inr ts \<Rightarrow> Inr (t # ts))))"
  by pat_completeness auto
termination
  by (relation "measure length") (auto dest!: scan_token_length skip_trivia_length)

declare lex.simps [simp del]

lemma tokenize_from_lex: "map_sum id (map fst) (tokenize_from n s) = lex s"
proof (induction n s rule: tokenize_from.induct)
  case (1 n s)
  show ?case
    by (subst tokenize_from.simps, subst lex.simps)
      (auto simp: "1.IH" [symmetric] split: sum.splits)
qed

lemma tokenize_lex: "map_sum id (map fst) (tokenize s) = lex s"
  by (simp add: tokenize_def tokenize_from_lex)

lemma tokenize_if_lex: "lex s = Inr ts \<Longrightarrow> \<exists>tokens. tokenize s = Inr tokens \<and> map fst tokens = ts"
  using tokenize_lex [of s] by (cases "tokenize s") auto

lemma lex_Nil [simp]: "lex [] = Inr [EOF_TOKEN]"
  by (simp add: lex.simps skip_trivia.simps)

lemma lex_space [simp]: "lex (CHR '' '' # s) = lex s"
  by (subst (1 2) lex.simps) (simp add: skip_trivia.simps [of "CHR '' '' # s"])

definition solid :: "string \<Rightarrow> bool" where
  "solid s = (s \<noteq> [] \<and> hd s \<notin> {CHR '' '', CHR 0x09, CHR 0x0D, CHR 0x0A} \<and> \<not> starts_with s ''//'' \<and> \<not> starts_with s ''/*'')"

lemma lex_token:
  assumes "solid s" "scan_token s = Inr (t, rest)"
  shows "lex s = (case lex rest of Inl e \<Rightarrow> Inl e | Inr ts \<Rightarrow> Inr (t # ts))"
proof -
  have "skip_trivia s = Inr s" using assms(1) by (subst skip_trivia.simps) (auto simp: solid_def)
  then show ?thesis using assms by (subst lex.simps) (simp add: solid_def)
qed

section \<open>Emission\<close>

definition emits :: "(string \<Rightarrow> bool) \<Rightarrow> string \<Rightarrow> token list \<Rightarrow> bool" where
  "emits P x ts = (\<forall>rest. P rest \<longrightarrow> lex (x @ rest) = (case lex rest of Inl e \<Rightarrow> Inl e | Inr us \<Rightarrow> Inr (ts @ us)))"

lemma emits_append:
  assumes "emits P x ts" "emits Q y us" "\<And>rest. Q rest \<Longrightarrow> P (y @ rest)"
  shows "emits Q (x @ y) (ts @ us)"
  using assms by (auto simp: emits_def split: sum.splits)

lemma emits_weaken: "emits P x ts \<Longrightarrow> (\<And>rest. Q rest \<Longrightarrow> P rest) \<Longrightarrow> emits Q x ts"
  by (simp add: emits_def)

lemma emits_Nil: "emits P [] []"
  by (auto simp: emits_def split: sum.split)

lemma emits_lex: "emits P x ts \<Longrightarrow> P [] \<Longrightarrow> lex x = Inr (ts @ [EOF_TOKEN])"
  by (auto simp: emits_def dest: spec [of _ "[]"])

lemma emits_token:
  assumes "\<And>rest. P rest \<Longrightarrow> solid (x @ rest) \<and> scan_token (x @ rest) = Inr (t, rest)"
  shows "emits P x [t]"
  using assms by (auto simp: emits_def lex_token split: sum.split)

abbreviation any :: "string \<Rightarrow> bool" where
  "any \<equiv> \<lambda>rest. True"

definition no_body :: "string \<Rightarrow> bool" where
  "no_body rest = (rest = [] \<or> hd rest \<notin> IDENT_BODY)"

abbreviation symbol_token :: "string \<Rightarrow> token" where
  "symbol_token s \<equiv> \<lparr>tok_kind = SYMBOL, tok_text = s, tok_value = 0\<rparr>"

abbreviation ident_token :: "string \<Rightarrow> token" where
  "ident_token s \<equiv> \<lparr>tok_kind = IDENT, tok_text = s, tok_value = 0\<rparr>"

section \<open>Symbols\<close>

lemma symbol_chars:
  assumes "c \<in> set ''<>=!&|:;,.@+-*/%^~()[]{}''"
  shows "c \<notin> IDENT_START" "c \<notin> Lexer_DIGITS" "c \<noteq> CHR 0x22" "c \<noteq> CHR 0x27"
    "c \<notin> {CHR '' '', CHR 0x09, CHR 0x0D, CHR 0x0A}"
  using assms by (auto simp: IDENT_START_def Lexer_DIGITS_def)

lemma emits_symbol:
  assumes "s \<noteq> []" "hd s \<in> set ''<>=!&|:;,.@+-*/%^~()[]{}''"
    and "\<And>rest. P rest \<Longrightarrow> find (starts_with (s @ rest)) SYMBOLS = Some s"
    and "\<And>rest. P rest \<Longrightarrow> \<not> starts_with (s @ rest) ''//'' \<and> \<not> starts_with (s @ rest) ''/*''"
  shows "emits P s [symbol_token s]"
proof (rule emits_token)
  fix rest assume "P rest"
  then show "solid (s @ rest) \<and> scan_token (s @ rest) = Inr (symbol_token s, rest)"
    using assms symbol_chars [OF assms(2)] by (auto simp: solid_def scan_token_def Let_def)
qed

lemma emits_always:
  assumes "s \<in> {''('', '')'', ''['', '']'', '','', ''.'', ''-'', ''~'', ''::''}"
  shows "emits any s [symbol_token s]"
  using assms
  by (elim insertE emptyE; simp only:)
    (rule emits_symbol; simp add: starts_with_def SYMBOLS_def)+

lemma emits_bang: "emits (\<lambda>rest. take 1 rest \<noteq> ''='') ''!'' [symbol_token ''!'']"
  by (rule emits_symbol) (auto simp: starts_with_def SYMBOLS_def)

text \<open>A binary operator, as it is written between two spaces.\<close>

lemma emitted_operator_cases:
  assumes "op \<in> fst ` set BINDING"
  shows "op \<in> {''||'', ''&&'', ''|'', ''^'', ''&'', ''=='', ''!='', ''<'', ''>'', ''<='', ''>='', ''<<'', ''>>'', ''+'', ''-'', ''*'', ''/'', ''%''}"
  using assms by (simp add: BINDING_def)

lemma operator_found:
  assumes "op \<in> fst ` set BINDING"
  shows "find (starts_with (op @ CHR '' '' # s)) SYMBOLS = Some op"
    and "\<not> starts_with (op @ CHR '' '' # s) ''//'' \<and> \<not> starts_with (op @ CHR '' '' # s) ''/*''"
    and "op \<noteq> []" and "hd op \<in> set ''<>=!&|:;,.@+-*/%^~()[]{}''"
  using emitted_operator_cases [OF assms]
  by (elim insertE emptyE; hypsubst; simp add: starts_with_def SYMBOLS_def)+

lemma emits_operator:
  assumes "op \<in> fst ` set BINDING"
  shows "emits any ('' '' @ op @ '' '') [symbol_token op]"
proof -
  have "emits (\<lambda>rest. take 1 rest = '' '') op [symbol_token op]"
  proof (rule emits_symbol)
    fix rest assume "take 1 rest = '' ''"
    then obtain s where "rest = CHR '' '' # s" by (cases rest) auto
    then show "find (starts_with (op @ rest)) SYMBOLS = Some op"
      "\<not> starts_with (op @ rest) ''//'' \<and> \<not> starts_with (op @ rest) ''/*''"
      using operator_found [OF assms] by blast+
  qed (rule operator_found [OF assms])+
  then show ?thesis by (auto simp: emits_def)
qed

section \<open>Names and numbers\<close>

definition is_name :: "string \<Rightarrow> bool" where
  "is_name s = (s \<noteq> [] \<and> hd s \<in> IDENT_START \<and> list_all (\<lambda>c. c \<in> IDENT_BODY) s)"

lemma takeWhile_then: "list_all P s \<Longrightarrow> rest = [] \<or> \<not> P (hd rest) \<Longrightarrow> takeWhile P (s @ rest) = s \<and> dropWhile P (s @ rest) = rest"
  by (induction s) (auto simp: takeWhile_eq_Nil_iff dropWhile_eq_self_iff)

lemma start_chars:
  assumes "c \<in> IDENT_START \<or> c \<in> Lexer_DIGITS"
  shows "c \<notin> {CHR '' '', CHR 0x09, CHR 0x0D, CHR 0x0A}" "c \<noteq> CHR ''/''" "c \<noteq> CHR ''=''"
  using assms by (auto simp: IDENT_START_def Lexer_DIGITS_def)

lemma digit_not_start: "c \<in> Lexer_DIGITS \<Longrightarrow> c \<notin> IDENT_START"
  by (auto simp: IDENT_START_def Lexer_DIGITS_def)

lemma starts_with_hd: "starts_with s (c # cs) \<Longrightarrow> s \<noteq> [] \<and> hd s = c"
  by (cases s) (auto simp: starts_with_def)

lemma solid_start: "s \<noteq> [] \<Longrightarrow> hd s \<in> IDENT_START \<or> hd s \<in> Lexer_DIGITS \<Longrightarrow> solid s"
  using start_chars [of "hd s"] by (auto simp: solid_def dest: starts_with_hd)

lemma emits_name: "is_name s \<Longrightarrow> emits no_body s [ident_token s]"
proof (rule emits_token)
  fix rest assume s: "is_name s" and r: "no_body rest"
  then have "hd (s @ rest) \<in> IDENT_START" "s @ rest \<noteq> []" by (auto simp: is_name_def)
  moreover have "scan_ident (s @ rest) = (ident_token s, rest)"
    using takeWhile_then [of "\<lambda>c. c \<in> IDENT_BODY" s rest] s r by (auto simp: scan_ident_def is_name_def no_body_def)
  ultimately show "solid (s @ rest) \<and> scan_token (s @ rest) = Inr (ident_token s, rest)"
    by (simp add: solid_start scan_token_def Let_def)
qed

text \<open>The texts that are one integer.\<close>

definition is_number :: "string \<Rightarrow> int \<Rightarrow> bool" where
  "is_number s v = (s \<noteq> [] \<and> hd s \<in> Lexer_DIGITS \<and> scan_int s = Inr (\<lparr>tok_kind = INTEGER, tok_text = s, tok_value = v\<rparr>, []))"

lemma scan_digits_more:
  assumes "scan_digits radix allowed start body = Inr (t, [])" "tok_text t = start" "no_body rest" "insert (CHR ''_'') allowed \<subseteq> IDENT_BODY"
  shows "scan_digits radix allowed (start @ rest) (body @ rest) = Inr (t, rest)"
proof -
  let ?P = "\<lambda>c. c \<in> allowed \<or> c = CHR ''_''"
  have d: "dropWhile ?P body = []" using assms(1) by (auto simp: scan_digits_def Let_def split: if_splits option.splits)
  then have all: "list_all ?P body" by (simp add: list_all_iff)
  then have t: "takeWhile ?P body = body" by (simp add: list_all_iff)
  have "rest = [] \<or> \<not> ?P (hd rest)" using assms(3,4) by (auto simp: no_body_def)
  then have e: "takeWhile ?P (body @ rest) = body" "dropWhile ?P (body @ rest) = rest"
    using takeWhile_then [OF all] by blast+
  show ?thesis
    using assms(1,2,3) unfolding scan_digits_def e d t Let_def
    by (auto simp: no_body_def split: if_splits option.splits)
qed

lemma digit_sets: "insert (CHR ''_'') Lexer_DIGITS \<subseteq> IDENT_BODY"
  "map_of RADIX_DIGITS marker = Some allowed \<Longrightarrow> insert (CHR ''_'') allowed \<subseteq> IDENT_BODY"
  by (auto simp: Lexer_DIGITS_def IDENT_BODY_def IDENT_START_def RADIX_DIGITS_def split: if_splits)

lemma emits_number:
  assumes "is_number s v"
  shows "emits no_body s [\<lparr>tok_kind = INTEGER, tok_text = s, tok_value = v\<rparr>]"
proof (rule emits_token)
  fix rest assume r: "no_body rest"
  let ?t = "\<lparr>tok_kind = INTEGER, tok_text = s, tok_value = v\<rparr>"
  note s = assms [unfolded is_number_def]
  have whole: "tok_text ?t = s" by simp
  have "scan_int (s @ rest) = Inr (?t, rest)"
  proof (cases s rule: remdups_adj.cases)
    case (2 c)
    have "map_of RADIX_DIGITS m = None" if "no_body (m # b)" for m b
      using that by (auto simp: no_body_def RADIX_DIGITS_def IDENT_BODY_def IDENT_START_def)
    then show ?thesis
      using s 2 scan_digits_more [OF _ whole r digit_sets(1), of 10 s] r
      by (cases rest) (auto simp: scan_int_def)
  next
    case (3 zero marker body)
    show ?thesis
    proof (cases "if zero = CHR ''0'' then map_of RADIX_DIGITS marker else None")
      case None
      then show ?thesis using s 3 scan_digits_more [OF _ whole r digit_sets(1), of 10 s] by (simp add: scan_int_def)
    next
      case (Some allowed)
      then have "map_of RADIX_DIGITS marker = Some allowed" by (simp split: if_splits)
      then show ?thesis
        using s 3 Some scan_digits_more [OF _ whole r digit_sets(2), of _ allowed body marker]
        by (auto simp: scan_int_def split: if_splits)
    qed
  qed (use s in simp)
  then show "solid (s @ rest) \<and> scan_token (s @ rest) = Inr (?t, rest)"
    using s solid_start [of "s @ rest"] digit_not_start [of "hd s"] by (simp add: scan_token_def Let_def)
qed

section \<open>Digits\<close>

lemma of_hex_upper: "n < 16 \<Longrightarrow> (of_char (hex_upper n) :: nat) = (if n < 10 then 48 + n else 55 + n)"
  by (simp add: hex_upper_def)

lemma of_char_int: "(of_char c :: int) = int (of_char c)"
  by (metis of_nat_of_char)

lemma digit_val_char:
  assumes "(of_char c :: nat) = (if n < 10 then 48 + n else 55 + n)" "n < 16"
  shows "digit_val (byte_of (of_char c)) = Some (int n)"
proof -
  have "uint (byte_of (of_char c)) = (if n < 10 then 48 + int n else 55 + int n)"
    unfolding of_char_int assms(1) using assms(2) by simp
  then show ?thesis using assms(2) by (simp add: digit_val_def Let_def)
qed

lemma hex_escape_read:
  "scan_hex_escape (hex_upper (of_char c div 16) # hex_upper (of_char c mod 16) # s) = Inr (c, s)"
proof -
  let ?n = "of_char c :: nat"
  let ?h = "hex_upper (?n div 16)" and ?l = "hex_upper (?n mod 16)"
  have n: "?n div 16 < 16" "?n mod 16 < 16" by (simp_all add: div_less_iff_less_mult)
  have hex: "hex_upper k \<in> HEX_DIGITS" if "k < 16" for k
  proof -
    have "list_all (\<lambda>k. hex_upper k \<in> HEX_DIGITS) [0..<16]" by code_simp
    then show ?thesis using that by (simp add: list_all_iff)
  qed
  note d = digit_val_char [OF of_hex_upper [OF n(1)] n(1)] digit_val_char [OF of_hex_upper [OF n(2)] n(2)]
  have "py_int [byte_of (of_char ?h), byte_of (of_char ?l)] 16 = Some (int (?n div 16) * 16 + int (?n mod 16))"
    using n d by (subst py_int_digits) (auto simp: is_digit_def too_long_def text_value_def)
  also have "int (?n div 16) * 16 + int (?n mod 16) = int ?n" by (metis div_mult_mod_eq of_nat_add of_nat_mult of_nat_numeral)
  finally show ?thesis using hex n by (simp add: scan_hex_escape_def)
qed

declare str_nat.simps [simp del]

lemma str_nat_digits: "s = str_nat n \<Longrightarrow> s \<noteq> [] \<and> set s \<subseteq> Lexer_DIGITS"
proof (induction n arbitrary: s rule: str_nat.induct)
  case (1 n)
  have "char_of (48 + k :: nat) \<in> Lexer_DIGITS" if "k < 10" for k
  proof -
    have "list_all (\<lambda>k. char_of (48 + k :: nat) \<in> Lexer_DIGITS) [0..<10]" by code_simp
    then show ?thesis using that by (simp add: list_all_iff)
  qed
  then show ?case using 1 by (auto simp: str_nat.simps [of n])
qed

abbreviation char_byte :: "char \<Rightarrow> byte" where
  "char_byte c \<equiv> byte_of (of_char c)"

lemma str_nat_value: "text_value 10 0 (map char_byte (str_nat n)) = int n \<and> (\<forall>b \<in> set (map char_byte (str_nat n)). is_digit 10 b)"
proof (induction n rule: str_nat.induct)
  case (1 n)
  have d: "digit_val (char_byte (char_of (48 + k :: nat))) = Some (int k)" if "k < 10" for k
    using that by (intro digit_val_char) simp_all
  show ?case
  proof (cases "n < 10")
    case True
    then show ?thesis using d [of n] by (simp add: str_nat.simps [of n] text_value_def is_digit_def)
  next
    case False
    have "int (n div 10) * 10 + int (n mod 10) = int n" by (metis div_mult_mod_eq of_nat_add of_nat_mult of_nat_numeral)
    then show ?thesis using False "1.IH" d [of "n mod 10"]
      by (simp add: str_nat.simps [of n] text_value_def is_digit_def)
  qed
qed

lemma is_number_str_nat:
  assumes "length (str_nat n) \<le> 4300"
  shows "is_number (str_nat n) (int n)"
proof -
  let ?s = "str_nat n"
  have s: "?s \<noteq> []" "set ?s \<subseteq> Lexer_DIGITS" using str_nat_digits by blast+
  have u: "CHR ''_'' \<notin> Lexer_DIGITS" by (simp add: Lexer_DIGITS_def)
  have "py_int (map char_byte ?s) 10 = Some (int n)"
    using str_nat_value [of n] s(1) assms py_int_digits [of 10 "map char_byte ?s"]
    by (simp add: too_long_def)
  moreover have "takeWhile (\<lambda>c. c \<in> Lexer_DIGITS \<or> c = CHR ''_'') ?s = ?s" "dropWhile (\<lambda>c. c \<in> Lexer_DIGITS \<or> c = CHR ''_'') ?s = []"
      "filter (\<lambda>c. c \<noteq> CHR ''_'') ?s = ?s"
    using s(2) u by (auto simp: filter_id_conv)
  ultimately have digits: "scan_digits 10 Lexer_DIGITS ?s ?s = Inr (\<lparr>tok_kind = INTEGER, tok_text = ?s, tok_value = int n\<rparr>, [])"
    using s(1) unfolding scan_digits_def Let_def by (simp only: list.size) simp
  have "map_of RADIX_DIGITS c = None" if "c \<in> Lexer_DIGITS" for c
    using that by (auto simp: RADIX_DIGITS_def Lexer_DIGITS_def)
  then have "scan_int ?s = scan_digits 10 Lexer_DIGITS ?s ?s"
    using s(2) by (auto simp: scan_int_def split: list.split)
  moreover have "hd ?s \<in> Lexer_DIGITS" using s by (metis hd_in_set subsetD)
  ultimately show ?thesis using digits s(1) by (simp add: is_number_def)
qed

section \<open>Quoted literals\<close>

lemma escape_char_read:
  assumes "quote \<in> {CHR 0x22, CHR 0x27}"
  shows "quoted_loop quote unclosed chunks (escape_char quote c @ s) = quoted_loop quote unclosed (chunks @ [c]) s"
proof -
  have x: "quote \<noteq> CHR 0x5C" "quote \<noteq> CHR 0x0A" "quote \<noteq> CHR ''x''" "quote \<noteq> CHR ''n''" "quote \<noteq> CHR ''t''"
    "quote \<noteq> CHR ''r''" "quote \<noteq> CHR ''0''" using assms by auto
  show ?thesis
    using x hex_escape_read [of c s] by (auto simp: escape_char_def scan_escape_def)
qed

lemma escape_read:
  assumes "quote \<in> {CHR 0x22, CHR 0x27}"
  shows "quoted_loop quote unclosed chunks (escape quote v @ quote # rest) = Inr (chunks @ v, rest)"
proof (induction v arbitrary: chunks)
  case (Cons c v)
  then show ?case using escape_char_read [OF assms, of unclosed chunks c "escape quote v @ quote # rest"]
    by (simp add: escape_def)
qed (simp add: escape_def)

lemma solid_quote: "quote \<in> {CHR 0x22, CHR 0x27} \<Longrightarrow> solid (quote # s)"
  by (auto simp: solid_def starts_with_def)

lemma emits_string:
  "emits any ([CHR 0x22] @ escape (CHR 0x22) v @ [CHR 0x22]) [\<lparr>tok_kind = STRING, tok_text = v, tok_value = 0\<rparr>]"
proof (rule emits_token)
  have q: "CHR 0x22 \<notin> IDENT_START" "CHR 0x22 \<notin> Lexer_DIGITS" by (simp_all add: IDENT_START_def Lexer_DIGITS_def)
  show "solid (([CHR 0x22] @ escape (CHR 0x22) v @ [CHR 0x22]) @ rest) \<and> scan_token (([CHR 0x22] @ escape (CHR 0x22) v @ [CHR 0x22]) @ rest)
      = Inr (\<lparr>tok_kind = STRING, tok_text = v, tok_value = 0\<rparr>, rest)" for rest
    using q escape_read [of "CHR 0x22"] solid_quote [of "CHR 0x22"] by (simp add: scan_token_def scan_string_def)
qed

lemma emits_char:
  assumes "length v = 1"
  shows "emits any ([CHR 0x27] @ escape (CHR 0x27) v @ [CHR 0x27]) [\<lparr>tok_kind = CHARACTER, tok_text = v, tok_value = 0\<rparr>]"
proof (rule emits_token)
  have q: "CHR 0x27 \<notin> IDENT_START" "CHR 0x27 \<notin> Lexer_DIGITS" by (simp_all add: IDENT_START_def Lexer_DIGITS_def)
  show "solid (([CHR 0x27] @ escape (CHR 0x27) v @ [CHR 0x27]) @ rest) \<and> scan_token (([CHR 0x27] @ escape (CHR 0x27) v @ [CHR 0x27]) @ rest)
      = Inr (\<lparr>tok_kind = CHARACTER, tok_text = v, tok_value = 0\<rparr>, rest)" for rest
    using q assms escape_read [of "CHR 0x27"] solid_quote [of "CHR 0x27"] by (simp add: scan_token_def scan_char_def)
qed

text \<open>
  A string of any characters survives printing and scanning: the literal the unparser writes for
  it is one token, that token holds the string, and what follows the literal is left as it was.
\<close>

theorem string_literal_read_back:
  "scan_token ([CHR 0x22] @ escape (CHR 0x22) v @ [CHR 0x22] @ rest) = Inr (\<lparr>tok_kind = STRING, tok_text = v, tok_value = 0\<rparr>, rest)
   \<and> list_all (\<lambda>c. 32 \<le> (of_char c :: nat) \<and> (of_char c :: nat) < 127) (escape (CHR 0x22) v)"
proof
  have q: "CHR 0x22 \<notin> IDENT_START" "CHR 0x22 \<notin> Lexer_DIGITS" by (simp_all add: IDENT_START_def Lexer_DIGITS_def)
  show "scan_token ([CHR 0x22] @ escape (CHR 0x22) v @ [CHR 0x22] @ rest) = Inr (\<lparr>tok_kind = STRING, tok_text = v, tok_value = 0\<rparr>, rest)"
    using q escape_read [of "CHR 0x22"] by (simp add: scan_token_def scan_string_def)
  have h: "32 \<le> (of_char (hex_upper k) :: nat) \<and> (of_char (hex_upper k) :: nat) < 127" if "k < 16" for k
    using of_hex_upper [OF that] that by simp
  have "list_all (\<lambda>c. 32 \<le> (of_char c :: nat) \<and> (of_char c :: nat) < 127) (escape_char (CHR 0x22) c)" for c
    using h [of "of_char c div 16"] h [of "of_char c mod 16"]
    by (auto simp: escape_char_def div_less_iff_less_mult)
  then show "list_all (\<lambda>c. 32 \<le> (of_char c :: nat) \<and> (of_char c :: nat) < 127) (escape (CHR 0x22) v)"
    by (induction v) (simp_all add: escape_def)
qed

end
