(* ===== verification/Expr_Parser.thy ===== *)
theory Expr_Parser
  imports Lexer Expr_Syntax
begin

text \<open>
  The expression part of \<open>situc/parser.py\<close>, over the tokens of \<open>Lexer\<close>.  The parser only looks
  ahead, so its state is the list of tokens from \<open>self.pos\<close> on; the end of the list reads as the end
  of the file, which no operation passes.  Spans are left out, as they are from \<open>expr\<close>.  The mutually
  recursive descent takes fuel; \<open>parse_expression\<close> gives it what it needs.  \<open>code\<close> is what a character token is
  worth under the encodings seen so far, the only part of the parser's state that an expression reads.
\<close>

section \<open>Refusals\<close>

datatype parse_error =
    ExpectedSymbol string | ExpectedIdent | NestedQualified | ExpectedExpression
  | NotOneValue encoding_error | ParseOverflow | OutOfFuel

type_synonym 'a parsed = "parse_error + 'a \<times> token list"

section \<open>Tables\<close>

definition PRECEDENCE :: "string list list" where
  "PRECEDENCE =
    [[''||''], [''&&''], [''|''], [''^''], [''&''], [''=='', ''!=''], [''<'', ''>'', ''<='', ''>=''],
     [''<<'', ''>>''], [''+'', ''-''], [''*'', ''/'', ''%'']]"

definition Expr_Parser_UNARY_OPS :: "string list" where
  "Expr_Parser_UNARY_OPS = [''-'', ''~'', ''!'']"

definition ATTRIBUTE_NAMES :: "string list" where
  "ATTRIBUTE_NAMES =
    [''allow_straddle'', ''require_aligned'', ''encoding'', ''nul_terminated'', ''endian'', ''bit_order'', ''size'',
     ''holds'', ''depth'', ''limit'', ''bits'', ''quoted'', ''escape'', ''minimal'', ''trim'', ''case_insensitive'',
     ''since'', ''version'', ''stream'', ''non_canonical'', ''allow_host_dependent'', ''align'',
     ''must_be_zero'', ''must_be_one'', ''preserve'', ''unknown'', ''must_eq'', ''max'', ''min'', ''equalize'',
     ''timeout_ms'', ''retries'', ''secret'', ''nonce'', ''covers'', ''allow_unverified_read'', ''trusted'',
     ''self_as'', ''tag_order'', ''truncated'',
     ''rw'', ''ro'', ''wo'', ''w1c'', ''w0c'', ''w1s'', ''w0s'', ''rc'', ''rs'', ''wo_once'', ''rsvd'',
     ''on_read'', ''on_write'', ''volatile'', ''no_rmw'']"

definition VALUE_ATTRIBUTES :: "string list" where
  "VALUE_ATTRIBUTES =
    [''size'', ''version'', ''since'', ''max'', ''min'', ''limit'', ''depth'', ''bits'', ''align'',
     ''retries'', ''timeout_ms'', ''must_eq'', ''encoding'', ''endian'', ''bit_order'',
     ''self_as'', ''tag_order'', ''on_read'', ''on_write'', ''holds'']"

definition BARE_ATTRIBUTE_NAMES :: "string set" where
  "BARE_ATTRIBUTE_NAMES = set (filter (\<lambda>name. name \<notin> set VALUE_ATTRIBUTES) ATTRIBUTE_NAMES)"

section \<open>Token access\<close>

definition current :: "token list \<Rightarrow> token" where
  "current ts = (case ts of [] \<Rightarrow> EOF_TOKEN | t # rest \<Rightarrow> t)"

definition advance_token :: "token list \<Rightarrow> token list" where
  "advance_token ts = (if tok_kind (current ts) = EOF then ts else tl ts)"

definition accept_symbol :: "token list \<Rightarrow> string set \<Rightarrow> (token \<times> token list) option" where
  "accept_symbol ts symbols =
     (if is_symbol (current ts) symbols then Some (current ts, advance_token ts) else None)"

definition expect_symbol :: "token list \<Rightarrow> string \<Rightarrow> token parsed" where
  "expect_symbol ts symbol =
     (case accept_symbol ts {symbol} of None \<Rightarrow> Inl (ExpectedSymbol symbol) | Some (t, rest) \<Rightarrow> Inr (t, rest))"

definition expect_ident :: "token list \<Rightarrow> token parsed" where
  "expect_ident ts =
     (if tok_kind (current ts) \<noteq> IDENT then Inl ExpectedIdent else Inr (current ts, advance_token ts))"

definition parse_qualification :: "token \<Rightarrow> token list \<Rightarrow> string parsed" where
  "parse_qualification head ts =
     bindE (expect_symbol ts ''::'') (\<lambda>(colons, ts).
     bindE (expect_ident ts) (\<lambda>(tail, ts).
       if is_symbol (current ts) {''::''} then Inl NestedQualified
       else Inr (tok_text head @ ''::'' @ tok_text tail, ts)))"

section \<open>Attributes or an array\<close>

text \<open>
  The loop of \<open>bracket_is_attrs\<close>: None where it sees \<open>=\<close> or \<open>,\<close>, otherwise the tokens between the
  outer brackets.
\<close>

fun bracket_loop :: "nat \<Rightarrow> token list \<Rightarrow> token list \<Rightarrow> token list option" where
  "bracket_loop depth inner [] = Some inner"
| "bracket_loop depth inner (t # ts) =
     (if is_symbol t {''['', ''(''} then bracket_loop (Suc depth) inner ts
      else if is_symbol t {'']'', '')''} then
        (if depth - 1 = 0 then Some inner else bracket_loop (depth - 1) inner ts)
      else if depth = 1 then
        (if is_symbol t {''='', '',''} then None else bracket_loop depth (inner @ [t]) ts)
      else bracket_loop depth inner ts)"

definition bracket_is_attrs :: "token list \<Rightarrow> bool" where
  "bracket_is_attrs ts =
     (if \<not> is_symbol (current ts) {''[''} then False
      else case bracket_loop 0 [] ts of
          None \<Rightarrow> True
        | Some inner \<Rightarrow>
            if length inner \<noteq> 1 \<or> \<not> is_ident (hd inner) BARE_ATTRIBUTE_NAMES then False
            else \<not> (1 + length inner < length ts \<and> is_symbol (ts ! (1 + length inner)) {''(''}))"

section \<open>Characters\<close>

text \<open>\<open>_character_bytes\<close> under the encodings seen so far; Python's codecs are \<open>encode\<close>.\<close>

definition character_bytes :: "encoder \<Rightarrow> string list \<Rightarrow> token \<Rightarrow> parse_error + bytes" where
  "character_bytes encode encodings t =
     (case character_value encode (of_char (hd (tok_text t))) encodings of
        Inl why \<Rightarrow> Inl (NotOneValue why)
      | Inr v \<Rightarrow>
          (case to_bytes (hd encodings \<noteq> ''utf16le'') False (if take 5 (hd encodings) = ''utf16'' then 2 else 1) v of
             Inl e \<Rightarrow> Inl ParseOverflow | Inr bs \<Rightarrow> Inr bs))"

definition character_code :: "encoder \<Rightarrow> string list \<Rightarrow> token \<Rightarrow> parse_error + int" where
  "character_code encode encodings t =
     bindE (character_bytes encode encodings t) (\<lambda>bs. Inr (from_bytes True False bs))"

section \<open>The descent\<close>

function (sequential) parse_expr :: "nat \<Rightarrow> (token \<Rightarrow> parse_error + int) \<Rightarrow> nat \<Rightarrow> token list \<Rightarrow> expr parsed"
  and binary_loop :: "nat \<Rightarrow> (token \<Rightarrow> parse_error + int) \<Rightarrow> nat \<Rightarrow> expr \<Rightarrow> token list \<Rightarrow> expr parsed"
  and parse_unary :: "nat \<Rightarrow> (token \<Rightarrow> parse_error + int) \<Rightarrow> token list \<Rightarrow> expr parsed"
  and parse_postfix :: "nat \<Rightarrow> (token \<Rightarrow> parse_error + int) \<Rightarrow> token list \<Rightarrow> expr parsed"
  and postfix_loop :: "nat \<Rightarrow> (token \<Rightarrow> parse_error + int) \<Rightarrow> expr \<Rightarrow> token list \<Rightarrow> expr parsed"
  and parse_index :: "nat \<Rightarrow> (token \<Rightarrow> parse_error + int) \<Rightarrow> expr \<Rightarrow> token list \<Rightarrow> expr parsed"
  and parse_primary :: "nat \<Rightarrow> (token \<Rightarrow> parse_error + int) \<Rightarrow> token list \<Rightarrow> expr parsed"
  and parse_call :: "nat \<Rightarrow> (token \<Rightarrow> parse_error + int) \<Rightarrow> token \<Rightarrow> token list \<Rightarrow> expr parsed"
  and call_loop :: "nat \<Rightarrow> (token \<Rightarrow> parse_error + int) \<Rightarrow> expr list \<Rightarrow> token list \<Rightarrow> expr list parsed" where
  "parse_expr 0 code level ts = Inl OutOfFuel"
| "parse_expr (Suc fuel) code level ts =
     (if length PRECEDENCE \<le> level then parse_unary fuel code ts
      else bindE (parse_expr fuel code (level + 1) ts) (\<lambda>(left, ts).
        binary_loop fuel code level left ts))"
| "binary_loop 0 code level left ts = Inl OutOfFuel"
| "binary_loop (Suc fuel) code level left ts =
     (if is_symbol (current ts) (set (PRECEDENCE ! level)) then
        bindE (parse_expr fuel code (level + 1) (advance_token ts)) (\<lambda>(right, rest).
          binary_loop fuel code level (Binary (tok_text (current ts)) left right) rest)
      else Inr (left, ts))"
| "parse_unary 0 code ts = Inl OutOfFuel"
| "parse_unary (Suc fuel) code ts =
     (case accept_symbol ts (set Expr_Parser_UNARY_OPS) of
        None \<Rightarrow> parse_postfix fuel code ts
      | Some (op, ts) \<Rightarrow>
          bindE (parse_unary fuel code ts) (\<lambda>(operand, ts). Inr (Unary (tok_text op) operand, ts)))"
| "parse_postfix 0 code ts = Inl OutOfFuel"
| "parse_postfix (Suc fuel) code ts =
     bindE (parse_primary fuel code ts) (\<lambda>(e, ts). postfix_loop fuel code e ts)"
| "postfix_loop 0 code e ts = Inl OutOfFuel"
| "postfix_loop (Suc fuel) code e ts =
     (case accept_symbol ts {''.''} of
        Some (dot, ts) \<Rightarrow>
          bindE (expect_ident ts) (\<lambda>(name, ts). postfix_loop fuel code (Access e (tok_text name)) ts)
      | None \<Rightarrow>
          if is_symbol (current ts) {''[''} \<and> \<not> bracket_is_attrs ts then
            bindE (parse_index fuel code e ts) (\<lambda>(e, ts). postfix_loop fuel code e ts)
          else Inr (e, ts))"
| "parse_index 0 code b ts = Inl OutOfFuel"
| "parse_index (Suc fuel) code b ts =
     (let ts = advance_token ts in
      bindE (if is_symbol (current ts) {'']''} then Inr (None, ts)
             else bindE (parse_expr fuel code 0 ts) (\<lambda>(index, ts). Inr (Some index, ts))) (\<lambda>(index, ts).
      bindE (expect_symbol ts '']'') (\<lambda>(close, ts). Inr (Index b index, ts))))"
| "parse_primary 0 code ts = Inl OutOfFuel"
| "parse_primary (Suc fuel) code ts =
     (let token = current ts in
      if tok_kind token = INTEGER then Inr (IntLiteral (tok_value token) (tok_text token), advance_token ts)
      else if tok_kind token = STRING then Inr (StringLiteral (tok_text token), advance_token ts)
      else if tok_kind token = CHARACTER then
        bindE (code token) (\<lambda>value.
          Inr (CharLiteral (tok_text token) value, advance_token ts))
      else case accept_symbol ts {''(''} of
        Some (paren, ts) \<Rightarrow>
          bindE (parse_expr fuel code 0 ts) (\<lambda>(inner, ts).
          bindE (expect_symbol ts '')'') (\<lambda>(close, ts). Inr (inner, ts)))
      | None \<Rightarrow>
          if tok_kind token = IDENT then
            (let ts = advance_token ts in
             if tok_text token = ''remaining'' then Inr (Remaining, ts)
             else if is_symbol (current ts) {''(''} then parse_call fuel code token ts
             else if is_symbol (current ts) {''::''} then
               bindE (parse_qualification token ts) (\<lambda>(qualified, ts). Inr (NameRef qualified, ts))
             else Inr (NameRef (tok_text token), ts))
          else Inl ExpectedExpression)"
| "parse_call 0 code name ts = Inl OutOfFuel"
| "parse_call (Suc fuel) code name ts =
     bindE (expect_symbol ts ''('') (\<lambda>(paren, ts).
     bindE (call_loop fuel code [] ts) (\<lambda>(args, ts).
     bindE (expect_symbol ts '')'') (\<lambda>(close, ts). Inr (Call (tok_text name) args, ts))))"
| "call_loop 0 code args ts = Inl OutOfFuel"
| "call_loop (Suc fuel) code args ts =
     (if is_symbol (current ts) {'')''} then Inr (args, ts)
      else bindE (parse_expr fuel code 0 ts) (\<lambda>(arg, ts).
        case accept_symbol ts {'',''} of
          None \<Rightarrow> Inr (args @ [arg], ts)
        | Some (comma, ts) \<Rightarrow> call_loop fuel code (args @ [arg]) ts))"
  by pat_completeness auto
termination
  by (relation "measure (case_sum (case_sum (case_sum fst fst) (case_sum fst fst))
      (case_sum (case_sum fst fst) (case_sum fst (case_sum fst fst))))") simp_all

definition parse_expression :: "encoder \<Rightarrow> string list \<Rightarrow> token list \<Rightarrow> expr parsed" where
  "parse_expression encode encs ts = parse_expr (20 * length ts + 15) (character_code encode encs) 0 ts"

section \<open>The fuel is enough\<close>

lemma current_symbol:
  assumes "is_symbol (current ts) S"
  obtains t rest where "ts = t # rest" "is_symbol t S" "current ts = t" "advance_token ts = rest"
  using assms by (cases ts) (auto simp: current_def advance_token_def is_symbol_def EOF_TOKEN_def)

lemma advance_length: "tok_kind (current ts) \<noteq> EOF \<Longrightarrow> length ts = Suc (length (advance_token ts))"
  by (cases ts) (auto simp: current_def advance_token_def EOF_TOKEN_def)

lemma symbol_length: "is_symbol (current ts) S \<Longrightarrow> length ts = Suc (length (advance_token ts))"
  by (intro advance_length) (auto simp: is_symbol_def)

lemma accept_length: "accept_symbol ts S = Some (t, rest) \<Longrightarrow> length ts = Suc (length rest)"
  by (auto simp: accept_symbol_def symbol_length split: if_splits)

text \<open>A result that is not for want of fuel, and that has consumed down to fewer than \<open>m\<close> tokens.\<close>

definition good :: "nat \<Rightarrow> 'a parsed \<Rightarrow> bool" where
  "good m r = (case r of Inl e \<Rightarrow> e \<noteq> OutOfFuel | Inr (x, rest) \<Rightarrow> length rest < m)"

lemma good_simps [simp]:
  "good m (Inr (x, rest)) \<longleftrightarrow> length rest < m"
  "good m (Inl e) \<longleftrightarrow> e \<noteq> OutOfFuel"
  by (simp_all add: good_def)

lemma good_bind:
  assumes "good m r" "\<And>x rest. length rest < m \<Longrightarrow> good k (f (x, rest))"
  shows "good k (bindE r f)"
proof (cases r)
  case (Inr p)
  then show ?thesis using assms by (cases p) simp
qed (use assms in simp)

lemma good_mono: "good m r \<Longrightarrow> m \<le> k \<Longrightarrow> good k r"
  by (auto simp: good_def split: sum.splits)

lemma good_expect_symbol: "good (length ts) (expect_symbol ts symbol)"
  by (auto simp: expect_symbol_def dest: accept_length split: option.splits)

lemma good_expect_ident: "good (length ts) (expect_ident ts)"
  using advance_length [of ts] by (auto simp: expect_ident_def)

lemma good_qualification: "good (length ts) (parse_qualification name ts)"
  unfolding parse_qualification_def
  by (rule good_bind [OF good_expect_symbol], simp, rule good_bind [OF good_expect_ident]) auto

definition enough :: "nat \<Rightarrow> (token \<Rightarrow> parse_error + int) \<Rightarrow> bool" where
  "enough n code =
     ((\<forall>L ts. L \<le> 10 \<longrightarrow> 20 * length ts + 15 \<le> n + L \<longrightarrow> good (length ts) (parse_expr n code L ts))
    \<and> (\<forall>L l ts. L < 10 \<longrightarrow> 20 * length ts + 10 \<le> n \<longrightarrow> good (Suc (length ts)) (binary_loop n code L l ts))
    \<and> (\<forall>ts. 20 * length ts + 4 \<le> n \<longrightarrow> good (length ts) (parse_unary n code ts))
    \<and> (\<forall>ts. 20 * length ts + 3 \<le> n \<longrightarrow> good (length ts) (parse_postfix n code ts))
    \<and> (\<forall>e ts. 20 * length ts + 10 \<le> n \<longrightarrow> good (Suc (length ts)) (postfix_loop n code e ts))
    \<and> (\<forall>b ts. is_symbol (current ts) {''[''} \<longrightarrow> 20 * length ts + 5 \<le> n \<longrightarrow> good (length ts) (parse_index n code b ts))
    \<and> (\<forall>ts. 20 * length ts + 2 \<le> n \<longrightarrow> good (length ts) (parse_primary n code ts))
    \<and> (\<forall>name ts. 20 * length ts + 15 \<le> n \<longrightarrow> good (length ts) (parse_call n code name ts))
    \<and> (\<forall>args ts. 20 * length ts + 16 \<le> n \<longrightarrow> good (Suc (length ts)) (call_loop n code args ts)))"

lemma enoughD:
  assumes "enough n code"
  shows "L \<le> 10 \<Longrightarrow> 20 * length ts + 15 \<le> n + L \<Longrightarrow> good (length ts) (parse_expr n code L ts)"
    and "L < 10 \<Longrightarrow> 20 * length ts + 10 \<le> n \<Longrightarrow> good (Suc (length ts)) (binary_loop n code L l ts)"
    and "20 * length ts + 4 \<le> n \<Longrightarrow> good (length ts) (parse_unary n code ts)"
    and "20 * length ts + 3 \<le> n \<Longrightarrow> good (length ts) (parse_postfix n code ts)"
    and "20 * length ts + 10 \<le> n \<Longrightarrow> good (Suc (length ts)) (postfix_loop n code e ts)"
    and "is_symbol (current ts) {''[''} \<Longrightarrow> 20 * length ts + 5 \<le> n \<Longrightarrow> good (length ts) (parse_index n code b ts)"
    and "20 * length ts + 2 \<le> n \<Longrightarrow> good (length ts) (parse_primary n code ts)"
    and "20 * length ts + 15 \<le> n \<Longrightarrow> good (length ts) (parse_call n code name ts)"
    and "20 * length ts + 16 \<le> n \<Longrightarrow> good (Suc (length ts)) (call_loop n code args ts)"
  using assms by (simp_all add: enough_def)

lemma PRECEDENCE_length [simp]: "length PRECEDENCE = 10"
  by (simp add: PRECEDENCE_def)

lemma enough_expr:
  assumes "enough n code" "L \<le> 10" "20 * length ts + 15 \<le> Suc n + L"
  shows "good (length ts) (parse_expr (Suc n) code L ts)"
proof (cases "10 \<le> L")
  case True
  then show ?thesis using assms enoughD(3) [OF assms(1)] by simp
next
  case False
  have "good (length ts) (parse_expr n code (L + 1) ts)"
    using False assms(2,3) by (intro enoughD(1) [OF assms(1)]) simp_all
  then have "good (length ts) (bindE (parse_expr n code (L + 1) ts) (\<lambda>(left, ts). binary_loop n code L left ts))"
  proof (rule good_bind)
    fix x and rest :: "token list" assume r: "length rest < length ts"
    have "good (Suc (length rest)) (binary_loop n code L x rest)"
      using False assms(2,3) r by (intro enoughD(2) [OF assms(1)]) simp_all
    then show "good (length ts) (case (x, rest) of (left, ts) \<Rightarrow> binary_loop n code L left ts)"
      using r by (auto elim: good_mono)
  qed
  then show ?thesis using False by simp
qed

lemma enough_binary_loop:
  assumes "enough n code" "L < 10" "20 * length ts + 10 \<le> Suc n"
  shows "good (Suc (length ts)) (binary_loop (Suc n) code L l ts)"
proof (cases "is_symbol (current ts) (set (PRECEDENCE ! L))")
  case True
  note len = symbol_length [OF True]
  have "good (length (advance_token ts)) (parse_expr n code (L + 1) (advance_token ts))"
    using assms(2,3) len by (intro enoughD(1) [OF assms(1)]) simp_all
  then have "good (Suc (length ts)) (bindE (parse_expr n code (L + 1) (advance_token ts)) (\<lambda>(right, rest).
      binary_loop n code L (Binary (tok_text (current ts)) l right) rest))"
  proof (rule good_bind)
    fix x and rest :: "token list" assume r: "length rest < length (advance_token ts)"
    have "good (Suc (length rest)) (binary_loop n code L (Binary (tok_text (current ts)) l x) rest)"
      using assms(2,3) r len by (intro enoughD(2) [OF assms(1)]) simp_all
    then show "good (Suc (length ts)) (case (x, rest) of (right, rest) \<Rightarrow>
        binary_loop n code L (Binary (tok_text (current ts)) l right) rest)"
      using r len by (auto elim: good_mono)
  qed
  then show ?thesis using True by simp
qed simp

lemma enough_unary:
  assumes "enough n code" "20 * length ts + 4 \<le> Suc n"
  shows "good (length ts) (parse_unary (Suc n) code ts)"
proof (cases "accept_symbol ts (set Expr_Parser_UNARY_OPS)")
  case None
  then show ?thesis using assms(2) enoughD(4) [OF assms(1)] by simp
next
  case (Some p)
  obtain op rest where p: "p = (op, rest)" by fastforce
  have len: "length ts = Suc (length rest)" using accept_length Some p by blast
  have "good (length rest) (parse_unary n code rest)"
    using assms(2) len by (intro enoughD(3) [OF assms(1)]) simp
  then have "good (length ts) (bindE (parse_unary n code rest) (\<lambda>(operand, ts). Inr (Unary (tok_text op) operand, ts)))"
    by (rule good_bind) (use len in auto)
  then show ?thesis using Some p by simp
qed

lemma enough_postfix:
  assumes "enough n code" "20 * length ts + 3 \<le> Suc n"
  shows "good (length ts) (parse_postfix (Suc n) code ts)"
proof -
  have "good (length ts) (parse_primary n code ts)" using assms(2) by (intro enoughD(7) [OF assms(1)]) simp
  then have "good (length ts) (bindE (parse_primary n code ts) (\<lambda>(e, ts). postfix_loop n code e ts))"
  proof (rule good_bind)
    fix x and rest :: "token list" assume r: "length rest < length ts"
    have "good (Suc (length rest)) (postfix_loop n code x rest)"
      using assms(2) r by (intro enoughD(5) [OF assms(1)]) simp
    then show "good (length ts) (case (x, rest) of (e, ts) \<Rightarrow> postfix_loop n code e ts)"
      using r by (auto elim: good_mono)
  qed
  then show ?thesis by simp
qed

lemma enough_postfix_loop:
  assumes "enough n code" "20 * length ts + 10 \<le> Suc n"
  shows "good (Suc (length ts)) (postfix_loop (Suc n) code e ts)"
proof -
  have loop: "good (Suc (length ts)) (postfix_loop n code x rest)" if "length rest < length ts" for x rest
  proof -
    have "good (Suc (length rest)) (postfix_loop n code x rest)"
      using assms(2) that by (intro enoughD(5) [OF assms(1)]) simp
    then show ?thesis using that by (auto elim: good_mono)
  qed
  show ?thesis
  proof (cases "accept_symbol ts {''.''}")
    case (Some p)
    obtain dot rest where p: "p = (dot, rest)" by fastforce
    have len: "length ts = Suc (length rest)" using accept_length Some p by blast
    have "good (Suc (length ts)) (bindE (expect_ident rest) (\<lambda>(name, ts). postfix_loop n code (Access e (tok_text name)) ts))"
      by (rule good_bind [OF good_expect_ident]) (use len loop in auto)
    then show ?thesis using Some p by simp
  next
    case None
    have "good (Suc (length ts)) (bindE (parse_index n code e ts) (\<lambda>(e, ts). postfix_loop n code e ts))"
      if s: "is_symbol (current ts) {''[''}"
    proof (rule good_bind)
      show "good (length ts) (parse_index n code e ts)"
        using assms(2) s by (intro enoughD(6) [OF assms(1)]) simp_all
    qed (use loop in auto)
    then show ?thesis using None by simp
  qed
qed

lemma enough_index:
  assumes "enough n code" "is_symbol (current ts) {''[''}" "20 * length ts + 5 \<le> Suc n"
  shows "good (length ts) (parse_index (Suc n) code b ts)"
proof -
  let ?ts = "advance_token ts"
  note len = symbol_length [OF assms(2)]
  have "good (length ?ts) (parse_expr n code 0 ?ts)" using assms(3) len by (intro enoughD(1) [OF assms(1)]) simp_all
  then have "good (length ts) (bindE (parse_expr n code 0 ?ts) (\<lambda>(index, ts). Inr (Some index, ts)))"
    by (rule good_bind) (use len in auto)
  then have "good (length ts) (if is_symbol (current ?ts) {'']''} then Inr (None, ?ts)
      else bindE (parse_expr n code 0 ?ts) (\<lambda>(index, ts). Inr (Some index, ts)))"
    using len by simp
  then show ?thesis
    unfolding parse_index.simps Let_def
    by (rule good_bind) (auto intro!: good_bind [OF good_expect_symbol])
qed

lemma enough_primary:
  assumes "enough n code" "20 * length ts + 2 \<le> Suc n" "\<And>t. code t \<noteq> Inl OutOfFuel"
  shows "good (length ts) (parse_primary (Suc n) code ts)"
proof -
  note len = advance_length [of ts]
  have char: "good (length ts) (bindE (code (current ts)) (\<lambda>value. Inr (CharLiteral (tok_text (current ts)) value, advance_token ts)))"
    if "tok_kind (current ts) = CHARACTER"
    using assms(3) [of "current ts"] len that by (cases "code (current ts)") auto
  have paren: "good (length ts) (bindE (parse_expr n code 0 rest) (\<lambda>(inner, ts).
      bindE (expect_symbol ts '')'') (\<lambda>(close, ts). Inr (inner, ts))))"
    if "accept_symbol ts {''(''} = Some (p, rest)" for p rest
  proof (rule good_bind)
    have l: "length ts = Suc (length rest)" using accept_length that by blast
    then show "good (length rest) (parse_expr n code 0 rest)" using assms(2) by (intro enoughD(1) [OF assms(1)]) simp_all
    show "good (length ts) (case (x, r) of (inner, ts) \<Rightarrow> bindE (expect_symbol ts '')'') (\<lambda>(close, ts). Inr (inner, ts)))"
      if "length r < length rest" for x r
      using that l by (auto intro!: good_bind [OF good_expect_symbol])
  qed
  have call: "good (length ts) (parse_call n code t (advance_token ts))" if "tok_kind (current ts) = IDENT" for t
  proof -
    have l: "length ts = Suc (length (advance_token ts))" using len that by simp
    then have "good (length (advance_token ts)) (parse_call n code t (advance_token ts))"
      using assms(2) by (intro enoughD(8) [OF assms(1)]) simp
    then show ?thesis using l by (auto elim: good_mono)
  qed
  have name: "good (length ts) (bindE (parse_qualification t (advance_token ts)) (\<lambda>(qualified, ts). Inr (NameRef qualified, ts)))"
    if "tok_kind (current ts) = IDENT" for t
    by (rule good_bind [OF good_qualification]) (use len that in auto)
  show ?thesis
    using char paren call name len by (auto simp: Let_def split: option.split)
qed

lemma enough_call:
  assumes "enough n code" "20 * length ts + 15 \<le> Suc n"
  shows "good (length ts) (parse_call (Suc n) code name ts)"
  unfolding parse_call.simps
proof (rule good_bind [OF good_expect_symbol], unfold prod.case, rule good_bind)
  fix x and rest :: "token list" assume r: "length rest < length ts"
  show "good (Suc (length rest)) (call_loop n code [] rest)" using assms(2) r by (intro enoughD(9) [OF assms(1)]) simp
  show "good (length ts) (case (args, r') of (args, ts) \<Rightarrow>
      bindE (expect_symbol ts '')'') (\<lambda>(close, ts). Inr (Call (tok_text name) args, ts)))"
    if "length r' < Suc (length rest)" for args r'
    using that r by (auto intro!: good_bind [OF good_expect_symbol])
qed

lemma enough_call_loop:
  assumes "enough n code" "20 * length ts + 16 \<le> Suc n"
  shows "good (Suc (length ts)) (call_loop (Suc n) code args ts)"
proof -
  have "good (Suc (length ts)) (bindE (parse_expr n code 0 ts) (\<lambda>(arg, ts).
        case accept_symbol ts {'',''} of None \<Rightarrow> Inr (args @ [arg], ts)
        | Some (comma, ts) \<Rightarrow> call_loop n code (args @ [arg]) ts))"
  proof (rule good_bind)
    show "good (length ts) (parse_expr n code 0 ts)" using assms(2) by (intro enoughD(1) [OF assms(1)]) simp_all
    fix x and rest :: "token list" assume r: "length rest < length ts"
    have "good (Suc (length ts)) (call_loop n code a rest')" if "accept_symbol rest {'',''} = Some (c, rest')" for a c rest'
    proof -
      have "length rest = Suc (length rest')" using accept_length that by blast
      then have "good (Suc (length rest')) (call_loop n code a rest')"
        using assms(2) r by (intro enoughD(9) [OF assms(1)]) simp
      then show ?thesis by (rule good_mono) (use \<open>length rest = Suc (length rest')\<close> r in simp)
    qed
    then show "good (Suc (length ts)) (case (x, rest) of (arg, ts) \<Rightarrow> case accept_symbol ts {'',''} of
        None \<Rightarrow> Inr (args @ [arg], ts) | Some (comma, ts) \<Rightarrow> call_loop n code (args @ [arg]) ts)"
      using r by (auto split: option.split)
  qed
  then show ?thesis by simp
qed

lemma enough_all:
  assumes "\<And>t. code t \<noteq> Inl OutOfFuel"
  shows "enough n code"
proof (induction n)
  case (Suc n)
  show ?case
    unfolding enough_def
    using Suc assms
    by (intro conjI allI impI enough_expr enough_binary_loop enough_unary enough_postfix enough_postfix_loop
        enough_index enough_primary enough_call enough_call_loop) auto
qed (simp add: enough_def)

end
