(* ===== verification/Expr_Descent.thy ===== *)
theory Expr_Descent
  imports Expr_Parser
begin

text \<open>
  The descent of \<open>Expr_Parser\<close> without its fuel: a result that is not for want of fuel does not change
  with more of it, \<open>enough_all\<close> says how much is enough, so each function has a value of its own and
  the code's equations hold of those values.
\<close>

section \<open>More fuel changes nothing\<close>

lemma bind_stable:
  assumes "bindE r f \<noteq> Inl OutOfFuel" "r \<noteq> Inl OutOfFuel \<Longrightarrow> r' = r"
    and "\<And>x rest. r = Inr (x, rest) \<Longrightarrow> f (x, rest) \<noteq> Inl OutOfFuel \<Longrightarrow> f' (x, rest) = f (x, rest)"
  shows "bindE r' f' = bindE r f"
proof (cases r)
  case (Inr p)
  then show ?thesis using assms by (cases p) simp
qed (use assms in simp)

text \<open>What the descent answers with \<open>n\<close>, it answers with \<open>m\<close>.\<close>

definition stable :: "nat \<Rightarrow> nat \<Rightarrow> (token \<Rightarrow> parse_error + int) \<Rightarrow> bool" where
  "stable n m code =
     ((\<forall>L ts. parse_expr n code L ts \<noteq> Inl OutOfFuel \<longrightarrow> parse_expr m code L ts = parse_expr n code L ts)
    \<and> (\<forall>L l ts. binary_loop n code L l ts \<noteq> Inl OutOfFuel \<longrightarrow> binary_loop m code L l ts = binary_loop n code L l ts)
    \<and> (\<forall>ts. parse_unary n code ts \<noteq> Inl OutOfFuel \<longrightarrow> parse_unary m code ts = parse_unary n code ts)
    \<and> (\<forall>ts. parse_postfix n code ts \<noteq> Inl OutOfFuel \<longrightarrow> parse_postfix m code ts = parse_postfix n code ts)
    \<and> (\<forall>e ts. postfix_loop n code e ts \<noteq> Inl OutOfFuel \<longrightarrow> postfix_loop m code e ts = postfix_loop n code e ts)
    \<and> (\<forall>b ts. parse_index n code b ts \<noteq> Inl OutOfFuel \<longrightarrow> parse_index m code b ts = parse_index n code b ts)
    \<and> (\<forall>ts. parse_primary n code ts \<noteq> Inl OutOfFuel \<longrightarrow> parse_primary m code ts = parse_primary n code ts)
    \<and> (\<forall>name ts. parse_call n code name ts \<noteq> Inl OutOfFuel \<longrightarrow> parse_call m code name ts = parse_call n code name ts)
    \<and> (\<forall>args ts. call_loop n code args ts \<noteq> Inl OutOfFuel \<longrightarrow> call_loop m code args ts = call_loop n code args ts))"

lemma stableD:
  assumes "stable n m code"
  shows "parse_expr n code L ts \<noteq> Inl OutOfFuel \<Longrightarrow> parse_expr m code L ts = parse_expr n code L ts"
    and "binary_loop n code L l ts \<noteq> Inl OutOfFuel \<Longrightarrow> binary_loop m code L l ts = binary_loop n code L l ts"
    and "parse_unary n code ts \<noteq> Inl OutOfFuel \<Longrightarrow> parse_unary m code ts = parse_unary n code ts"
    and "parse_postfix n code ts \<noteq> Inl OutOfFuel \<Longrightarrow> parse_postfix m code ts = parse_postfix n code ts"
    and "postfix_loop n code e ts \<noteq> Inl OutOfFuel \<Longrightarrow> postfix_loop m code e ts = postfix_loop n code e ts"
    and "parse_index n code b ts \<noteq> Inl OutOfFuel \<Longrightarrow> parse_index m code b ts = parse_index n code b ts"
    and "parse_primary n code ts \<noteq> Inl OutOfFuel \<Longrightarrow> parse_primary m code ts = parse_primary n code ts"
    and "parse_call n code name ts \<noteq> Inl OutOfFuel \<Longrightarrow> parse_call m code name ts = parse_call n code name ts"
    and "call_loop n code args ts \<noteq> Inl OutOfFuel \<Longrightarrow> call_loop m code args ts = call_loop n code args ts"
  using assms by (simp_all add: stable_def)

lemma stable_expr:
  assumes "stable n m code" "parse_expr (Suc n) code L ts \<noteq> Inl OutOfFuel"
  shows "parse_expr (Suc m) code L ts = parse_expr (Suc n) code L ts"
  using assms(2) by (auto simp: stableD [OF assms(1)] split: if_splits intro!: bind_stable)

lemma stable_binary_loop:
  assumes "stable n m code" "binary_loop (Suc n) code L l ts \<noteq> Inl OutOfFuel"
  shows "binary_loop (Suc m) code L l ts = binary_loop (Suc n) code L l ts"
  using assms(2) by (auto simp: stableD [OF assms(1)] split: if_splits intro!: bind_stable)

lemma stable_unary:
  assumes "stable n m code" "parse_unary (Suc n) code ts \<noteq> Inl OutOfFuel"
  shows "parse_unary (Suc m) code ts = parse_unary (Suc n) code ts"
  using assms(2) by (auto simp: stableD [OF assms(1)] split: option.splits intro!: bind_stable)

lemma stable_postfix:
  assumes "stable n m code" "parse_postfix (Suc n) code ts \<noteq> Inl OutOfFuel"
  shows "parse_postfix (Suc m) code ts = parse_postfix (Suc n) code ts"
  using assms(2) by (auto simp: stableD [OF assms(1)] intro!: bind_stable)

lemma stable_postfix_loop:
  assumes "stable n m code" "postfix_loop (Suc n) code e ts \<noteq> Inl OutOfFuel"
  shows "postfix_loop (Suc m) code e ts = postfix_loop (Suc n) code e ts"
  using assms(2) by (auto simp: stableD [OF assms(1)] split: option.splits if_splits intro!: bind_stable)

lemma stable_index:
  assumes "stable n m code" "parse_index (Suc n) code b ts \<noteq> Inl OutOfFuel"
  shows "parse_index (Suc m) code b ts = parse_index (Suc n) code b ts"
  using assms(2)
  by (auto simp: stableD [OF assms(1)] Let_def split: if_splits intro!: bind_stable)

lemma stable_primary:
  assumes "stable n m code" "parse_primary (Suc n) code ts \<noteq> Inl OutOfFuel"
  shows "parse_primary (Suc m) code ts = parse_primary (Suc n) code ts"
  using assms(2) by (auto simp: stableD [OF assms(1)] Let_def split: if_splits option.splits intro!: bind_stable)

lemma stable_call:
  assumes "stable n m code" "parse_call (Suc n) code name ts \<noteq> Inl OutOfFuel"
  shows "parse_call (Suc m) code name ts = parse_call (Suc n) code name ts"
  using assms(2) by (auto simp: stableD [OF assms(1)] intro!: bind_stable)

lemma stable_call_loop:
  assumes "stable n m code" "call_loop (Suc n) code args ts \<noteq> Inl OutOfFuel"
  shows "call_loop (Suc m) code args ts = call_loop (Suc n) code args ts"
  using assms(2) by (auto simp: stableD [OF assms(1)] split: if_splits option.splits intro!: bind_stable)

lemma stable_all: "stable n (n + d) code"
proof (induction n)
  case (Suc n)
  show ?case
    unfolding stable_def add_Suc
    by (intro conjI allI impI stable_expr [OF Suc] stable_binary_loop [OF Suc] stable_unary [OF Suc] stable_postfix [OF Suc]
        stable_postfix_loop [OF Suc] stable_index [OF Suc] stable_primary [OF Suc] stable_call [OF Suc]
        stable_call_loop [OF Suc])
qed (simp add: stable_def)

lemma stable_le: "n \<le> m \<Longrightarrow> stable n m code"
  using stable_all [of n "m - n"] by simp

declare parse_expr.simps [simp del] binary_loop.simps [simp del] parse_unary.simps [simp del]
  parse_postfix.simps [simp del] postfix_loop.simps [simp del] parse_index.simps [simp del]
  parse_primary.simps [simp del] parse_call.simps [simp del] call_loop.simps [simp del]

section \<open>The descent's own values\<close>

definition expr_at :: "(token \<Rightarrow> parse_error + int) \<Rightarrow> nat \<Rightarrow> token list \<Rightarrow> expr parsed" where
  "expr_at code L ts = parse_expr (20 * length ts + 15) code L ts"

definition loop_at :: "(token \<Rightarrow> parse_error + int) \<Rightarrow> nat \<Rightarrow> expr \<Rightarrow> token list \<Rightarrow> expr parsed" where
  "loop_at code L l ts = binary_loop (20 * length ts + 10) code L l ts"

definition unary_at :: "(token \<Rightarrow> parse_error + int) \<Rightarrow> token list \<Rightarrow> expr parsed" where
  "unary_at code ts = parse_unary (20 * length ts + 4) code ts"

definition postfix_at :: "(token \<Rightarrow> parse_error + int) \<Rightarrow> token list \<Rightarrow> expr parsed" where
  "postfix_at code ts = parse_postfix (20 * length ts + 3) code ts"

definition trail_at :: "(token \<Rightarrow> parse_error + int) \<Rightarrow> expr \<Rightarrow> token list \<Rightarrow> expr parsed" where
  "trail_at code e ts = postfix_loop (20 * length ts + 10) code e ts"

definition index_at :: "(token \<Rightarrow> parse_error + int) \<Rightarrow> expr \<Rightarrow> token list \<Rightarrow> expr parsed" where
  "index_at code b ts = parse_index (20 * length ts + 5) code b ts"

definition primary_at :: "(token \<Rightarrow> parse_error + int) \<Rightarrow> token list \<Rightarrow> expr parsed" where
  "primary_at code ts = parse_primary (20 * length ts + 2) code ts"

definition call_at :: "(token \<Rightarrow> parse_error + int) \<Rightarrow> token \<Rightarrow> token list \<Rightarrow> expr parsed" where
  "call_at code name ts = parse_call (20 * length ts + 15) code name ts"

definition args_at :: "(token \<Rightarrow> parse_error + int) \<Rightarrow> expr list \<Rightarrow> token list \<Rightarrow> expr list parsed" where
  "args_at code args ts = call_loop (20 * length ts + 16) code args ts"

definition sound_code :: "(token \<Rightarrow> parse_error + int) \<Rightarrow> bool" where
  "sound_code code = (\<forall>t. code t \<noteq> Inl OutOfFuel)"

lemma sound_enough: "sound_code code \<Longrightarrow> enough n code"
  by (simp add: sound_code_def enough_all)

lemma good_not_fuel: "good m r \<Longrightarrow> r \<noteq> Inl OutOfFuel"
  by auto

lemma either_way:
  fixes f :: "nat \<Rightarrow> 'a parsed"
  assumes "\<And>n m. n \<le> m \<Longrightarrow> f n \<noteq> Inl OutOfFuel \<Longrightarrow> f m = f n"
    and "f n \<noteq> Inl OutOfFuel" "f k \<noteq> Inl OutOfFuel"
  shows "f n = f k"
proof (cases "n \<le> k")
  case True
  then show ?thesis using assms(1) [of n k] assms(2) by simp
next
  case False
  then have "k \<le> n" by simp
  then show ?thesis using assms(1) [of k n] assms(3) by simp
qed

lemma expect_symbol_length: "expect_symbol ts symbol = Inr (x, rest) \<Longrightarrow> length rest < length ts"
  using good_expect_symbol [of ts symbol] by simp

lemma expect_ident_length: "expect_ident ts = Inr (x, rest) \<Longrightarrow> length rest < length ts"
  using good_expect_ident [of ts] by simp

lemma expr_at_fuel:
  assumes "sound_code code" "L \<le> 10" "20 * length ts + 15 \<le> n + L"
  shows "parse_expr n code L ts = expr_at code L ts"
  unfolding expr_at_def
proof (rule either_way [of "\<lambda>n. parse_expr n code L ts"])
  show "parse_expr n code L ts \<noteq> Inl OutOfFuel" "parse_expr (20 * length ts + 15) code L ts \<noteq> Inl OutOfFuel"
    by (rule good_not_fuel [OF enoughD(1) [OF sound_enough [OF assms(1)]]]; use assms in simp)+
qed (rule stableD(1) [OF stable_le])

lemma loop_at_fuel:
  assumes "sound_code code" "L < 10" "20 * length ts + 10 \<le> n"
  shows "binary_loop n code L l ts = loop_at code L l ts"
  unfolding loop_at_def
proof (rule either_way [of "\<lambda>n. binary_loop n code L l ts"])
  show "binary_loop n code L l ts \<noteq> Inl OutOfFuel" "binary_loop (20 * length ts + 10) code L l ts \<noteq> Inl OutOfFuel"
    by (rule good_not_fuel [OF enoughD(2) [OF sound_enough [OF assms(1)]]]; use assms in simp)+
qed (rule stableD(2) [OF stable_le])

lemma unary_at_fuel:
  assumes "sound_code code" "20 * length ts + 4 \<le> n"
  shows "parse_unary n code ts = unary_at code ts"
  unfolding unary_at_def
proof (rule either_way [of "\<lambda>n. parse_unary n code ts"])
  show "parse_unary n code ts \<noteq> Inl OutOfFuel" "parse_unary (20 * length ts + 4) code ts \<noteq> Inl OutOfFuel"
    by (rule good_not_fuel [OF enoughD(3) [OF sound_enough [OF assms(1)]]]; use assms in simp)+
qed (rule stableD(3) [OF stable_le])

lemma postfix_at_fuel:
  assumes "sound_code code" "20 * length ts + 3 \<le> n"
  shows "parse_postfix n code ts = postfix_at code ts"
  unfolding postfix_at_def
proof (rule either_way [of "\<lambda>n. parse_postfix n code ts"])
  show "parse_postfix n code ts \<noteq> Inl OutOfFuel" "parse_postfix (20 * length ts + 3) code ts \<noteq> Inl OutOfFuel"
    by (rule good_not_fuel [OF enoughD(4) [OF sound_enough [OF assms(1)]]]; use assms in simp)+
qed (rule stableD(4) [OF stable_le])

lemma trail_at_fuel:
  assumes "sound_code code" "20 * length ts + 10 \<le> n"
  shows "postfix_loop n code e ts = trail_at code e ts"
  unfolding trail_at_def
proof (rule either_way [of "\<lambda>n. postfix_loop n code e ts"])
  show "postfix_loop n code e ts \<noteq> Inl OutOfFuel" "postfix_loop (20 * length ts + 10) code e ts \<noteq> Inl OutOfFuel"
    by (rule good_not_fuel [OF enoughD(5) [OF sound_enough [OF assms(1)]]]; use assms in simp)+
qed (rule stableD(5) [OF stable_le])

lemma index_at_fuel:
  assumes "sound_code code" "is_symbol (current ts) {''[''}" "20 * length ts + 5 \<le> n"
  shows "parse_index n code b ts = index_at code b ts"
  unfolding index_at_def
proof (rule either_way [of "\<lambda>n. parse_index n code b ts"])
  show "parse_index n code b ts \<noteq> Inl OutOfFuel" "parse_index (20 * length ts + 5) code b ts \<noteq> Inl OutOfFuel"
    by (rule good_not_fuel [OF enoughD(6) [OF sound_enough [OF assms(1)]]]; use assms in simp)+
qed (rule stableD(6) [OF stable_le])

lemma primary_at_fuel:
  assumes "sound_code code" "20 * length ts + 2 \<le> n"
  shows "parse_primary n code ts = primary_at code ts"
  unfolding primary_at_def
proof (rule either_way [of "\<lambda>n. parse_primary n code ts"])
  show "parse_primary n code ts \<noteq> Inl OutOfFuel" "parse_primary (20 * length ts + 2) code ts \<noteq> Inl OutOfFuel"
    by (rule good_not_fuel [OF enoughD(7) [OF sound_enough [OF assms(1)]]]; use assms in simp)+
qed (rule stableD(7) [OF stable_le])

lemma call_at_fuel:
  assumes "sound_code code" "20 * length ts + 15 \<le> n"
  shows "parse_call n code name ts = call_at code name ts"
  unfolding call_at_def
proof (rule either_way [of "\<lambda>n. parse_call n code name ts"])
  show "parse_call n code name ts \<noteq> Inl OutOfFuel" "parse_call (20 * length ts + 15) code name ts \<noteq> Inl OutOfFuel"
    by (rule good_not_fuel [OF enoughD(8) [OF sound_enough [OF assms(1)]]]; use assms in simp)+
qed (rule stableD(8) [OF stable_le])

lemma args_at_fuel:
  assumes "sound_code code" "20 * length ts + 16 \<le> n"
  shows "call_loop n code args ts = args_at code args ts"
  unfolding args_at_def
proof (rule either_way [of "\<lambda>n. call_loop n code args ts"])
  show "call_loop n code args ts \<noteq> Inl OutOfFuel" "call_loop (20 * length ts + 16) code args ts \<noteq> Inl OutOfFuel"
    by (rule good_not_fuel [OF enoughD(9) [OF sound_enough [OF assms(1)]]]; use assms in simp)+
qed (rule stableD(9) [OF stable_le])

lemmas at_fuel = expr_at_fuel loop_at_fuel unary_at_fuel postfix_at_fuel trail_at_fuel index_at_fuel
  primary_at_fuel call_at_fuel args_at_fuel

text \<open>Each consumes.\<close>

lemma at_good:
  assumes "sound_code code"
  shows "L \<le> 10 \<Longrightarrow> good (length ts) (expr_at code L ts)"
    and "L < 10 \<Longrightarrow> good (Suc (length ts)) (loop_at code L l ts)"
    and "good (length ts) (unary_at code ts)"
    and "good (length ts) (postfix_at code ts)"
    and "good (Suc (length ts)) (trail_at code e ts)"
    and "is_symbol (current ts) {''[''} \<Longrightarrow> good (length ts) (index_at code b ts)"
    and "good (length ts) (primary_at code ts)"
    and "good (length ts) (call_at code name ts)"
    and "good (Suc (length ts)) (args_at code args ts)"
  using enoughD [OF sound_enough [OF assms]]
  by (simp_all add: expr_at_def loop_at_def unary_at_def postfix_at_def trail_at_def index_at_def
      primary_at_def call_at_def args_at_def)

lemma good_consumes: "good m r \<Longrightarrow> r = Inr (x, rest) \<Longrightarrow> length rest < m"
  by simp

lemma bind_agree:
  assumes "r = r'" "\<And>x rest. r' = Inr (x, rest) \<Longrightarrow> f (x, rest) = f' (x, rest)"
  shows "bindE r f = bindE r' f'"
  using assms by (cases r') auto

section \<open>The code's equations\<close>

lemma expr_at_eq:
  assumes "sound_code code" "L \<le> 10"
  shows "expr_at code L ts =
    (if L = 10 then unary_at code ts else bindE (expr_at code (L + 1) ts) (\<lambda>(left, ts). loop_at code L left ts))"
proof -
  have fuel: "20 * length ts + 15 = Suc (20 * length ts + 14)" by simp
  have "expr_at code L ts = parse_expr (Suc (20 * length ts + 14)) code L ts" unfolding expr_at_def fuel ..
  also have "\<dots> = (if L = 10 then unary_at code ts else bindE (expr_at code (L + 1) ts) (\<lambda>(left, ts). loop_at code L left ts))"
    using assms at_good(1) [OF assms(1), of "L + 1" ts]
    unfolding parse_expr.simps(2) by (auto simp: at_fuel dest: good_consumes intro!: bind_agree)
  finally show ?thesis .
qed

lemma loop_at_eq:
  assumes "sound_code code" "L < 10"
  shows "loop_at code L l ts =
    (if is_symbol (current ts) (set (PRECEDENCE ! L)) then
       bindE (expr_at code (L + 1) (advance_token ts)) (\<lambda>(right, rest).
         loop_at code L (Binary (tok_text (current ts)) l right) rest)
     else Inr (l, ts))"
proof (cases "is_symbol (current ts) (set (PRECEDENCE ! L))")
  case True
  note len = symbol_length [OF True]
  have fuel: "20 * length ts + 10 = Suc (20 * length ts + 9)" by simp
  have "loop_at code L l ts = binary_loop (Suc (20 * length ts + 9)) code L l ts" unfolding loop_at_def fuel ..
  also have "\<dots> = bindE (expr_at code (L + 1) (advance_token ts)) (\<lambda>(right, rest).
         loop_at code L (Binary (tok_text (current ts)) l right) rest)"
    using assms True len at_good(1) [OF assms(1), of "L + 1" "advance_token ts"]
    unfolding binary_loop.simps(2) by (auto simp: at_fuel dest: good_consumes intro!: bind_agree)
  finally show ?thesis using True by simp
next
  case False
  have fuel: "20 * length ts + 10 = Suc (20 * length ts + 9)" by simp
  show ?thesis unfolding loop_at_def fuel binary_loop.simps(2) using False by simp
qed

lemma unary_at_eq:
  assumes "sound_code code"
  shows "unary_at code ts =
    (case accept_symbol ts (set Expr_Parser_UNARY_OPS) of None \<Rightarrow> postfix_at code ts
     | Some (op, ts) \<Rightarrow> bindE (unary_at code ts) (\<lambda>(operand, ts). Inr (Unary (tok_text op) operand, ts)))"
proof -
  have fuel: "20 * length ts + 4 = Suc (20 * length ts + 3)" by simp
  have unfold: "unary_at code ts = parse_unary (Suc (20 * length ts + 3)) code ts" unfolding unary_at_def fuel ..
  then show ?thesis
    unfolding unfold parse_unary.simps(2) using assms by (auto simp: at_fuel dest!: accept_length split: option.split)
qed

lemma postfix_at_eq:
  assumes "sound_code code"
  shows "postfix_at code ts = bindE (primary_at code ts) (\<lambda>(e, ts). trail_at code e ts)"
proof -
  have fuel: "20 * length ts + 3 = Suc (20 * length ts + 2)" by simp
  have "postfix_at code ts = parse_postfix (Suc (20 * length ts + 2)) code ts" unfolding postfix_at_def fuel ..
  also have "\<dots> = bindE (primary_at code ts) (\<lambda>(e, ts). trail_at code e ts)"
    using assms at_good(7) [OF assms(1), of ts]
    unfolding parse_postfix.simps(2) by (auto simp: at_fuel dest: good_consumes intro!: bind_agree)
  finally show ?thesis .
qed

lemma trail_at_eq:
  assumes "sound_code code"
  shows "trail_at code e ts =
    (case accept_symbol ts {''.''} of
       Some (dot, ts) \<Rightarrow> bindE (expect_ident ts) (\<lambda>(name, ts). trail_at code (Access e (tok_text name)) ts)
     | None \<Rightarrow>
         if is_symbol (current ts) {''[''} \<and> \<not> bracket_is_attrs ts then
           bindE (index_at code e ts) (\<lambda>(e, ts). trail_at code e ts)
         else Inr (e, ts))"
proof -
  have fuel: "20 * length ts + 10 = Suc (20 * length ts + 9)" by simp
  have unfold: "trail_at code e ts = postfix_loop (Suc (20 * length ts + 9)) code e ts" unfolding trail_at_def fuel ..
  then show ?thesis
    unfolding unfold postfix_loop.simps(2) using assms at_good(6) [OF assms(1), of ts e]
    by (auto simp: at_fuel dest!: accept_length dest: good_consumes expect_ident_length intro!: bind_agree split: option.split)
qed

lemma index_at_eq:
  assumes "sound_code code" "is_symbol (current ts) {''[''}"
  shows "index_at code b ts =
    (let ts = advance_token ts in
      bindE (if is_symbol (current ts) {'']''} then Inr (None, ts)
             else bindE (expr_at code 0 ts) (\<lambda>(index, ts). Inr (Some index, ts))) (\<lambda>(index, ts).
      bindE (expect_symbol ts '']'') (\<lambda>(close, ts). Inr (Index b index, ts))))"
proof -
  have fuel: "20 * length ts + 5 = Suc (20 * length ts + 4)" by simp
  have unfold: "index_at code b ts = parse_index (Suc (20 * length ts + 4)) code b ts" unfolding index_at_def fuel ..
  then show ?thesis
    unfolding unfold parse_index.simps(2) using assms by (simp add: at_fuel symbol_length Let_def)
qed

lemma primary_at_eq:
  assumes "sound_code code"
  shows "primary_at code ts =
     (let token = current ts in
      if tok_kind token = INTEGER then Inr (IntLiteral (tok_value token) (tok_text token), advance_token ts)
      else if tok_kind token = STRING then Inr (StringLiteral (tok_text token), advance_token ts)
      else if tok_kind token = CHARACTER then
        bindE (code token) (\<lambda>value. Inr (CharLiteral (tok_text token) value, advance_token ts))
      else case accept_symbol ts {''(''} of
        Some (paren, ts) \<Rightarrow>
          bindE (expr_at code 0 ts) (\<lambda>(inner, ts). bindE (expect_symbol ts '')'') (\<lambda>(close, ts). Inr (inner, ts)))
      | None \<Rightarrow>
          if tok_kind token = IDENT then
            (let ts = advance_token ts in
             if tok_text token = ''remaining'' then Inr (Remaining, ts)
             else if is_symbol (current ts) {''(''} then call_at code token ts
             else if is_symbol (current ts) {''::''} then
               bindE (parse_qualification token ts) (\<lambda>(qualified, ts). Inr (NameRef qualified, ts))
             else Inr (NameRef (tok_text token), ts))
          else Inl ExpectedExpression)"
proof -
  have fuel: "20 * length ts + 2 = Suc (20 * length ts + 1)" by simp
  have unfold: "primary_at code ts = parse_primary (Suc (20 * length ts + 1)) code ts" unfolding primary_at_def fuel ..
  then show ?thesis
    unfolding unfold parse_primary.simps(2) using assms advance_length [of ts]
    by (auto simp: at_fuel Let_def dest!: accept_length split: option.split)
qed

lemma call_at_eq:
  assumes "sound_code code"
  shows "call_at code name ts =
     bindE (expect_symbol ts ''('') (\<lambda>(paren, ts).
     bindE (args_at code [] ts) (\<lambda>(args, ts).
     bindE (expect_symbol ts '')'') (\<lambda>(close, ts). Inr (Call (tok_text name) args, ts))))"
proof -
  have fuel: "20 * length ts + 15 = Suc (20 * length ts + 14)" by simp
  have "call_at code name ts = parse_call (Suc (20 * length ts + 14)) code name ts" unfolding call_at_def fuel ..
  also have "\<dots> = bindE (expect_symbol ts ''('') (\<lambda>(paren, ts).
     bindE (args_at code [] ts) (\<lambda>(args, ts).
     bindE (expect_symbol ts '')'') (\<lambda>(close, ts). Inr (Call (tok_text name) args, ts))))"
        using assms good_expect_symbol [of ts "''(''"]
    unfolding parse_call.simps(2) by (auto simp: at_fuel dest: good_consumes intro!: bind_agree)
  finally show ?thesis .
qed

lemma args_at_eq:
  assumes "sound_code code"
  shows "args_at code args ts =
    (if is_symbol (current ts) {'')''} then Inr (args, ts)
     else bindE (expr_at code 0 ts) (\<lambda>(arg, ts).
       case accept_symbol ts {'',''} of
         None \<Rightarrow> Inr (args @ [arg], ts)
       | Some (comma, ts) \<Rightarrow> args_at code (args @ [arg]) ts))"
proof -
  have fuel: "20 * length ts + 16 = Suc (20 * length ts + 15)" by simp
  have unfold: "args_at code args ts = call_loop (Suc (20 * length ts + 15)) code args ts" unfolding args_at_def fuel ..
  then show ?thesis
    unfolding unfold call_loop.simps(2) using assms at_good(1) [OF assms(1), of 0 ts]
    by (auto simp: at_fuel dest!: accept_length dest: good_consumes intro!: bind_agree split: option.split)
qed

lemma sound_character_code: "sound_code (character_code encode encs)"
  by (auto simp: sound_code_def character_code_def character_bytes_def bindE_eq_Inl split: sum.splits)

lemma parse_expression_at: "parse_expression encode encs ts = expr_at (character_code encode encs) 0 ts"
  by (simp add: parse_expression_def expr_at_def)

end
