(* ===== verification/Expr_Tokens.thy ===== *)
theory Expr_Tokens
  imports Lex_Emit Expr_Descent
begin

text \<open>
  The tokens of a printed expression: \<open>toks\<close> follows \<open>expr_text\<close> parenthesis by parenthesis, and
  scanning what \<open>expr_text\<close> writes gives exactly these.
\<close>

section \<open>What can be written\<close>

definition name_parts :: "string \<Rightarrow> string \<times> string" where
  "name_parts name = (takeWhile (\<lambda>c. c \<in> IDENT_BODY) name, dropWhile (\<lambda>c. c \<in> IDENT_BODY) name)"

text \<open>A name, or a name qualified by one namespace.\<close>

definition is_reference :: "string \<Rightarrow> bool" where
  "is_reference name =
     (let (a, rest) = name_parts name in
      is_name a \<and> a \<noteq> ''remaining'' \<and> (rest = [] \<or> take 2 rest = ''::'' \<and> is_name (drop 2 rest)))"

definition char_token :: "string \<Rightarrow> token" where
  "char_token c = \<lparr>tok_kind = CHARACTER, tok_text = c, tok_value = 0\<rparr>"

text \<open>A bracket holding one of these reads as an attribute: decision 0006.\<close>

fun bare_index :: "expr \<Rightarrow> bool" where
  "bare_index (NameRef name) = (name \<in> BARE_ATTRIBUTE_NAMES)"
| "bare_index (Index b index) = bare_index b"
| "bare_index e = False"

text \<open>
  The trees the printer and the parser share, under the character values \<open>code\<close>; the explicit form
  prints a character as its number, so there the number has to be one that can be written.
\<close>

fun writable :: "(token \<Rightarrow> parse_error + int) \<Rightarrow> bool \<Rightarrow> expr \<Rightarrow> bool" where
  "writable code x (IntLiteral v t) = is_number t v"
| "writable code x (CharLiteral c v) =
     (length c = 1 \<and> code (char_token c) = Inr v \<and> (x \<longrightarrow> 0 \<le> v \<and> length (str_int v) \<le> 4300))"
| "writable code x (StringLiteral s) = True"
| "writable code x (NameRef name) = is_reference name"
| "writable code x Remaining = True"
| "writable code x (Access b name) = (writable code x b \<and> is_name name)"
| "writable code x (Index b index) =
     (writable code x b \<and> (case index of None \<Rightarrow> True | Some i \<Rightarrow> writable code x i \<and> \<not> bare_index i))"
| "writable code x (Call name args) = (is_name name \<and> name \<noteq> ''remaining'' \<and> list_all (writable code x) args)"
| "writable code x (Unary op e) = (op \<in> set Expr_Parser_UNARY_OPS \<and> writable code x e)"
| "writable code x (Binary op l r) = (op \<in> fst ` set BINDING \<and> writable code x l \<and> writable code x r)"

text \<open>The tree a text names: the tree itself, with its characters as numbers in the explicit form.\<close>

fun spelt :: "bool \<Rightarrow> expr \<Rightarrow> expr" where
  "spelt x (CharLiteral c v) = (if x then IntLiteral v (str_int v) else CharLiteral c v)"
| "spelt x (Access b name) = Access (spelt x b) name"
| "spelt x (Index b index) = Index (spelt x b) (map_option (spelt x) index)"
| "spelt x (Call name args) = Call name (map (spelt x) args)"
| "spelt x (Unary op e) = Unary op (spelt x e)"
| "spelt x (Binary op l r) = Binary op (spelt x l) (spelt x r)"
| "spelt x e = e"

lemma spelt_False [simp]: "spelt False e = e"
proof (induction e)
  case (Call name args)
  then show ?case by (simp add: map_idI)
next
  case (Index b index)
  then show ?case by (cases index) auto
qed auto

section \<open>Tokens\<close>

definition name_toks :: "string \<Rightarrow> token list" where
  "name_toks name =
     (let (a, rest) = name_parts name in
      if rest = [] then [ident_token a] else [ident_token a, symbol_token ''::'', ident_token (drop 2 rest)])"

definition paren_toks :: "token list \<Rightarrow> token list" where
  "paren_toks ts = symbol_token ''('' # ts @ [symbol_token '')'']"

fun join_toks :: "token list list \<Rightarrow> token list" where
  "join_toks [] = []"
| "join_toks [a] = a"
| "join_toks (a # as) = a @ symbol_token '','' # join_toks as"

definition int_token :: "string \<Rightarrow> int \<Rightarrow> token" where
  "int_token t v = \<lparr>tok_kind = INTEGER, tok_text = t, tok_value = v\<rparr>"

fun toks :: "expr \<Rightarrow> nat \<Rightarrow> bool \<Rightarrow> bool \<Rightarrow> token list" where
  "toks (IntLiteral v t) p x w = [int_token t v]"
| "toks (CharLiteral c v) p x w = (if x then [int_token (str_int v) v] else [char_token c])"
| "toks (StringLiteral s) p x w = [\<lparr>tok_kind = STRING, tok_text = s, tok_value = 0\<rparr>]"
| "toks (NameRef name) p x w = name_toks name"
| "toks Remaining p x w = [ident_token ''remaining'']"
| "toks (Access b name) p x w = toks b 99 x True @ [symbol_token ''.'', ident_token name]"
| "toks (Index b index) p x w =
     toks b 99 x True @ symbol_token ''['' # (case index of None \<Rightarrow> [] | Some i \<Rightarrow> toks i 0 x False) @ [symbol_token '']'']"
| "toks (Call name args) p x w = ident_token name # paren_toks (join_toks (map (\<lambda>arg. toks arg 0 x False) args))"
| "toks (Unary op e) p x w =
     (let ts = symbol_token op # toks e 10 x True in if (if x then w else 10 < p) then paren_toks ts else ts)"
| "toks (Binary op l r) p x w =
     (let b = the (map_of BINDING op); ts = toks l b x True @ symbol_token op # toks r (b + 1) x True in
      if (if x then w else b < p) then paren_toks ts else ts)"

section \<open>Printing is writing these tokens\<close>

lemma not_body: "CHR ''.'' \<notin> IDENT_BODY" "CHR ''['' \<notin> IDENT_BODY" "CHR '']'' \<notin> IDENT_BODY" "CHR ''('' \<notin> IDENT_BODY"
  "CHR '')'' \<notin> IDENT_BODY" "CHR '','' \<notin> IDENT_BODY" "CHR '' '' \<notin> IDENT_BODY" "CHR '':'' \<notin> IDENT_BODY"
  by (simp_all add: IDENT_BODY_def IDENT_START_def Lexer_DIGITS_def)

lemma no_body_Cons [simp]: "no_body (c # s) = (c \<notin> IDENT_BODY)" "no_body []"
  by (simp_all add: no_body_def)

lemma name_hd: "is_name s \<Longrightarrow> s \<noteq> [] \<and> hd s \<noteq> CHR ''=''"
  using start_chars [of "hd s"] by (auto simp: is_name_def)

lemma number_hd: "is_number s v \<Longrightarrow> s \<noteq> [] \<and> hd s \<noteq> CHR ''=''"
  using start_chars [of "hd s"] by (auto simp: is_number_def)

text \<open>A printed piece: what it scans to, and that it never completes a symbol in front of it.\<close>

definition printed :: "string option \<Rightarrow> token list \<Rightarrow> bool" where
  "printed text ts = (\<exists>s. text = Some s \<and> emits no_body s ts \<and> s \<noteq> [] \<and> hd s \<noteq> CHR ''='')"

lemma printedI: "emits no_body s ts \<Longrightarrow> s \<noteq> [] \<and> hd s \<noteq> CHR ''='' \<Longrightarrow> printed (Some s) ts"
  by (simp add: printed_def)

lemma emits_any: "emits any s ts \<Longrightarrow> emits P s ts"
  by (simp add: emits_def)

lemma emits_then:
  assumes "emits no_body s ts" "emits P y us" "y \<noteq> []" "hd y \<notin> IDENT_BODY"
  shows "emits P (s @ y) (ts @ us)"
  by (rule emits_append [OF assms(1,2)]) (use assms(3,4) in \<open>simp add: no_body_def\<close>)

lemma emits_paren:
  assumes "emits no_body s ts"
  shows "emits any (''('' @ s @ '')'') (paren_toks ts)"
proof -
  have "emits any (s @ '')'') (ts @ [symbol_token '')''])"
    by (rule emits_then [OF assms emits_always]) (simp_all add: not_body)
  then have "emits any (''('' @ s @ '')'') ([symbol_token ''(''] @ ts @ [symbol_token '')''])"
    by (intro emits_append [OF emits_always]) simp_all
  then show ?thesis by (simp add: paren_toks_def)
qed

lemma printed_paren: "emits no_body s ts \<Longrightarrow> printed (Some (''('' @ s @ '')'')) (paren_toks ts)"
  using emits_any [OF emits_paren] by (auto simp: printed_def)

lemma printed_join:
  assumes "list_all2 printed (map Some ss) tss"
  shows "emits no_body (join_args ss) (join_toks tss)"
  using assms
proof (induction ss arbitrary: tss rule: join_args.induct)
  case 1
  then show ?case by (auto simp: emits_Nil)
next
  case (2 a)
  then show ?case by (auto simp: list_all2_Cons1 printed_def)
next
  case (3 a b ss)
  then obtain ts us uss where t: "tss = ts # us # uss" "printed (Some a) ts" "list_all2 printed (map Some (b # ss)) (us # uss)"
    by (auto simp: list_all2_Cons1)
  have "emits no_body ('','' @ '' '' @ join_args (b # ss)) ([symbol_token '',''] @ join_toks (us # uss))"
    using "3.IH" [OF t(3)] by (intro emits_append [OF emits_always]) (auto simp: emits_def)
  moreover have "emits no_body a ts" using t(2) by (simp add: printed_def)
  ultimately have "emits no_body (a @ '','' @ '' '' @ join_args (b # ss)) (ts @ [symbol_token '',''] @ join_toks (us # uss))"
    using emits_then [of a ts no_body "'','' @ '' '' @ join_args (b # ss)"] by (simp add: not_body)
  then show ?case using t(1) by simp
qed

lemma reference_printed:
  assumes "is_reference name"
  shows "printed (Some name) (name_toks name)"
proof -
  obtain a rest where p: "name_parts name = (a, rest)" by fastforce
  then have name: "name = a @ rest" by (simp add: name_parts_def) (metis takeWhile_dropWhile_id)
  have a: "is_name a" using assms p by (simp add: is_reference_def)
  show ?thesis
  proof (cases "rest = []")
    case True
    then show ?thesis using a p name name_hd emits_name by (simp add: name_toks_def printed_def)
  next
    case False
    then have r: "rest = ''::'' @ drop 2 rest" "is_name (drop 2 rest)"
      using assms p append_take_drop_id [of 2 rest] by (simp_all add: is_reference_def)
    have "emits no_body (''::'' @ drop 2 rest) ([symbol_token ''::''] @ [ident_token (drop 2 rest)])"
      by (intro emits_append [OF emits_always emits_name]) (use r in simp_all)
    then have "emits no_body (a @ ''::'' @ drop 2 rest) ([ident_token a] @ [symbol_token ''::''] @ [ident_token (drop 2 rest)])"
      by (intro emits_then [OF emits_name [OF a]]) (simp_all add: not_body)
    then show ?thesis using False a p r(1) name name_hd [OF a] by (simp add: name_toks_def printed_def)
  qed
qed

lemma unary_emits:
  assumes "op \<in> set Expr_Parser_UNARY_OPS" "printed (Some s) ts"
  shows "emits no_body (op @ s) (symbol_token op # ts)" "op @ s \<noteq> [] \<and> hd (op @ s) \<noteq> CHR ''=''"
proof -
  have s: "emits no_body s ts" "s \<noteq> []" "hd s \<noteq> CHR ''=''" using assms(2) by (auto simp: printed_def)
  have t: "take 1 (s @ rest) \<noteq> ''=''" for rest using s(2,3) by (cases s) auto
  consider "op = ''!''" | "op = ''-'' \<or> op = ''~''"
    using assms(1) by (auto simp: Expr_Parser_UNARY_OPS_def)
  then have "emits no_body (op @ s) ([symbol_token op] @ ts)"
  proof cases
    case 1
    show ?thesis unfolding 1 by (rule emits_append [OF emits_bang s(1)]) (rule t)
  next
    case 2
    then have "emits any op [symbol_token op]" by (elim disjE; simp add: emits_always)
    then show ?thesis by (rule emits_append [OF _ s(1)]) (rule TrueI)
  qed
  then show "emits no_body (op @ s) (symbol_token op # ts)" by simp
  show "op @ s \<noteq> [] \<and> hd (op @ s) \<noteq> CHR ''=''" using assms(1) by (auto simp: Expr_Parser_UNARY_OPS_def)
qed

lemma binary_emits:
  assumes "op \<in> fst ` set BINDING" "printed (Some s) ts" "printed (Some s') us"
  shows "emits no_body (s @ '' '' @ op @ '' '' @ s') (ts @ symbol_token op # us)"
proof -
  have "emits no_body (('' '' @ op @ '' '') @ s') ([symbol_token op] @ us)"
    using assms(3) by (intro emits_append [OF emits_operator [OF assms(1)]]) (auto simp: printed_def)
  moreover have "emits no_body s ts" using assms(2) by (simp add: printed_def)
  ultimately have "emits no_body (s @ ('' '' @ op @ '' '') @ s') (ts @ [symbol_token op] @ us)"
    using emits_then [of s ts no_body "('' '' @ op @ '' '') @ s'"] by (simp add: not_body)
  then show ?thesis by simp
qed

lemma postfix_printed:
  assumes "printed (Some s) ts" "emits no_body y us" "y \<noteq> []" "hd y \<notin> IDENT_BODY"
  shows "printed (Some (s @ y)) (ts @ us)"
  using assms emits_then [of s ts no_body y us] by (auto simp: printed_def)

lemma some_list: "list_all2 (\<lambda>text ts. printed text ts) texts tss \<Longrightarrow> \<exists>ss. texts = map Some ss"
  by (induction rule: list_all2_induct) (auto simp: printed_def intro: exI [of _ "x # xs" for x xs])

lemma those_Some [simp]: "those (map Some ss) = Some ss"
  by (induction ss) auto

theorem expr_text_tokens:
  assumes "writable code x e"
  shows "printed (expr_text e p x w) (toks e p x w)"
  using assms
proof (induction e p x w rule: expr_text.induct)
  case (1 v t p x w)
  then show ?case using emits_number number_hd by (auto simp: printed_def int_token_def)
next
  case (2 c v p x w)
  show ?case
  proof (cases x)
    case True
    then have "is_number (str_int v) v" using 2 is_number_str_nat [of "nat v"] by (auto simp: str_int_def split: if_splits)
    then show ?thesis using True emits_number number_hd by (auto simp: printed_def int_token_def)
  next
    case False
    then show ?thesis using 2 emits_any [OF emits_char] by (auto simp: printed_def char_token_def)
  qed
next
  case (3 s p x w)
  then show ?case using emits_any [OF emits_string] by (auto simp: printed_def)
next
  case (4 name p x w)
  then show ?case by (simp add: reference_printed)
next
  case (5 p x w)
  then show ?case using emits_name [of "''remaining''"] by (auto simp: printed_def is_name_def IDENT_START_def IDENT_BODY_def)
next
  case (6 b name p x w)
  then obtain s where s: "expr_text b ATOM_BINDING x True = Some s" "printed (Some s) (toks b 99 x True)"
    by (auto simp: printed_def ATOM_BINDING_def)
  have "emits no_body (''.'' @ name) ([symbol_token ''.''] @ [ident_token name])"
    using "6.prems" by (intro emits_append [OF emits_always emits_name]) simp_all
  then show ?case using postfix_printed [OF s(2), of "''.'' @ name"] s(1) by (simp add: not_body)
next
  case (7 b index p x w)
  obtain inner where i: "(case index of None \<Rightarrow> Some [] | Some i \<Rightarrow> expr_text i 0 x False) = Some inner"
      "emits no_body inner (case index of None \<Rightarrow> [] | Some i \<Rightarrow> toks i 0 x False)"
    using 7 by (cases index) (auto simp: printed_def emits_Nil)
  have "printed (expr_text b ATOM_BINDING x True) (toks b 99 x True)"
    using "7.IH"(2) [OF i(1)] "7.prems" by (simp add: ATOM_BINDING_def)
  then obtain s where s: "expr_text b ATOM_BINDING x True = Some s" "printed (Some s) (toks b 99 x True)"
    by (auto simp: printed_def)
  have "emits no_body (inner @ '']'') ((case index of None \<Rightarrow> [] | Some i \<Rightarrow> toks i 0 x False) @ [symbol_token '']''])"
    by (rule emits_then [OF i(2) emits_any [OF emits_always]]) (simp_all add: not_body)
  then have "emits no_body (''['' @ inner @ '']'')
      ([symbol_token ''[''] @ (case index of None \<Rightarrow> [] | Some i \<Rightarrow> toks i 0 x False) @ [symbol_token '']''])"
    by (intro emits_append [OF emits_always]) simp_all
  then show ?case using postfix_printed [OF s(2), of "''['' @ inner @ '']''"] s(1) i(1) by (simp add: not_body)
next
  case (8 name args p x w)
  have "list_all2 printed (map (\<lambda>arg. expr_text arg 0 x False) args) (map (\<lambda>arg. toks arg 0 x False) args)"
    using 8 by (simp add: list_all2_conv_all_nth list_all_length)
  moreover from some_list [OF this] obtain ss where ss: "map (\<lambda>arg. expr_text arg 0 x False) args = map Some ss" by blast
  ultimately have "emits any (''('' @ join_args ss @ '')'') (paren_toks (join_toks (map (\<lambda>arg. toks arg 0 x False) args)))"
    by (intro emits_paren printed_join) simp
  then have "emits no_body (name @ ''('' @ join_args ss @ '')'')
      ([ident_token name] @ paren_toks (join_toks (map (\<lambda>arg. toks arg 0 x False) args)))"
    using "8.prems" emits_then [OF emits_name emits_any, of name] by (simp add: not_body)
  moreover have "expr_text (Call name args) p x w = Some (name @ ''('' @ join_args ss @ '')'')" by (simp add: ss)
  ultimately show ?case using name_hd [of name] "8.prems" by (simp only: toks.simps) (simp add: printed_def)
next
  case (9 op e p x w)
  then obtain s where s: "expr_text e UNARY_BINDING x True = Some s" "printed (Some s) (toks e 10 x True)"
    by (auto simp: printed_def UNARY_BINDING_def)
  have op: "op \<in> set Expr_Parser_UNARY_OPS" using "9.prems" by simp
  show ?case
    using unary_emits [OF op s(2)] printed_paren [OF unary_emits(1) [OF op s(2)]] s(1)
    by (auto simp: printed_def wrap_text_def UNARY_BINDING_def Let_def)
next
  case (10 op l r p x w)
  then obtain b where b: "map_of BINDING op = Some b" by (cases "map_of BINDING op") (auto simp: map_of_eq_None_iff)
  then have "printed (expr_text l b x True) (toks l b x True)" using 10 by simp
  then obtain s where s: "expr_text l b x True = Some s" "printed (Some s) (toks l b x True)" by (auto simp: printed_def)
  have "printed (expr_text r (b + 1) x True) (toks r (b + 1) x True)" using 10 b s(1) by simp
  then obtain s' where s': "expr_text r (b + 1) x True = Some s'" "printed (Some s') (toks r (b + 1) x True)" by (auto simp: printed_def)
  have op: "op \<in> fst ` set BINDING" using "10.prems" by simp
  note em = binary_emits [OF op s(2) s'(2)]
  have "s @ '' '' @ op @ '' '' @ s' \<noteq> [] \<and> hd (s @ '' '' @ op @ '' '' @ s') \<noteq> CHR ''=''"
    using s(2) by (auto simp: printed_def)
  then show ?case
    using em printed_paren [OF em] s(1) s'(1) b by (auto simp: printed_def wrap_text_def Let_def)
qed

end
