(* ===== verification/Expr_Roundtrip.thy ===== *)
theory Expr_Roundtrip
  imports Expr_Tokens
begin

text \<open>
  Parsing what the unparser wrote: the tokens of a printed expression bring the descent back to the
  tree.  An operand that stands without parentheses binds at least as tightly as its place asks
  for, so each level of the descent stops where the printer meant it to.
\<close>

section \<open>Brackets inside an index\<close>

text \<open>
  Behind an opening bracket, \<open>ts\<close> passes \<open>bracket_loop\<close> and leaves \<open>sh\<close> at the outer level.
\<close>

definition inert :: "token list \<Rightarrow> token list \<Rightarrow> bool" where
  "inert ts sh = (\<forall>d inner rest. bracket_loop (Suc d) inner (ts @ rest)
     = bracket_loop (Suc d) (if d = 0 then inner @ sh else inner) rest)"

definition deep :: "token list \<Rightarrow> bool" where
  "deep ts = (\<forall>d inner rest. bracket_loop (Suc (Suc d)) inner (ts @ rest) = bracket_loop (Suc (Suc d)) inner rest)"

lemma inert_append: "inert ts sh \<Longrightarrow> inert us sh' \<Longrightarrow> inert (ts @ us) (sh @ sh')"
  by (simp add: inert_def)

lemma inert_Nil: "inert [] []"
  by (simp add: inert_def)

lemma inert_deep: "inert ts sh \<Longrightarrow> deep ts"
  by (simp add: inert_def deep_def)

lemma deep_append: "deep ts \<Longrightarrow> deep us \<Longrightarrow> deep (ts @ us)"
  by (simp add: deep_def)

definition plain_token :: "token \<Rightarrow> bool" where
  "plain_token t = (\<not> is_symbol t {''['', ''('', '']'', '')'', ''='', '',''})"

lemma inert_token: "plain_token t \<Longrightarrow> inert [t] [t]"
  by (auto simp: inert_def plain_token_def is_symbol_def)

lemma inert_Cons: "plain_token t \<Longrightarrow> inert ts sh \<Longrightarrow> inert (t # ts) (t # sh)"
  using inert_append [OF inert_token] by fastforce

lemma deep_comma: "deep [symbol_token '','']"
  by (simp add: deep_def is_symbol_def)

lemma deep_bracketed:
  assumes "deep ts" "a \<in> {''('', ''[''}" "b \<in> {'')'', '']''}"
  shows "inert (symbol_token a # ts @ [symbol_token b]) []"
  using assms by (auto simp: inert_def deep_def is_symbol_def)

lemma inert_paren: "inert ts sh \<Longrightarrow> inert (paren_toks ts) []"
  unfolding paren_toks_def by (intro deep_bracketed) (simp_all add: inert_deep)

text \<open>The tokens of an expression that are outside all of its brackets.\<close>

fun shallow :: "expr \<Rightarrow> nat \<Rightarrow> bool \<Rightarrow> bool \<Rightarrow> token list" where
  "shallow (Access b name) p x w = shallow b 99 x True @ [symbol_token ''.'', ident_token name]"
| "shallow (Index b index) p x w = shallow b 99 x True"
| "shallow (Call name args) p x w = [ident_token name]"
| "shallow (Unary op e) p x w = (if (if x then w else 10 < p) then [] else symbol_token op # shallow e 10 x True)"
| "shallow (Binary op l r) p x w =
     (let b = the (map_of BINDING op) in
      if (if x then w else b < p) then [] else shallow l b x True @ symbol_token op # shallow r (b + 1) x True)"
| "shallow e p x w = toks e p x w"

lemma plain_kinds [simp]:
  "plain_token (ident_token s)" "plain_token (int_token s v)" "plain_token (char_token s)"
  "plain_token \<lparr>tok_kind = STRING, tok_text = s, tok_value = 0\<rparr>"
  "plain_token (symbol_token s) = (s \<notin> {''['', ''('', '']'', '')'', ''='', '',''})"
  by (auto simp: plain_token_def is_symbol_def int_token_def char_token_def)

lemma plain_operator: "op \<in> set Expr_Parser_UNARY_OPS \<or> op \<in> fst ` set BINDING \<Longrightarrow> op \<notin> {''['', ''('', '']'', '')'', ''='', '',''}"
  by (auto simp: Expr_Parser_UNARY_OPS_def BINDING_def)

lemma deep_join: "list_all deep tss \<Longrightarrow> deep (join_toks tss)"
proof (induction tss rule: join_toks.induct)
  case (3 a b tss)
  then show ?case using deep_append [OF _ deep_append [OF deep_comma]] by simp
qed (simp_all add: deep_def)

lemma inert_toks: "writable code x e \<Longrightarrow> inert (toks e p x w) (shallow e p x w)"
proof (induction e p x w rule: toks.induct)
  case (6 b name p x w)
  then show ?case using inert_append [of "toks b 99 x True" _ "[symbol_token ''.'', ident_token name]"]
    by (simp add: inert_Cons inert_Nil)
next
  case (7 b index p x w)
  have "deep (case index of None \<Rightarrow> [] | Some i \<Rightarrow> toks i 0 x False)"
    using 7 by (cases index) (auto intro: inert_deep inert_Nil)
  then show ?case
    using 7 inert_append [of "toks b 99 x True" "shallow b 99 x True" _ "[]"] deep_bracketed by fastforce
next
  case (8 name args p x w)
  have "list_all deep (map (\<lambda>arg. toks arg 0 x False) args)"
    using 8 by (auto simp: list_all_iff intro: inert_deep)
  then have "inert (paren_toks (join_toks (map (\<lambda>arg. toks arg 0 x False) args))) []"
    unfolding paren_toks_def by (intro deep_bracketed deep_join) simp_all
  then show ?case by (simp add: inert_Cons)
next
  case (9 op e p x w)
  then have "inert (symbol_token op # toks e 10 x True) (symbol_token op # shallow e 10 x True)"
    using plain_operator [of op] by (intro inert_Cons) auto
  moreover from inert_paren [OF this] have "inert (paren_toks (symbol_token op # toks e 10 x True)) []" .
  ultimately show ?case by (auto simp: Let_def)
next
  case (10 op l r p x w)
  let ?b = "the (map_of BINDING op)"
  have "inert (toks l ?b x True @ symbol_token op # toks r (?b + 1) x True) (shallow l ?b x True @ symbol_token op # shallow r (?b + 1) x True)"
    using 10 plain_operator [of op] by (intro inert_append inert_Cons) auto
  moreover from inert_paren [OF this]
  have "inert (paren_toks (toks l ?b x True @ symbol_token op # toks r (?b + 1) x True)) []" .
  ultimately show ?case by (auto simp: Let_def)
qed (auto simp: name_toks_def Let_def inert_Cons inert_Nil split: prod.split)

text \<open>An index is read as one unless its bracket would hold a lone attribute name.\<close>

lemma shallow_single:
  assumes "writable code x e" "shallow e p x w = [t]" "is_ident t BARE_ATTRIBUTE_NAMES"
  shows "bare_index e \<or> (\<exists>us. toks e p x w = t # symbol_token ''('' # us)"
  using assms
proof (induction e arbitrary: p w)
  case (NameRef name)
  obtain a rest where p: "name_parts name = (a, rest)" by fastforce
  then have "name = a @ rest" by (simp add: name_parts_def) (metis takeWhile_dropWhile_id)
  then show ?case using NameRef p by (auto simp: name_toks_def is_ident_def split: if_splits)
next
  case Remaining
  have "''remaining'' \<notin> BARE_ATTRIBUTE_NAMES" by code_simp
  then show ?case using Remaining by (auto simp: is_ident_def)
next
  case (Call name args)
  then show ?case by (auto simp: paren_toks_def)
next
  case (Index b index)
  then show ?case by fastforce
qed (auto simp: is_ident_def int_token_def char_token_def Let_def append_eq_Cons_conv split: if_splits)

lemma index_not_attrs:
  assumes "writable code x i" "\<not> bare_index i"
  shows "\<not> bracket_is_attrs (symbol_token ''['' # toks i 0 x False @ symbol_token '']'' # rest)"
proof
  let ?ts = "symbol_token ''['' # toks i 0 x False @ symbol_token '']'' # rest"
  assume a: "bracket_is_attrs ?ts"
  have "bracket_loop 0 [] ?ts = bracket_loop (Suc 0) [] (toks i 0 x False @ symbol_token '']'' # rest)"
    by (simp add: is_symbol_def)
  also have "\<dots> = Some (shallow i 0 x False)"
    using inert_toks [OF assms(1), of 0 False] by (simp add: inert_def is_symbol_def)
  finally have loop: "bracket_loop 0 [] ?ts = Some (shallow i 0 x False)" .
  then have sh: "length (shallow i 0 x False) = 1" "is_ident (hd (shallow i 0 x False)) BARE_ATTRIBUTE_NAMES"
      "\<not> (2 < length ?ts \<and> is_symbol (?ts ! 2) {''(''})"
    using a by (auto simp: bracket_is_attrs_def current_def is_symbol_def split: if_splits)
  then obtain t where t: "shallow i 0 x False = [t]" by (auto simp: length_Suc_conv)
  then obtain us where "toks i 0 x False = t # symbol_token ''('' # us"
    using shallow_single [OF assms(1) t] sh(2) assms(2) by auto
  then show False using sh(3) by (simp add: is_symbol_def)
qed

lemma empty_index_not_attrs: "\<not> bracket_is_attrs (symbol_token ''['' # symbol_token '']'' # rest)"
  by (simp add: bracket_is_attrs_def current_def is_symbol_def)

section \<open>Where the descent stops\<close>

definition trailing :: "string set" where
  "trailing = {''.'', ''('', ''::''}"

definition operators_from :: "nat \<Rightarrow> string set" where
  "operators_from L = set (concat (drop L PRECEDENCE))"

text \<open>What may stand behind an expression read at level \<open>L\<close>: nothing that level would take.\<close>

definition stops :: "nat \<Rightarrow> token list \<Rightarrow> bool" where
  "stops L rest = (\<not> is_symbol (current rest) (operators_from L \<union> trailing) \<and> (is_symbol (current rest) {''[''} \<longrightarrow> bracket_is_attrs rest))"

text \<open>What may stand behind a postfix expression that goes on.\<close>

definition quiet :: "token list \<Rightarrow> bool" where
  "quiet rest = (\<not> is_symbol (current rest) {''('', ''::''})"

lemma current_Cons [simp]: "current (t # ts) = t"
  by (simp add: current_def)

lemma advance_Cons [simp]: "tok_kind t \<noteq> EOF \<Longrightarrow> advance_token (t # ts) = ts"
  by (simp add: advance_token_def)

lemma is_symbol_simps [simp]:
  "is_symbol (symbol_token s) S = (s \<in> S)" "\<not> is_symbol (ident_token s) S" "\<not> is_symbol (int_token s v) S" "\<not> is_symbol (char_token s) S"
  "\<not> is_symbol \<lparr>tok_kind = STRING, tok_text = s, tok_value = 0\<rparr> S"
  by (simp_all add: is_symbol_def int_token_def char_token_def)

lemma accept_simps [simp]:
  "accept_symbol (symbol_token s # ts) S = (if s \<in> S then Some (symbol_token s, ts) else None)"
  by (simp add: accept_symbol_def)

lemma accept_none: "\<not> is_symbol (current ts) S \<Longrightarrow> accept_symbol ts S = None"
  by (simp add: accept_symbol_def)

lemma expect_simps [simp]: "expect_symbol (symbol_token s # ts) s = Inr (symbol_token s, ts)"
  "expect_ident (ident_token s # ts) = Inr (ident_token s, ts)"
  by (simp_all add: expect_symbol_def expect_ident_def)

lemma operators_from_mono: "L \<le> K \<Longrightarrow> operators_from K \<subseteq> operators_from L"
  using set_drop_subset_set_drop [of L K PRECEDENCE] by (auto simp: operators_from_def)

lemma stops_mono: "stops L rest \<Longrightarrow> L \<le> K \<Longrightarrow> stops K rest"
  using operators_from_mono [of L K] by (auto simp: stops_def is_symbol_def)

lemma stops_quiet: "stops L rest \<Longrightarrow> quiet rest"
  by (auto simp: stops_def quiet_def is_symbol_def trailing_def)

lemma PRECEDENCE_from: "L < 10 \<Longrightarrow> s \<in> set (PRECEDENCE ! L) \<Longrightarrow> s \<in> operators_from L"
  by (simp add: operators_from_def Cons_nth_drop_Suc [symmetric])

lemma binding_level:
  assumes "map_of BINDING op = Some b"
  shows "b < 10" "op \<in> set (PRECEDENCE ! b)" "op \<notin> operators_from (Suc b)" "op \<notin> trailing" "op \<noteq> ''[''"
proof -
  have "list_all (\<lambda>(op, b). b < 10 \<and> op \<in> set (PRECEDENCE ! b) \<and> op \<notin> operators_from (Suc b) \<and> op \<notin> trailing \<and> op \<noteq> ''['') BINDING"
    unfolding operators_from_def trailing_def by code_simp
  moreover have "(op, b) \<in> set BINDING" using assms by (rule map_of_SomeD)
  ultimately show "b < 10" "op \<in> set (PRECEDENCE ! b)" "op \<notin> operators_from (Suc b)" "op \<notin> trailing" "op \<noteq> ''[''"
    by (auto simp: list_all_iff)
qed

lemma stops_operator: "map_of BINDING op = Some b \<Longrightarrow> stops (Suc b) (symbol_token op # ts)"
  using binding_level by (auto simp: stops_def)

lemma no_closing: "s \<in> {'')'', '']'', '',''} \<Longrightarrow> s \<notin> operators_from L \<union> trailing"
proof -
  assume s: "s \<in> {'')'', '']'', '',''}"
  have "'')'' \<notin> operators_from 0 \<union> trailing" "'']'' \<notin> operators_from 0 \<union> trailing" "'','' \<notin> operators_from 0 \<union> trailing"
    unfolding operators_from_def trailing_def by code_simp+
  then show ?thesis using s operators_from_mono [of 0 L] by auto
qed

lemma stops_closing: "s \<in> {'')'', '']'', '',''} \<Longrightarrow> stops L (symbol_token s # ts)"
  using no_closing [of s L] by (auto simp: stops_def)

section \<open>Levels of the descent\<close>

definition read_at :: "(token \<Rightarrow> parse_error + int) \<Rightarrow> nat \<Rightarrow> expr \<Rightarrow> token list \<Rightarrow> expr parsed" where
  "read_at code L e rest = (if L = 10 then Inr (e, rest) else loop_at code L e rest)"

lemma loop_stops: "sound_code code \<Longrightarrow> L < 10 \<Longrightarrow> stops L rest \<Longrightarrow> loop_at code L e rest = Inr (e, rest)"
  using PRECEDENCE_from [of L] by (subst loop_at_eq) (auto simp: stops_def is_symbol_def)

lemma read_stops: "sound_code code \<Longrightarrow> L \<le> 10 \<Longrightarrow> stops L rest \<Longrightarrow> read_at code L e rest = Inr (e, rest)"
  by (auto simp: read_at_def loop_stops)

text \<open>What is read at a tight level is read at every looser one.\<close>

lemma read_lower:
  assumes "sound_code code" "expr_at code K ts = read_at code K e rest" "K \<le> 10" "L \<le> K" "stops (Suc L) rest"
  shows "expr_at code L ts = read_at code L e rest"
  using assms(4,5)
proof (induction "K - L" arbitrary: L)
  case 0
  then show ?case using assms(2) by simp
next
  case (Suc d)
  then have L: "Suc L \<le> K" "L < 10" using assms(3) by auto
  have "stops (Suc (Suc L)) rest" using Suc.prems(2) stops_mono by simp
  then have "expr_at code (Suc L) ts = read_at code (Suc L) e rest" using Suc L by simp
  also have "\<dots> = Inr (e, rest)" using Suc.prems(2) L assms(1) by (simp add: read_stops)
  finally show ?case using L assms(1) by (subst expr_at_eq) (simp_all add: read_at_def)
qed

lemma trail_stops: "sound_code code \<Longrightarrow> stops L rest \<Longrightarrow> trail_at code e rest = Inr (e, rest)"
  by (subst trail_at_eq) (auto simp: stops_def trailing_def is_symbol_def accept_symbol_def)

lemma unary_to_level: "sound_code code \<Longrightarrow> unary_at code ts = Inr (e, rest) \<Longrightarrow> expr_at code 10 ts = read_at code 10 e rest"
  by (subst expr_at_eq) (simp_all add: read_at_def)

section \<open>Reading back\<close>

fun tightness :: "expr \<Rightarrow> nat" where
  "tightness (Unary op e) = 10"
| "tightness (Binary op l r) = the (map_of BINDING op)"
| "tightness e = 11"

fun compound :: "expr \<Rightarrow> bool" where
  "compound (Unary op e) = True"
| "compound (Binary op l r) = True"
| "compound e = False"

lemma tightness_atom: "\<not> compound e \<Longrightarrow> tightness e = 11"
  by (cases e) auto

abbreviation bare_toks :: "expr \<Rightarrow> bool \<Rightarrow> token list" where
  "bare_toks e x \<equiv> toks e 0 x False"

lemma toks_wrapped:
  "toks e p x True = (if compound e \<and> (x \<or> tightness e < p) then paren_toks (bare_toks e x) else bare_toks e x)"
  by (cases e) (auto simp: Let_def)

text \<open>
  \<open>reads e\<close>: unparenthesised, \<open>e\<close> is read at any level it binds to, and as a postfix expression
  where it is one.
\<close>

definition reads :: "(token \<Rightarrow> parse_error + int) \<Rightarrow> bool \<Rightarrow> expr \<Rightarrow> bool" where
  "reads code x e =
     ((compound e \<longrightarrow> tightness e \<le> 10)
    \<and> (\<forall>L rest. L \<le> 10 \<longrightarrow> L \<le> tightness e \<longrightarrow> stops (Suc L) rest \<longrightarrow>
         expr_at code L (bare_toks e x @ rest) = read_at code L (spelt x e) rest)
    \<and> (\<not> compound e \<longrightarrow> (\<forall>rest. quiet rest \<longrightarrow>
         postfix_at code (bare_toks e x @ rest) = trail_at code (spelt x e) rest)))"

lemma readsD:
  assumes "reads code x e"
  shows "L \<le> 10 \<Longrightarrow> L \<le> tightness e \<Longrightarrow> stops (Suc L) rest \<Longrightarrow>
         expr_at code L (bare_toks e x @ rest) = read_at code L (spelt x e) rest"
    and "\<not> compound e \<Longrightarrow> quiet rest \<Longrightarrow> postfix_at code (bare_toks e x @ rest) = trail_at code (spelt x e) rest"
    and "compound e \<Longrightarrow> tightness e \<le> 10"
  using assms by (auto simp: reads_def)

lemma reads_whole: "reads code x e \<Longrightarrow> sound_code code \<Longrightarrow> stops 0 rest \<Longrightarrow> expr_at code 0 (bare_toks e x @ rest) = Inr (spelt x e, rest)"
  using readsD(1) [of code x e 0 rest] by (simp add: stops_mono read_stops)

lemma paren_primary:
  assumes "reads code x e" "sound_code code"
  shows "postfix_at code (paren_toks (bare_toks e x) @ rest) = trail_at code (spelt x e) rest"
proof -
  have "expr_at code 0 (bare_toks e x @ symbol_token '')'' # rest) = Inr (spelt x e, symbol_token '')'' # rest)"
    by (rule reads_whole [OF assms stops_closing]) simp
  then have "primary_at code (paren_toks (bare_toks e x) @ rest) = Inr (spelt x e, rest)"
    by (simp add: primary_at_eq [OF assms(2)] paren_toks_def Let_def)
  then show ?thesis by (simp add: postfix_at_eq [OF assms(2)])
qed

lemma postfix_to_unary:
  assumes "sound_code code" "postfix_at code ts = Inr (e, rest)" "\<not> is_symbol (current ts) (set Expr_Parser_UNARY_OPS)"
  shows "unary_at code ts = Inr (e, rest)"
  using assms by (simp add: unary_at_eq accept_none)

text \<open>The operand of a unary or binary operator, with the parentheses its place gives it.\<close>

lemma operand_read:
  assumes "reads code x e" "sound_code code" "p \<le> 10" "stops (Suc p) rest"
  shows "expr_at code p (toks e p x True @ rest) = read_at code p (spelt x e) rest"
proof (cases "compound e \<and> (x \<or> tightness e < p)")
  case True
  have "postfix_at code (paren_toks (bare_toks e x) @ rest) = Inr (spelt x e, rest)"
    using paren_primary [OF assms(1,2)] trail_stops [OF assms(2,4)] by simp
  then have "unary_at code (paren_toks (bare_toks e x) @ rest) = Inr (spelt x e, rest)"
    by (rule postfix_to_unary [OF assms(2)]) (simp add: paren_toks_def Expr_Parser_UNARY_OPS_def)
  then have "expr_at code p (paren_toks (bare_toks e x) @ rest) = read_at code p (spelt x e) rest"
    using read_lower [OF assms(2) unary_to_level [OF assms(2)]] assms(3,4) by simp
  then show ?thesis using True by (simp add: toks_wrapped)
next
  case False
  then have "p \<le> tightness e" using assms(3) tightness_atom [of e] by auto
  moreover have "toks e p x True = bare_toks e x" using False by (simp only: toks_wrapped if_False)
  ultimately show ?thesis using readsD(1) [OF assms(1,3)] assms(4) by simp
qed

lemma base_read:
  assumes "reads code x e" "sound_code code" "quiet rest"
  shows "postfix_at code (toks e 99 x True @ rest) = trail_at code (spelt x e) rest"
proof (cases "compound e")
  case True
  then show ?thesis using paren_primary [OF assms(1,2)] readsD(3) [OF assms(1)] by (simp add: toks_wrapped)
next
  case False
  then show ?thesis using readsD(2) [OF assms(1)] assms(3) by (simp add: toks_wrapped)
qed

lemma toks_head: "writable code x e \<Longrightarrow> \<exists>t ts. toks e p x w = t # ts \<and> \<not> is_symbol t {'')'', '']''}"
proof (induction e p x w rule: toks.induct)
  case (9 op e p x w)
  then show ?case by (auto simp: Let_def paren_toks_def Expr_Parser_UNARY_OPS_def)
next
  case (10 op l r p x w)
  then obtain t ts where "toks l (the (map_of BINDING op)) x True = t # ts" "\<not> is_symbol t {'')'', '']''}" by fastforce
  then show ?case by (auto simp: Let_def paren_toks_def)
next
  case (6 b name p x w)
  then obtain t ts where "toks b 99 x True = t # ts" "\<not> is_symbol t {'')'', '']''}" by auto
  then show ?case by simp
next
  case (7 b index p x w)
  then obtain t ts where "toks b 99 x True = t # ts" "\<not> is_symbol t {'')'', '']''}" by auto
  then show ?case by simp
qed (auto simp: name_toks_def Let_def split: prod.split)

lemma base_head: "writable code x e \<Longrightarrow> \<exists>t ts. toks e 99 x True = t # ts \<and> \<not> is_symbol t (set Expr_Parser_UNARY_OPS)"
proof (induction e)
  case (Binary op l r)
  then obtain b where "map_of BINDING op = Some b" by (cases "map_of BINDING op") (auto simp: map_of_eq_None_iff)
  then show ?case using binding_level(1) [of op b] by (auto simp: Let_def paren_toks_def Expr_Parser_UNARY_OPS_def)
qed (auto simp: name_toks_def Let_def paren_toks_def Expr_Parser_UNARY_OPS_def split: prod.split)

lemma atom_reads:
  assumes "sound_code code" "writable code x e" "\<not> compound e"
    and "\<And>rest. quiet rest \<Longrightarrow> postfix_at code (bare_toks e x @ rest) = trail_at code (spelt x e) rest"
  shows "reads code x e"
proof -
  have "expr_at code L (bare_toks e x @ rest) = read_at code L (spelt x e) rest" if "L \<le> 10" "stops (Suc L) rest" for L rest
  proof -
    obtain t ts where t: "bare_toks e x = t # ts" "\<not> is_symbol t (set Expr_Parser_UNARY_OPS)"
      using base_head [OF assms(2)] assms(3) by (auto simp: toks_wrapped)
    have "postfix_at code (bare_toks e x @ rest) = Inr (spelt x e, rest)"
      using assms(4) [OF stops_quiet [OF that(2)]] trail_stops [OF assms(1) that(2)] by simp
    then have "unary_at code (bare_toks e x @ rest) = Inr (spelt x e, rest)"
      by (rule postfix_to_unary [OF assms(1)]) (use t in simp)
    then show ?thesis by (intro read_lower [OF assms(1) unary_to_level [OF assms(1)]] that) simp_all
  qed
  then show ?thesis using assms(3,4) by (simp add: reads_def)
qed

lemma primary_reads:
  assumes "sound_code code" "writable code x e" "\<not> compound e"
    and "\<And>rest. quiet rest \<Longrightarrow> primary_at code (bare_toks e x @ rest) = Inr (spelt x e, rest)"
  shows "reads code x e"
  using assms by (intro atom_reads) (simp_all add: postfix_at_eq)

lemma args_read:
  assumes "sound_code code" "list_all (\<lambda>arg. writable code x arg \<and> reads code x arg) args"
  shows "args_at code acc (join_toks (map (\<lambda>arg. bare_toks arg x) args) @ symbol_token '')'' # rest)
    = Inr (acc @ map (spelt x) args, symbol_token '')'' # rest)"
  using assms(2)
proof (induction args arbitrary: acc rule: induct_list012)
  case 1
  then show ?case by (simp add: args_at_eq [OF assms(1)])
next
  case (2 a)
  obtain t ts where t: "bare_toks a x = t # ts" "\<not> is_symbol t {'')''}"
    using toks_head [of code x a 0 False] 2 by (auto simp: is_symbol_def)
  have "expr_at code 0 (bare_toks a x @ symbol_token '')'' # rest) = Inr (spelt x a, symbol_token '')'' # rest)"
    using 2 by (intro reads_whole [OF _ assms(1) stops_closing]) simp_all
  then show ?case using t by (simp add: args_at_eq [OF assms(1)])
next
  case (3 a b args)
  obtain t ts where t: "bare_toks a x = t # ts" "\<not> is_symbol t {'')''}"
    using toks_head [of code x a 0 False] 3 by (auto simp: is_symbol_def)
  let ?more = "join_toks (map (\<lambda>arg. bare_toks arg x) (b # args)) @ symbol_token '')'' # rest"
  have "expr_at code 0 (bare_toks a x @ symbol_token '','' # ?more) = Inr (spelt x a, symbol_token '','' # ?more)"
    using 3 by (intro reads_whole [OF _ assms(1) stops_closing]) simp_all
  moreover have "args_at code (acc @ [spelt x a]) ?more = Inr ((acc @ [spelt x a]) @ map (spelt x) (b # args), symbol_token '')'' # rest)"
    using 3 by (intro "3.IH"(2)) simp_all
  ultimately show ?case using t by (simp add: args_at_eq [OF assms(1), of acc])
qed

lemma call_reads:
  assumes "sound_code code" "writable code x (Call name args)" "list_all (reads code x) args"
  shows "reads code x (Call name args)"
proof (rule primary_reads [OF assms(1,2)])
  fix rest :: "token list"
  have a: "list_all (\<lambda>arg. writable code x arg \<and> reads code x arg) args" using assms(2,3) by (simp add: list_all_iff)
  show "primary_at code (bare_toks (Call name args) x @ rest) = Inr (spelt x (Call name args), rest)"
    using assms(2) args_read [OF assms(1) a, of "[]" rest]
    by (simp add: primary_at_eq [OF assms(1)] call_at_eq [OF assms(1)] paren_toks_def accept_symbol_def Let_def)
qed simp

lemma name_reads:
  assumes "sound_code code" "is_reference name"
  shows "reads code x (NameRef name)"
proof (rule primary_reads [OF assms(1)])
  obtain a tail where p: "name_parts name = (a, tail)" by fastforce
  then have name: "name = a @ tail" by (simp add: name_parts_def) (metis takeWhile_dropWhile_id)
  fix rest assume q: "quiet rest"
  show "primary_at code (bare_toks (NameRef name) x @ rest) = Inr (spelt x (NameRef name), rest)"
  proof (cases "tail = []")
    case True
    then show ?thesis using p name q assms(2)
      by (auto simp: name_toks_def primary_at_eq [OF assms(1)] is_reference_def quiet_def accept_symbol_def is_symbol_def Let_def)
  next
    case False
    then have "take 2 tail = ''::''" using assms(2) p by (simp add: is_reference_def)
    then have "tail = ''::'' @ drop 2 tail" using append_take_drop_id [of 2 tail] by simp
    then show ?thesis using p name q assms(2) False
      by (auto simp: name_toks_def primary_at_eq [OF assms(1)] is_reference_def quiet_def accept_symbol_def is_symbol_def
          parse_qualification_def expect_symbol_def expect_ident_def Let_def)
  qed
qed (use assms in simp_all)

lemma access_reads:
  assumes "sound_code code" "writable code x (Access b name)" "reads code x b"
  shows "reads code x (Access b name)"
proof (rule atom_reads [OF assms(1,2)])
  fix rest assume "quiet rest"
  have "postfix_at code (toks b 99 x True @ symbol_token ''.'' # ident_token name # rest)
      = trail_at code (spelt x b) (symbol_token ''.'' # ident_token name # rest)"
    by (rule base_read [OF assms(3,1)]) (simp add: quiet_def)
  then show "postfix_at code (bare_toks (Access b name) x @ rest) = trail_at code (spelt x (Access b name)) rest"
    by (simp add: trail_at_eq [OF assms(1), of "spelt x b"])
qed simp

lemma index_reads:
  assumes "sound_code code" "writable code x (Index b index)" "reads code x b" "\<And>i. index = Some i \<Longrightarrow> reads code x i"
  shows "reads code x (Index b index)"
proof (rule atom_reads [OF assms(1,2)])
  fix rest assume "quiet rest"
  let ?inner = "case index of None \<Rightarrow> [] | Some i \<Rightarrow> bare_toks i x"
  let ?ts = "symbol_token ''['' # ?inner @ symbol_token '']'' # rest"
  have base: "postfix_at code (toks b 99 x True @ ?ts) = trail_at code (spelt x b) ?ts"
    by (rule base_read [OF assms(3,1)]) (simp add: quiet_def)
  have "\<not> bracket_is_attrs ?ts"
    using assms(2) empty_index_not_attrs index_not_attrs by (auto split: option.split)
  moreover have "index_at code (spelt x b) ?ts = Inr (Index (spelt x b) (map_option (spelt x) index), rest)"
  proof (cases index)
    case None
    then show ?thesis by (simp add: index_at_eq [OF assms(1)] Let_def)
  next
    case (Some i)
    obtain t ts where t: "bare_toks i x = t # ts" "\<not> is_symbol t {'']''}"
      using toks_head [of code x i 0 False] assms(2) Some by (auto simp: is_symbol_def)
    have "expr_at code 0 (bare_toks i x @ symbol_token '']'' # rest) = Inr (spelt x i, symbol_token '']'' # rest)"
      by (rule reads_whole [OF assms(4) [OF Some] assms(1) stops_closing]) simp
    then show ?thesis using Some t by (simp add: index_at_eq [OF assms(1)] Let_def)
  qed
  ultimately have "trail_at code (spelt x b) ?ts = trail_at code (spelt x (Index b index)) rest"
    by (simp add: trail_at_eq [OF assms(1), of "spelt x b"])
  then show "postfix_at code (bare_toks (Index b index) x @ rest) = trail_at code (spelt x (Index b index)) rest"
    using base by (simp add: append_assoc [symmetric] del: append_assoc) simp
qed simp

lemma bare_compound:
  "bare_toks (Unary op e) x = symbol_token op # toks e 10 x True"
  "map_of BINDING op = Some b \<Longrightarrow> bare_toks (Binary op l r) x = toks l b x True @ symbol_token op # toks r (Suc b) x True"
  by (cases x; simp)+

lemma unary_reads:
  assumes "sound_code code" "op \<in> set Expr_Parser_UNARY_OPS" "reads code x e"
  shows "reads code x (Unary op e)"
proof -
  have "expr_at code L (bare_toks (Unary op e) x @ rest) = read_at code L (spelt x (Unary op e)) rest"
    if "L \<le> 10" "stops (Suc L) rest" for L rest
  proof -
    have "expr_at code 10 (toks e 10 x True @ rest) = Inr (spelt x e, rest)"
      using operand_read [OF assms(3,1), of 10 rest] stops_mono [OF that(2)] that(1)
      by (cases "L = 10") (auto simp: read_at_def)
    then have "unary_at code (toks e 10 x True @ rest) = Inr (spelt x e, rest)"
      by (simp add: expr_at_eq [OF assms(1)])
    then have "unary_at code (symbol_token op # toks e 10 x True @ rest) = Inr (Unary op (spelt x e), rest)"
      using assms(2) by (subst unary_at_eq [OF assms(1)]) simp
    then have "expr_at code 10 (symbol_token op # toks e 10 x True @ rest) = read_at code 10 (Unary op (spelt x e)) rest"
      by (rule unary_to_level [OF assms(1)])
    then show ?thesis unfolding bare_compound spelt.simps
      using read_lower [OF assms(1) _ _ that(1,2)] by simp
  qed
  then show ?thesis by (simp add: reads_def)
qed

lemma binary_reads:
  assumes "sound_code code" "map_of BINDING op = Some b" "reads code x l" "reads code x r"
  shows "reads code x (Binary op l r)"
proof -
  note b = binding_level [OF assms(2)]
  have "expr_at code L (bare_toks (Binary op l r) x @ rest) = read_at code L (spelt x (Binary op l r)) rest"
    if L: "L \<le> b" "stops (Suc L) rest" for L rest
  proof -
    have after: "stops (Suc b) rest" using stops_mono [OF L(2)] L(1) by simp
    let ?right = "toks r (Suc b) x True @ rest"
    have "expr_at code b (toks l b x True @ symbol_token op # ?right) = loop_at code b (spelt x l) (symbol_token op # ?right)"
      using operand_read [OF assms(3,1) _ stops_operator [OF assms(2)]] b(1) by (simp add: read_at_def)
    also have "\<dots> = bindE (expr_at code (Suc b) ?right) (\<lambda>(right, rest). loop_at code b (Binary op (spelt x l) right) rest)"
      using b(1,2) by (subst loop_at_eq [OF assms(1)]) simp_all
    also have "expr_at code (Suc b) ?right = Inr (spelt x r, rest)"
      using operand_read [OF assms(4,1), of "Suc b" rest] stops_mono [OF after] read_stops [OF assms(1), of "Suc b" rest] after b(1)
      by simp
    finally have "expr_at code b (toks l b x True @ symbol_token op # ?right) = read_at code b (Binary op (spelt x l) (spelt x r)) rest"
      using b(1) by (simp add: read_at_def)
    then show ?thesis unfolding bare_compound(2) [OF assms(2)] spelt.simps
      using read_lower [OF assms(1) _ _ L] b(1) by simp
  qed
  then show ?thesis using assms(2) b(1) by (simp add: reads_def)
qed

lemma writable_reads: "sound_code code \<Longrightarrow> writable code x e \<Longrightarrow> reads code x e"
proof (induction e)
  case (Binary op l r)
  then obtain b where "map_of BINDING op = Some b" by (cases "map_of BINDING op") (auto simp: map_of_eq_None_iff)
  then show ?case using Binary by (intro binary_reads) simp_all
next
  case (Call name args)
  then have "list_all (reads code x) args" by (simp add: list_all_iff)
  then show ?case using Call.prems by (intro call_reads)
next
  case (Index b index)
  then show ?case by (intro index_reads) (auto simp: option.set_intros)
next
  case (CharLiteral c v)
  then show ?case
    by (intro primary_reads) (auto simp: primary_at_eq int_token_def char_token_def Let_def)
qed (simp_all add: unary_reads access_reads name_reads primary_reads primary_at_eq int_token_def Let_def accept_symbol_def)

section \<open>Printing, scanning, parsing\<close>

text \<open>What a compiler reads an expression with: the scanner, then the descent, up to the end of the text.\<close>

definition reparse :: "encoder \<Rightarrow> string list \<Rightarrow> string \<Rightarrow> (lex_error + parse_error) + expr \<times> token list" where
  "reparse encode encs source =
     (case tokenize source of
        Inl e \<Rightarrow> Inl (Inl e)
      | Inr tokens \<Rightarrow> (case parse_expression encode encs (map fst tokens) of Inl e \<Rightarrow> Inl (Inr e) | Inr r \<Rightarrow> Inr r))"

text \<open>The round trip in both forms, for the trees that can be written.\<close>

lemma printed_reparse:
  assumes "writable (character_code encode encs) explicit e"
  shows "\<exists>source. expr_to_source e explicit = Some source
    \<and> reparse encode encs source = Inr (spelt explicit e, [EOF_TOKEN])"
proof -
  obtain s where s: "expr_to_source e explicit = Some s" "emits no_body s (bare_toks e explicit)"
    using expr_text_tokens [OF assms, of 0 False] by (auto simp: printed_def expr_to_source_def)
  obtain tokens where t: "tokenize s = Inr tokens" "map fst tokens = bare_toks e explicit @ [EOF_TOKEN]"
    using tokenize_if_lex [OF emits_lex [OF s(2)]] by auto
  have "expr_at (character_code encode encs) 0 (bare_toks e explicit @ [EOF_TOKEN]) = Inr (spelt explicit e, [EOF_TOKEN])"
    by (rule reads_whole [OF writable_reads [OF sound_character_code assms] sound_character_code])
      (simp add: stops_def is_symbol_def EOF_TOKEN_def)
  then show ?thesis using s(1) t by (simp add: reparse_def parse_expression_at)
qed

end
