(* ===== verification/Expr_Printable.thy ===== *)
theory Expr_Printable
  imports Expr_Roundtrip
begin

text \<open>
  Every tree that parsing a text gives can be printed: the scanner's tokens hold what their kinds
  promise, and the descent builds its trees from nothing else.
\<close>

section \<open>What the scanner hands on\<close>

definition lexed :: "token \<Rightarrow> bool" where
  "lexed t =
     ((tok_kind t = IDENT \<longrightarrow> is_name (tok_text t))
    \<and> (tok_kind t = INTEGER \<longrightarrow> is_number (tok_text t) (tok_value t))
    \<and> (tok_kind t = CHARACTER \<longrightarrow> t = char_token (tok_text t) \<and> length (tok_text t) = 1))"

lemma scan_digits_alone:
  assumes "scan_digits radix allowed start body = Inr (t, rest)" "start = pre @ body"
  shows "\<exists>run. run \<noteq> [] \<and> body = run @ rest \<and> tok_text t = pre @ run
     \<and> scan_digits radix allowed (pre @ run) run = Inr (t, [])"
proof -
  let ?P = "\<lambda>c. c \<in> allowed \<or> c = CHR ''_''"
  let ?run = "takeWhile ?P body"
  from assms(1) have t: "rest = dropWhile ?P body" "filter (\<lambda>c. c \<noteq> CHR ''_'') ?run \<noteq> []"
      "\<exists>v. py_int (map char_byte (filter (\<lambda>c. c \<noteq> CHR ''_'') ?run)) radix = Some v
        \<and> t = \<lparr>tok_kind = INTEGER, tok_text = take (length start - length rest) start, tok_value = v\<rparr>"
    by (auto simp: scan_digits_def Let_def split: if_splits option.splits)
  then obtain v where v: "py_int (map char_byte (filter (\<lambda>c. c \<noteq> CHR ''_'') ?run)) radix = Some v"
      "t = \<lparr>tok_kind = INTEGER, tok_text = take (length start - length rest) start, tok_value = v\<rparr>" by blast
  have body: "body = ?run @ rest" unfolding t(1) by simp
  then have "start = (pre @ ?run) @ rest" using assms(2) by simp
  then have held: "take (length start - length rest) start = pre @ ?run" by (metis append_eq_conv_conj diff_add_inverse2 length_append)
  have "\<forall>c \<in> set ?run. ?P c" using set_takeWhileD [of _ ?P body] by blast
  then have w: "takeWhile ?P ?run = ?run" "dropWhile ?P ?run = []" by (rule iffD2 [OF takeWhile_eq_all_conv], rule iffD2 [OF dropWhile_eq_Nil_conv])
  have "?run \<noteq> []" using t(2) by auto
  moreover have "scan_digits radix allowed (pre @ ?run) ?run = Inr (t, [])"
    unfolding scan_digits_def Let_def w using t(2) v held by simp
  moreover have "tok_text t = pre @ ?run" unfolding v(2) held by simp
  ultimately show ?thesis using body by blast
qed

lemma scan_int_number:
  assumes "scan_int s = Inr (t, rest)" "s \<noteq> []" "hd s \<in> Lexer_DIGITS"
  shows "is_number (tok_text t) (tok_value t)"
proof -
  have kind: "t = \<lparr>tok_kind = INTEGER, tok_text = tok_text t, tok_value = tok_value t\<rparr>"
    using scan_int_suffix [OF assms(1)] by (cases t) simp
  consider (decimal) "scan_digits 10 Lexer_DIGITS s s = Inr (t, rest)"
      "\<And>c m b. s = c # m # b \<Longrightarrow> c = CHR ''0'' \<Longrightarrow> map_of RADIX_DIGITS m = None"
    | (marked) m b allowed radix where "s = CHR ''0'' # m # b" "map_of RADIX_DIGITS m = Some allowed" "b \<noteq> []" "hd b \<in> allowed"
      "radix = (if m = CHR ''x'' then 16 else 2)" "scan_digits radix allowed s b = Inr (t, rest)"
    using assms(1) by (auto simp: scan_int_def split: list.splits option.splits if_splits)
  then show ?thesis
  proof cases
    case decimal
    then obtain run where r: "run \<noteq> []" "s = run @ rest" "tok_text t = run" "scan_digits 10 Lexer_DIGITS run run = Inr (t, [])"
      using scan_digits_alone [of 10 Lexer_DIGITS s s t rest "[]"] by auto
    have "scan_int run = scan_digits 10 Lexer_DIGITS run run"
      using decimal(2) r(2) by (auto simp: scan_int_def split: list.split option.split)
    then show ?thesis using r assms(3) kind by (simp add: is_number_def)
  next
    case marked
    then obtain run where r: "run \<noteq> []" "b = run @ rest" "tok_text t = CHR ''0'' # m # run"
        "scan_digits radix allowed (CHR ''0'' # m # run) run = Inr (t, [])"
      using scan_digits_alone [of radix allowed s b t rest "[CHR ''0'', m]"] by auto
    have "scan_int (CHR ''0'' # m # run) = Inr (t, [])"
      using marked r by (auto simp: scan_int_def)
    then show ?thesis using r(3) kind by (simp add: is_number_def Lexer_DIGITS_def)
  qed
qed

lemma scan_token_lexed:
  assumes "scan_token s = Inr (t, rest)" "s \<noteq> []"
  shows "lexed t"
proof -
  have name: "is_name (takeWhile (\<lambda>c. c \<in> IDENT_BODY) s)" if "hd s \<in> IDENT_START"
    using that assms(2) by (cases s) (auto simp: is_name_def IDENT_BODY_def list_all_iff dest: set_takeWhileD)
  have number: "is_number (tok_text t) (tok_value t)" "tok_kind t = INTEGER" if "scan_int s = Inr (t, rest)" "hd s \<in> Lexer_DIGITS"
    using scan_int_number scan_int_suffix that assms(2) by blast+
  show ?thesis
    using assms(1) name number
    by (auto simp: scan_token_def Let_def scan_ident_def scan_string_def scan_char_def lexed_def char_token_def
        split: if_splits option.splits)
qed

lemma lex_lexed: "lex s = Inr ts \<Longrightarrow> list_all lexed ts"
proof (induction s arbitrary: ts rule: lex.induct)
  case (1 s)
  show ?case
  proof (cases "skip_trivia s")
    case (Inr at)
    show ?thesis
    proof (cases "at = []")
      case True
      then show ?thesis using "1.prems" Inr by (auto simp: lex.simps [of s] lexed_def EOF_TOKEN_def)
    next
      case False
      then obtain t rest us where "scan_token at = Inr (t, rest)" "lex rest = Inr us" "ts = t # us"
        using "1.prems" Inr by (auto simp: lex.simps [of s] split: sum.splits)
      then show ?thesis using "1.IH" [OF Inr False] scan_token_lexed False by auto
    qed
  qed (use "1.prems" in \<open>simp add: lex.simps [of s]\<close>)
qed

section \<open>What the descent builds\<close>

fun parsed_tree :: "(token \<Rightarrow> parse_error + int) \<Rightarrow> expr \<Rightarrow> bool" where
  "parsed_tree code (IntLiteral v t) = is_number t v"
| "parsed_tree code (CharLiteral c v) = (length c = 1 \<and> code (char_token c) = Inr v)"
| "parsed_tree code (StringLiteral s) = True"
| "parsed_tree code (NameRef name) = is_reference name"
| "parsed_tree code Remaining = True"
| "parsed_tree code (Access b name) = (parsed_tree code b \<and> is_name name)"
| "parsed_tree code (Index b index) = (parsed_tree code b \<and> (case index of None \<Rightarrow> True | Some i \<Rightarrow> parsed_tree code i))"
| "parsed_tree code (Call name args) = (is_name name \<and> name \<noteq> ''remaining'' \<and> list_all (parsed_tree code) args)"
| "parsed_tree code (Unary op e) = (op \<in> set Expr_Parser_UNARY_OPS \<and> parsed_tree code e)"
| "parsed_tree code (Binary op l r) = (op \<in> fst ` set BINDING \<and> parsed_tree code l \<and> parsed_tree code r)"

text \<open>No index is a lone attribute name.\<close>

fun plain_indexes :: "expr \<Rightarrow> bool" where
  "plain_indexes (Access b name) = plain_indexes b"
| "plain_indexes (Index b index) =
     (plain_indexes b \<and> (case index of None \<Rightarrow> True | Some i \<Rightarrow> plain_indexes i \<and> \<not> bare_index i))"
| "plain_indexes (Call name args) = list_all plain_indexes args"
| "plain_indexes (Unary op e) = plain_indexes e"
| "plain_indexes (Binary op l r) = (plain_indexes l \<and> plain_indexes r)"
| "plain_indexes e = True"

lemma writable_iff: "writable code False e \<longleftrightarrow> parsed_tree code e \<and> plain_indexes e"
proof (induction e)
  case (Index b index)
  then show ?case by (cases index) auto
next
  case (Call name args)
  then show ?case by (auto simp: list_all_iff)
qed auto

definition yields :: "('a \<Rightarrow> bool) \<Rightarrow> 'a parsed \<Rightarrow> bool" where
  "yields P r = (case r of Inl e \<Rightarrow> True | Inr (x, rest) \<Rightarrow> P x \<and> list_all lexed rest)"

lemma yields_simps [simp]: "yields P (Inr (x, rest)) \<longleftrightarrow> P x \<and> list_all lexed rest" "yields P (Inl e)"
  by (simp_all add: yields_def)

lemma yields_bind:
  assumes "yields P r" "\<And>x rest. P x \<Longrightarrow> list_all lexed rest \<Longrightarrow> yields Q (f (x, rest))"
  shows "yields Q (bindE r f)"
proof (cases r)
  case (Inr p)
  then show ?thesis using assms by (cases p) simp
qed simp

lemma lexed_advance: "list_all lexed ts \<Longrightarrow> list_all lexed (advance_token ts)"
  by (cases ts) (auto simp: advance_token_def)

lemma lexed_current: "list_all lexed ts \<Longrightarrow> lexed (current ts)"
  by (cases ts) (auto simp: current_def lexed_def EOF_TOKEN_def)

lemma accept_lexed: "accept_symbol ts S = Some (t, rest) \<Longrightarrow> list_all lexed ts \<Longrightarrow> list_all lexed rest \<and> tok_text t \<in> S"
  by (auto simp: accept_symbol_def is_symbol_def lexed_advance split: if_splits)

lemma expect_symbol_lexed: "list_all lexed ts \<Longrightarrow> yields (\<lambda>t. True) (expect_symbol ts s)"
  by (auto simp: expect_symbol_def dest: accept_lexed split: option.split)

lemma expect_ident_lexed: "list_all lexed ts \<Longrightarrow> yields (\<lambda>t. is_name (tok_text t)) (expect_ident ts)"
  using lexed_current [of ts] by (auto simp: expect_ident_def lexed_def lexed_advance)

lemma name_whole: "is_name a \<Longrightarrow> name_parts a = (a, [])"
  using takeWhile_then [of "\<lambda>c. c \<in> IDENT_BODY" a "[]"] by (simp add: name_parts_def is_name_def)

lemma name_reference: "is_name a \<Longrightarrow> a \<noteq> ''remaining'' \<Longrightarrow> is_reference a"
  by (simp add: is_reference_def name_whole)

lemma qualified_reference: "is_name a \<Longrightarrow> a \<noteq> ''remaining'' \<Longrightarrow> is_name b \<Longrightarrow> is_reference (a @ ''::'' @ b)"
  using takeWhile_then [of "\<lambda>c. c \<in> IDENT_BODY" a "''::'' @ b"] not_body(8)
  by (simp add: is_reference_def name_parts_def is_name_def)

lemma qualification_lexed:
  assumes "list_all lexed ts" "is_name (tok_text t)" "tok_text t \<noteq> ''remaining''"
  shows "yields is_reference (parse_qualification t ts)"
  unfolding parse_qualification_def
  by (rule yields_bind [OF expect_symbol_lexed [OF assms(1)]], simp, rule yields_bind [OF expect_ident_lexed])
    (use assms qualified_reference in auto)

definition building :: "nat \<Rightarrow> (token \<Rightarrow> parse_error + int) \<Rightarrow> bool" where
  "building n code = (\<forall>ts. list_all lexed ts \<longrightarrow>
     ((\<forall>L. yields (parsed_tree code) (parse_expr n code L ts))
    \<and> (\<forall>L l. L < 10 \<longrightarrow> parsed_tree code l \<longrightarrow> yields (parsed_tree code) (binary_loop n code L l ts))
    \<and> yields (parsed_tree code) (parse_unary n code ts)
    \<and> yields (parsed_tree code) (parse_postfix n code ts)
    \<and> (\<forall>e. parsed_tree code e \<longrightarrow> yields (parsed_tree code) (postfix_loop n code e ts))
    \<and> (\<forall>b. parsed_tree code b \<longrightarrow> yields (parsed_tree code) (parse_index n code b ts))
    \<and> yields (parsed_tree code) (parse_primary n code ts)
    \<and> (\<forall>name. is_name (tok_text name) \<longrightarrow> tok_text name \<noteq> ''remaining'' \<longrightarrow> yields (parsed_tree code) (parse_call n code name ts))
    \<and> (\<forall>args. list_all (parsed_tree code) args \<longrightarrow> yields (list_all (parsed_tree code)) (call_loop n code args ts))))"

lemma buildingD:
  assumes "building n code" "list_all lexed ts"
  shows "yields (parsed_tree code) (parse_expr n code L ts)"
    and "L < 10 \<Longrightarrow> parsed_tree code l \<Longrightarrow> yields (parsed_tree code) (binary_loop n code L l ts)"
    and "yields (parsed_tree code) (parse_unary n code ts)"
    and "yields (parsed_tree code) (parse_postfix n code ts)"
    and "parsed_tree code e \<Longrightarrow> yields (parsed_tree code) (postfix_loop n code e ts)"
    and "parsed_tree code b \<Longrightarrow> yields (parsed_tree code) (parse_index n code b ts)"
    and "yields (parsed_tree code) (parse_primary n code ts)"
    and "is_name (tok_text name) \<Longrightarrow> tok_text name \<noteq> ''remaining'' \<Longrightarrow> yields (parsed_tree code) (parse_call n code name ts)"
    and "list_all (parsed_tree code) args \<Longrightarrow> yields (list_all (parsed_tree code)) (call_loop n code args ts)"
  using assms by (auto simp: building_def)

lemma operator_known: "L < 10 \<Longrightarrow> op \<in> set (PRECEDENCE ! L) \<Longrightarrow> op \<in> fst ` set BINDING"
proof -
  have "list_all (\<lambda>ops. list_all (\<lambda>op. op \<in> set (map fst BINDING)) ops) PRECEDENCE" by code_simp
  then show "L < 10 \<Longrightarrow> op \<in> set (PRECEDENCE ! L) \<Longrightarrow> op \<in> fst ` set BINDING"
    by (simp add: list_all_iff) (metis PRECEDENCE_length nth_mem)
qed

lemma building_expr:
  "building n code \<Longrightarrow> list_all lexed ts \<Longrightarrow> yields (parsed_tree code) (parse_expr (Suc n) code L ts)"
  by (auto simp: parse_expr.simps(2) buildingD intro!: yields_bind [where P = "parsed_tree code"])

lemma building_binary_loop:
  "building n code \<Longrightarrow> list_all lexed ts \<Longrightarrow> L < 10 \<Longrightarrow> parsed_tree code l \<Longrightarrow> yields (parsed_tree code) (binary_loop (Suc n) code L l ts)"
  using operator_known [of L "tok_text (current ts)"]
  by (auto simp: binary_loop.simps(2) buildingD lexed_advance is_symbol_def intro!: yields_bind [where P = "parsed_tree code"])

lemma building_unary:
  "building n code \<Longrightarrow> list_all lexed ts \<Longrightarrow> yields (parsed_tree code) (parse_unary (Suc n) code ts)"
  by (auto simp: parse_unary.simps(2) buildingD dest: accept_lexed intro!: yields_bind [where P = "parsed_tree code"]
      split: option.split)

lemma building_postfix:
  "building n code \<Longrightarrow> list_all lexed ts \<Longrightarrow> yields (parsed_tree code) (parse_postfix (Suc n) code ts)"
  by (auto simp: parse_postfix.simps(2) buildingD intro!: yields_bind [where P = "parsed_tree code"])

lemma building_postfix_loop:
  assumes "building n code" "list_all lexed ts" "parsed_tree code e"
  shows "yields (parsed_tree code) (postfix_loop (Suc n) code e ts)"
proof -
  have access: "yields (parsed_tree code) (bindE (expect_ident rest) (\<lambda>(name, ts). postfix_loop n code (Access e (tok_text name)) ts))"
    if "accept_symbol ts {''.''} = Some (dot, rest)" for dot rest
  proof (rule yields_bind [OF expect_ident_lexed])
    show "list_all lexed rest" using accept_lexed [OF that assms(2)] by simp
  qed (use assms in \<open>simp add: buildingD\<close>)
  have index: "yields (parsed_tree code) (bindE (parse_index n code e ts) (\<lambda>(e, ts). postfix_loop n code e ts))"
    by (rule yields_bind [OF buildingD(6) [OF assms]]) (use assms(1) in \<open>simp add: buildingD\<close>)
  show ?thesis using access index assms(2,3) by (auto simp: postfix_loop.simps(2) split: option.split)
qed

lemma building_index:
  assumes "building n code" "list_all lexed ts" "parsed_tree code b"
  shows "yields (parsed_tree code) (parse_index (Suc n) code b ts)"
proof -
  let ?P = "\<lambda>index. case index of None \<Rightarrow> True | Some i \<Rightarrow> parsed_tree code i"
  have ts: "list_all lexed (advance_token ts)" using assms(2) by (rule lexed_advance)
  have "yields ?P (bindE (parse_expr n code 0 (advance_token ts)) (\<lambda>(index, ts). Inr (Some index, ts)))"
    by (rule yields_bind [OF buildingD(1) [OF assms(1) ts]]) simp
  then have "yields ?P (if is_symbol (current (advance_token ts)) {'']''} then Inr (None, advance_token ts)
      else bindE (parse_expr n code 0 (advance_token ts)) (\<lambda>(index, ts). Inr (Some index, ts)))" using ts by simp
  then show ?thesis
    unfolding parse_index.simps(2) Let_def
    by (rule yields_bind) (use assms(3) in \<open>auto intro!: yields_bind [OF expect_symbol_lexed]\<close>)
qed

lemma building_primary:
  assumes "building n code" "list_all lexed ts"
  shows "yields (parsed_tree code) (parse_primary (Suc n) code ts)"
proof -
  let ?t = "current ts"
  note t = lexed_current [OF assms(2), unfolded lexed_def] and rest = lexed_advance [OF assms(2)]
  have char: "yields (parsed_tree code) (bindE (code ?t) (\<lambda>value. Inr (CharLiteral (tok_text ?t) value, advance_token ts)))"
    if "tok_kind ?t = CHARACTER"
    using t that rest by (cases "code ?t") auto
  have paren: "yields (parsed_tree code) (bindE (parse_expr n code 0 ts') (\<lambda>(inner, ts).
      bindE (expect_symbol ts '')'') (\<lambda>(close, ts). Inr (inner, ts))))" if "accept_symbol ts {''(''} = Some (p, ts')" for p ts'
    by (rule yields_bind [OF buildingD(1) [OF assms(1)]])
      (use accept_lexed [OF that assms(2)] in \<open>auto intro!: yields_bind [OF expect_symbol_lexed]\<close>)
  have call: "yields (parsed_tree code) (parse_call n code ?t (advance_token ts))" if "tok_kind ?t = IDENT" "tok_text ?t \<noteq> ''remaining''"
    using buildingD(8) [OF assms(1) rest] t that by simp
  have name: "yields (parsed_tree code) (bindE (parse_qualification ?t (advance_token ts)) (\<lambda>(qualified, ts). Inr (NameRef qualified, ts)))"
    if "tok_kind ?t = IDENT" "tok_text ?t \<noteq> ''remaining''"
    by (rule yields_bind [OF qualification_lexed [OF rest]]) (use t that in auto)
  show ?thesis
    using char paren call name t rest name_reference [of "tok_text ?t"]
    by (auto simp: parse_primary.simps(2) Let_def split: option.split)
qed

lemma building_call:
  assumes "building n code" "list_all lexed ts" "is_name (tok_text name)" "tok_text name \<noteq> ''remaining''"
  shows "yields (parsed_tree code) (parse_call (Suc n) code name ts)"
  unfolding parse_call.simps(2)
  by (rule yields_bind [OF expect_symbol_lexed [OF assms(2)]], simp, rule yields_bind [OF buildingD(9) [OF assms(1)]])
    (use assms(3,4) in \<open>auto intro!: yields_bind [OF expect_symbol_lexed]\<close>)

lemma building_call_loop:
  assumes "building n code" "list_all lexed ts" "list_all (parsed_tree code) args"
  shows "yields (list_all (parsed_tree code)) (call_loop (Suc n) code args ts)"
proof -
  have "yields (list_all (parsed_tree code)) (bindE (parse_expr n code 0 ts) (\<lambda>(arg, ts).
        case accept_symbol ts {'',''} of None \<Rightarrow> Inr (args @ [arg], ts)
        | Some (comma, ts) \<Rightarrow> call_loop n code (args @ [arg]) ts))"
    by (rule yields_bind [OF buildingD(1) [OF assms(1,2)]])
      (use assms(1,3) in \<open>auto simp: buildingD dest: accept_lexed split: option.split\<close>)
  then show ?thesis using assms(2,3) by (simp add: call_loop.simps(2))
qed

lemma building_all: "building n code"
proof (induction n)
  case 0
  show ?case
    by (simp add: building_def parse_expr.simps(1) binary_loop.simps(1) parse_unary.simps(1) parse_postfix.simps(1)
        postfix_loop.simps(1) parse_index.simps(1) parse_primary.simps(1) parse_call.simps(1) call_loop.simps(1))
next
  case (Suc n)
  show ?case
    unfolding building_def
    by (intro allI impI conjI building_expr [OF Suc] building_binary_loop [OF Suc] building_unary [OF Suc]
        building_postfix [OF Suc] building_postfix_loop [OF Suc] building_index [OF Suc] building_primary [OF Suc]
        building_call [OF Suc] building_call_loop [OF Suc])
qed

lemma reparse_parsed:
  assumes "reparse encode encs source = Inr (e, rest)"
  shows "parsed_tree (character_code encode encs) e"
proof -
  obtain tokens where t: "tokenize source = Inr tokens" "parse_expression encode encs (map fst tokens) = Inr (e, rest)"
    using assms by (auto simp: reparse_def split: sum.splits)
  have "lex source = Inr (map fst tokens)" using tokenize_lex [of source] t(1) by simp
  then have "list_all lexed (map fst tokens)" by (rule lex_lexed)
  from buildingD(1) [OF building_all this] show ?thesis
    using t(2) unfolding parse_expression_def by (metis yields_simps(1))
qed

section \<open>The round trip of a source\<close>

lemma those_known: "\<forall>a \<in> set as. f a \<noteq> None \<Longrightarrow> those (map f as) \<noteq> None"
  by (induction as) (auto split: option.split)

lemma expr_text_known: "parsed_tree code e \<Longrightarrow> expr_text e p x w \<noteq> None"
proof (induction e p x w rule: expr_text.induct)
  case (7 b index p x w)
  obtain inner where "(case index of None \<Rightarrow> Some [] | Some i \<Rightarrow> expr_text i 0 x False) = Some inner"
    using 7 by (cases index) auto
  then show ?case using 7 by auto
next
  case (8 name args p x w)
  then have "those (map (\<lambda>arg. expr_text arg 0 x False) args) \<noteq> None"
    by (intro those_known) (simp add: list_all_iff)
  then show ?case by (auto split: option.split)
next
  case (10 op l r p x w)
  then obtain b where b: "map_of BINDING op = Some b" by (cases "map_of BINDING op") (auto simp: map_of_eq_None_iff)
  then obtain left where l: "expr_text l b x True = Some left" using 10 by auto
  then obtain right where "expr_text r (b + 1) x True = Some right" using 10 b by auto
  then show ?case using b l by (simp add: Let_def)
qed (auto simp: Let_def split: option.split)

text \<open>
  C22: Parsing, printing and parsing again reaches the same tree: whatever expression a source
  text parses to, the unparser can print it, and unless the tree indexes by a lone attribute
  name, what it prints parses to that very tree and to nothing more.
\<close>

theorem reparse_unparse:
  assumes "reparse encode encs source = Inr (e, rest)"
  shows "\<exists>printed. expr_to_source e False = Some printed
    \<and> (plain_indexes e \<longrightarrow> reparse encode encs printed = Inr (e, [EOF_TOKEN]))"
proof -
  have p: "parsed_tree (character_code encode encs) e" using reparse_parsed [OF assms] .
  show ?thesis
  proof (cases "plain_indexes e")
    case True
    then show ?thesis
      using printed_reparse [of encode encs False e] writable_iff p by auto
  next
    case False
    then show ?thesis using expr_text_known [OF p, of 0 False False] by (auto simp: expr_to_source_def)
  qed
qed

text \<open>An encoder to run the witness with: single bytes, and nothing beyond ASCII.\<close>

definition ascii_encoder :: encoder where
  "ascii_encoder codec c = (if c < 128 then Some [of_nat c] else None)"

theorem reparse_unparse_witness:
  "\<exists>e printed. reparse ascii_encoder [''ascii''] ''n-(a -lim::top) << x [ 0x1_f ] .y'' = Inr (e, [EOF_TOKEN])
     \<and> expr_to_source e False = Some printed \<and> reparse ascii_encoder [''ascii''] printed = Inr (e, [EOF_TOKEN])"
proof -
  let ?e = "Binary ''<<'' (Binary ''-'' (NameRef ''n'') (Binary ''-'' (NameRef ''a'') (NameRef ''lim::top'')))
      (Access (Index (NameRef ''x'') (Some (IntLiteral 31 ''0x1_f''))) ''y'')"
  have r: "reparse ascii_encoder [''ascii''] ''n-(a -lim::top) << x [ 0x1_f ] .y'' = Inr (?e, [EOF_TOKEN])"
    by code_simp
  have "plain_indexes ?e" by simp
  with reparse_unparse [OF r] r show ?thesis by blast
qed

text \<open>
  C23: The explicit form, which is meant for other compilers, names the same tree with every character
  given as its number: for every expression that can be written it is printed, and it parses to that
  tree and to nothing more.
\<close>

theorem explicit_reparse:
  assumes "writable (character_code encode encs) True e"
  shows "\<exists>source. expr_to_source e True = Some source \<and> reparse encode encs source = Inr (spelt True e, [EOF_TOKEN])"
  by (rule printed_reparse [OF assms])

theorem explicit_reparse_witness:
  "\<exists>source. expr_to_source (Binary ''+'' (CharLiteral ''A'' 65) (Unary ''~'' (Binary ''&'' (NameRef ''k'') (IntLiteral 3 ''0b11'')))) True = Some source
     \<and> reparse ascii_encoder [''ascii''] source
       = Inr (Binary ''+'' (IntLiteral 65 ''65'') (Unary ''~'' (Binary ''&'' (NameRef ''k'') (IntLiteral 3 ''0b11''))), [EOF_TOKEN])"
proof -
  let ?e = "Binary ''+'' (CharLiteral ''A'' 65) (Unary ''~'' (Binary ''&'' (NameRef ''k'') (IntLiteral 3 ''0b11'')))"
  have "writable (character_code ascii_encoder [''ascii'']) True ?e" by code_simp
  moreover have "str_int 65 = ''65''" by code_simp
  ultimately show ?thesis using explicit_reparse [of ascii_encoder "[''ascii'']" ?e] by simp
qed

section \<open>The descent returns\<close>

text \<open>
  C24: Reading an expression always comes to an end, with a tree or with a refusal: the fuel the model
  gives the descent is never what stops it, and a tree has consumed at least one token.
\<close>

theorem parse_expression_returns:
  "parse_expression encode encs ts \<noteq> Inl OutOfFuel
   \<and> (case parse_expression encode encs ts of Inl e \<Rightarrow> True | Inr (e, rest) \<Rightarrow> length rest < length ts)"
  using at_good(1) [OF sound_character_code, of 0 ts encode encs]
  by (auto simp: parse_expression_at good_def split: sum.splits)

section \<open>Two things the round trip does not cover\<close>

text \<open>
  Parentheses around an attribute's name decide what a bracket means, and the unparser drops them:
  \<open>x[(ro)]\<close> is read as an index by \<open>ro\<close> and printed as \<open>x[ro]\<close>, and in that text the bracket is no
  longer part of the expression.
\<close>

theorem attribute_index_lost:
  "reparse encode encs ''x[(ro)]'' = Inr (Index (NameRef ''x'') (Some (NameRef ''ro'')), [EOF_TOKEN])
   \<and> expr_to_source (Index (NameRef ''x'') (Some (NameRef ''ro''))) False = Some ''x[ro]''
   \<and> reparse encode encs ''x[ro]'' = Inr (NameRef ''x'', [symbol_token ''['', ident_token ''ro'', symbol_token '']'', EOF_TOKEN])"
  by (intro conjI; code_simp)

lemma unit_value_bounds:
  assumes "unit_value encode c name = Inr v"
  shows "0 \<le> v" "v < 2 ^ (8 * code_unit_bytes name)"
proof -
  obtain raw where "length raw = code_unit_bytes name" "v = from_bytes (name \<noteq> ''utf16le'') False raw"
    using assms by (auto simp: unit_value_def split: option.splits if_splits)
  then show "0 \<le> v" "v < 2 ^ (8 * code_unit_bytes name)"
    using unsigned_from_bounds [of "name \<noteq> ''utf16le''" raw] by (simp_all flip: from_bytes_unsigned)
qed

text \<open>
  What a character literal is worth: the value its encodings agree on, if they agree, and the
  refusal they give otherwise; but where the first of them is \<open>utf16le\<close> the parser puts down the code
  unit with its two bytes exchanged.
\<close>

theorem character_code_value:
  "character_code encode encs t =
     (case character_value encode (of_char (hd (tok_text t))) encs of
        Inl why \<Rightarrow> Inl (NotOneValue why)
      | Inr v \<Rightarrow> Inr (if hd encs = ''utf16le'' then v div 256 + 256 * (v mod 256) else v))"
proof (cases "character_value encode (of_char (hd (tok_text t))) encs")
  case (Inr v)
  then have "encs \<noteq> []" "unit_value encode (of_char (hd (tok_text t))) (hd encs) = Inr v"
    unfolding value_agreed by (cases encs; simp)+
  note b = unit_value_bounds [OF this(2)]
  show ?thesis
  proof (cases "hd encs = ''utf16le''")
    case True
    then have v: "0 \<le> v" "v < 65536" using b by (simp_all add: code_unit_bytes_def)
    then have "v div 256 < 256" "0 \<le> v div 256" by auto
    then have "uint (byte_of (v div 256)) = v div 256" by simp
    then show ?thesis using Inr True v
      by (simp add: character_code_def character_bytes_def to_bytes_def fits_def order_bytes_def numeral_2_eq_2
          unsigned_from_def uint_byte_of)
  next
    case False
    define w :: nat where "w = (if take 5 (hd encs) = ''utf16'' then 2 else 1)"
    have "fits False w v" using b by (simp add: fits_def w_def code_unit_bytes_def)
    then have "to_bytes True False w v = Inr (order_bytes True w v)" by (simp add: to_bytes_def)
    moreover have "from_bytes True False (order_bytes True w v) = v"
      using from_to_bytes [OF calculation] by (simp add: w_def)
    ultimately show ?thesis using Inr False
      by (simp add: character_code_def character_bytes_def w_def [symmetric])
  qed
qed (simp add: character_code_def character_bytes_def)

end
