(* ===== verification/Propagate_Rows.thy ===== *)
theory Propagate_Rows
  imports Unparse
begin

text \<open>
  What a row of the propagation table reads, and the conditions under which the rows of
  \<open>situc/propagate.py\<close> apply.  The records hold the fields of \<open>Placement\<close>, \<open>Context\<close>, \<open>CodecDecl\<close>,
  \<open>RegisterInfo\<close> and \<open>Attr\<close> that propagation and requirement discharge read; the layout solver
  fills them.  A span is its start and end; the bit position, the index table and the access mode
  keep what is asked of them.
\<close>

section \<open>What the schema declares\<close>

datatype endian = BIG | LITTLE | NATIVE

datatype target_kind = BUFFER | MMIO | FILE

datatype side_effect = NONE | CLEAR | POP | TRIGGER

datatype seekable = LINEAR | PERMUTED | BLOCKWISE | NONE

datatype granularity = BIT | SYMBOL | BYTE | BLOCK | STREAM

datatype expansion = PRESERVING | FIXED_ADD | RATIO_EXACT | RATIO_PADDED | RATIO_BOUNDED | UNBOUNDED

datatype access_mode = RW | RO | WO | W1C | W0C | W1S | W0S | RC | RS | WO_ONCE | RSVD

definition writable_mode :: "access_mode \<Rightarrow> bool" where
  "writable_mode mode = (mode \<notin> {RO, RSVD, RC, RS})"

fun side_effect_value :: "side_effect \<Rightarrow> string" where
  "side_effect_value side_effect.NONE = ''none''"
| "side_effect_value CLEAR = ''clear''"
| "side_effect_value POP = ''pop''"
| "side_effect_value TRIGGER = ''trigger''"

type_synonym src_span = "nat \<times> nat"

record attr =
  attr_name :: string
  attr_value :: "expr option"

record register_info =
  access_width :: int
  no_rmw :: bool

record codec_decl =
  codec_expansion :: expansion
  codec_seekable :: seekable
  codec_granularity :: granularity
  systematic :: bool
  invertible :: bool
  deterministic :: bool
  error_propagating :: bool

section \<open>A placement and its context\<close>

record layout_placement =
  pl_path :: string
  pl_kind :: string
  pl_type_name :: string
  pl_codec :: "string option"
  pl_offset_bits :: "int option"
  pl_size_bits :: int
  pl_size_max_bits :: "int option"
  pl_endian :: "endian option"
  pl_span :: src_span
  pl_attrs :: "attr list"
  pl_marker :: "string option"
  pl_array_count :: "int option"
  pl_element_bits :: "int option"
  pl_straddles :: "bool option"
  pl_frame_relative :: bool
  pl_sized_by :: "string option"
  pl_varint :: "string option"
  pl_varint_minimal :: bool
  pl_dynamic_cause :: "string option"
  pl_dynamic_cause_span :: "src_span option"
  pl_dynamic_cause_size :: "string option"
  pl_dynamic_cause_codec :: "string option"
  pl_frame_base_dynamic :: bool
  pl_arm_sizes :: "(string \<times> int) list"
  pl_tlv_unknown :: "string option"
  pl_tlv_duplicates :: "string option"
  pl_tlv_ordered :: bool
  pl_tlv_tag_varint :: "string option"
  pl_tlv_tag_minimal :: bool
  pl_tlv_wire_types :: "int list"
  pl_index_base :: "string option"
  pl_sealed_by :: "string option"
  pl_unverified_ok :: bool
  pl_covered_by :: "string list"
  pl_derived_by :: "string option"
  pl_located :: "string option"
  pl_located_bytes :: "int option"
  pl_delimiters :: "bytes list"
  pl_delimiter_quote :: "int option"
  pl_delimiter_escape :: "int option"
  pl_delimiter_cap :: "int option"
  pl_skip :: "int list"
  pl_scan_cause :: "string option"
  pl_repeat_while :: "string option"
  pl_radix :: "int option"
  pl_radix_minimal :: bool
  pl_trimmed :: bool
  pl_case_insensitive :: bool
  pl_since :: "int option"
  pl_access_mode :: "access_mode option"
  pl_on_read :: side_effect
  pl_on_write :: side_effect
  pl_register :: "register_info option"

text \<open>A placement with the defaults of the class, and nothing but its place, kind and extent stated.\<close>

definition plain_placement :: "string \<Rightarrow> string \<Rightarrow> int option \<Rightarrow> int \<Rightarrow> int option \<Rightarrow> layout_placement" where
  "plain_placement path kind offset least most =
    \<lparr>pl_path = path, pl_kind = kind, pl_type_name = ''u8'', pl_codec = None, pl_offset_bits = offset, pl_size_bits = least,
     pl_size_max_bits = most, pl_endian = None, pl_span = (0, 0), pl_attrs = [], pl_marker = None,
     pl_array_count = None, pl_element_bits = None, pl_straddles = None, pl_frame_relative = False,
     pl_sized_by = None, pl_varint = None, pl_varint_minimal = True, pl_dynamic_cause = None,
     pl_dynamic_cause_span = None, pl_dynamic_cause_size = None, pl_dynamic_cause_codec = None,
     pl_frame_base_dynamic = False, pl_arm_sizes = [], pl_tlv_unknown = None, pl_tlv_duplicates = None,
     pl_tlv_ordered = False, pl_tlv_tag_varint = None, pl_tlv_tag_minimal = True, pl_tlv_wire_types = [],
     pl_index_base = None, pl_sealed_by = None, pl_unverified_ok = False, pl_covered_by = [],
     pl_derived_by = None, pl_located = None, pl_located_bytes = None, pl_delimiters = [],
     pl_delimiter_quote = None, pl_delimiter_escape = None, pl_delimiter_cap = None, pl_skip = [],
     pl_scan_cause = None, pl_repeat_while = None, pl_radix = None, pl_radix_minimal = False,
     pl_trimmed = False, pl_case_insensitive = False, pl_since = None, pl_access_mode = None,
     pl_on_read = side_effect.NONE, pl_on_write = side_effect.NONE, pl_register = None\<rparr>"

record row_context =
  cx_placement :: layout_placement
  cx_scalar :: "scalar option"
  cx_is_aggregate :: bool
  cx_enum_default_pass :: bool
  cx_reserved_unknown :: bool
  cx_codec :: "codec_decl option"
  cx_lenient :: bool
  cx_target :: target_kind
  cx_append :: bool
  cx_unwalked_arm :: "string option"

definition plain_context :: "layout_placement \<Rightarrow> row_context" where
  "plain_context p =
    \<lparr>cx_placement = p, cx_scalar = None, cx_is_aggregate = False, cx_enum_default_pass = False,
     cx_reserved_unknown = False, cx_codec = None, cx_lenient = False, cx_target = BUFFER, cx_append = False,
     cx_unwalked_arm = None\<rparr>"

definition BITS_PER_BYTE :: int where "BITS_PER_BYTE = 8"
definition MAX_ALIGN :: int where "MAX_ALIGN = 8"
definition ATOMIC_WIDTHS :: "int set" where "ATOMIC_WIDTHS = {8, 16, 32, 64}"

text \<open>\<open>Placement.arm_widths\<close>: the distinct sizes of a variant's arms.\<close>

definition arm_widths :: "layout_placement \<Rightarrow> int set" where
  "arm_widths p = set (map snd (pl_arm_sizes p))"

definition has_attr :: "attr list \<Rightarrow> string \<Rightarrow> bool" where
  "has_attr attrs name = list_ex (\<lambda>a. attr_name a = name) attrs"

section \<open>Offsets and alignment\<close>

definition known_offset :: "layout_placement \<Rightarrow> int option" where
  "known_offset p =
     (case pl_located_bytes p of Some located \<Rightarrow> Some (located * BITS_PER_BYTE) | None \<Rightarrow> pl_offset_bits p)"

text \<open>The loop of \<open>alignment_of\<close>: an alignment doubles while it is below the largest.  It starts at one,
  so it is always positive; stated as a guard, that makes the recursion end.\<close>

function align_loop :: "int \<Rightarrow> int \<Rightarrow> int" where
  "align_loop byte alignment =
     (if 0 < alignment \<and> alignment < MAX_ALIGN \<and> byte mod (alignment * 2) = 0
      then align_loop byte (alignment * 2) else alignment)"
  by pat_completeness auto

termination
  by (relation "measure (\<lambda>(byte, alignment). nat (MAX_ALIGN - alignment))") (auto simp: MAX_ALIGN_def)

declare align_loop.simps [simp del]

definition alignment_of :: "int \<Rightarrow> int" where
  "alignment_of offset_bits =
     (if offset_bits mod BITS_PER_BYTE \<noteq> 0 then 0
      else let byte = offset_bits div BITS_PER_BYTE in
        if byte = 0 then MAX_ALIGN else align_loop byte 1)"

definition align_value :: "layout_placement \<Rightarrow> cap_value" where
  "align_value p =
     (case known_offset p of
        None \<Rightarrow> bare ''Unaligned''
      | Some known \<Rightarrow>
          let alignment = alignment_of known in
            if alignment \<noteq> 0 then \<lparr>base = ''Aligned'', params = [str_int alignment]\<rparr> else bare ''Unaligned'')"

section \<open>When a row applies\<close>

text \<open>A scalar of more than a byte that is not packed into bits.\<close>

abbreviation multi_byte :: "scalar \<Rightarrow> bool" where
  "multi_byte t \<equiv> \<not> is_bit_packed t \<and> BITS_PER_BYTE < bits t"

definition is_converted_scalar :: "row_context \<Rightarrow> bool" where
  "is_converted_scalar c =
     (case cx_scalar c of
        None \<Rightarrow> False
      | Some t \<Rightarrow> multi_byte t \<and> pl_kind (cx_placement c) \<noteq> ''marker''
          \<and> pl_marker (cx_placement c) = None \<and> pl_endian (cx_placement c) \<noteq> Some NATIVE)"

definition is_marker_scoped :: "row_context \<Rightarrow> bool" where
  "is_marker_scoped c =
     (pl_marker (cx_placement c) \<noteq> None \<and> pl_kind (cx_placement c) \<noteq> ''marker''
      \<and> (case cx_scalar c of None \<Rightarrow> False | Some t \<Rightarrow> multi_byte t))"

definition is_marker_field :: "row_context \<Rightarrow> bool" where
  "is_marker_field c = (pl_kind (cx_placement c) = ''marker'')"

definition is_bit_field :: "row_context \<Rightarrow> bool" where
  "is_bit_field c = (case cx_scalar c of None \<Rightarrow> False | Some t \<Rightarrow> is_bit_packed t)"

definition is_fixed_point_field :: "row_context \<Rightarrow> bool" where
  "is_fixed_point_field c = (case cx_scalar c of None \<Rightarrow> False | Some t \<Rightarrow> is_fixed_point t)"

definition is_bcd_field :: "row_context \<Rightarrow> bool" where
  "is_bcd_field c = (case cx_scalar c of None \<Rightarrow> False | Some t \<Rightarrow> is_bcd t)"

definition is_derived :: "row_context \<Rightarrow> bool" where
  "is_derived c = (pl_derived_by (cx_placement c) \<noteq> None)"

definition is_nul_terminated :: "row_context \<Rightarrow> bool" where
  "is_nul_terminated c = list_ex (\<lambda>a. attr_name a = ''nul_terminated'') (pl_attrs (cx_placement c))"

definition straddles :: "row_context \<Rightarrow> bool" where
  "straddles c = (case pl_straddles (cx_placement c) of None \<Rightarrow> False | Some s \<Rightarrow> s)"

definition is_unaligned_multibyte :: "row_context \<Rightarrow> bool" where
  "is_unaligned_multibyte c =
     (case cx_scalar c of
        None \<Rightarrow> False
      | Some t \<Rightarrow>
          if is_bit_packed t \<or> bits t \<le> BITS_PER_BYTE then False
          else (case known_offset (cx_placement c) of
                  None \<Rightarrow> True
                | Some known \<Rightarrow> alignment_of known < min (bits t div BITS_PER_BYTE) MAX_ALIGN))"

definition is_aggregate_or_array :: "row_context \<Rightarrow> bool" where
  "is_aggregate_or_array c =
     (cx_is_aggregate c \<or> cx_scalar c = None \<or> pl_array_count (cx_placement c) \<noteq> None)"

definition is_odd_width_scalar :: "row_context \<Rightarrow> bool" where
  "is_odd_width_scalar c =
     (case cx_scalar c of None \<Rightarrow> False | Some t \<Rightarrow> \<not> is_bit_packed t \<and> bits t \<notin> ATOMIC_WIDTHS)"

definition has_coded_predecessor :: "row_context \<Rightarrow> bool" where
  "has_coded_predecessor c =
     (pl_offset_bits (cx_placement c) = None \<and> pl_located (cx_placement c) = None
      \<and> pl_dynamic_cause_codec (cx_placement c) \<noteq> None)"

definition has_dynamic_offset :: "row_context \<Rightarrow> bool" where
  "has_dynamic_offset c =
     (pl_offset_bits (cx_placement c) = None \<and> pl_located (cx_placement c) = None \<and> \<not> has_coded_predecessor c)"

definition is_frame_relative :: "row_context \<Rightarrow> bool" where
  "is_frame_relative c = (pl_frame_relative (cx_placement c) \<and> pl_offset_bits (cx_placement c) \<noteq> None)"

definition has_unequal_arms :: "row_context \<Rightarrow> bool" where
  "has_unequal_arms c = (1 < card (arm_widths (cx_placement c)))"

definition is_bounded_size :: "row_context \<Rightarrow> bool" where
  "is_bounded_size c =
     (\<not> has_unequal_arms c \<and> pl_size_max_bits (cx_placement c) \<noteq> None
      \<and> pl_size_max_bits (cx_placement c) \<noteq> Some (pl_size_bits (cx_placement c)))"

definition OWNS_MUTATE :: "string set" where "OWNS_MUTATE = {''tlv'', ''opaque''}"

definition owns_its_mutate :: "layout_placement \<Rightarrow> bool" where
  "owns_its_mutate p = (pl_kind p \<in> OWNS_MUTATE \<or> pl_varint p \<noteq> None)"

definition is_unbounded_size :: "row_context \<Rightarrow> bool" where
  "is_unbounded_size c = (pl_size_max_bits (cx_placement c) = None)"

definition is_declared_non_canonical :: "row_context \<Rightarrow> bool" where
  "is_declared_non_canonical c = list_ex (\<lambda>a. attr_name a = ''non_canonical'') (pl_attrs (cx_placement c))"

definition is_repeat_while :: "row_context \<Rightarrow> bool" where
  "is_repeat_while c = (pl_repeat_while (cx_placement c) \<noteq> None)"

definition is_delimited :: "row_context \<Rightarrow> bool" where
  "is_delimited c = (pl_delimiters (cx_placement c) \<noteq> [])"

definition is_text_number :: "row_context \<Rightarrow> bool" where
  "is_text_number c = (pl_radix (cx_placement c) \<noteq> None)"

definition is_loose_text_number :: "row_context \<Rightarrow> bool" where
  "is_loose_text_number c =
     (if pl_radix (cx_placement c) = None \<or> pl_radix_minimal (cx_placement c) then False
      else pl_array_count (cx_placement c) = None)"

definition is_uncapped_scan :: "row_context \<Rightarrow> bool" where
  "is_uncapped_scan c = (pl_delimiters (cx_placement c) \<noteq> [] \<and> pl_delimiter_cap (cx_placement c) = None)"

definition is_relaxed_delimiter :: "row_context \<Rightarrow> bool" where
  "is_relaxed_delimiter c =
     (pl_delimiters (cx_placement c) \<noteq> []
      \<and> (pl_delimiter_quote (cx_placement c) \<noteq> None \<or> pl_delimiter_escape (cx_placement c) \<noteq> None))"

definition is_versioned :: "row_context \<Rightarrow> bool" where
  "is_versioned c = (pl_since (cx_placement c) \<noteq> None)"

definition is_trimmed :: "row_context \<Rightarrow> bool" where
  "is_trimmed c = pl_trimmed (cx_placement c)"

definition is_case_insensitive :: "row_context \<Rightarrow> bool" where
  "is_case_insensitive c = pl_case_insensitive (cx_placement c)"

definition is_data_placed :: "row_context \<Rightarrow> bool" where
  "is_data_placed c = (pl_located (cx_placement c) \<noteq> None \<and> pl_located_bytes (cx_placement c) = None)"

definition is_message_static :: "row_context \<Rightarrow> bool" where
  "is_message_static c = (pl_located_bytes (cx_placement c) \<noteq> None)"

definition is_past_a_scan :: "row_context \<Rightarrow> bool" where
  "is_past_a_scan c = (pl_scan_cause (cx_placement c) \<noteq> None)"

definition has_lead :: "row_context \<Rightarrow> bool" where
  "has_lead c = (pl_skip (cx_placement c) \<noteq> [])"

definition is_array :: "layout_placement \<Rightarrow> bool" where
  "is_array p = (pl_array_count p \<noteq> None \<or> pl_sized_by p \<noteq> None)"

definition has_dynamic_elements :: "row_context \<Rightarrow> bool" where
  "has_dynamic_elements c =
     (let p = cx_placement c in
        if pl_kind p = ''element'' then pl_size_max_bits p \<noteq> Some (pl_size_bits p)
        else if pl_kind p \<noteq> ''field'' then False
        else is_array p \<and> pl_element_bits p = None)"

definition is_varint :: "row_context \<Rightarrow> bool" where
  "is_varint c = (pl_varint (cx_placement c) \<noteq> None)"

definition is_non_minimal_varint :: "row_context \<Rightarrow> bool" where
  "is_non_minimal_varint c = (pl_varint (cx_placement c) \<noteq> None \<and> \<not> pl_varint_minimal (cx_placement c))"

section \<open>Rows about a transform\<close>

definition inside_codec :: "row_context \<Rightarrow> bool" where
  "inside_codec c = (cx_codec c \<noteq> None \<and> pl_kind (cx_placement c) \<noteq> ''coded'')"

definition codec_region :: "row_context \<Rightarrow> bool" where
  "codec_region c = (cx_codec c \<noteq> None \<and> pl_kind (cx_placement c) = ''coded'')"

text \<open>What holds of the codec, where there is one.\<close>

definition codec_is :: "row_context \<Rightarrow> (codec_decl \<Rightarrow> bool) \<Rightarrow> bool" where
  "codec_is c P = (case cx_codec c of None \<Rightarrow> False | Some codec \<Rightarrow> P codec)"

definition interior_in_place :: "row_context \<Rightarrow> bool" where
  "interior_in_place c =
     (inside_codec c \<and> codec_is c (\<lambda>codec. codec_expansion codec = PRESERVING
        \<and> codec_seekable codec = LINEAR \<and> codec_granularity codec = BYTE))"

definition interior_block_slack :: "row_context \<Rightarrow> bool" where
  "interior_block_slack c =
     (inside_codec c \<and> codec_is c (\<lambda>codec. codec_expansion codec = PRESERVING \<and> codec_granularity codec = BLOCK))"

definition interior_permuted :: "row_context \<Rightarrow> bool" where
  "interior_permuted c =
     (inside_codec c \<and> codec_is c (\<lambda>codec. codec_expansion codec = PRESERVING \<and> codec_seekable codec = PERMUTED))"

definition interior_whole_region :: "row_context \<Rightarrow> bool" where
  "interior_whole_region c =
     (inside_codec c \<and> codec_is c (\<lambda>codec. codec_expansion codec = PRESERVING
        \<and> codec_seekable codec = seekable.NONE \<and> codec_granularity codec \<noteq> BLOCK))"

definition needs_decode_first :: "row_context \<Rightarrow> bool" where
  "needs_decode_first c =
     (inside_codec c \<and> codec_is c (\<lambda>codec. \<not> systematic codec \<and> codec_expansion codec \<noteq> PRESERVING))"

definition not_deterministic :: "row_context \<Rightarrow> bool" where
  "not_deterministic c = codec_is c (\<lambda>codec. \<not> deterministic codec)"

definition is_systematic :: "row_context \<Rightarrow> bool" where
  "is_systematic c = (inside_codec c \<and> codec_is c systematic)"

definition not_invertible :: "row_context \<Rightarrow> bool" where
  "not_invertible c = codec_is c (\<lambda>codec. \<not> invertible codec)"

definition is_error_propagating :: "row_context \<Rightarrow> bool" where
  "is_error_propagating c = (codec_region c \<and> codec_is c error_propagating)"

section \<open>Rows about tagged items, opaque and indexed regions\<close>

definition is_tlv :: "row_context \<Rightarrow> bool" where
  "is_tlv c = (pl_kind (cx_placement c) = ''tlv'')"

definition is_on_a_file :: "row_context \<Rightarrow> bool" where
  "is_on_a_file c = (cx_target c = FILE)"

definition may_grow :: "row_context \<Rightarrow> bool" where
  "may_grow c = cx_append c"

definition tlv_preserves_unknown :: "row_context \<Rightarrow> bool" where
  "tlv_preserves_unknown c = (pl_tlv_unknown (cx_placement c) = Some ''preserve'')"

definition tlv_has_no_ordering :: "row_context \<Rightarrow> bool" where
  "tlv_has_no_ordering c = (pl_kind (cx_placement c) = ''tlv'' \<and> \<not> pl_tlv_ordered (cx_placement c))"

definition tlv_tag_is_non_minimal :: "row_context \<Rightarrow> bool" where
  "tlv_tag_is_non_minimal c =
     (pl_kind (cx_placement c) = ''tlv'' \<and> pl_tlv_tag_varint (cx_placement c) \<noteq> None
      \<and> \<not> pl_tlv_tag_minimal (cx_placement c))"

definition LENGTH_PREFIXED_WIRE :: int where "LENGTH_PREFIXED_WIRE = 2"
definition SCALAR_WIRES :: "int set" where "SCALAR_WIRES = {0, 1, 5}"

definition tlv_allows_packed_and_unpacked :: "row_context \<Rightarrow> bool" where
  "tlv_allows_packed_and_unpacked c =
     (let p = cx_placement c in
        if pl_kind p \<noteq> ''tlv'' \<or> pl_tlv_duplicates p \<noteq> Some ''allowed'' then False
        else let wires = set (pl_tlv_wire_types p) in
          LENGTH_PREFIXED_WIRE \<in> wires \<and> wires \<inter> SCALAR_WIRES \<noteq> {})"

definition tlv_allows_unordered_duplicates :: "row_context \<Rightarrow> bool" where
  "tlv_allows_unordered_duplicates c = (pl_tlv_duplicates (cx_placement c) = Some ''allowed'')"

definition is_opaque :: "row_context \<Rightarrow> bool" where
  "is_opaque c = (pl_kind (cx_placement c) = ''opaque'')"

definition is_indexed :: "row_context \<Rightarrow> bool" where
  "is_indexed c = (pl_kind (cx_placement c) = ''indexed'')"

definition indexes_outside_the_region :: "row_context \<Rightarrow> bool" where
  "indexes_outside_the_region c = (pl_index_base (cx_placement c) = Some ''message'')"

section \<open>Rows about tags, gates and registers\<close>

definition is_covered :: "row_context \<Rightarrow> bool" where
  "is_covered c =
     (pl_covered_by (cx_placement c) \<noteq> [] \<and> pl_kind (cx_placement c) \<notin> {''tag'', ''checksum''})"

definition is_verify_gated :: "row_context \<Rightarrow> bool" where
  "is_verify_gated c = (pl_sealed_by (cx_placement c) \<noteq> None \<and> \<not> pl_unverified_ok (cx_placement c))"

definition reads_unverified :: "row_context \<Rightarrow> bool" where
  "reads_unverified c = (pl_sealed_by (cx_placement c) \<noteq> None \<and> pl_unverified_ok (cx_placement c))"

definition is_tag :: "row_context \<Rightarrow> bool" where
  "is_tag c = (pl_kind (cx_placement c) \<in> {''tag'', ''checksum''})"

definition is_lenient :: "row_context \<Rightarrow> bool" where
  "is_lenient c = cx_lenient c"

definition register_of :: "row_context \<Rightarrow> register_info option" where
  "register_of c = pl_register (cx_placement c)"

definition needs_rmw :: "row_context \<Rightarrow> bool" where
  "needs_rmw c =
     (case register_of c of
        None \<Rightarrow> False
      | Some r \<Rightarrow> if pl_kind (cx_placement c) = ''reserved'' then False
                  else pl_size_bits (cx_placement c) < access_width r)"

definition reads_have_effects :: "row_context \<Rightarrow> bool" where
  "reads_have_effects c =
     (case register_of c of
        None \<Rightarrow> False
      | Some r \<Rightarrow> no_rmw r \<or> pl_on_read (cx_placement c) \<noteq> side_effect.NONE)"

definition rmw_is_unsafe :: "row_context \<Rightarrow> bool" where
  "rmw_is_unsafe c = (needs_rmw c \<and> reads_have_effects c)"

definition is_partial_word :: "row_context \<Rightarrow> bool" where
  "is_partial_word c =
     (case register_of c of
        None \<Rightarrow> False
      | Some r \<Rightarrow>
          pl_size_bits (cx_placement c) \<noteq> access_width r
          \<or> (case pl_offset_bits (cx_placement c) of
               None \<Rightarrow> True
             | Some offset \<Rightarrow> offset mod access_width r \<noteq> 0))"

definition is_read_only :: "row_context \<Rightarrow> bool" where
  "is_read_only c =
     (case pl_access_mode (cx_placement c) of None \<Rightarrow> False | Some mode \<Rightarrow> \<not> writable_mode mode)"

definition register_effect :: "row_context \<Rightarrow> bool" where
  "register_effect c =
     (pl_register (cx_placement c) \<noteq> None
      \<and> (pl_on_read (cx_placement c) \<noteq> side_effect.NONE \<or> pl_on_write (cx_placement c) \<noteq> side_effect.NONE))"

definition is_host_dependent :: "row_context \<Rightarrow> bool" where
  "is_host_dependent c =
     (pl_endian (cx_placement c) = Some NATIVE
      \<and> (case cx_scalar c of None \<Rightarrow> False | Some t \<Rightarrow> BITS_PER_BYTE < bits t))"

section \<open>The alignment of an offset\<close>

lemma align_loop_value:
  "align_loop byte 1 =
     (if byte mod 2 \<noteq> 0 then 1 else if byte mod 4 \<noteq> 0 then 2 else if byte mod 8 \<noteq> 0 then 4 else 8)"
  by (simp add: align_loop.simps MAX_ALIGN_def)

lemma gcd_8_low:
  "gcd 8 (0::int) = 8" "gcd 8 (1::int) = 1" "gcd 8 (2::int) = 2" "gcd 8 (3::int) = 1"
  "gcd 8 (4::int) = 4" "gcd 8 (5::int) = 1" "gcd 8 (6::int) = 2" "gcd 8 (7::int) = 1"
  by code_simp+

lemma gcd_8:
  "gcd 8 byte = (if byte mod 2 \<noteq> 0 then 1 else if byte mod 4 \<noteq> 0 then 2 else if byte mod 8 \<noteq> 0 then 4 else (8::int))"
proof -
  have "gcd 8 byte = gcd 8 (byte mod 8)" by (metis gcd.commute gcd_red_int)
  moreover have "byte mod 8 \<in> {0, 1, 2, 3, 4, 5, 6, 7}" by auto
  moreover have "byte mod 2 = byte mod 8 mod 2" "byte mod 4 = byte mod 8 mod 4"
    by (simp_all add: mod_mod_cancel)
  ultimately show ?thesis by (elim insertE emptyE) (simp_all add: gcd_8_low)
qed

lemma alignment_of_gcd: "alignment_of offset = (if 8 dvd offset then gcd 8 (offset div 8) else 0)"
proof (cases "offset div 8 = 0")
  case True
  then show ?thesis by (simp add: alignment_of_def BITS_PER_BYTE_def MAX_ALIGN_def dvd_eq_mod_eq_0)
next
  case False
  then have "alignment_of offset = (if offset mod 8 \<noteq> 0 then 0 else align_loop (offset div 8) 1)"
    by (simp only: alignment_of_def BITS_PER_BYTE_def Let_def if_False)
  then show ?thesis unfolding dvd_eq_mod_eq_0 align_loop_value gcd_8 by argo
qed

text \<open>
  the alignment the map promises for an offset of whole bytes is the largest power of two, up to
  eight, that divides it: the greatest common divisor of the offset and eight.  An offset inside a
  byte has none.
\<close>

theorem alignment_is_gcd:
  "alignment_of offset = (if 8 dvd offset then gcd 8 (offset div 8) else 0)"
  by (rule alignment_of_gcd)

end
