(* ===== verification/Propagate_Table.thy ===== *)
theory Propagate_Table
  imports Propagate_Rows
begin

text \<open>
  The propagation table of \<open>situc/propagate.py\<close>, row by row in the order of the code: a rule with the
  axes it weakens, the words that explain each of them and the remedy, and the condition under which
  it applies.  A row whose effects the code computes from the placement has the empty list here, or
  the list its computation starts from.
\<close>

section \<open>Rules\<close>

record effect =
  effect_axis :: axis
  effect_value :: cap_value
  effect_because :: string

record rule =
  rule_name :: string
  rule_construct :: string
  rule_effects :: "effect list"
  rule_remedy :: string
  rule_blames_cause :: bool

definition rule_non_native_endian_scalar :: rule where
  "rule_non_native_endian_scalar =
    \<lparr>rule_name = ''non-native-endian-scalar'',
     rule_construct = ''a multi-byte scalar in a declared byte order'',
     rule_effects = [
       \<lparr>effect_axis = REPR, effect_value = bare ''ValueConverted'',
         effect_because = ''the value is not the memory: reading it is a byte swap on a host of the other order''\<rparr>],
     rule_remedy = ''no pointer accessor is generated for this field; use the by-value getter'',
     rule_blames_cause = False\<rparr>"

definition rule_endian_marker_scope :: rule where
  "rule_endian_marker_scope =
    \<lparr>rule_name = ''endian-marker-scope'',
     rule_construct = ''a field whose byte order comes from an `endian_marker`'',
     rule_effects = [],
     rule_remedy = [],
     rule_blames_cause = False\<rparr>"

definition rule_derived_field :: rule where
  "rule_derived_field =
    \<lparr>rule_name = ''derived-field'',
     rule_construct = ''a field an invariant maintains'',
     rule_effects = [
       \<lparr>effect_axis = MUTATE, effect_value = bare ''Immutable'',
         effect_because = ''an invariant decides this field'' @ [CHR 0x27] @ ''s value, so writing it directly would make the schema'' @ [CHR 0x27] @ ''s own statement false''\<rparr>],
     rule_remedy = ''write what it derives from and call the generated recompute, which is the one thing that may set it'',
     rule_blames_cause = False\<rparr>"

definition rule_declared_non_canonical :: rule where
  "rule_declared_non_canonical =
    \<lparr>rule_name = ''declared-non-canonical'',
     rule_construct = ''a schema saying its encoding is not canonical'',
     rule_effects = [],
     rule_remedy = [],
     rule_blames_cause = False\<rparr>"

definition rule_repeat_while :: rule where
  "rule_repeat_while =
    \<lparr>rule_name = ''repeat-while'',
     rule_construct = ''a run that ends after the element failing a condition'',
     rule_effects = [
       \<lparr>effect_axis = ACCESS, effect_value = bare ''Sequential'',
         effect_because = ''how many elements there are is not in the schema and not stated in the data either: it is whichever one first fails the condition, so element N is reached by reading the N-1 before it''\<rparr>,
       \<lparr>effect_axis = MUTATE, effect_value = bare ''Shifting'',
         effect_because = ''an element whose length changes moves every element after it, and so does one that starts or stops satisfying the condition''\<rparr>],
     rule_remedy = ''`while (...) max N` bounds the walk, which makes the run statically allocatable; a count field ahead of it would make it `Random` instead, at the cost of a number the format has to carry'',
     rule_blames_cause = False\<rparr>"

definition rule_delimited_member :: rule where
  "rule_delimited_member =
    \<lparr>rule_name = ''delimited-member'',
     rule_construct = ''a member that ends at a delimiter'',
     rule_effects = [
       \<lparr>effect_axis = MUTATE, effect_value = bare ''Shifting'',
         effect_because = ''the length is wherever the delimiter turns out to be, so a longer value needs more room and the bytes after it have to move to make it''\<rparr>],
     rule_remedy = ''`until D max N` bounds the scan, which makes the member statically allocatable and turns a missing delimiter into an error instead of a read to the end of the buffer'',
     rule_blames_cause = False\<rparr>"

definition rule_skipped_lead :: rule where
  "rule_skipped_lead =
    \<lparr>rule_name = ''skipped-lead'',
     rule_construct = ''a member that begins after a run of whitespace'',
     rule_effects = [
       \<lparr>effect_axis = OFFSET, effect_value = bare ''Scanned'',
         effect_because = ''how many bytes of whitespace stand before it is in the message rather than in the schema, so where the member begins is found by reading them''\<rparr>,
       \<lparr>effect_axis = ACCESS, effect_value = bare ''Sequential'',
         effect_because = ''there is no arithmetic that finds this field: the lead has to be walked, and so does everything between it and the frame base''\<rparr>,
       \<lparr>effect_axis = ADDRESS, effect_value = bare ''Unstable'',
         effect_because = ''a pointer to it moves whenever the whitespace before it changes length, which a serialiser is free to do''\<rparr>,
       \<lparr>effect_axis = EFFECT, effect_value = bare ''EffectOnRead'',
         effect_because = ''reading it walks the lead, so the cost of a read depends on the data rather than on the schema''\<rparr>],
     rule_remedy = ''drop the `skip` where the format does not actually permit whitespace here; a member with no lead keeps the offset the members before it give it, and that costs nothing but knowing the format'',
     rule_blames_cause = False\<rparr>"

definition rule_text_number :: rule where
  "rule_text_number =
    \<lparr>rule_name = ''text-number'',
     rule_construct = ''a number written as digits rather than stored as bits'',
     rule_effects = [
       \<lparr>effect_axis = REPR, effect_value = bare ''TextConverted'',
         effect_because = ''the value is not the memory and the conversion can fail: a byte swap is total, and `12x4` is not a number''\<rparr>],
     rule_remedy = ''read it through the generated getter, which returns an error rather than a value where the digits are not digits; there is no pointer accessor that could hand back a number'',
     rule_blames_cause = False\<rparr>"

definition rule_non_minimal_text_number :: rule where
  "rule_non_minimal_text_number =
    \<lparr>rule_name = ''non-minimal-text-number'',
     rule_construct = ''a text number that accepts leading zeros'',
     rule_effects = [
       \<lparr>effect_axis = CANONICAL, effect_value = bare ''NonCanonical'',
         effect_because = ''`007` and `7` are the same value written two ways, and for hexadecimal so are `FF` and `ff`, so the bytes do not follow from the number''\<rparr>],
     rule_remedy = ''`[minimal]` refuses a leading zero on parse, which buys one spelling per value back -- the same thing it means on a varint'',
     rule_blames_cause = False\<rparr>"

definition rule_unbounded_scan :: rule where
  "rule_unbounded_scan =
    \<lparr>rule_name = ''unbounded-scan'',
     rule_construct = ''a delimited member with no cap on the scan'',
     rule_effects = [
       \<lparr>effect_axis = EFFECT, effect_value = bare ''EffectOnRead'',
         effect_because = ''reading it walks the buffer to the delimiter, so the cost of a read depends on the data rather than the schema''\<rparr>],
     rule_remedy = ''`until D max N` bounds the walk'',
     rule_blames_cause = False\<rparr>"

definition rule_relaxed_delimiter :: rule where
  "rule_relaxed_delimiter =
    \<lparr>rule_name = ''relaxed-delimiter'',
     rule_construct = ''a delimited member whose delimiter may occur in its content'',
     rule_effects = [
       \<lparr>effect_axis = CANONICAL, effect_value = bare ''NonCanonical'',
         effect_because = ''a quoted or escaped delimiter is inert, so the same value has more than one spelling''\<rparr>],
     rule_remedy = ''drop `[quoted]` or `[escape]` if the protocol does not need them; without one the content may not contain the delimiter at all, which is checked on parse and buys a single spelling back'',
     rule_blames_cause = False\<rparr>"

definition rule_versioned_member :: rule where
  "rule_versioned_member =
    \<lparr>rule_name = ''versioned-member'',
     rule_construct = ''a member present only from a given protocol version'',
     rule_effects = [
       \<lparr>effect_axis = STAGE, effect_value = bare ''ParseTime'',
         effect_because = ''whether these bytes are here at all is a value in the data, so nothing can reach them before the version field has been read''\<rparr>],
     rule_remedy = ''read it through the generated accessor, which returns a version error rather than the bytes that happen to follow; there is no unconditional getter, because there is no unconditional field'',
     rule_blames_cause = False\<rparr>"

definition rule_trimmed_value :: rule where
  "rule_trimmed_value =
    \<lparr>rule_name = ''trimmed-value'',
     rule_construct = ''a value with optional whitespace around it'',
     rule_effects = [
       \<lparr>effect_axis = CANONICAL, effect_value = bare ''NonCanonical'',
         effect_because = ''` 5`, `5` and `5  ` carry the same value, so the bytes do not follow from it''\<rparr>],
     rule_remedy = ''emit no padding on write and refuse it on parse, which gets a single encoding back -- at the cost of rejecting messages the format permits'',
     rule_blames_cause = False\<rparr>"

definition rule_case_insensitive_token :: rule where
  "rule_case_insensitive_token =
    \<lparr>rule_name = ''case-insensitive-token'',
     rule_construct = ''a token compared without regard to case'',
     rule_effects = [
       \<lparr>effect_axis = CANONICAL, effect_value = bare ''NonCanonical'',
         effect_because = ''`Content-Length` and `content-length` are one token with two spellings, so the bytes do not follow from the value''\<rparr>],
     rule_remedy = ''compare through the generated `_eq`, which folds ASCII case the way the schema says; `memcmp` against a literal is the bug this attribute exists to name'',
     rule_blames_cause = False\<rparr>"

definition rule_data_placed :: rule where
  "rule_data_placed =
    \<lparr>rule_name = ''data-placed'',
     rule_construct = ''a member the data positions, rather than the members before it'',
     rule_effects = [
       \<lparr>effect_axis = OFFSET, effect_value = bare ''DataPlaced'',
         effect_because = ''where it starts is a number in the message rather than the sum of what precedes it, so nothing about the frame says where it is or that it is inside one''\<rparr>,
       \<lparr>effect_axis = ADDRESS, effect_value = bare ''Unstable'',
         effect_because = ''a pointer to it moves whenever the field holding its offset is written, which is a single field far away from the bytes that move''\<rparr>],
     rule_remedy = ''a member placed after the one before it keeps a static or dynamic offset, and the bounds check at the frame boundary covers it; an offset the message chooses has to be checked on every use'',
     rule_blames_cause = False\<rparr>"

definition rule_message_static :: rule where
  "rule_message_static =
    \<lparr>rule_name = ''message-static'',
     rule_construct = ''a member at a constant offset from the message'',
     rule_effects = [
       \<lparr>effect_axis = OFFSET, effect_value = bare ''MessageStatic'',
         effect_because = ''the number is known, and it is measured from the message rather than from the frame a reader holds, so a view cannot resolve it and every read takes the message and checks the bound''\<rparr>],
     rule_remedy = ''a member placed after the one before it is resolved from the frame, where the bounds check at the frame boundary covers it'',
     rule_blames_cause = False\<rparr>"

definition rule_scanned_predecessor :: rule where
  "rule_scanned_predecessor =
    \<lparr>rule_name = ''scanned-predecessor'',
     rule_construct = ''a member found by scanning for a delimiter earlier in the frame'',
     rule_effects = [
       \<lparr>effect_axis = OFFSET, effect_value = bare ''Scanned'',
         effect_because = ''reaching this field means searching for the delimiter that ends an earlier one, which is linear in the distance to it and can fail when the delimiter is not there''\<rparr>,
       \<lparr>effect_axis = ACCESS, effect_value = bare ''Sequential'',
         effect_because = ''there is no arithmetic that finds this field: every member between it and the frame base has to be walked''\<rparr>,
       \<lparr>effect_axis = ADDRESS, effect_value = bare ''Unstable'',
         effect_because = ''a pointer to it moves whenever anything before it changes length, which delimited content does freely''\<rparr>],
     rule_remedy = ''put the fixed-offset members before the first delimited one; everything ahead of a scan keeps a static offset, and that costs nothing but declaration order'',
     rule_blames_cause = True\<rparr>"

definition rule_nul_terminated :: rule where
  "rule_nul_terminated =
    \<lparr>rule_name = ''nul-terminated'',
     rule_construct = ''a nul-terminated field'',
     rule_effects = [
       \<lparr>effect_axis = CANONICAL, effect_value = bare ''NonCanonical'',
         effect_because = ''the declared size is the capacity, so the bytes after the terminator do not affect the value and many byte sequences encode the same one''\<rparr>],
     rule_remedy = ''zero the padding on write and require it on parse to get a single encoding back, or drop the attribute and treat the field as the fixed-width bytes it is'',
     rule_blames_cause = False\<rparr>"

definition rule_fixed_point :: rule where
  "rule_fixed_point =
    \<lparr>rule_name = ''fixed-point'',
     rule_construct = ''a fixed-point field'',
     rule_effects = [
       \<lparr>effect_axis = REPR, effect_value = bare ''ValueConverted'',
         effect_because = ''the stored integer is the value scaled by a power of two, so reading the number it means is a shift''\<rparr>],
     rule_remedy = ''the accessors hand back the stored integer and the header carries the scale; no floating point is generated, because the target may have none'',
     rule_blames_cause = False\<rparr>"

definition rule_bcd :: rule where
  "rule_bcd =
    \<lparr>rule_name = ''bcd'',
     rule_construct = ''a packed binary-coded decimal field'',
     rule_effects = [
       \<lparr>effect_axis = REPR, effect_value = bare ''ValueConverted'',
         effect_because = ''each nibble is a decimal digit, so the value is decoded rather than read''\<rparr>],
     rule_remedy = ''use an integer field if the wire format allows one; BCD costs a decode on every access and can hold bit patterns that are not numbers'',
     rule_blames_cause = False\<rparr>"

definition rule_bit_field :: rule where
  "rule_bit_field =
    \<lparr>rule_name = ''bit-field'',
     rule_construct = ''a bit-packed field'',
     rule_effects = [
       \<lparr>effect_axis = REPR, effect_value = bare ''ValueConverted'',
         effect_because = ''the value has to be shifted and masked out of its containing byte''\<rparr>,
       \<lparr>effect_axis = ATOMIC, effect_value = bare ''NonAtomic'',
         effect_because = ''writing it is a read-modify-write of the containing byte''\<rparr>,
       \<lparr>effect_axis = ALIGN, effect_value = bare ''Unaligned'',
         effect_because = ''its address is not a byte address''\<rparr>],
     rule_remedy = ''widen the field to a whole number of bytes to regain atomic access'',
     rule_blames_cause = False\<rparr>"

definition rule_straddling_bit_field :: rule where
  "rule_straddling_bit_field =
    \<lparr>rule_name = ''straddling-bit-field'',
     rule_construct = ''a bit field crossing a byte boundary'',
     rule_effects = [
       \<lparr>effect_axis = ATOMIC, effect_value = bare ''NonAtomic'',
         effect_because = ''the write spans two bytes, so it is a multi-byte read-modify-write''\<rparr>],
     rule_remedy = ''reorder the fields so this one fits inside a byte'',
     rule_blames_cause = False\<rparr>"

definition rule_unaligned_multi_byte_scalar :: rule where
  "rule_unaligned_multi_byte_scalar =
    \<lparr>rule_name = ''unaligned-multi-byte-scalar'',
     rule_construct = ''a multi-byte scalar not known to be on its boundary'',
     rule_effects = [
       \<lparr>effect_axis = ATOMIC, effect_value = bare ''NonAtomic'',
         effect_because = ''an unaligned word access faults on some targets and is split on others, and an offset that is not known cannot be known to be aligned''\<rparr>],
     rule_remedy = ''reorder the preceding fields, or insert `reserved` padding, to land this field on its natural boundary; where the offset itself is dynamic, move the field ahead of the variable-length member instead'',
     rule_blames_cause = False\<rparr>"

definition rule_aggregate_or_array :: rule where
  "rule_aggregate_or_array =
    \<lparr>rule_name = ''aggregate-or-array'',
     rule_construct = ''a struct-typed field or an array'',
     rule_effects = [
       \<lparr>effect_axis = ATOMIC, effect_value = bare ''NonAtomic'',
         effect_because = ''a multi-field update is never atomic in v0''\<rparr>],
     rule_remedy = [],
     rule_blames_cause = False\<rparr>"

definition rule_odd_width_scalar :: rule where
  "rule_odd_width_scalar =
    \<lparr>rule_name = ''odd-width-scalar'',
     rule_construct = ''a scalar whose width is not a machine word'',
     rule_effects = [
       \<lparr>effect_axis = ATOMIC, effect_value = bare ''NonAtomic'',
         effect_because = ''no single load or store covers 24, 40, 48 or 56 bits, so the access is split''\<rparr>],
     rule_remedy = ''widen the field to 8, 16, 32 or 64 bits if atomic access matters more than the bytes saved'',
     rule_blames_cause = False\<rparr>"

definition rule_dynamic_predecessor :: rule where
  "rule_dynamic_predecessor =
    \<lparr>rule_name = ''dynamic-predecessor'',
     rule_construct = ''a dynamically sized member earlier in the same frame'',
     rule_effects = [
       \<lparr>effect_axis = OFFSET, effect_value = bare ''Dynamic'',
         effect_because = ''the bytes before this field vary in length, so its position is not known until parse time''\<rparr>,
       \<lparr>effect_axis = ADDRESS, effect_value = bare ''Unstable'',
         effect_because = ''a pointer to it is invalidated by any write that changes the length of what precedes it''\<rparr>],
     rule_remedy = ''move the variable-length member after this one; that costs nothing and restores a static offset to everything between them'',
     rule_blames_cause = True\<rparr>"

definition rule_unwalked_arm_predecessor :: rule where
  "rule_unwalked_arm_predecessor =
    \<lparr>rule_name = ''unwalked-arm-predecessor'',
     rule_construct = ''a variant earlier in the same frame with an arm holding a counted run of variable records'',
     rule_effects = [
       \<lparr>effect_axis = MUTATE, effect_value = bare ''Immutable'',
         effect_because = ''no backend walks a run in a variant arm, so nothing says where the variant ends and there is nothing for a setter to address''\<rparr>,
       \<lparr>effect_axis = ACCESS, effect_value = bare ''Sequential'',
         effect_because = ''nothing reaches this field by arithmetic: the run in the arm has to be walked record by record first''\<rparr>],
     rule_remedy = ''put the run in a struct and the struct in the arm, which every backend measures; or make the variant the last member'',
     rule_blames_cause = False\<rparr>"

definition rule_coded_predecessor :: rule where
  "rule_coded_predecessor =
    \<lparr>rule_name = ''coded-predecessor'',
     rule_construct = ''a coded region earlier in the same frame whose codec has no closed-form expansion'',
     rule_effects = [],
     rule_remedy = ''end the region with `until \"<delimiter>\"`, which puts where the encoded bytes stop on the wire rather than in the expansion; a `length_preserving` codec, or one with a `fixed_add` or exact-ratio expansion, reaches it by arithmetic instead; failing both, the region has to be the last member'',
     rule_blames_cause = True\<rparr>"

definition rule_frame_relative :: rule where
  "rule_frame_relative =
    \<lparr>rule_name = ''frame-relative'',
     rule_construct = ''a member of a frame, addressed from the frame base'',
     rule_effects = [
       \<lparr>effect_axis = OFFSET, effect_value = bare ''FrameStatic'',
         effect_because = ''the offset is fixed relative to the frame base, which is itself found once''\<rparr>],
     rule_remedy = ''acquire a view of the frame once; the fields inside it are then constant offsets from its base'',
     rule_blames_cause = False\<rparr>"

definition rule_bounded_size :: rule where
  "rule_bounded_size =
    \<lparr>rule_name = ''bounded-size'',
     rule_construct = ''a member whose length comes from an earlier field'',
     rule_effects = [
       \<lparr>effect_axis = SIZE, effect_value = bare ''Bounded'',
         effect_because = ''the extent is a range, not a number, so a caller must size buffers for the worst case''\<rparr>,
       \<lparr>effect_axis = MUTATE, effect_value = bare ''Shifting'',
         effect_because = ''writing a different length moves every member after this one''\<rparr>],
     rule_remedy = ''pin the length with `[must_eq = N]` to make it fixed, or `[max = N]` to bound the worst case'',
     rule_blames_cause = False\<rparr>"

definition rule_unbounded_size :: rule where
  "rule_unbounded_size =
    \<lparr>rule_name = ''unbounded-size'',
     rule_construct = ''a member with no upper bound on its length'',
     rule_effects = [],
     rule_remedy = ''bound whatever decides the extent: `[max = N]` on a length field, `max N` after `until` for a scan, `max N` on a `while` run. A `[remaining]` member is bounded only by the frame it sits in, and an aggregate by whatever inside it is unbounded'',
     rule_blames_cause = False\<rparr>"

definition rule_dynamic_element_type :: rule where
  "rule_dynamic_element_type =
    \<lparr>rule_name = ''dynamic-element-type'',
     rule_construct = ''an array whose element type is variable-sized'',
     rule_effects = [
       \<lparr>effect_axis = ACCESS, effect_value = bare ''Sequential'',
         effect_because = ''element N cannot be found without walking the N-1 elements before it''\<rparr>],
     rule_remedy = ''give the element type a fixed size, or use an `indexed` region so an offset table makes access O(1)'',
     rule_blames_cause = False\<rparr>"

definition rule_codec_not_invertible :: rule where
  "rule_codec_not_invertible =
    \<lparr>rule_name = ''codec-not-invertible'',
     rule_construct = ''a codec with no inverse'',
     rule_effects = [
       \<lparr>effect_axis = MUTATE, effect_value = bare ''Immutable'',
         effect_because = ''the transform cannot be undone, so the region can be read but never written back''\<rparr>],
     rule_remedy = ''declare `invertible;` on the codec if it does have an inverse; otherwise the region is genuinely read-only'',
     rule_blames_cause = False\<rparr>"

definition rule_codec_needs_decode :: rule where
  "rule_codec_needs_decode =
    \<lparr>rule_name = ''codec-needs-decode'',
     rule_construct = ''a codec that is neither systematic nor length-preserving'',
     rule_effects = [
       \<lparr>effect_axis = STAGE, effect_value = bare ''TransformTime'',
         effect_because = ''the interior does not exist until the transform has run, so nothing can be read before decoding''\<rparr>,
       \<lparr>effect_axis = ACCESS, effect_value = bare ''Sequential'',
         effect_because = ''the decoder produces the region in order''\<rparr>],
     rule_remedy = ''a `systematic` codec leaves the data verbatim at computable offsets, which allows reads with no decode at all'',
     rule_blames_cause = False\<rparr>"

definition rule_codec_whole_region_rewrite :: rule where
  "rule_codec_whole_region_rewrite =
    \<lparr>rule_name = ''codec-whole-region-rewrite'',
     rule_construct = ''a length-preserving codec that is not seekable'',
     rule_effects = [
       \<lparr>effect_axis = MUTATE, effect_value = bare ''RewriteRequired'',
         effect_because = ''interior offsets survive, but any write re-transforms the whole region''\<rparr>],
     rule_remedy = ''a seekable codec re-transforms only the byte range that changed; CTR mode is seekable where CBC is not'',
     rule_blames_cause = False\<rparr>"

definition rule_codec_block_granularity :: rule where
  "rule_codec_block_granularity =
    \<lparr>rule_name = ''codec-block-granularity'',
     rule_construct = ''a length-preserving codec with block granularity'',
     rule_effects = [
       \<lparr>effect_axis = MUTATE, effect_value = bare ''InPlaceSlack'',
         effect_because = ''a write re-transforms the containing block rather than the whole region''\<rparr>],
     rule_remedy = ''byte granularity narrows that to the bytes that changed'',
     rule_blames_cause = False\<rparr>"

definition rule_codec_permuted :: rule where
  "rule_codec_permuted =
    \<lparr>rule_name = ''codec-permuted'',
     rule_construct = ''a codec whose output positions are a permutation'',
     rule_effects = [
       \<lparr>effect_axis = ADDRESS, effect_value = bare ''Unstable'',
         effect_because = ''the position map is a bijection but not monotone, so no contiguous span can be handed out''\<rparr>],
     rule_remedy = ''random access survives the permutation; sequential prefetch does not'',
     rule_blames_cause = False\<rparr>"

definition rule_tlv :: rule where
  "rule_tlv =
    \<lparr>rule_name = ''tlv'',
     rule_construct = ''a `tlv` region'',
     rule_effects = [
       \<lparr>effect_axis = ACCESS, effect_value = bare ''Sequential'',
         effect_because = ''items are found by walking from the start; lookup by tag is O(n)''\<rparr>,
       \<lparr>effect_axis = ADDRESS, effect_value = bare ''Unstable'',
         effect_because = ''no item keeps a stable address across any mutation of the region''\<rparr>,
       \<lparr>effect_axis = MUTATE, effect_value = bare ''InPlaceSlack'',
         effect_because = ''an item is rewritten in place only at the same size, and an append needs slack''\<rparr>],
     rule_remedy = ''for a tag that is read on every message, a `positional` field gives O(1) access instead of an O(n) scan (project.md section 18.2)'',
     rule_blames_cause = False\<rparr>"

definition rule_tlv_unordered_items :: rule where
  "rule_tlv_unordered_items =
    \<lparr>rule_name = ''tlv-unordered-items'',
     rule_construct = ''a `tlv` region with no ordering rule'',
     rule_effects = [
       \<lparr>effect_axis = CANONICAL, effect_value = bare ''NonCanonical'',
         effect_because = ''items are self-describing, so the same content can be written with them in any order''\<rparr>],
     rule_remedy = ''declare `ordering = ascending` on the region, which is what makes a tag-based format signable at all'',
     rule_blames_cause = False\<rparr>"

definition rule_tlv_non_minimal_tag :: rule where
  "rule_tlv_non_minimal_tag =
    \<lparr>rule_name = ''tlv-non-minimal-tag'',
     rule_construct = ''a `tlv` region whose tag type accepts non-minimal encodings'',
     rule_effects = [
       \<lparr>effect_axis = CANONICAL, effect_value = bare ''NonCanonical'',
         effect_because = ''the tag itself has more than one encoding, so two byte sequences carry the same item''\<rparr>],
     rule_remedy = ''declare `minimal;` on the varint type used as `tag_type`'',
     rule_blames_cause = False\<rparr>"

definition rule_tlv_packed_and_unpacked :: rule where
  "rule_tlv_packed_and_unpacked =
    \<lparr>rule_name = ''tlv-packed-and-unpacked'',
     rule_construct = ''a `tlv` region accepting both packed and unpacked encodings of a repeated value'',
     rule_effects = [
       \<lparr>effect_axis = CANONICAL, effect_value = bare ''NonCanonical'',
         effect_because = ''a repeated value can be written as several scalar items or as one length-prefixed item, so the same content has more than one encoding''\<rparr>],
     rule_remedy = ''accept one form or the other, not both: drop the length-prefixed wire type from the dispatch, or the scalar ones'',
     rule_blames_cause = False\<rparr>"

definition rule_tlv_unknown_preserve :: rule where
  "rule_tlv_unknown_preserve =
    \<lparr>rule_name = ''tlv-unknown-preserve'',
     rule_construct = ''a `tlv` region with `unknown = preserve`'',
     rule_effects = [
       \<lparr>effect_axis = CANONICAL, effect_value = bare ''NonCanonical'',
         effect_because = ''unknown items are carried through unchanged, so the encoding admits content the schema does not describe''\<rparr>],
     rule_remedy = ''use `unknown = error`, which is the default, and version the schema explicitly rather than retaining unknowns (project.md section 19)'',
     rule_blames_cause = False\<rparr>"

definition rule_tlv_unordered_duplicates :: rule where
  "rule_tlv_unordered_duplicates =
    \<lparr>rule_name = ''tlv-unordered-duplicates'',
     rule_construct = ''a `tlv` region with `duplicate_tags = allowed`'',
     rule_effects = [
       \<lparr>effect_axis = CANONICAL, effect_value = bare ''NonCanonical'',
         effect_because = ''the same content can be written with the duplicates in any order, so it has more than one encoding -- an ascending order fixes items of different tags, not the order among equal ones''\<rparr>],
     rule_remedy = ''use `duplicate_tags = error`, which is the default'',
     rule_blames_cause = False\<rparr>"

definition rule_opaque :: rule where
  "rule_opaque =
    \<lparr>rule_name = ''opaque'',
     rule_construct = ''an `opaque` region'',
     rule_effects = [
       \<lparr>effect_axis = ACCESS, effect_value = bare ''Sequential'',
         effect_because = ''the region has no interior schema, so there is nothing to address inside it''\<rparr>,
       \<lparr>effect_axis = MUTATE, effect_value = bare ''RewriteRequired'',
         effect_because = ''the whole region is replaced, and only by something of the same size''\<rparr>],
     rule_remedy = ''give the region an interior schema to regain field access, or leave it opaque and treat it as bytes'',
     rule_blames_cause = False\<rparr>"

definition rule_indexed :: rule where
  "rule_indexed =
    \<lparr>rule_name = ''indexed'',
     rule_construct = ''an `indexed` region'',
     rule_effects = [
       \<lparr>effect_axis = ADDRESS, effect_value = bare ''FrameStable'',
         effect_because = ''an element is reached through the offset table, so its address holds only while the table does''\<rparr>],
     rule_remedy = ''insertion is not an operation here: every offset after the insertion point would have to move. Rebuild the region instead; element mutation stays in place'',
     rule_blames_cause = False\<rparr>"

definition rule_indexed_outside_the_region :: rule where
  "rule_indexed_outside_the_region =
    \<lparr>rule_name = ''indexed-outside-the-region'',
     rule_construct = ''an `indexed` region whose offsets are measured from the start of the message'',
     rule_effects = [
       \<lparr>effect_axis = ADDRESS, effect_value = bare ''Unstable'',
         effect_because = ''an offset measured from outside the region can name any byte in the message, so nothing about the region says an element is inside it and a write anywhere may move one''\<rparr>],
     rule_remedy = ''measure from the region, which is the default: an offset that cannot leave the region is bounded by the region'' @ [CHR 0x27] @ ''s own extent, and the check at the boundary covers it'',
     rule_blames_cause = False\<rparr>"

definition rule_variant_unequal_arms :: rule where
  "rule_variant_unequal_arms =
    \<lparr>rule_name = ''variant-unequal-arms'',
     rule_construct = ''a variant whose arms are not the same size'',
     rule_effects = [],
     rule_remedy = ''add `[equalize]` to pad every arm to the largest, which restores static offsets after the variant at the cost of the padding'',
     rule_blames_cause = False\<rparr>"

definition rule_varint :: rule where
  "rule_varint =
    \<lparr>rule_name = ''varint'',
     rule_construct = ''a variable-length integer'',
     rule_effects = [
       \<lparr>effect_axis = SIZE, effect_value = bare ''Bounded'',
         effect_because = ''one byte per seven payload bits, so the extent is a range and a caller must size for the worst case''\<rparr>,
       \<lparr>effect_axis = MUTATE, effect_value = bare ''InPlaceSlack'',
         effect_because = ''a new value that encodes to the same length stays in place; any other length moves everything after it''\<rparr>,
       \<lparr>effect_axis = ALIGN, effect_value = bare ''Unaligned'',
         effect_because = ''the field has no fixed width, so it has no natural boundary to sit on''\<rparr>,
       \<lparr>effect_axis = ATOMIC, effect_value = bare ''NonAtomic'',
         effect_because = ''the value spans a number of bytes that is not known until it is read''\<rparr>,
       \<lparr>effect_axis = REPR, effect_value = bare ''ValueConverted'',
         effect_because = ''the value is base-128 groups with continuation bits, not the bytes''\<rparr>],
     rule_remedy = ''if the field carries a `max` constraint, a fixed-width scalar is usually free: a varint costs two bytes across most of the range of a `max = 1500` field anyway, and `u16` restores static offsets for everything after it'',
     rule_blames_cause = False\<rparr>"

definition rule_non_minimal_varint :: rule where
  "rule_non_minimal_varint =
    \<lparr>rule_name = ''non-minimal-varint'',
     rule_construct = ''a varint type without `minimal`'',
     rule_effects = [
       \<lparr>effect_axis = CANONICAL, effect_value = bare ''NonCanonical'',
         effect_because = ''non-minimal varint encodings are accepted, so the same value has more than one encoding''\<rparr>],
     rule_remedy = ''declare `minimal;` on the varint type, which is required for `require canonical`'',
     rule_blames_cause = False\<rparr>"

definition rule_endian_native :: rule where
  "rule_endian_native =
    \<lparr>rule_name = ''endian-native'',
     rule_construct = ''`endian native`'',
     rule_effects = [
       \<lparr>effect_axis = CANONICAL, effect_value = bare ''NonCanonical'',
         effect_because = ''the encoding depends on the host, so the same value has more than one valid byte sequence''\<rparr>],
     rule_remedy = ''declare `endian big` or `endian little`, or use an `endian_marker` if the byte order must travel with the data'',
     rule_blames_cause = False\<rparr>"

definition rule_reserved_unknown :: rule where
  "rule_reserved_unknown =
    \<lparr>rule_name = ''reserved-unknown'',
     rule_construct = ''`reserved [unknown]`'',
     rule_effects = [
       \<lparr>effect_axis = CANONICAL, effect_value = bare ''NonCanonical'',
         effect_because = ''unvalidated bits are a malleability surface: the same value can be encoded with any of them set''\<rparr>],
     rule_remedy = ''use `[must_be_zero]`, which is the default and is the only one of the three that checks anything. `[preserve]` excludes the bits from canonical comparison instead, on the understanding that a rewriter carries them unchanged -- which is the caller'' @ [CHR 0x27] @ ''s to honour, not the generated code'' @ [CHR 0x27] @ ''s'',
     rule_blames_cause = False\<rparr>"

definition rule_enum_default_pass :: rule where
  "rule_enum_default_pass =
    \<lparr>rule_name = ''enum-default-pass'',
     rule_construct = ''an enum with `default = pass`'',
     rule_effects = [
       \<lparr>effect_axis = CANONICAL, effect_value = bare ''NonCanonical'',
         effect_because = ''unknown values are accepted and preserved, so the encoding admits values the schema does not name''\<rparr>],
     rule_remedy = ''use `default = error`, which is the default, and add a version discriminant if the enum has to grow'',
     rule_blames_cause = False\<rparr>"

definition rule_codec_not_deterministic :: rule where
  "rule_codec_not_deterministic =
    \<lparr>rule_name = ''codec-not-deterministic'',
     rule_construct = ''a codec that is not `deterministic`'',
     rule_effects = [
       \<lparr>effect_axis = CANONICAL, effect_value = bare ''NonCanonical'',
         effect_because = ''the same input may encode more than one way, so the bytes do not follow from the value''\<rparr>],
     rule_remedy = ''declare `deterministic;` on the codec if it is, which `require canonical` needs; a randomised or padded mode is genuinely not canonical and cannot be made so from the schema side'',
     rule_blames_cause = False\<rparr>"

definition rule_covered_by_tag :: rule where
  "rule_covered_by_tag =
    \<lparr>rule_name = ''covered-by-tag'',
     rule_construct = ''bytes covered by an authentication tag'',
     rule_effects = [],
     rule_remedy = ''move the field outside the covering region if it has to stay freely writable -- which is why real protocols put routing headers and hop counters outside coverage -- or accept the recomputation and assert it with `require in_place_dirty(...)`'',
     rule_blames_cause = False\<rparr>"

definition rule_verify_gated :: rule where
  "rule_verify_gated =
    \<lparr>rule_name = ''verify-gated'',
     rule_construct = ''the interior of a sealed region'',
     rule_effects = [
       \<lparr>effect_axis = STAGE, effect_value = bare ''VerifyGated'',
         effect_because = ''no view into the interior exists until the tag verifies, so parsing attacker-controlled plaintext before authenticating it is unrepresentable rather than discouraged''\<rparr>],
     rule_remedy = [],
     rule_blames_cause = False\<rparr>"

definition rule_allow_unverified_read :: rule where
  "rule_allow_unverified_read =
    \<lparr>rule_name = ''allow-unverified-read'',
     rule_construct = ''`sealed(...) [allow_unverified_read]`'',
     rule_effects = [
       \<lparr>effect_axis = STAGE, effect_value = bare ''TransformTime'',
         effect_because = ''the stage gate of section 14.3 is waived here: the interior is reachable before the tag verifies, on attacker-controlled bytes''\<rparr>],
     rule_remedy = ''drop `[allow_unverified_read]` unless the protocol genuinely cannot verify first; it is the single highest-value security property in the design'',
     rule_blames_cause = False\<rparr>"

definition rule_tag_field :: rule where
  "rule_tag_field =
    \<lparr>rule_name = ''tag-field'',
     rule_construct = ''an authentication tag or checksum'',
     rule_effects = [
       \<lparr>effect_axis = MUTATE, effect_value = bare ''Immutable'',
         effect_because = ''its value is whatever the algorithm computes over the bytes it covers, so it is written by finalize and by nothing else''\<rparr>],
     rule_remedy = [],
     rule_blames_cause = False\<rparr>"

definition rule_strictness_lenient :: rule where
  "rule_strictness_lenient =
    \<lparr>rule_name = ''strictness-lenient'',
     rule_construct = ''`strictness = lenient`'',
     rule_effects = [
       \<lparr>effect_axis = CANONICAL, effect_value = bare ''NonCanonical'',
         effect_because = ''the parser accepts what the schema does not describe, so more than one byte sequence carries the same value''\<rparr>],
     rule_remedy = ''`strictness = strict`, which is the default, and a version discriminant where the format has to grow (project.md section 19)'',
     rule_blames_cause = False\<rparr>"

definition rule_register_partial_word :: rule where
  "rule_register_partial_word =
    \<lparr>rule_name = ''register-partial-word'',
     rule_construct = ''a register field narrower than the bus access'',
     rule_effects = [
       \<lparr>effect_axis = REPR, effect_value = bare ''ValueConverted'',
         effect_because = ''the value is shifted and masked out of a bus word, so it is not the memory and no pointer to it exists''\<rparr>,
       \<lparr>effect_axis = ATOMIC, effect_value = bare ''NonAtomic'',
         effect_because = ''the word arrives in one transaction, but isolating the field from it does not''\<rparr>],
     rule_remedy = ''a field occupying the whole `access_width` is read and written as one transaction with no masking at all'',
     rule_blames_cause = False\<rparr>"

definition rule_register_read_only :: rule where
  "rule_register_read_only =
    \<lparr>rule_name = ''register-read-only'',
     rule_construct = ''a register field the bus does not let you write'',
     rule_effects = [
       \<lparr>effect_axis = MUTATE, effect_value = bare ''Immutable'',
         effect_because = ''the hardware drives this field; a write to it either does nothing or does something else''\<rparr>],
     rule_remedy = [],
     rule_blames_cause = False\<rparr>"

definition rule_register_rmw_unsafe :: rule where
  "rule_register_rmw_unsafe =
    \<lparr>rule_name = ''register-rmw-unsafe'',
     rule_construct = ''a partial-width field in a register whose reads are not free'',
     rule_effects = [],
     rule_remedy = ''compose the whole word and write it once, which the generated builder does; or widen `access_width` to the field if the bus allows a narrower transaction'',
     rule_blames_cause = False\<rparr>"

definition rule_register_side_effect :: rule where
  "rule_register_side_effect =
    \<lparr>rule_name = ''register-side-effect'',
     rule_construct = ''a register field whose access has a side effect'',
     rule_effects = [],
     rule_remedy = ''a field with `on_read` other than `none` cannot be read twice for the same value; read it once and keep it'',
     rule_blames_cause = False\<rparr>"

definition rule_secret_field :: rule where
  "rule_secret_field =
    \<lparr>rule_name = ''secret-field'',
     rule_construct = ''a `[secret]` field'',
     rule_effects = [
       \<lparr>effect_axis = SECRECY, effect_value = bare ''Secret'',
         effect_because = ''debug accessors are suppressed and the storage is zeroized''\<rparr>],
     rule_remedy = [],
     rule_blames_cause = False\<rparr>"

definition rule_file_durable_write :: rule where
  "rule_file_durable_write =
    \<lparr>rule_name = ''file-durable-write'',
     rule_construct = ''a member of a schema worked on in a file'',
     rule_effects = [
       \<lparr>effect_axis = EFFECT, effect_value = bare ''EffectOnWrite'',
         effect_because = ''a store lands in the file: it outlives the process and another reader may see it, so it is not a pure store to be repeated, reordered or elided''\<rparr>],
     rule_remedy = ''`target buffer` where the bytes are the caller'' @ [CHR 0x27] @ ''s memory and a store is a store'',
     rule_blames_cause = False\<rparr>"

definition rule_file_append :: rule where
  "rule_file_append =
    \<lparr>rule_name = ''file-append'',
     rule_construct = ''a member of a file the schema may append to'',
     rule_effects = [
       \<lparr>effect_axis = ADDRESS, effect_value = bare ''Unstable'',
         effect_because = ''growing the file may move the mapping, so no pointer into it survives an append''\<rparr>],
     rule_remedy = ''drop `append` where the extent is decided before the first write; the addresses come back'',
     rule_blames_cause = False\<rparr>"

definition TABLE :: "(rule \<times> (row_context \<Rightarrow> bool)) list" where
  "TABLE =
    [(rule_non_native_endian_scalar, is_converted_scalar),
     (rule_endian_marker_scope, is_marker_scoped),
     (rule_derived_field, is_derived),
     (rule_declared_non_canonical, is_declared_non_canonical),
     (rule_repeat_while, is_repeat_while),
     (rule_delimited_member, is_delimited),
     (rule_skipped_lead, has_lead),
     (rule_text_number, is_text_number),
     (rule_non_minimal_text_number, is_loose_text_number),
     (rule_unbounded_scan, is_uncapped_scan),
     (rule_relaxed_delimiter, is_relaxed_delimiter),
     (rule_versioned_member, is_versioned),
     (rule_trimmed_value, is_trimmed),
     (rule_case_insensitive_token, is_case_insensitive),
     (rule_data_placed, is_data_placed),
     (rule_message_static, is_message_static),
     (rule_scanned_predecessor, is_past_a_scan),
     (rule_nul_terminated, is_nul_terminated),
     (rule_fixed_point, is_fixed_point_field),
     (rule_bcd, is_bcd_field),
     (rule_bit_field, is_bit_field),
     (rule_straddling_bit_field, straddles),
     (rule_unaligned_multi_byte_scalar, is_unaligned_multibyte),
     (rule_aggregate_or_array, is_aggregate_or_array),
     (rule_odd_width_scalar, is_odd_width_scalar),
     (rule_dynamic_predecessor, has_dynamic_offset),
     (rule_unwalked_arm_predecessor, (\<lambda>c. cx_unwalked_arm c \<noteq> None)),
     (rule_coded_predecessor, has_coded_predecessor),
     (rule_frame_relative, is_frame_relative),
     (rule_bounded_size, is_bounded_size),
     (rule_unbounded_size, is_unbounded_size),
     (rule_dynamic_element_type, has_dynamic_elements),
     (rule_codec_not_invertible, not_invertible),
     (rule_codec_needs_decode, needs_decode_first),
     (rule_codec_whole_region_rewrite, interior_whole_region),
     (rule_codec_block_granularity, interior_block_slack),
     (rule_codec_permuted, interior_permuted),
     (rule_tlv, is_tlv),
     (rule_tlv_unordered_items, tlv_has_no_ordering),
     (rule_tlv_non_minimal_tag, tlv_tag_is_non_minimal),
     (rule_tlv_packed_and_unpacked, tlv_allows_packed_and_unpacked),
     (rule_tlv_unknown_preserve, tlv_preserves_unknown),
     (rule_tlv_unordered_duplicates, tlv_allows_unordered_duplicates),
     (rule_opaque, is_opaque),
     (rule_indexed, is_indexed),
     (rule_indexed_outside_the_region, indexes_outside_the_region),
     (rule_variant_unequal_arms, has_unequal_arms),
     (rule_varint, is_varint),
     (rule_non_minimal_varint, is_non_minimal_varint),
     (rule_endian_native, is_host_dependent),
     (rule_reserved_unknown, cx_reserved_unknown),
     (rule_enum_default_pass, cx_enum_default_pass),
     (rule_codec_not_deterministic, not_deterministic),
     (rule_covered_by_tag, is_covered),
     (rule_verify_gated, is_verify_gated),
     (rule_allow_unverified_read, reads_unverified),
     (rule_tag_field, is_tag),
     (rule_strictness_lenient, is_lenient),
     (rule_register_partial_word, is_partial_word),
     (rule_register_read_only, is_read_only),
     (rule_register_rmw_unsafe, rmw_is_unsafe),
     (rule_register_side_effect, register_effect),
     (rule_secret_field, (\<lambda>c. has_attr (pl_attrs (cx_placement c)) ''secret'')),
     (rule_file_durable_write, is_on_a_file),
     (rule_file_append, may_grow)]"

section \<open>The rows by name\<close>

lemmas rule_defs =
  rule_non_native_endian_scalar_def rule_endian_marker_scope_def rule_derived_field_def
  rule_declared_non_canonical_def rule_repeat_while_def rule_delimited_member_def rule_skipped_lead_def
  rule_text_number_def rule_non_minimal_text_number_def rule_unbounded_scan_def rule_relaxed_delimiter_def
  rule_versioned_member_def rule_trimmed_value_def rule_case_insensitive_token_def rule_data_placed_def
  rule_message_static_def rule_scanned_predecessor_def rule_nul_terminated_def rule_fixed_point_def
  rule_bcd_def rule_bit_field_def rule_straddling_bit_field_def rule_unaligned_multi_byte_scalar_def
  rule_aggregate_or_array_def rule_odd_width_scalar_def rule_dynamic_predecessor_def
  rule_unwalked_arm_predecessor_def rule_coded_predecessor_def rule_frame_relative_def
  rule_bounded_size_def rule_unbounded_size_def rule_dynamic_element_type_def rule_codec_not_invertible_def
  rule_codec_needs_decode_def rule_codec_whole_region_rewrite_def rule_codec_block_granularity_def
  rule_codec_permuted_def rule_tlv_def rule_tlv_unordered_items_def rule_tlv_non_minimal_tag_def
  rule_tlv_packed_and_unpacked_def rule_tlv_unknown_preserve_def rule_tlv_unordered_duplicates_def
  rule_opaque_def rule_indexed_def rule_indexed_outside_the_region_def rule_variant_unequal_arms_def
  rule_varint_def rule_non_minimal_varint_def rule_endian_native_def rule_reserved_unknown_def
  rule_enum_default_pass_def rule_codec_not_deterministic_def rule_covered_by_tag_def rule_verify_gated_def
  rule_allow_unverified_read_def rule_tag_field_def rule_strictness_lenient_def
  rule_register_partial_word_def rule_register_read_only_def rule_register_rmw_unsafe_def
  rule_register_side_effect_def rule_secret_field_def rule_file_durable_write_def rule_file_append_def

lemma rule_names:
  "rule_name rule_non_native_endian_scalar = ''non-native-endian-scalar''"
  "rule_name rule_endian_marker_scope = ''endian-marker-scope''"
  "rule_name rule_derived_field = ''derived-field''"
  "rule_name rule_declared_non_canonical = ''declared-non-canonical''"
  "rule_name rule_repeat_while = ''repeat-while''"
  "rule_name rule_delimited_member = ''delimited-member''"
  "rule_name rule_skipped_lead = ''skipped-lead''"
  "rule_name rule_text_number = ''text-number''"
  "rule_name rule_non_minimal_text_number = ''non-minimal-text-number''"
  "rule_name rule_unbounded_scan = ''unbounded-scan''"
  "rule_name rule_relaxed_delimiter = ''relaxed-delimiter''"
  "rule_name rule_versioned_member = ''versioned-member''"
  "rule_name rule_trimmed_value = ''trimmed-value''"
  "rule_name rule_case_insensitive_token = ''case-insensitive-token''"
  "rule_name rule_data_placed = ''data-placed''"
  "rule_name rule_message_static = ''message-static''"
  "rule_name rule_scanned_predecessor = ''scanned-predecessor''"
  "rule_name rule_nul_terminated = ''nul-terminated''"
  "rule_name rule_fixed_point = ''fixed-point''"
  "rule_name rule_bcd = ''bcd''"
  "rule_name rule_bit_field = ''bit-field''"
  "rule_name rule_straddling_bit_field = ''straddling-bit-field''"
  "rule_name rule_unaligned_multi_byte_scalar = ''unaligned-multi-byte-scalar''"
  "rule_name rule_aggregate_or_array = ''aggregate-or-array''"
  "rule_name rule_odd_width_scalar = ''odd-width-scalar''"
  "rule_name rule_dynamic_predecessor = ''dynamic-predecessor''"
  "rule_name rule_unwalked_arm_predecessor = ''unwalked-arm-predecessor''"
  "rule_name rule_coded_predecessor = ''coded-predecessor''"
  "rule_name rule_frame_relative = ''frame-relative''"
  "rule_name rule_bounded_size = ''bounded-size''"
  "rule_name rule_unbounded_size = ''unbounded-size''"
  "rule_name rule_dynamic_element_type = ''dynamic-element-type''"
  "rule_name rule_codec_not_invertible = ''codec-not-invertible''"
  "rule_name rule_codec_needs_decode = ''codec-needs-decode''"
  "rule_name rule_codec_whole_region_rewrite = ''codec-whole-region-rewrite''"
  "rule_name rule_codec_block_granularity = ''codec-block-granularity''"
  "rule_name rule_codec_permuted = ''codec-permuted''"
  "rule_name rule_tlv = ''tlv''"
  "rule_name rule_tlv_unordered_items = ''tlv-unordered-items''"
  "rule_name rule_tlv_non_minimal_tag = ''tlv-non-minimal-tag''"
  "rule_name rule_tlv_packed_and_unpacked = ''tlv-packed-and-unpacked''"
  "rule_name rule_tlv_unknown_preserve = ''tlv-unknown-preserve''"
  "rule_name rule_tlv_unordered_duplicates = ''tlv-unordered-duplicates''"
  "rule_name rule_opaque = ''opaque''"
  "rule_name rule_indexed = ''indexed''"
  "rule_name rule_indexed_outside_the_region = ''indexed-outside-the-region''"
  "rule_name rule_variant_unequal_arms = ''variant-unequal-arms''"
  "rule_name rule_varint = ''varint''"
  "rule_name rule_non_minimal_varint = ''non-minimal-varint''"
  "rule_name rule_endian_native = ''endian-native''"
  "rule_name rule_reserved_unknown = ''reserved-unknown''"
  "rule_name rule_enum_default_pass = ''enum-default-pass''"
  "rule_name rule_codec_not_deterministic = ''codec-not-deterministic''"
  "rule_name rule_covered_by_tag = ''covered-by-tag''"
  "rule_name rule_verify_gated = ''verify-gated''"
  "rule_name rule_allow_unverified_read = ''allow-unverified-read''"
  "rule_name rule_tag_field = ''tag-field''"
  "rule_name rule_strictness_lenient = ''strictness-lenient''"
  "rule_name rule_register_partial_word = ''register-partial-word''"
  "rule_name rule_register_read_only = ''register-read-only''"
  "rule_name rule_register_rmw_unsafe = ''register-rmw-unsafe''"
  "rule_name rule_register_side_effect = ''register-side-effect''"
  "rule_name rule_secret_field = ''secret-field''"
  "rule_name rule_file_durable_write = ''file-durable-write''"
  "rule_name rule_file_append = ''file-append''"
  by (simp_all add: rule_defs)

end
