(* ===== verification/Propagate.thy ===== *)
theory Propagate
  imports Propagate_Table
begin

text \<open>
  \<open>apply\<close> of \<open>situc/propagate.py\<close>: the one interpreter of the table.  The base vector states what the
  layout knows; every row that applies contributes its effects in order, some of them computed from
  the placement, and each effect that is not stronger than what the axis already holds is set and
  recorded as a weakening.  A failed \<open>assert\<close> is \<open>PyAssertionError\<close>, and the operator the unparser
  has no binding for \<open>PyKeyError\<close>.
\<close>

section \<open>Rendering\<close>

text \<open>The format \<open>02X\<close> of an integer.\<close>

fun hex_nat :: "nat \<Rightarrow> string" where
  "hex_nat n = (if n < 16 then [hex_upper n] else hex_nat (n div 16) @ [hex_upper (n mod 16)])"

definition hex_02 :: "int \<Rightarrow> string" where
  "hex_02 n =
     (if n < 0 then CHR ''-'' # hex_nat (nat (- n))
      else if n < 16 then CHR ''0'' # hex_nat (nat n) else hex_nat (nat n))"

definition render_offset :: "int \<Rightarrow> string" where
  "render_offset offset_bits =
     (let byte = offset_bits div BITS_PER_BYTE; bit = offset_bits mod BITS_PER_BYTE in
        if bit = 0 then ''0x'' @ hex_02 byte else ''0x'' @ hex_02 byte @ '':'' @ str_int bit)"

definition render_size :: "int \<Rightarrow> string" where
  "render_size size_bits =
     (let byte = size_bits div BITS_PER_BYTE; bit = size_bits mod BITS_PER_BYTE in
        if bit = 0 then str_int byte else str_int size_bits @ ''bit'')"

definition base_vector :: "layout_placement \<Rightarrow> cap_vector res" where
  "base_vector p =
     bindE (case pl_offset_bits p of
              None \<Rightarrow> Inr strongest
            | Some offset \<Rightarrow>
                with_value strongest OFFSET \<lparr>base = ''AbsoluteStatic'', params = [render_offset offset]\<rparr>)
       (\<lambda>v. bindE (if pl_size_max_bits p = Some (pl_size_bits p)
                   then with_value v SIZE \<lparr>base = ''Fixed'', params = [render_size (pl_size_bits p)]\<rparr>
                   else Inr v)
       (\<lambda>v. with_value v ALIGN (align_value p)))"

section \<open>Effects computed from the placement\<close>

abbreviation Effect :: "axis \<Rightarrow> cap_value \<Rightarrow> string \<Rightarrow> effect" where
  "Effect ax v why \<equiv> \<lparr>effect_axis = ax, effect_value = v, effect_because = why\<rparr>"

definition quoted :: "string \<Rightarrow> string" where
  "quoted s = ''`'' @ s @ ''`''"

definition rmw_effects :: "row_context \<Rightarrow> effect list res" where
  "rmw_effects c =
     (case register_of c of
        None \<Rightarrow> Inl PyAssertionError
      | Some r \<Rightarrow>
          let p = cx_placement c;
              why = (if no_rmw r then ''`no_rmw` is declared''
                     else ''`on_read = '' @ side_effect_value (pl_on_read p) @ ''` makes the read destructive'') in
          Inr [Effect MUTATE (bare ''RewriteRequired'')
            (''the field is '' @ str_int (pl_size_bits p) @ '' of '' @ str_int (access_width r)
             @ '' bits, so writing it alone would need a read-modify-write, and '' @ why)])"

definition effect_effects :: "row_context \<Rightarrow> effect list" where
  "effect_effects c =
     (let p = cx_placement c;
          reads = (pl_on_read p \<noteq> side_effect.NONE);
          writes = (pl_on_write p \<noteq> side_effect.NONE);
          reading = ''reading it '' @ side_effect_value (pl_on_read p) @ ''s'';
          writing = ''writing it '' @ side_effect_value (pl_on_write p) @ ''s'';
          (val, detail) =
            (if reads \<and> writes then (''EffectBoth'', reading @ '' and '' @ writing)
             else if reads then (''EffectOnRead'', reading) else (''EffectOnWrite'', writing)) in
      [Effect EFFECT (bare val)
        (detail @ '', so the access is not a pure load or store and may not be repeated, reordered or elided'')])"

definition coverage_effects :: "row_context \<Rightarrow> effect list" where
  "coverage_effects c =
     (let tags = pl_covered_by (cx_placement c);
          listed = join_args (map quoted tags);
          (subject, stale) =
            (if length tags = 1 then (''tag '' @ listed @ '' authenticates'', ''the tag'')
             else (''tags '' @ listed @ '' authenticate'', ''them'')) in
      [Effect AUTH \<lparr>base = ''Covered'', params = tags\<rparr>
        (subject @ '' these bytes, so writing them leaves '' @ stale @ '' stale until finalize recomputes it'')])"

definition bounded_effects :: "row_context \<Rightarrow> effect list" where
  "bounded_effects c =
     filter (\<lambda>e. effect_axis e \<noteq> MUTATE \<or> \<not> owns_its_mutate (cx_placement c)) (rule_effects rule_bounded_size)"

definition unbounded_effects :: "row_context \<Rightarrow> effect list" where
  "unbounded_effects c =
     Effect SIZE (bare ''Unbounded'')
       ''nothing in the schema limits how many bytes this can occupy, so it cannot be statically allocated''
     # (if owns_its_mutate (cx_placement c) then []
        else [Effect MUTATE (bare ''Shifting'') ''changing its length moves everything after it''])"

text \<open>\<open>max\<close> of a list; Python raises \<open>ValueError\<close> on the empty one.\<close>

definition max_of :: "int list \<Rightarrow> int res" where
  "max_of xs = (if xs = [] then Inl PyValueError else Inr (fold max (tl xs) (hd xs)))"

definition variant_effects :: "row_context \<Rightarrow> effect list res" where
  "variant_effects c =
     (let sizes = pl_arm_sizes (cx_placement c) in
      bindE (max_of (map snd sizes)) (\<lambda>largest.
      bindE (max_of (map (\<lambda>(name, size). largest - size) sizes)) (\<lambda>most.
        let worst = most div BITS_PER_BYTE;
            detail = join_args (map (\<lambda>(name, size). quoted name @ '' '' @ str_int (size div BITS_PER_BYTE)) sizes) in
        if pl_size_max_bits (cx_placement c) = None then
          Inr [Effect SIZE (bare ''Unbounded'')
                 (''the extent is whichever arm is selected: '' @ detail @ '' bytes, and one of them has no upper bound''),
               Effect MUTATE (bare ''Shifting'')
                 ''selecting a different arm changes the extent, moving every member after the variant'']
        else
          Inr [Effect SIZE (bare ''Bounded'')
                 (''the extent is whichever arm is selected: '' @ detail @ '' bytes; equalizing them would cost up to ''
                  @ str_int worst @ '' bytes of padding''),
               Effect MUTATE (bare ''Shifting'')
                 ''selecting a different arm changes the extent, moving every member after the variant''])))"

definition frame_effects :: "row_context \<Rightarrow> effect list" where
  "frame_effects c =
     Effect OFFSET (bare ''FrameStatic'') ''the offset is fixed relative to the frame base, which is itself found once''
     # (if pl_frame_base_dynamic (cx_placement c)
        then [Effect ADDRESS (bare ''FrameStable'')
                (''a pointer stays valid only while the frame'' @ [CHR 0x27] @ ''s base does not move'')]
        else [])"

text \<open>A value the code writes into an f-string, \<open>None\<close> included.\<close>

definition shown :: "string option \<Rightarrow> string" where
  "shown s = (case s of None \<Rightarrow> ''None'' | Some t \<Rightarrow> t)"

definition predecessor_effects :: "row_context \<Rightarrow> effect list" where
  "predecessor_effects c =
     (let p = cx_placement c;
          why = (case pl_dynamic_cause p of
                   None \<Rightarrow> ''an earlier member'' @ [CHR 0x27] @ ''s length is not fixed''
                 | Some cause \<Rightarrow>
                     quoted cause @ '' has size '' @ shown (pl_dynamic_cause_size p)
                     @ '', so the bytes before this field vary'') in
      [Effect OFFSET (bare ''Dynamic'') why,
       Effect ADDRESS (bare ''Unstable'')
         ''a pointer to it is invalidated by any write that changes the length of what precedes it''])"

definition varint_effects :: "row_context \<Rightarrow> effect list" where
  "varint_effects c =
     (if pl_size_max_bits (cx_placement c) \<noteq> None then rule_effects rule_varint
      else map (\<lambda>e. if effect_axis e = SIZE
                    then Effect SIZE (bare ''Unbounded'')
                      ''the frame decides how many varints are here, and a frame has no maximum the schema states''
                    else e)
             (rule_effects rule_varint))"

definition coded_predecessor_effects :: "row_context \<Rightarrow> effect list" where
  "coded_predecessor_effects c =
     (let cause = quoted (shown (pl_dynamic_cause (cx_placement c)));
          codec = quoted (shown (pl_dynamic_cause_codec (cx_placement c))) in
      [Effect OFFSET (bare ''Dynamic'')
         (cause @ '' is '' @ codec @ [CHR 0x27] @ ''s output, and that codec'' @ [CHR 0x27] @ ''s expansion is a worst case rather than a length, so where this field starts is wherever the decoder stopped''),
       Effect ADDRESS (bare ''Unstable'')
         ''a pointer to it is invalidated by any write that changes the length of what precedes it'',
       Effect STAGE (bare ''TransformTime'')
         (cause @ '' has to be decoded before anything after it can be found, so this field is not reachable at parse time''),
       Effect MUTATE (bare ''Immutable'')
         (''where this field starts is not known until '' @ cause @ '' has been decoded, so there is nothing for a setter to address''),
       Effect ACCESS (bare ''Sequential'')
         (''nothing reaches this field by arithmetic: '' @ cause @ '' has to be decoded from its start, and where it stops is what says where this field begins'')])"

text \<open>\<open>strip\<close> of one character at both ends.\<close>

definition strip_char :: "char \<Rightarrow> string \<Rightarrow> string" where
  "strip_char q s = rev (dropWhile (\<lambda>c. c = q) (rev (dropWhile (\<lambda>c. c = q) s)))"

definition declared_effects :: "row_context \<Rightarrow> effect list res" where
  "declared_effects c =
     (case find (\<lambda>a. attr_name a = ''non_canonical'') (pl_attrs (cx_placement c)) of
        None \<Rightarrow> Inr []
      | Some a \<Rightarrow>
          bindE (case attr_value a of
                   None \<Rightarrow> Inr ''no reason given''
                 | Some e \<Rightarrow>
                     (case expr_to_source e False of
                        None \<Rightarrow> Inl PyKeyError | Some s \<Rightarrow> Inr (strip_char (CHR 0x22) s)))
            (\<lambda>reason. Inr [Effect CANONICAL (bare ''NonCanonical'') (''the schema says so: '' @ reason)]))"

definition marker_effects :: "row_context \<Rightarrow> effect list res" where
  "marker_effects c =
     (case pl_marker (cx_placement c) of
        None \<Rightarrow> Inl PyAssertionError
      | Some marker \<Rightarrow>
          Inr [Effect REPR \<lparr>base = ''ConditionallyConverted'', params = [marker]\<rparr>
                 (''the byte swap is a parse-time branch on '' @ quoted marker
                  @ '', so the value is not the memory and no pointer accessor is generated''),
               Effect CANONICAL \<lparr>base = ''CanonicalGiven'', params = [marker]\<rparr>
                 (''two byte sequences encode the same value at the format level, but exactly one does given '' @ quoted marker)])"

definition parameterise :: "effect \<Rightarrow> layout_placement \<Rightarrow> effect res" where
  "parameterise e p =
     (if params (effect_value e) \<noteq> [] then Inr e
      else if effect_axis e = OFFSET \<and> base (effect_value e) = ''FrameStatic'' then
        (case pl_offset_bits p of
           None \<Rightarrow> Inl PyAssertionError
         | Some offset \<Rightarrow>
             Inr (e\<lparr>effect_value := \<lparr>base = ''FrameStatic'', params = [render_offset offset]\<rparr>\<rparr>))
      else if effect_axis e = OFFSET \<and> base (effect_value e) = ''MessageStatic'' then
        (case pl_located_bytes p of
           None \<Rightarrow> Inl PyAssertionError
         | Some located \<Rightarrow>
             Inr (e\<lparr>effect_value := \<lparr>base = ''MessageStatic'', params = [render_offset (located * 8)]\<rparr>\<rparr>))
      else if effect_axis e = SIZE \<and> base (effect_value e) = ''Bounded'' then
        (case pl_size_max_bits p of
           None \<Rightarrow> Inl PyAssertionError
         | Some most \<Rightarrow>
             Inr (e\<lparr>effect_value := \<lparr>base = ''Bounded'', params = [render_size (pl_size_bits p), render_size most]\<rparr>\<rparr>))
      else Inr e)"

section \<open>The interpreter\<close>

record weakening =
  weakening_rule :: rule
  weakening_effect :: effect
  weakening_span :: src_span
  weakening_subject :: string

record resolved =
  rs_placement :: layout_placement
  rs_vector :: cap_vector
  rs_weakenings :: "weakening list"

definition blame :: "resolved \<Rightarrow> axis \<Rightarrow> weakening list" where
  "blame r ax = filter (\<lambda>w. effect_axis (weakening_effect w) = ax) (rs_weakenings r)"

definition effects_of :: "row_context \<Rightarrow> rule \<Rightarrow> effect list res" where
  "effects_of c r =
     (if rule_name r = ''declared-non-canonical'' then declared_effects c
      else if rule_name r = ''endian-marker-scope'' then marker_effects c
      else if rule_name r = ''dynamic-predecessor'' then Inr (predecessor_effects c)
      else if rule_name r = ''coded-predecessor'' then Inr (coded_predecessor_effects c)
      else if rule_name r = ''frame-relative'' then Inr (frame_effects c)
      else if rule_name r = ''variant-unequal-arms'' then variant_effects c
      else if rule_name r = ''varint'' then Inr (varint_effects c)
      else if rule_name r = ''bounded-size'' then Inr (bounded_effects c)
      else if rule_name r = ''unbounded-size'' then Inr (unbounded_effects c)
      else if rule_name r = ''covered-by-tag'' then Inr (coverage_effects c)
      else if rule_name r = ''register-rmw-unsafe'' then rmw_effects c
      else if rule_name r = ''register-side-effect'' then Inr (effect_effects c)
      else Inr (rule_effects r))"

definition weakening_at :: "rule \<Rightarrow> layout_placement \<Rightarrow> effect \<Rightarrow> weakening" where
  "weakening_at r p e =
     \<lparr>weakening_rule = r, weakening_effect = e,
      weakening_span = (if rule_blames_cause r
        then (case pl_dynamic_cause_span p of None \<Rightarrow> pl_span p | Some s \<Rightarrow> s) else pl_span p),
      weakening_subject = pl_path p\<rparr>"

text \<open>The vector and the weakenings so far, through the effects of one row and through all rows.\<close>

fun apply_effects :: "rule \<Rightarrow> layout_placement \<Rightarrow> effect list \<Rightarrow> cap_vector \<times> weakening list
    \<Rightarrow> (cap_vector \<times> weakening list) res" where
  "apply_effects r p [] st = Inr st"
| "apply_effects r p (stated # es) (v, ws) =
     bindE (parameterise stated p) (\<lambda>e.
     bindE (rank (effect_axis e) (effect_value e)) (\<lambda>n.
     bindE (rank (effect_axis e) (vget v (effect_axis e))) (\<lambda>current.
       if n < current then apply_effects r p es (v, ws)
       else bindE (with_value v (effect_axis e) (effect_value e)) (\<lambda>v'.
         apply_effects r p es (v', ws @ [weakening_at r p e])))))"

fun apply_rows :: "row_context \<Rightarrow> (rule \<times> (row_context \<Rightarrow> bool)) list \<Rightarrow> cap_vector \<times> weakening list
    \<Rightarrow> (cap_vector \<times> weakening list) res" where
  "apply_rows c [] st = Inr st"
| "apply_rows c ((r, applies) # rows) st =
     (if \<not> applies c then apply_rows c rows st
      else bindE (effects_of c r) (\<lambda>es.
        bindE (apply_effects r (cx_placement c) es st) (\<lambda>st'. apply_rows c rows st')))"

definition apply_table :: "row_context \<Rightarrow> resolved res" where
  "apply_table c =
     bindE (base_vector (cx_placement c)) (\<lambda>v.
     bindE (apply_rows c TABLE (v, [])) (\<lambda>(v', ws).
       Inr \<lparr>rs_placement = cx_placement c, rs_vector = v', rs_weakenings = ws\<rparr>))"

section \<open>Effects that are well formed\<close>

text \<open>
  An effect as a row states it: its value belongs to its axis, it says why, and filling in its
  parameters from the placement does not fail.
\<close>

definition fills_in :: "layout_placement \<Rightarrow> effect \<Rightarrow> bool" where
  "fills_in p e \<longleftrightarrow> base (effect_value e) \<in> set (DOMAINS (effect_axis e))
     \<and> effect_because e \<noteq> [] \<and> (effect_axis e = ALIGN \<longrightarrow> params (effect_value e) = [])
     \<and> (params (effect_value e) = [] \<longrightarrow>
          (effect_axis e = OFFSET \<and> base (effect_value e) = ''FrameStatic'' \<longrightarrow> pl_offset_bits p \<noteq> None)
        \<and> (effect_axis e = OFFSET \<and> base (effect_value e) = ''MessageStatic'' \<longrightarrow> pl_located_bytes p \<noteq> None)
        \<and> (effect_axis e = SIZE \<and> base (effect_value e) = ''Bounded'' \<longrightarrow> pl_size_max_bits p \<noteq> None))"

definition static_effect :: "effect \<Rightarrow> bool" where
  "static_effect e \<longleftrightarrow> params (effect_value e) = [] \<and> base (effect_value e) \<in> set (DOMAINS (effect_axis e))
     \<and> effect_because e \<noteq> [] \<and> \<not> (effect_axis e = OFFSET \<and> base (effect_value e) \<in> {''FrameStatic'', ''MessageStatic''})
     \<and> \<not> (effect_axis e = SIZE \<and> base (effect_value e) = ''Bounded'')"

lemma static_fills_in: "static_effect e \<Longrightarrow> fills_in p e"
  by (auto simp: static_effect_def fills_in_def)

lemma parameterise_value:
  "fills_in p e \<Longrightarrow>
    (case parameterise e p of
       Inl _ \<Rightarrow> False
     | Inr e' \<Rightarrow> effect_axis e' = effect_axis e \<and> base (effect_value e') = base (effect_value e)
         \<and> effect_because e' = effect_because e \<and> (effect_axis e = ALIGN \<longrightarrow> params (effect_value e') = []))"
  unfolding fills_in_def parameterise_def
  by (cases "pl_offset_bits p"; cases "pl_located_bytes p"; cases "pl_size_max_bits p") (auto split: if_splits)

lemma parameterise_fills:
  assumes "fills_in p e"
  obtains e' where "parameterise e p = Inr e'" "effect_axis e' = effect_axis e"
    "base (effect_value e') = base (effect_value e)" "effect_because e' = effect_because e"
    "wf_value (effect_axis e') (effect_value e')"
  using parameterise_value [OF assms] assms
  by (auto simp: fills_in_def wf_value_def split: sum.splits)

text \<open>The rows whose effects the code does not take from the table as they stand.\<close>

definition COMPUTED :: "string list" where
  "COMPUTED = [''declared-non-canonical'', ''endian-marker-scope'', ''dynamic-predecessor'', ''coded-predecessor'',
     ''frame-relative'', ''variant-unequal-arms'', ''varint'', ''bounded-size'', ''unbounded-size'', ''covered-by-tag'',
     ''register-rmw-unsafe'', ''register-side-effect'']"

lemma effects_of_stated: "rule_name r \<notin> set COMPUTED \<Longrightarrow> effects_of c r = Inr (rule_effects r)"
  by (simp add: COMPUTED_def effects_of_def)

definition stated_row :: "rule \<Rightarrow> bool" where
  "stated_row r \<longleftrightarrow> rule_name r \<notin> set COMPUTED \<and> list_all static_effect (rule_effects r)"


lemma stated_rules:
  "stated_row rule_non_native_endian_scalar"
  "stated_row rule_derived_field"
  "stated_row rule_repeat_while"
  "stated_row rule_delimited_member"
  "stated_row rule_skipped_lead"
  "stated_row rule_text_number"
  "stated_row rule_non_minimal_text_number"
  "stated_row rule_unbounded_scan"
  "stated_row rule_relaxed_delimiter"
  "stated_row rule_versioned_member"
  "stated_row rule_trimmed_value"
  "stated_row rule_case_insensitive_token"
  "stated_row rule_data_placed"
  "stated_row rule_scanned_predecessor"
  "stated_row rule_nul_terminated"
  "stated_row rule_fixed_point"
  "stated_row rule_bcd"
  "stated_row rule_bit_field"
  "stated_row rule_straddling_bit_field"
  "stated_row rule_unaligned_multi_byte_scalar"
  "stated_row rule_aggregate_or_array"
  "stated_row rule_odd_width_scalar"
  "stated_row rule_unwalked_arm_predecessor"
  "stated_row rule_dynamic_element_type"
  "stated_row rule_codec_not_invertible"
  "stated_row rule_codec_needs_decode"
  "stated_row rule_codec_whole_region_rewrite"
  "stated_row rule_codec_block_granularity"
  "stated_row rule_codec_permuted"
  "stated_row rule_tlv"
  "stated_row rule_tlv_unordered_items"
  "stated_row rule_tlv_non_minimal_tag"
  "stated_row rule_tlv_packed_and_unpacked"
  "stated_row rule_tlv_unknown_preserve"
  "stated_row rule_tlv_unordered_duplicates"
  "stated_row rule_opaque"
  "stated_row rule_indexed"
  "stated_row rule_indexed_outside_the_region"
  "stated_row rule_non_minimal_varint"
  "stated_row rule_endian_native"
  "stated_row rule_reserved_unknown"
  "stated_row rule_enum_default_pass"
  "stated_row rule_codec_not_deterministic"
  "stated_row rule_verify_gated"
  "stated_row rule_allow_unverified_read"
  "stated_row rule_tag_field"
  "stated_row rule_strictness_lenient"
  "stated_row rule_register_partial_word"
  "stated_row rule_register_read_only"
  "stated_row rule_secret_field"
  "stated_row rule_file_durable_write"
  "stated_row rule_file_append"
  by (simp_all add: stated_row_def static_effect_def COMPUTED_def rule_defs)

text \<open>An operator the unparser knows stands in every reason a schema states.\<close>

definition reasons_written :: "row_context \<Rightarrow> bool" where
  "reasons_written c \<longleftrightarrow> (\<forall>a \<in> set (pl_attrs (cx_placement c)). \<forall>e. attr_value a = Some e \<longrightarrow> expr_to_source e False \<noteq> None)"

definition row_fills :: "row_context \<Rightarrow> rule \<Rightarrow> (row_context \<Rightarrow> bool) \<Rightarrow> bool" where
  "row_fills c r applies \<longleftrightarrow> (applies c \<longrightarrow>
     (\<exists>es. effects_of c r = Inr es \<and> list_all (fills_in (cx_placement c)) es))"

lemma stated_row_fills: "stated_row r \<Longrightarrow> row_fills c r applies"
  by (auto simp: row_fills_def stated_row_def effects_of_stated list_all_iff static_fills_in)

lemma fills_in_bare:
  "fills_in p (Effect ax (bare b) why) \<longleftrightarrow> b \<in> set (DOMAINS ax) \<and> why \<noteq> []
     \<and> (ax = OFFSET \<and> b = ''FrameStatic'' \<longrightarrow> pl_offset_bits p \<noteq> None)
     \<and> (ax = OFFSET \<and> b = ''MessageStatic'' \<longrightarrow> pl_located_bytes p \<noteq> None)
     \<and> (ax = SIZE \<and> b = ''Bounded'' \<longrightarrow> pl_size_max_bits p \<noteq> None)"
  by (auto simp: fills_in_def)

lemma computed_row:
  "(\<And>es. applies c \<Longrightarrow> effects_of c r = Inr es \<Longrightarrow> list_all (fills_in (cx_placement c)) es)
    \<Longrightarrow> (applies c \<Longrightarrow> \<exists>es. effects_of c r = Inr es) \<Longrightarrow> row_fills c r applies"
  by (auto simp: row_fills_def)

lemma declared_row:
  assumes "reasons_written c"
  shows "row_fills c rule_declared_non_canonical is_declared_non_canonical"
proof -
  have "\<exists>es. declared_effects c = Inr es \<and> list_all (fills_in (cx_placement c)) es"
  proof (cases "find (\<lambda>a. attr_name a = ''non_canonical'') (pl_attrs (cx_placement c))")
    case (Some a)
    then have "\<forall>e. attr_value a = Some e \<longrightarrow> expr_to_source e False \<noteq> None"
      using assms by (auto simp: reasons_written_def find_Some_iff)
    with Some show ?thesis
      by (cases "attr_value a") (auto simp: declared_effects_def fills_in_bare)
  qed (simp add: declared_effects_def)
  then show ?thesis by (simp add: row_fills_def effects_of_def rule_names)
qed

lemma marker_row: "row_fills c rule_endian_marker_scope is_marker_scoped"
  by (auto simp: row_fills_def effects_of_def rule_names marker_effects_def is_marker_scoped_def fills_in_def)

lemma predecessor_row: "row_fills c rule_dynamic_predecessor has_dynamic_offset"
  by (auto simp: row_fills_def effects_of_def rule_names predecessor_effects_def fills_in_bare Let_def quoted_def
      split: option.splits)

lemma coded_row: "row_fills c rule_coded_predecessor has_coded_predecessor"
  by (simp add: row_fills_def effects_of_def rule_names coded_predecessor_effects_def fills_in_bare Let_def quoted_def)

lemma frame_row: "row_fills c rule_frame_relative is_frame_relative"
  by (simp add: row_fills_def effects_of_def rule_names frame_effects_def fills_in_bare is_frame_relative_def)

lemma message_static_row: "row_fills c rule_message_static is_message_static"
  by (simp add: row_fills_def effects_of_stated COMPUTED_def rule_names)
    (simp add: rule_message_static_def fills_in_bare is_message_static_def)

lemma varint_row: "row_fills c rule_varint is_varint"
  by (simp add: row_fills_def effects_of_def rule_names varint_effects_def)
    (simp add: rule_varint_def fills_in_bare)

lemma bounded_row: "row_fills c rule_bounded_size is_bounded_size"
  by (simp add: row_fills_def effects_of_def rule_names bounded_effects_def)
    (simp add: rule_bounded_size_def fills_in_bare is_bounded_size_def)

lemma unbounded_row: "row_fills c rule_unbounded_size is_unbounded_size"
  by (simp add: row_fills_def effects_of_def rule_names unbounded_effects_def fills_in_bare)

lemma covered_row: "row_fills c rule_covered_by_tag is_covered"
  by (simp add: row_fills_def effects_of_def rule_names coverage_effects_def fills_in_def Let_def is_covered_def)

lemma rmw_row: "row_fills c rule_register_rmw_unsafe rmw_is_unsafe"
  by (auto simp: row_fills_def effects_of_def rule_names rmw_effects_def fills_in_bare Let_def rmw_is_unsafe_def
      needs_rmw_def split: option.splits)

lemma side_effect_row: "row_fills c rule_register_side_effect register_effect"
  by (auto simp: row_fills_def effects_of_def rule_names effect_effects_def fills_in_bare Let_def)

lemma variant_row: "row_fills c rule_variant_unequal_arms has_unequal_arms"
proof -
  have "pl_arm_sizes (cx_placement c) \<noteq> []" if "has_unequal_arms c"
    using that by (auto simp: has_unequal_arms_def arm_widths_def)
  then show ?thesis
    by (auto simp: row_fills_def effects_of_def rule_names variant_effects_def max_of_def Let_def fills_in_bare)
qed

lemmas computed_rows = marker_row predecessor_row coded_row frame_row message_static_row varint_row bounded_row
  unbounded_row covered_row rmw_row side_effect_row variant_row

lemma rows_fill:
  assumes "reasons_written c"
  shows "list_all (\<lambda>(r, applies). row_fills c r applies) TABLE"
  by (simp add: TABLE_def stated_rules [THEN stated_row_fills] computed_rows declared_row [OF assms])

section \<open>What applying rows does to a vector\<close>

lemma rk_base: "base v = base w \<Longrightarrow> rk ax v = rk ax w"
  by (simp add: rk_def)

text \<open>
  From one vector to a weaker one by recorded weakenings: no axis is stronger than before, an axis
  that changed holds the value of a weakening recorded for it, and no weakening is stronger than
  what its axis holds in the end.
\<close>

definition weakened :: "cap_vector \<Rightarrow> cap_vector \<Rightarrow> weakening list \<Rightarrow> bool" where
  "weakened v v' ws \<longleftrightarrow>
     (\<forall>ax. rk ax (vget v ax) \<le> rk ax (vget v' ax))
   \<and> (\<forall>ax. vget v' ax \<noteq> vget v ax \<longrightarrow>
        (\<exists>w \<in> set ws. effect_axis (weakening_effect w) = ax \<and> effect_value (weakening_effect w) = vget v' ax))
   \<and> (\<forall>w \<in> set ws. rk (effect_axis (weakening_effect w)) (effect_value (weakening_effect w))
        \<le> rk (effect_axis (weakening_effect w)) (vget v' (effect_axis (weakening_effect w))))"

lemma weakened_le: "weakened v v' ws \<Longrightarrow> rk ax (vget v ax) \<le> rk ax (vget v' ax)"
  by (simp add: weakened_def)

lemma weakened_refl: "weakened v v []"
  by (simp add: weakened_def)

lemma weakened_trans:
  assumes "weakened v v' ws" and "weakened v' v'' ws'"
  shows "weakened v v'' (ws @ ws')"
  unfolding weakened_def
proof (intro conjI allI impI ballI)
  fix ax show "rk ax (vget v ax) \<le> rk ax (vget v'' ax)"
    using assms unfolding weakened_def by (meson order_trans)
next
  fix ax assume changed: "vget v'' ax \<noteq> vget v ax"
  show "\<exists>w \<in> set (ws @ ws'). effect_axis (weakening_effect w) = ax \<and> effect_value (weakening_effect w) = vget v'' ax"
  proof (cases "vget v'' ax = vget v' ax")
    case True
    with changed assms(1) show ?thesis unfolding weakened_def by (metis UnCI set_append)
  next
    case False
    with assms(2) show ?thesis unfolding weakened_def by (metis UnCI set_append)
  qed
next
  fix w assume "w \<in> set (ws @ ws')"
  then consider "w \<in> set ws" | "w \<in> set ws'" by auto
  then show "rk (effect_axis (weakening_effect w)) (effect_value (weakening_effect w))
      \<le> rk (effect_axis (weakening_effect w)) (vget v'' (effect_axis (weakening_effect w)))"
    using assms unfolding weakened_def by cases (meson order_trans, blast)
qed

lemma with_value_weaker:
  assumes "wf_vector v" and "wf_value ax x" and "rk ax (vget v ax) \<le> rk ax x"
  obtains v' where "with_value v ax x = Inr v'" "wf_vector v'" "\<And>bx. vget v' bx = (if bx = ax then x else vget v bx)"
  using assms wf_vectorD [OF assms(1)]
  by (auto simp: with_value_def rank_wf vget_set wf_vector_def list_all_iff)

definition recorded_by :: "rule \<Rightarrow> layout_placement \<Rightarrow> weakening list \<Rightarrow> bool" where
  "recorded_by r p ws \<longleftrightarrow> (\<forall>w \<in> set ws. weakening_rule w = r \<and> weakening_subject w = pl_path p
     \<and> effect_because (weakening_effect w) \<noteq> [])"

lemma apply_effects_value:
  assumes "wf_vector v" and "list_all (fills_in p) es"
  shows "\<exists>v' ws'. apply_effects r p es (v, ws) = Inr (v', ws @ ws') \<and> wf_vector v' \<and> weakened v v' ws'
    \<and> recorded_by r p ws'
    \<and> (\<forall>e \<in> set es. rk (effect_axis e) (effect_value e) \<le> rk (effect_axis e) (vget v' (effect_axis e)))"
  using assms
proof (induction es arbitrary: v ws)
  case Nil
  then show ?case by (auto simp: weakened_refl recorded_by_def intro: exI [of _ "[]"])
next
  case (Cons e es)
  obtain e' where e': "parameterise e p = Inr e'" "effect_axis e' = effect_axis e"
    "base (effect_value e') = base (effect_value e)" "effect_because e' = effect_because e"
    "wf_value (effect_axis e') (effect_value e')"
    using parameterise_fills Cons.prems(2) by auto
  let ?ax = "effect_axis e" and ?x = "effect_value e'"
  have wfv: "wf_value ?ax ?x" "wf_value ?ax (vget v ?ax)" using e'(2,5) wf_vectorD [OF Cons.prems(1), of "effect_axis e"] by simp_all
  have rk_e: "rk ?ax (effect_value e) = rk ?ax ?x" by (rule rk_base) (simp add: e'(3))
  show ?case
  proof (cases "rk ?ax ?x < rk ?ax (vget v ?ax)")
    case True
    obtain v' ws' where v': "apply_effects r p es (v, ws) = Inr (v', ws @ ws')" "wf_vector v'" "weakened v v' ws'"
      "recorded_by r p ws'"
      "\<forall>e \<in> set es. rk (effect_axis e) (effect_value e) \<le> rk (effect_axis e) (vget v' (effect_axis e))"
      using Cons.IH [OF Cons.prems(1)] Cons.prems(2) by force
    moreover have "rk ?ax (effect_value e) \<le> rk ?ax (vget v' ?ax)"
      using weakened_le [OF v'(3), of ?ax] True rk_e by linarith
    ultimately show ?thesis
      using e' wfv True by (auto simp: rank_wf)
  next
    case False
    then have not_stronger: "rk ?ax (vget v ?ax) \<le> rk ?ax ?x" by simp
    from with_value_weaker [OF Cons.prems(1) wfv(1) this]
    obtain u where u: "with_value v ?ax ?x = Inr u" "wf_vector u"
      "\<And>bx. vget u bx = (if bx = ?ax then ?x else vget v bx)" by blast
    let ?w = "weakening_at r p e'"
    have one: "weakened v u [?w]"
      using not_stronger by (auto simp: weakened_def weakening_at_def u(3) e'(2))
    have two: "recorded_by r p [?w]"
      using Cons.prems(2) by (simp add: weakening_at_def recorded_by_def fills_in_def e'(4))
    obtain v' ws' where v': "apply_effects r p es (u, ws @ [?w]) = Inr (v', (ws @ [?w]) @ ws')" "wf_vector v'"
      "weakened u v' ws'" "recorded_by r p ws'"
      "\<forall>e \<in> set es. rk (effect_axis e) (effect_value e) \<le> rk (effect_axis e) (vget v' (effect_axis e))"
      using Cons.IH [OF u(2), of "ws @ [?w]"] Cons.prems(2) by force
    have "rk ?ax (effect_value e) \<le> rk ?ax (vget v' ?ax)"
      using weakened_le [OF v'(3), of ?ax] u(3) [of ?ax] rk_e by simp
    moreover have "apply_effects r p (e # es) (v, ws) = Inr (v', ws @ (?w # ws'))"
      using e' wfv False u(1) v'(1) by (simp add: rank_wf)
    moreover have "weakened v v' (?w # ws')" using weakened_trans [OF one v'(3)] by simp
    moreover have "recorded_by r p (?w # ws')" using two v'(4) by (simp add: recorded_by_def)
    ultimately show ?thesis
      using v'(2,5) by (intro exI [of _ v'] exI [of _ "?w # ws'"]) (simp del: apply_effects.simps)
  qed
qed

text \<open>The same through all rows: a weakening stems from a row of the table that applies.\<close>

lemma apply_rows_value:
  assumes "wf_vector v" and "list_all (\<lambda>(r, applies). row_fills c r applies) rows"
  shows "\<exists>v' ws'. apply_rows c rows (v, ws) = Inr (v', ws @ ws') \<and> wf_vector v' \<and> weakened v v' ws'
    \<and> (\<forall>w \<in> set ws'. \<exists>(r, applies) \<in> set rows. applies c \<and> recorded_by r (cx_placement c) [w])
    \<and> (\<forall>(r, applies) \<in> set rows. applies c \<longrightarrow> (\<exists>es. effects_of c r = Inr es
        \<and> (\<forall>e \<in> set es. rk (effect_axis e) (effect_value e) \<le> rk (effect_axis e) (vget v' (effect_axis e)))))"
  using assms
proof (induction rows arbitrary: v ws)
  case Nil
  then show ?case by (auto simp: weakened_refl intro: exI [of _ "[]"])
next
  case (Cons row rows)
  obtain r applies where row: "row = (r, applies)" by (cases row)
  show ?case
  proof (cases "applies c")
    case False
    obtain v' ws' where "apply_rows c rows (v, ws) = Inr (v', ws @ ws')" "wf_vector v'" "weakened v v' ws'"
      "\<forall>w \<in> set ws'. \<exists>(r, applies) \<in> set rows. applies c \<and> recorded_by r (cx_placement c) [w]"
      "\<forall>(r, applies) \<in> set rows. applies c \<longrightarrow> (\<exists>es. effects_of c r = Inr es
        \<and> (\<forall>e \<in> set es. rk (effect_axis e) (effect_value e) \<le> rk (effect_axis e) (vget v' (effect_axis e))))"
      using Cons.IH [OF Cons.prems(1), of ws] Cons.prems(2) by (auto simp: row)
    then show ?thesis using False by (intro exI [of _ v'] exI [of _ ws']) (auto simp: row)
  next
    case True
    then obtain es where es: "effects_of c r = Inr es" "list_all (fills_in (cx_placement c)) es"
      using Cons.prems(2) by (auto simp: row row_fills_def)
    obtain u us where u: "apply_effects r (cx_placement c) es (v, ws) = Inr (u, ws @ us)" "wf_vector u"
      "weakened v u us" "recorded_by r (cx_placement c) us"
      "\<forall>e \<in> set es. rk (effect_axis e) (effect_value e) \<le> rk (effect_axis e) (vget u (effect_axis e))"
      using apply_effects_value [OF Cons.prems(1) es(2), of r ws] by blast
    obtain v' ws' where v': "apply_rows c rows (u, ws @ us) = Inr (v', (ws @ us) @ ws')" "wf_vector v'"
      "weakened u v' ws'"
      "\<forall>w \<in> set ws'. \<exists>(r, applies) \<in> set rows. applies c \<and> recorded_by r (cx_placement c) [w]"
      "\<forall>(r, applies) \<in> set rows. applies c \<longrightarrow> (\<exists>es. effects_of c r = Inr es
        \<and> (\<forall>e \<in> set es. rk (effect_axis e) (effect_value e) \<le> rk (effect_axis e) (vget v' (effect_axis e))))"
      using Cons.IH [OF u(2), of "ws @ us"] Cons.prems(2) by (auto simp: row)
    have "apply_rows c (row # rows) (v, ws) = Inr (v', ws @ (us @ ws'))"
      using True es(1) u(1) v'(1) by (simp add: row)
    moreover have "weakened v v' (us @ ws')" using u(3) v'(3) by (rule weakened_trans)
    moreover have "\<forall>w \<in> set (us @ ws'). \<exists>(r, applies) \<in> set (row # rows). applies c \<and> recorded_by r (cx_placement c) [w]"
      using True u(4) v'(4) by (fastforce simp: row recorded_by_def)
    moreover have "\<forall>e \<in> set es. rk (effect_axis e) (effect_value e) \<le> rk (effect_axis e) (vget v' (effect_axis e))"
      using u(5) weakened_le [OF v'(3)] by (meson order_trans)
    ultimately show ?thesis
      using v'(2,5) es(1) by (intro exI [of _ v'] exI [of _ "us @ ws'"]) (simp add: row del: apply_rows.simps)
  qed
qed

section \<open>The base vector\<close>

lemma alignment_cases: "alignment_of offset \<in> {0, 1, 2, 4, 8}"
proof (cases "offset div 8 = 0")
  case True
  then show ?thesis by (simp add: alignment_of_def BITS_PER_BYTE_def MAX_ALIGN_def)
next
  case False
  then show ?thesis by (simp add: alignment_of_def BITS_PER_BYTE_def Let_def align_loop_value)
qed

lemma read_alignments:
  "int_of_string (str_int 1) = Inr 1" "int_of_string (str_int 2) = Inr 2"
  "int_of_string (str_int 4) = Inr 4" "int_of_string (str_int 8) = Inr 8"
  by code_simp+

lemma wf_align_value: "wf_value ALIGN (align_value p)"
proof (cases "known_offset p")
  case None
  then show ?thesis by (simp add: align_value_def wf_value_def)
next
  case (Some known)
  with alignment_cases [of known] show ?thesis
    by (auto simp: align_value_def wf_value_def Let_def read_alignments)
qed

lemma wf_Nil: "wf_vector []"
  by (simp add: wf_vector_def list_all_iff)

lemma wf_plain: "ax \<noteq> ALIGN \<Longrightarrow> b \<in> set (DOMAINS ax) \<Longrightarrow> wf_value ax \<lparr>base = b, params = ps\<rparr>"
  by (simp add: wf_value_def)

text \<open>What the layout knows, and the strongest value on every axis it says nothing about.\<close>

definition layout_fact :: "layout_placement \<Rightarrow> axis \<Rightarrow> cap_value" where
  "layout_fact p ax =
     (if ax = OFFSET \<and> pl_offset_bits p \<noteq> None
      then \<lparr>base = ''AbsoluteStatic'', params = [render_offset (the (pl_offset_bits p))]\<rparr>
      else if ax = SIZE \<and> pl_size_max_bits p = Some (pl_size_bits p)
      then \<lparr>base = ''Fixed'', params = [render_size (pl_size_bits p)]\<rparr>
      else if ax = ALIGN then align_value p
      else bare (hd (DOMAINS ax)))"

lemma base_vector_value: "\<exists>v. base_vector p = Inr v \<and> wf_vector v \<and> (\<forall>ax. vget v ax = layout_fact p ax)"
proof -
  obtain u where u: "(case pl_offset_bits p of None \<Rightarrow> Inr strongest
      | Some offset \<Rightarrow> with_value strongest OFFSET \<lparr>base = ''AbsoluteStatic'', params = [render_offset offset]\<rparr>) = Inr u"
    "wf_vector u" "\<forall>ax. vget u ax = (if ax = OFFSET then layout_fact p ax else bare (hd (DOMAINS ax)))"
  proof (cases "pl_offset_bits p")
    case None
    then show thesis by (intro that [of strongest]) (auto simp: strongest_def wf_Nil layout_fact_def)
  next
    case (Some offset)
    let ?x = "\<lparr>base = ''AbsoluteStatic'', params = [render_offset offset]\<rparr>"
    have "rk OFFSET (vget [] OFFSET) \<le> rk OFFSET ?x" unfolding vget_Nil rk_strongest by simp
    from with_value_weaker [OF wf_Nil _ this] obtain v where
      "with_value [] OFFSET ?x = Inr v" "wf_vector v" "\<And>bx. vget v bx = (if bx = OFFSET then ?x else vget [] bx)"
      by (auto simp: wf_plain)
    then show thesis by (intro that [of v]) (auto simp: Some strongest_def layout_fact_def)
  qed
  obtain v where v: "(if pl_size_max_bits p = Some (pl_size_bits p)
      then with_value u SIZE \<lparr>base = ''Fixed'', params = [render_size (pl_size_bits p)]\<rparr> else Inr u) = Inr v"
    "wf_vector v" "\<forall>ax. vget v ax = (if ax = OFFSET \<or> ax = SIZE then layout_fact p ax else bare (hd (DOMAINS ax)))"
  proof (cases "pl_size_max_bits p = Some (pl_size_bits p)")
    case False
    with u show thesis by (intro that [of u]) (auto simp: layout_fact_def)
  next
    case True
    let ?x = "\<lparr>base = ''Fixed'', params = [render_size (pl_size_bits p)]\<rparr>"
    have "rk SIZE (vget u SIZE) \<le> rk SIZE ?x" using u(3) rk_strongest [of SIZE] by simp
    from with_value_weaker [OF u(2) _ this] obtain w where
      "with_value u SIZE ?x = Inr w" "wf_vector w" "\<And>bx. vget w bx = (if bx = SIZE then ?x else vget u bx)"
      by (auto simp: wf_plain)
    with u(3) True show thesis by (intro that [of w]) (auto simp: layout_fact_def)
  qed
  have "rk ALIGN (vget v ALIGN) \<le> rk ALIGN (align_value p)" using v(3) rk_strongest [of ALIGN] by simp
  from with_value_weaker [OF v(2) wf_align_value this] obtain w where
    w: "with_value v ALIGN (align_value p) = Inr w" "wf_vector w"
    "\<And>bx. vget w bx = (if bx = ALIGN then align_value p else vget v bx)" by blast
  have "base_vector p = Inr w" using u(1) v(1) w(1) by (simp add: base_vector_def)
  moreover have "vget w ax = layout_fact p ax" for ax using v(3) w(3) by (auto simp: layout_fact_def)
  ultimately show ?thesis using w(2) by blast
qed

section \<open>What the table does to a placement\<close>

lemma apply_table_value:
  assumes "reasons_written c"
  shows "\<exists>r. apply_table c = Inr r \<and> wf_vector (rs_vector r)
    \<and> (\<forall>ax. rk ax (layout_fact (cx_placement c) ax) \<le> rk ax (vget (rs_vector r) ax))
    \<and> (\<forall>(rl, applies) \<in> set TABLE. applies c \<longrightarrow> (\<exists>es. effects_of c rl = Inr es
        \<and> (\<forall>e \<in> set es. rk (effect_axis e) (effect_value e) \<le> rk (effect_axis e) (vget (rs_vector r) (effect_axis e)))))
    \<and> (\<forall>ax. vget (rs_vector r) ax \<noteq> layout_fact (cx_placement c) ax \<longrightarrow>
        (\<exists>w \<in> set (blame r ax). effect_value (weakening_effect w) = vget (rs_vector r) ax))
    \<and> (\<forall>w \<in> set (rs_weakenings r). \<exists>(rl, applies) \<in> set TABLE. applies c \<and> recorded_by rl (cx_placement c) [w])"
proof -
  obtain v where v: "base_vector (cx_placement c) = Inr v" "wf_vector v" "\<forall>ax. vget v ax = layout_fact (cx_placement c) ax"
    using base_vector_value by blast
  obtain v' ws where ap: "apply_rows c TABLE (v, []) = Inr (v', ws)" "wf_vector v'" "weakened v v' ws"
    "\<forall>w \<in> set ws. \<exists>(r, applies) \<in> set TABLE. applies c \<and> recorded_by r (cx_placement c) [w]"
    "\<forall>(r, applies) \<in> set TABLE. applies c \<longrightarrow> (\<exists>es. effects_of c r = Inr es
        \<and> (\<forall>e \<in> set es. rk (effect_axis e) (effect_value e) \<le> rk (effect_axis e) (vget v' (effect_axis e))))"
    using apply_rows_value [OF v(2) rows_fill [OF assms], of "[]"] by auto
  have "apply_table c = Inr \<lparr>rs_placement = cx_placement c, rs_vector = v', rs_weakenings = ws\<rparr>"
    using v(1) ap(1) by (simp add: apply_table_def)
  moreover have "rk ax (layout_fact (cx_placement c) ax) \<le> rk ax (vget v' ax)" for ax
    using weakened_le [OF ap(3), of ax] v(3) by simp
  moreover have "\<exists>w \<in> set ws. effect_axis (weakening_effect w) = ax \<and> effect_value (weakening_effect w) = vget v' ax"
    if "vget v' ax \<noteq> layout_fact (cx_placement c) ax" for ax
    using ap(3) v(3) that by (simp add: weakened_def)
  ultimately show ?thesis
    using ap(2,4,5) by (simp add: blame_def) blast
qed

text \<open>
  C4: no construct strengthens an axis.  For every placement whose stated reasons the unparser can
  write, running the table ends without a failed assertion and without an attempt to strengthen: on
  every axis the base of the vector's value stands, in the order of the axis, no higher than the base
  the layout established, and no higher than the base of any effect of any row that applies.  The
  order is of bases: parameters are not compared, and of two effects on one axis the weaker base is
  what the axis shows.
\<close>

theorem table_only_weakens:
  assumes "reasons_written c"
  shows "\<exists>r. apply_table c = Inr r \<and> wf_vector (rs_vector r)
    \<and> (\<forall>ax. rk ax (layout_fact (cx_placement c) ax) \<le> rk ax (vget (rs_vector r) ax))
    \<and> (\<forall>(rl, applies) \<in> set TABLE. applies c \<longrightarrow> (\<exists>es. effects_of c rl = Inr es
        \<and> (\<forall>e \<in> set es. rk (effect_axis e) (effect_value e) \<le> rk (effect_axis e) (vget (rs_vector r) (effect_axis e)))))"
  using apply_table_value [OF assms] by blast

text \<open>
  C5: every lost capability is explained.  Where an axis of the vector differs from what the layout
  established, the blame chain of that axis holds a weakening to exactly the value the axis has; and
  every weakening names a row of the table that applies to the placement, the placement's path, and
  a reason that is not empty.
\<close>

theorem every_loss_is_blamed:
  assumes "reasons_written c" and "apply_table c = Inr r"
  shows "(\<forall>ax. vget (rs_vector r) ax \<noteq> layout_fact (cx_placement c) ax \<longrightarrow>
        (\<exists>w \<in> set (blame r ax). effect_value (weakening_effect w) = vget (rs_vector r) ax))
    \<and> (\<forall>w \<in> set (rs_weakenings r). (\<exists>(rl, applies) \<in> set TABLE. applies c \<and> weakening_rule w = rl)
        \<and> weakening_subject w = pl_path (cx_placement c) \<and> effect_because (weakening_effect w) \<noteq> [])"
  using apply_table_value [OF assms(1)] assms(2) unfolding recorded_by_def by fastforce

text \<open>A delimited member without a cap, in a schema worked on in a file.\<close>

definition scanned_on_file :: row_context where
  "scanned_on_file =
     (plain_context ((plain_placement ''m.line'' ''field'' (Some 0) 0 None)\<lparr>pl_delimiters := [[10]]\<rparr>))
       \<lparr>cx_target := FILE\<rparr>"

lemma scanned_result:
  "case apply_table scanned_on_file of Inl _ \<Rightarrow> False | Inr r \<Rightarrow>
      map (\<lambda>w. rule_name (weakening_rule w)) (blame r EFFECT) = [''unbounded-scan'', ''file-durable-write'']
     \<and> map (\<lambda>w. base (effect_value (weakening_effect w))) (blame r EFFECT) = [''EffectOnRead'', ''EffectOnWrite'']
     \<and> base (vget (rs_vector r) EFFECT) = ''EffectOnWrite''
     \<and> vget (rs_vector r) SIZE \<noteq> layout_fact (cx_placement scanned_on_file) SIZE"
  by code_simp

text \<open>
  the \<open>effect\<close> axis is ordered as a chain, so a member whose read has an effect and whose write has
  one too is reported with the effect of the write alone, where the documentation lists the two as
  incomparable with \<open>EffectBoth\<close> below them: an uncapped scan in a file schema fires the row that
  says a read walks the buffer and the row that says a store lands in the file, and the axis holds
  \<open>EffectOnWrite\<close>.
\<close>

theorem read_effect_absorbed:
  "\<exists>r. apply_table scanned_on_file = Inr r
     \<and> map (\<lambda>w. rule_name (weakening_rule w)) (blame r EFFECT) = [''unbounded-scan'', ''file-durable-write'']
     \<and> map (\<lambda>w. base (effect_value (weakening_effect w))) (blame r EFFECT) = [''EffectOnRead'', ''EffectOnWrite'']
     \<and> base (vget (rs_vector r) EFFECT) = ''EffectOnWrite''"
  using scanned_result by (auto split: sum.splits)

lemma scanned_reasons: "reasons_written scanned_on_file"
  by (simp add: reasons_written_def scanned_on_file_def plain_context_def plain_placement_def)

theorem table_only_weakens_witness:
  "\<exists>r. apply_table scanned_on_file = Inr r \<and> wf_vector (rs_vector r)"
  using table_only_weakens [OF scanned_reasons] by blast

theorem every_loss_is_blamed_witness:
  "\<exists>r. apply_table scanned_on_file = Inr r
     \<and> (\<exists>w \<in> set (blame r SIZE). effect_value (weakening_effect w) = vget (rs_vector r) SIZE)"
proof -
  obtain r where r: "apply_table scanned_on_file = Inr r"
    "vget (rs_vector r) SIZE \<noteq> layout_fact (cx_placement scanned_on_file) SIZE"
    using scanned_result by (auto split: sum.splits)
  with every_loss_is_blamed [OF scanned_reasons r(1)] show ?thesis by auto
qed

end
