(* ===== verification/Resolve.thy ===== *)
theory Resolve
  imports Propagate Expr_Syntax "HOL-Library.List_Lexorder" "HOL-Library.Char_ord"
begin

text \<open>
  \<open>situc/resolve.py\<close>: the table applied to the placements of a struct, the meet that gives a
  struct-typed field the capabilities of its members, the vector of a whole struct, the alignment a
  schema demands, and the lookups of \<open>ResolvedSchema\<close>; with \<open>SchemaLayout.lookup\<close> of
  \<open>situc/layout.py\<close>.  A dictionary is the list of its pairs.  The other refusals of \<open>resolve\<close> and
  its second pass over unwalked variant arms are not modelled.
\<close>

section \<open>Layouts and resolved structs\<close>

record struct_layout =
  sl_name :: string
  sl_size_bits :: int
  sl_size_max_bits :: "int option"
  sl_placements :: "layout_placement list"

record resolved_struct =
  rst_name :: string
  rst_layout :: struct_layout
  rst_entries :: "resolved list"
  rst_vector :: cap_vector

record resolved_schema =
  rss_structs :: "(string \<times> resolved_struct) list"
  rss_layouts :: "(string \<times> struct_layout) list"
  rss_env :: env

definition is_frame :: "struct_layout \<Rightarrow> bool" where
  "is_frame l = (sl_size_max_bits l \<noteq> Some (sl_size_bits l))"

definition is_byte_sized :: "struct_layout \<Rightarrow> bool" where
  "is_byte_sized l = (sl_size_bits l mod BITS_PER_BYTE = 0)"

definition size_bytes :: "struct_layout \<Rightarrow> int" where
  "size_bytes l = sl_size_bits l div BITS_PER_BYTE"

text \<open>\<open>path.partition(".")\<close>: what stands before the first dot, and what stands after it.\<close>

definition path_head :: "string \<Rightarrow> string" where
  "path_head path = takeWhile (\<lambda>ch. ch \<noteq> CHR ''.'') path"

definition path_rest :: "string \<Rightarrow> string" where
  "path_rest path = tl (dropWhile (\<lambda>ch. ch \<noteq> CHR ''.'') path)"

definition starts_path :: "string \<Rightarrow> string \<Rightarrow> bool" where
  "starts_path prefix path = (take (length prefix) path = prefix)"

section \<open>Lookups\<close>

definition find_placement :: "(string \<times> struct_layout) list \<Rightarrow> string \<Rightarrow> layout_placement option" where
  "find_placement layouts path =
     (case map_of layouts (path_head path) of
        None \<Rightarrow> None | Some l \<Rightarrow> find (\<lambda>p. pl_path p = path) (sl_placements l))"

definition whole_bytes :: "int \<Rightarrow> int option" where
  "whole_bytes n = (if n mod BITS_PER_BYTE \<noteq> 0 then None else Some (n div BITS_PER_BYTE))"

definition layout_lookup :: "(string \<times> struct_layout) list \<Rightarrow> string \<Rightarrow> string \<Rightarrow> int option" where
  "layout_lookup layouts builtin path =
     (case map_of layouts (path_head path) of
        None \<Rightarrow> None
      | Some l \<Rightarrow>
          if path_rest path = [] then
            (if builtin = ''size'' then (if \<not> is_byte_sized l \<or> is_frame l then None else Some (size_bytes l))
             else if builtin = ''offset'' then Some 0 else None)
          else
            (case find_placement layouts path of
               None \<Rightarrow> None
             | Some p \<Rightarrow>
                 if builtin = ''size'' then
                   (if pl_size_max_bits p \<noteq> Some (pl_size_bits p) then None else whole_bytes (pl_size_bits p))
                 else if builtin = ''offset'' then
                   (case pl_offset_bits p of None \<Rightarrow> None | Some offset \<Rightarrow> whole_bytes offset)
                 else pl_array_count p))"

definition find_entry :: "resolved_schema \<Rightarrow> string \<Rightarrow> resolved option" where
  "find_entry s path =
     (case map_of (rss_structs s) (path_head path) of
        None \<Rightarrow> None | Some st \<Rightarrow> find (\<lambda>e. pl_path (rs_placement e) = path) (rst_entries st))"

definition find_struct :: "resolved_schema \<Rightarrow> string \<Rightarrow> resolved_struct option" where
  "find_struct s name = map_of (rss_structs s) name"

definition schema_paths :: "resolved_schema \<Rightarrow> string list" where
  "schema_paths s = concat (map (\<lambda>(name, st). map (\<lambda>e. pl_path (rs_placement e)) (rst_entries st)) (rss_structs s))"

section \<open>The context of a placement\<close>

definition context_of :: "layout_placement \<Rightarrow> string set \<Rightarrow> (string \<times> bool) list \<Rightarrow> (string \<times> codec_decl) list
    \<Rightarrow> bool \<Rightarrow> target_kind \<Rightarrow> bool \<Rightarrow> scalar option \<Rightarrow> row_context" where
  "context_of p structs enum_passes codecs lenient tgt appending held =
    \<lparr>cx_placement = p, cx_scalar = held, cx_is_aggregate = (pl_type_name p \<in> structs),
     cx_enum_default_pass = (map_of enum_passes (pl_type_name p) = Some True),
     cx_reserved_unknown = (pl_kind p = ''reserved'' \<and> has_attr (pl_attrs p) ''unknown''),
     cx_codec = map_of codecs (case pl_codec p of None \<Rightarrow> [] | Some name \<Rightarrow> name),
     cx_lenient = lenient, cx_target = tgt, cx_append = appending, cx_unwalked_arm = None\<rparr>"

section \<open>A struct-typed field has the capabilities of its members\<close>

definition force :: "cap_vector \<Rightarrow> axis \<Rightarrow> cap_value \<Rightarrow> cap_vector" where
  "force v ax x = filter (\<lambda>(held, _). held \<noteq> ax) v @ [(ax, x)]"

text \<open>The dictionary of entries by path: a path stands where it first occurs and names the last entry.\<close>

definition by_path :: "resolved list \<Rightarrow> (string \<times> nat) list" where
  "by_path es =
     (let paths = map (\<lambda>e. pl_path (rs_placement e)) es in
        map (\<lambda>path. (path, length paths - 1 - index_in (rev paths) path)) (remdups_first paths))"

definition member_vectors :: "resolved list \<Rightarrow> string \<Rightarrow> cap_vector list" where
  "member_vectors es path =
     map (\<lambda>(_, i). rs_vector (es ! i)) (filter (\<lambda>(other, _). starts_path (path @ ''.'') other) (by_path es))"

definition PLACED_AXES :: "axis list" where "PLACED_AXES = [OFFSET, SIZE, ALIGN]"

definition meet_entry :: "string set \<Rightarrow> resolved list \<Rightarrow> nat \<Rightarrow> resolved list res" where
  "meet_entry structs es i =
     (let e = es ! i in
        if pl_type_name (rs_placement e) \<notin> structs then Inr es
        else let members = member_vectors es (pl_path (rs_placement e)) in
          if members = [] then Inr es
          else bindE (meet_all members) (\<lambda>m.
            let merged = fold (\<lambda>ax v. force v ax (vget (rs_vector e) ax)) PLACED_AXES m in
            bindE (vmeet (rs_vector e) merged) (\<lambda>v. Inr (es[i := e\<lparr>rs_vector := v\<rparr>]))))"

fun meet_entries :: "string set \<Rightarrow> nat list \<Rightarrow> resolved list \<Rightarrow> resolved list res" where
  "meet_entries structs [] es = Inr es"
| "meet_entries structs (i # js) es = bindE (meet_entry structs es i) (\<lambda>es'. meet_entries structs js es')"

definition meet_aggregates :: "string set \<Rightarrow> resolved list \<Rightarrow> resolved list res" where
  "meet_aggregates structs es = meet_entries structs [0..<length es] es"

section \<open>The vector of a whole struct\<close>

definition local_path :: "struct_layout \<Rightarrow> layout_placement \<Rightarrow> string" where
  "local_path l p = drop (length (sl_name l) + 1) (pl_path p)"

definition whole_struct_auth :: "struct_layout \<Rightarrow> cap_value" where
  "whole_struct_auth l =
     (let ps = sl_placements l;
          covered = concat (map pl_covered_by ps);
          whole = sort (filter (\<lambda>tag. count_list covered tag = length (filter (\<lambda>p. local_path l p \<noteq> tag) ps))
                    (remdups_first covered)) in
      if whole \<noteq> [] then \<lparr>base = ''Covered'', params = whole\<rparr> else bare ''Uncovered'')"

definition struct_size_value :: "struct_layout \<Rightarrow> cap_value" where
  "struct_size_value l =
     \<lparr>base = ''Fixed'', params = [if is_byte_sized l then str_int (size_bytes l) else str_int (sl_size_bits l) @ ''bit'']\<rparr>"

definition struct_vector :: "struct_layout \<Rightarrow> resolved list \<Rightarrow> cap_vector res" where
  "struct_vector l es =
     bindE (meet_all (map rs_vector es)) (\<lambda>v.
       Inr (force (force (force (force v OFFSET (bare ''AbsoluteStatic'')) ALIGN (bare ''Aligned''))
              SIZE (struct_size_value l)) AUTH (whole_struct_auth l)))"

fun apply_all :: "row_context list \<Rightarrow> resolved list res" where
  "apply_all [] = Inr []"
| "apply_all (c # cs) = bindE (apply_table c) (\<lambda>r. bindE (apply_all cs) (\<lambda>rs. Inr (r # rs)))"

text \<open>The body of the loop of \<open>resolve\<close>, given the contexts of the struct's placements.\<close>

definition resolve_struct :: "string set \<Rightarrow> struct_layout \<Rightarrow> row_context list \<Rightarrow> resolved_struct res" where
  "resolve_struct structs l cs =
     bindE (apply_all cs) (\<lambda>applied.
     bindE (meet_aggregates structs applied) (\<lambda>es.
     bindE (struct_vector l es) (\<lambda>v.
       Inr \<lparr>rst_name = sl_name l, rst_layout = l, rst_entries = es, rst_vector = v\<rparr>)))"

section \<open>The alignment a schema demands\<close>

datatype alignment_refusal = NotWholeByteScalar string | NoStaticOffset string | Misaligned string int int

definition required_alignment :: "layout_placement \<Rightarrow> scalar option \<Rightarrow> alignment_refusal option" where
  "required_alignment p held =
     (if \<not> has_attr (pl_attrs p) ''require_aligned'' then None
      else case held of
        None \<Rightarrow> Some (NotWholeByteScalar (pl_path p))
      | Some t \<Rightarrow>
          if is_bit_packed t then Some (NotWholeByteScalar (pl_path p))
          else let natural = min (bits t div BITS_PER_BYTE) 8 in
            (case pl_offset_bits p of
               None \<Rightarrow> Some (NoStaticOffset (pl_path p))
             | Some offset \<Rightarrow>
                 if natural \<le> alignment_of offset then None
                 else Some (Misaligned (pl_path p) (alignment_of offset) natural)))"

section \<open>The meet of a struct-typed field with its members\<close>

abbreviation entry_path :: "resolved list \<Rightarrow> nat \<Rightarrow> string" where
  "entry_path es i \<equiv> pl_path (rs_placement (es ! i))"

abbreviation entry_rank :: "resolved list \<Rightarrow> nat \<Rightarrow> axis \<Rightarrow> nat" where
  "entry_rank es i ax \<equiv> rk ax (vget (rs_vector (es ! i)) ax)"

lemma vget_force: "vget (force v ax x) bx = (if bx = ax then x else vget v bx)"
  by (simp add: force_def vget_set)

lemma last_index_distinct:
  assumes "distinct xs" and "j < length xs"
  shows "length xs - 1 - index_in (rev xs) (xs ! j) = j"
proof -
  let ?k = "index_in (rev xs) (xs ! j)"
  have "?k < length xs" "rev xs ! ?k = xs ! j"
    using index_in_less [of "xs ! j" "rev xs"] assms(2) by simp_all
  then have "xs ! (length xs - 1 - ?k) = xs ! j" by (simp add: rev_nth)
  then show ?thesis using assms \<open>?k < length xs\<close> by (simp add: nth_eq_iff_index_eq)
qed

lemma member_vectors_set:
  assumes "distinct (map (\<lambda>e. pl_path (rs_placement e)) es)"
  shows "set (member_vectors es path) =
    {rs_vector (es ! j) | j. j < length es \<and> starts_path (path @ ''.'') (entry_path es j)}"
proof -
  let ?paths = "map (\<lambda>e. pl_path (rs_placement e)) es"
  have "remdups_first ?paths = ?paths"
    using assms by (simp add: remdups_first_def distinct_remdups_id)
  then have "by_path es = map (\<lambda>j. (?paths ! j, j)) [0..<length es]"
    using last_index_distinct [OF assms] by (simp add: by_path_def Let_def) (rule nth_equalityI; simp)
  then have "member_vectors es path =
      map (\<lambda>j. rs_vector (es ! j)) (filter (\<lambda>j. starts_path (path @ ''.'') (?paths ! j)) [0..<length es])"
    by (simp add: member_vectors_def filter_map comp_def)
  then show ?thesis by auto
qed

lemma weaker_self: "ax \<noteq> AUTH \<Longrightarrow> weaker ax x x = x"
  by (simp add: weaker_def)

lemma meet_all_value:
  assumes "list_all wf_vector vs"
  obtains m where "meet_all vs = Inr m" "wf_vector m"
    "\<And>ax. rk ax (vget m ax) = Max (insert 0 ((\<lambda>v. rk ax (vget v ax)) ` set vs))"
proof -
  have "wf_vector strongest" by (simp add: strongest_def wf_vector_def list_all_iff)
  from meet_all_loop_value [OF assms this] that show thesis
    by (auto simp: meet_all_def strongest_def)
qed

text \<open>The same entry with another vector, no stronger on any axis and not placed elsewhere.\<close>

definition lowered_at :: "resolved \<Rightarrow> resolved \<Rightarrow> bool" where
  "lowered_at e e' \<longleftrightarrow> rs_placement e' = rs_placement e \<and> rs_weakenings e' = rs_weakenings e
     \<and> wf_vector (rs_vector e') \<and> (\<forall>ax. rk ax (vget (rs_vector e) ax) \<le> rk ax (vget (rs_vector e') ax))
     \<and> (\<forall>ax \<in> set PLACED_AXES. vget (rs_vector e') ax = vget (rs_vector e) ax)"

abbreviation lowered :: "resolved list \<Rightarrow> resolved list \<Rightarrow> bool" where
  "lowered \<equiv> list_all2 lowered_at"

definition covers_members :: "string set \<Rightarrow> resolved list \<Rightarrow> resolved list \<Rightarrow> nat \<Rightarrow> bool" where
  "covers_members structs es es' i \<longleftrightarrow> (pl_type_name (rs_placement (es ! i)) \<in> structs \<longrightarrow>
     (\<forall>j < length es. starts_path (entry_path es i @ ''.'') (entry_path es j) \<longrightarrow>
       (\<forall>ax. ax \<notin> set PLACED_AXES \<longrightarrow> entry_rank es j ax \<le> entry_rank es' i ax)))"

lemma lowered_refl: "\<forall>e \<in> set es. wf_vector (rs_vector e) \<Longrightarrow> lowered es es"
  by (simp add: lowered_at_def list_all2_conv_all_nth)

lemma lowered_at_trans: "lowered_at e e' \<Longrightarrow> lowered_at e' e'' \<Longrightarrow> lowered_at e e''"
  by (auto simp: lowered_at_def intro: order_trans)

lemma lowered_trans: "lowered es es' \<Longrightarrow> lowered es' es'' \<Longrightarrow> lowered es es''"
  by (rule list_all2_trans [of lowered_at lowered_at lowered_at]) (rule lowered_at_trans)

lemma lowered_nth: "lowered es es' \<Longrightarrow> i < length es \<Longrightarrow> lowered_at (es ! i) (es' ! i)"
  by (simp add: list_all2_conv_all_nth)

lemma lowered_paths: "lowered es es' \<Longrightarrow> map (\<lambda>e. pl_path (rs_placement e)) es' = map (\<lambda>e. pl_path (rs_placement e)) es"
  by (induction rule: list_all2_induct) (simp_all add: lowered_at_def)

lemma lowered_wf: "lowered es es' \<Longrightarrow> \<forall>e \<in> set es'. wf_vector (rs_vector e)"
  by (induction rule: list_all2_induct) (simp_all add: lowered_at_def)

lemma lowered_rank: "lowered_at e e' \<Longrightarrow> rk ax (vget (rs_vector e) ax) \<le> rk ax (vget (rs_vector e') ax)"
  by (simp add: lowered_at_def)

lemma meet_entry_value:
  assumes wf: "\<forall>e \<in> set es. wf_vector (rs_vector e)" and i: "i < length es"
    and paths: "distinct (map (\<lambda>e. pl_path (rs_placement e)) es)"
  shows "\<exists>es'. meet_entry structs es i = Inr es' \<and> lowered es es' \<and> covers_members structs es es' i"
proof -
  let ?e = "es ! i" and ?ms = "member_vectors es (entry_path es i)"
  note members = member_vectors_set [OF paths, of "entry_path es i"]
  consider "pl_type_name (rs_placement ?e) \<notin> structs" | "pl_type_name (rs_placement ?e) \<in> structs" "?ms = []"
    | "pl_type_name (rs_placement ?e) \<in> structs" "?ms \<noteq> []" by blast
  then show ?thesis
  proof cases
    case 1
    then show ?thesis using lowered_refl [OF wf] by (simp add: meet_entry_def covers_members_def)
  next
    case 2
    then show ?thesis using lowered_refl [OF wf] members by (auto simp: meet_entry_def covers_members_def)
  next
    case 3
    have "list_all wf_vector ?ms" using wf members by (auto simp: list_all_iff)
    then obtain m where m: "meet_all ?ms = Inr m" "wf_vector m"
      "\<And>ax. rk ax (vget m ax) = Max (insert 0 ((\<lambda>v. rk ax (vget v ax)) ` set ?ms))"
      using meet_all_value by blast
    let ?merged = "fold (\<lambda>ax v. force v ax (vget (rs_vector ?e) ax)) PLACED_AXES m"
    have merged: "vget ?merged ax = (if ax \<in> set PLACED_AXES then vget (rs_vector ?e) ax else vget m ax)" for ax
      by (simp add: PLACED_AXES_def vget_force)
    have wfe: "wf_vector (rs_vector ?e)" using wf i by simp
    then have "wf_vector ?merged"
      using m(2) by (simp add: wf_vector_def list_all_iff merged)
    from vmeet_value [OF wfe this] obtain v where v: "vmeet (rs_vector ?e) ?merged = Inr v" "wf_vector v"
      "\<And>ax. vget v ax = weaker ax (vget (rs_vector ?e) ax) (vget ?merged ax)" by blast
    have placed: "vget v ax = vget (rs_vector ?e) ax" if "ax \<in> set PLACED_AXES" for ax
    proof -
      have "ax \<noteq> AUTH" using that by (auto simp: PLACED_AXES_def)
      then show ?thesis using that by (simp add: v(3) merged weaker_self)
    qed
    have lower: "rk ax (vget (rs_vector ?e) ax) \<le> rk ax (vget v ax)" for ax by (simp add: v(3) rk_weaker)
    let ?es = "es[i := ?e\<lparr>rs_vector := v\<rparr>]"
    have "meet_entry structs es i = Inr ?es" using 3 m(1) v(1) by (simp add: meet_entry_def)
    moreover have "lowered_at ?e (?e\<lparr>rs_vector := v\<rparr>)" using v(2) lower placed by (simp add: lowered_at_def)
    then have "lowered es ?es"
      using lowered_refl [OF wf] i by (metis list_all2_update_cong list_update_id)
    moreover have "covers_members structs es ?es i"
      unfolding covers_members_def
    proof (intro impI allI)
      fix j ax
      assume j: "j < length es" "starts_path (entry_path es i @ ''.'') (entry_path es j)" and ax: "ax \<notin> set PLACED_AXES"
      then have "rs_vector (es ! j) \<in> set ?ms" using members by blast
      then have "entry_rank es j ax \<le> rk ax (vget m ax)" by (simp add: m(3))
      then show "entry_rank es j ax \<le> entry_rank ?es i ax" using i ax by (simp add: v(3) rk_weaker merged)
    qed
    ultimately show ?thesis by blast
  qed
qed

lemma meet_entries_value:
  assumes "\<forall>e \<in> set es. wf_vector (rs_vector e)" and "\<forall>i \<in> set js. i < length es"
    and "distinct (map (\<lambda>e. pl_path (rs_placement e)) es)"
  shows "\<exists>es'. meet_entries structs js es = Inr es' \<and> lowered es es' \<and> (\<forall>i \<in> set js. covers_members structs es es' i)"
  using assms
proof (induction js arbitrary: es)
  case Nil
  then show ?case by (simp add: lowered_refl)
next
  case (Cons i js)
  obtain es1 where one: "meet_entry structs es i = Inr es1" "lowered es es1" "covers_members structs es es1 i"
    using meet_entry_value [of es i structs] Cons.prems by auto
  have len: "length es1 = length es" using one(2) by (simp add: list_all2_lengthD)
  then obtain es' where rest: "meet_entries structs js es1 = Inr es'" "lowered es1 es'"
    "\<forall>i \<in> set js. covers_members structs es1 es' i"
    using Cons.IH [of es1] lowered_wf [OF one(2)] lowered_paths [OF one(2)] Cons.prems by auto
  have "covers_members structs es es' k" if "k = i \<or> k \<in> set js" for k
  proof (cases "k = i")
    case True
    have "entry_rank es1 i ax \<le> entry_rank es' i ax" for ax
      using lowered_rank [OF lowered_nth [OF rest(2)]] len Cons.prems(2) by simp
    then show ?thesis using one(3) True unfolding covers_members_def by (meson order_trans)
  next
    case False
    then have k: "covers_members structs es1 es' k" "k < length es" using that rest(3) Cons.prems(2) by auto
    have same: "rs_placement (es1 ! n) = rs_placement (es ! n)" "entry_rank es n ax \<le> entry_rank es1 n ax"
      if "n < length es" for n ax
      using lowered_nth [OF one(2) that] by (simp_all add: lowered_at_def)
    show ?thesis unfolding covers_members_def
    proof (intro impI allI)
      fix n ax
      assume "pl_type_name (rs_placement (es ! k)) \<in> structs" and n: "n < length es"
        and "starts_path (entry_path es k @ ''.'') (entry_path es n)" and "ax \<notin> set PLACED_AXES"
      then have "entry_rank es1 n ax \<le> entry_rank es' k ax"
        using k same(1) len by (simp add: covers_members_def)
      then show "entry_rank es n ax \<le> entry_rank es' k ax" using same(2) [OF n, of ax] by simp
    qed
  qed
  moreover have "lowered es es'" using one(2) rest(2) by (rule lowered_trans)
  ultimately show ?case using one(1) rest(1) by auto
qed

lemma meet_aggregates_value:
  assumes "\<forall>e \<in> set es. wf_vector (rs_vector e)" and "distinct (map (\<lambda>e. pl_path (rs_placement e)) es)"
  shows "\<exists>es'. meet_aggregates structs es = Inr es' \<and> lowered es es' \<and> (\<forall>i < length es. covers_members structs es es' i)"
proof -
  obtain es' where "meet_entries structs [0..<length es] es = Inr es'" "lowered es es'"
    "\<forall>i \<in> set [0..<length es]. covers_members structs es es' i"
    using meet_entries_value [OF assms(1) _ assms(2), of "[0..<length es]" structs] by auto
  then show ?thesis by (intro exI [of _ es']) (simp add: meet_aggregates_def)
qed

text \<open>
  C10: a field of a struct type is never reported as more capable than what it contains.  For entries
  with distinct paths the meet ends, changes no placement, no reason and no offset, size or alignment,
  strengthens nothing, and leaves each struct-typed field on every other axis no stronger than any
  entry nested under its path, at any depth.
\<close>

theorem aggregate_worst_case:
  assumes "\<forall>e \<in> set es. wf_vector (rs_vector e)" and "distinct (map (\<lambda>e. pl_path (rs_placement e)) es)"
  shows "\<exists>es'. meet_aggregates structs es = Inr es' \<and> length es' = length es
    \<and> (\<forall>i < length es. rs_placement (es' ! i) = rs_placement (es ! i) \<and> rs_weakenings (es' ! i) = rs_weakenings (es ! i)
        \<and> (\<forall>ax. entry_rank es i ax \<le> entry_rank es' i ax)
        \<and> (\<forall>ax \<in> {OFFSET, SIZE, ALIGN}. vget (rs_vector (es' ! i)) ax = vget (rs_vector (es ! i)) ax)
        \<and> (pl_type_name (rs_placement (es ! i)) \<in> structs \<longrightarrow>
            (\<forall>j < length es. starts_path (entry_path es i @ ''.'') (entry_path es j) \<longrightarrow>
              (\<forall>ax. ax \<notin> {OFFSET, SIZE, ALIGN} \<longrightarrow> entry_rank es j ax \<le> entry_rank es' i ax))))"
proof -
  obtain es' where es': "meet_aggregates structs es = Inr es'" "lowered es es'"
    "\<forall>i < length es. covers_members structs es es' i"
    using meet_aggregates_value [OF assms] by blast
  have axes: "set PLACED_AXES = {OFFSET, SIZE, ALIGN}" by (simp add: PLACED_AXES_def)
  show ?thesis
  proof (intro exI [of _ es'] conjI)
    show "length es' = length es" using es'(2) by (simp add: list_all2_lengthD)
  qed (use es' lowered_nth [OF es'(2)] in \<open>auto simp: lowered_at_def covers_members_def axes\<close>)
qed

section \<open>The vector of a struct\<close>

definition FORCED_AXES :: "axis set" where "FORCED_AXES = {OFFSET, ALIGN, SIZE, AUTH}"

lemma struct_vector_value:
  assumes "\<forall>e \<in> set es. wf_vector (rs_vector e)"
  shows "\<exists>v. struct_vector l es = Inr v \<and> wf_vector v
    \<and> vget v OFFSET = bare ''AbsoluteStatic'' \<and> vget v ALIGN = bare ''Aligned'' \<and> vget v SIZE = struct_size_value l
    \<and> vget v AUTH = whole_struct_auth l
    \<and> (\<forall>ax. ax \<notin> FORCED_AXES \<longrightarrow> rk ax (vget v ax) = Max (insert 0 ((\<lambda>e. rk ax (vget (rs_vector e) ax)) ` set es)))"
proof -
  have "list_all wf_vector (map rs_vector es)" using assms by (simp add: list_all_iff)
  then obtain m where m: "meet_all (map rs_vector es) = Inr m" "wf_vector m"
    "\<And>ax. rk ax (vget m ax) = Max (insert 0 ((\<lambda>v. rk ax (vget v ax)) ` set (map rs_vector es)))"
    using meet_all_value by blast
  let ?v = "force (force (force (force m OFFSET (bare ''AbsoluteStatic'')) ALIGN (bare ''Aligned''))
              SIZE (struct_size_value l)) AUTH (whole_struct_auth l)"
  have "wf_value ax (vget ?v ax)" for ax
    using wf_vectorD [OF m(2), of ax]
    by (auto simp: vget_force wf_value_def struct_size_value_def whole_struct_auth_def Let_def)
  then have "wf_vector ?v" by (simp add: wf_vector_def list_all_iff)
  then show ?thesis
    using m by (auto simp: struct_vector_def vget_force FORCED_AXES_def image_image)
qed

lemma count_list_distinct: "distinct xs \<Longrightarrow> count_list xs x = (if x \<in> set xs then 1 else 0)"
  by (induction xs) auto

lemma count_list_concat_distinct:
  "\<forall>p \<in> set ps. distinct (f p) \<Longrightarrow> count_list (concat (map f ps)) t = length (filter (\<lambda>p. t \<in> set (f p)) ps)"
proof (induction ps)
  case (Cons p ps)
  then have "count_list (f p) t = (if t \<in> set (f p) then 1 else 0)" by (simp add: count_list_distinct)
  with Cons show ?case by simp
qed simp

lemma length_filter_mono: "(\<And>x. P x \<Longrightarrow> Q x) \<Longrightarrow> length (filter P xs) \<le> length (filter Q xs)"
  by (induction xs) (auto simp: le_SucI)

lemma length_filter_eq_iff:
  assumes "\<And>x. x \<in> set xs \<Longrightarrow> P x \<Longrightarrow> Q x"
  shows "length (filter P xs) = length (filter Q xs) \<longleftrightarrow> (\<forall>x \<in> set xs. Q x \<longrightarrow> P x)"
  using assms
proof (induction xs)
  case (Cons x xs)
  have "length (filter P xs) \<le> length (filter Q xs)"
    using Cons.prems length_filter_mono [of "\<lambda>x. P x \<and> x \<in> set xs" Q xs]
    by (metis (no_types, lifting) filter_cong list.set_intros(2))
  then show ?case using Cons by (auto simp: less_Suc_eq_le)
qed simp

lemma whole_struct_params:
  "params (whole_struct_auth l) =
     sort (filter (\<lambda>tag. count_list (concat (map pl_covered_by (sl_placements l))) tag =
         length (filter (\<lambda>p. local_path l p \<noteq> tag) (sl_placements l)))
       (remdups_first (concat (map pl_covered_by (sl_placements l)))))"
  by (simp add: whole_struct_auth_def Let_def)

text \<open>
  C11: a struct is reported as covered by exactly the tags that cover the whole of it.  Where no tag is
  listed twice on a placement and no tag covers its own bytes, a tag stands in the struct's \<open>auth\<close> value
  if and only if it covers some placement and every placement but its own.
\<close>

theorem whole_struct_auth_iff:
  assumes "\<forall>p \<in> set (sl_placements l). distinct (pl_covered_by p) \<and> local_path l p \<notin> set (pl_covered_by p)"
  shows "tag \<in> set (params (whole_struct_auth l)) \<longleftrightarrow>
    (\<exists>p \<in> set (sl_placements l). tag \<in> set (pl_covered_by p))
    \<and> (\<forall>p \<in> set (sl_placements l). local_path l p \<noteq> tag \<longrightarrow> tag \<in> set (pl_covered_by p))"
proof -
  let ?ps = "sl_placements l"
  have "count_list (concat (map pl_covered_by ?ps)) tag = length (filter (\<lambda>p. tag \<in> set (pl_covered_by p)) ?ps)"
    using assms by (intro count_list_concat_distinct) blast
  then have "count_list (concat (map pl_covered_by ?ps)) tag = length (filter (\<lambda>p. local_path l p \<noteq> tag) ?ps)
      \<longleftrightarrow> (\<forall>p \<in> set ?ps. local_path l p \<noteq> tag \<longrightarrow> tag \<in> set (pl_covered_by p))"
    using assms length_filter_eq_iff [of ?ps "\<lambda>p. tag \<in> set (pl_covered_by p)" "\<lambda>p. local_path l p \<noteq> tag"] by auto
  then show ?thesis unfolding whole_struct_params by auto
qed

section \<open>The demanded alignment\<close>

lemma at_least_gcd:
  "k \<in> {1, 2, 4, 8} \<Longrightarrow> k \<le> gcd 8 byte \<longleftrightarrow> k dvd (byte::int)"
  unfolding gcd_8 dvd_eq_mod_eq_0 by (elim insertE emptyE; simp; presburger)

text \<open>
  for a scalar of a machine word's width, \<open>[require_aligned]\<close> refuses exactly the placements whose
  offset is not known or is not a multiple of the width.
\<close>

theorem required_alignment_iff:
  assumes "has_attr (pl_attrs p) ''require_aligned''" and "bits t \<in> {8, 16, 32, 64}"
  shows "required_alignment p (Some t) = None \<longleftrightarrow> (\<exists>offset. pl_offset_bits p = Some offset \<and> bits t dvd offset)"
proof (cases "pl_offset_bits p")
  case None
  then show ?thesis using assms by (auto simp: required_alignment_def Let_def)
next
  case (Some offset)
  define k where "k = bits t div 8"
  have k: "k \<in> {1, 2, 4, 8}" "bits t = 8 * k" using assms(2) by (auto simp: k_def)
  have "\<not> is_bit_packed t" using k(2) by (simp add: is_bit_packed_def)
  moreover have "min (bits t div 8) 8 = k" using k by auto
  ultimately have "required_alignment p (Some t) = None \<longleftrightarrow> k \<le> alignment_of offset"
    using assms(1) Some by (simp add: required_alignment_def Let_def BITS_PER_BYTE_def)
  also have "\<dots> \<longleftrightarrow> bits t dvd offset"
  proof (cases "8 dvd offset")
    case True
    then obtain byte where "offset = 8 * byte" by (elim dvdE)
    then show ?thesis using at_least_gcd [OF k(1), of byte] k(2) by (simp add: alignment_of_gcd)
  next
    case False
    moreover from this have "\<not> bits t dvd offset" using k(2) dvd_trans [of 8 "bits t" offset] by auto
    moreover have "\<not> k \<le> 0" using k(1) by auto
    ultimately show ?thesis by (simp add: alignment_of_gcd)
  qed
  finally show ?thesis using Some by simp
qed

text \<open>A 24-bit scalar at offset three is refused, in the words that it wants a multiple of three.\<close>

lemma odd_width_refused:
  "required_alignment ((plain_placement ''m.f'' ''field'' (Some 24) 24 (Some 24))\<lparr>pl_attrs := [\<lparr>attr_name = ''require_aligned'', attr_value = None\<rparr>]\<rparr>)
     (Some (scalar_type ''u24'' UINT 24)) = Some (Misaligned ''m.f'' 1 3)"
  by code_simp

section \<open>A worked struct\<close>

text \<open>A field of the struct type \<open>flags\<close>, and the two-byte member it contains.\<close>

definition flags_field :: layout_placement where
  "flags_field = (plain_placement ''s.flags'' ''field'' (Some 0) 16 (Some 16))\<lparr>pl_type_name := ''flags''\<rparr>"

definition flags_member :: layout_placement where
  "flags_member = (plain_placement ''s.flags.kind'' ''field'' (Some 0) 16 (Some 16))\<lparr>pl_type_name := ''u16'', pl_endian := Some BIG\<rparr>"

definition flags_contexts :: "row_context list" where
  "flags_contexts =
    [context_of flags_field {''flags''} [] [] False BUFFER False None,
     context_of flags_member {''flags''} [] [] False BUFFER False (Some (scalar_type ''u16'' UINT 16))]"

definition flags_layout :: struct_layout where
  "flags_layout = \<lparr>sl_name = ''s'', sl_size_bits = 16, sl_size_max_bits = Some 16, sl_placements = [flags_field, flags_member]\<rparr>"

text \<open>
  the meet gives a struct-typed field its members' losses without their reasons.  The field below
  is converted because its two-byte member is, and the member's blame chain says so; the field's
  blame chain on the same axis is empty, so a failed requirement on it would be put down to the
  declaration itself.
\<close>

theorem aggregate_loss_unblamed:
  "\<exists>st. resolve_struct {''flags''} flags_layout flags_contexts = Inr st
     \<and> base (vget (rs_vector (rst_entries st ! 0)) REPR) = ''ValueConverted''
     \<and> length (blame (rst_entries st ! 0) REPR) = 0 \<and> length (blame (rst_entries st ! 1) REPR) = 1"
proof -
  have "case resolve_struct {''flags''} flags_layout flags_contexts of Inl _ \<Rightarrow> False | Inr st \<Rightarrow>
       base (vget (rs_vector (rst_entries st ! 0)) REPR) = ''ValueConverted''
     \<and> length (blame (rst_entries st ! 0) REPR) = 0 \<and> length (blame (rst_entries st ! 1) REPR) = 1"
    by code_simp
  then show ?thesis by (auto split: sum.splits)
qed

definition flags_entries :: "resolved list" where
  "flags_entries =
    [\<lparr>rs_placement = flags_field, rs_vector = [], rs_weakenings = []\<rparr>,
     \<lparr>rs_placement = flags_member, rs_vector = [(REPR, bare ''ValueConverted'')], rs_weakenings = []\<rparr>]"

theorem aggregate_worst_case_witness:
  "\<exists>es'. meet_aggregates {''flags''} flags_entries = Inr es' \<and> 1 \<le> entry_rank es' 0 REPR"
proof -
  have wf: "\<forall>e \<in> set flags_entries. wf_vector (rs_vector e)" by code_simp
  have "distinct (map (\<lambda>e. pl_path (rs_placement e)) flags_entries)" by code_simp
  note all = aggregate_worst_case [OF wf this, of "{''flags''}"]
  have at: "0 < length flags_entries" "1 < length flags_entries" "REPR \<notin> {OFFSET, SIZE, ALIGN}"
    "pl_type_name (rs_placement (flags_entries ! 0)) \<in> {''flags''}"
    "starts_path (entry_path flags_entries 0 @ ''.'') (entry_path flags_entries 1)"
    "1 \<le> entry_rank flags_entries 1 REPR" by code_simp+
  from all obtain es' where "meet_aggregates {''flags''} flags_entries = Inr es'"
    "entry_rank flags_entries 1 REPR \<le> entry_rank es' 0 REPR"
    using at by meson
  then show ?thesis using at(6) order_trans by blast
qed

theorem whole_struct_auth_iff_witness:
  "''crc'' \<in> set (params (whole_struct_auth
     \<lparr>sl_name = ''m'', sl_size_bits = 24, sl_size_max_bits = Some 24,
      sl_placements = [(plain_placement ''m.len'' ''field'' (Some 0) 8 (Some 8))\<lparr>pl_covered_by := [''crc'']\<rparr>,
        plain_placement ''m.crc'' ''checksum'' (Some 8) 16 (Some 16)]\<rparr>))"
  by (subst whole_struct_auth_iff) code_simp+

theorem required_alignment_iff_witness:
  "required_alignment ((plain_placement ''m.f'' ''field'' (Some 64) 32 (Some 32))
     \<lparr>pl_attrs := [\<lparr>attr_name = ''require_aligned'', attr_value = None\<rparr>]\<rparr>) (Some (scalar_type ''u32'' UINT 32)) = None"
  by (subst required_alignment_iff) (simp_all add: plain_placement_def has_attr_def scalar_type_def)

end
