(* ===== verification/Requirements.thy ===== *)
theory Requirements
  imports Resolve
begin

text \<open>
  \<open>situc/requirements.py\<close>: the discharge of \<open>require\<close> and \<open>assert\<close>.  A predicate reads one or more axes
  of the capability vector a path has and demands a value of each; anything else is arithmetic over
  the layout.  The first \<open>require\<close> that fails ends the build.  A diagnostic keeps its severity, its
  words, its notes and the spans of the weakenings it blames; the spans of the requirement itself
  are left out, as they are in the tree of expressions.  The set of paths that need storage is what
  \<open>layers.allocating\<close> answers.
\<close>

section \<open>Predicates\<close>

record demand =
  dm_axis :: axis
  dm_required :: cap_value
  dm_exact :: bool

record predicate =
  pr_name :: string
  pr_axis :: axis
  pr_required :: cap_value
  pr_summary :: string
  pr_takes_argument :: bool
  pr_exact :: bool
  pr_extra :: "demand list"

abbreviation Predicate :: "string \<Rightarrow> axis \<Rightarrow> string \<Rightarrow> string \<Rightarrow> bool \<Rightarrow> bool \<Rightarrow> demand list \<Rightarrow> predicate" where
  "Predicate name ax required summary takes exact extra \<equiv>
    \<lparr>pr_name = name, pr_axis = ax, pr_required = bare required, pr_summary = summary,
     pr_takes_argument = takes, pr_exact = exact, pr_extra = extra\<rparr>"

definition demands :: "predicate \<Rightarrow> demand list" where
  "demands p = \<lparr>dm_axis = pr_axis p, dm_required = pr_required p, dm_exact = pr_exact p\<rparr> # pr_extra p"

definition PREDICATES :: "(string \<times> predicate) list" where
  "PREDICATES =
    [(''no_alloc'', Predicate ''no_alloc'' SIZE ''Unbounded''
       (''nothing under it needs storage rung 1 cannot give (0031, 0032)'') False False []),
     (''absolute_static'', Predicate ''absolute_static'' OFFSET ''AbsoluteStatic''
       (''the offset is known at compile time from the message base'') False False []),
     (''static'', Predicate ''static'' OFFSET ''FrameStatic''
       (''the offset is known at compile time, from the message or frame base'') False False []),
     (''frame_static'', Predicate ''frame_static'' OFFSET ''FrameStatic''
       (''the offset is fixed relative to a frame base resolved once at parse time'') False False []),
     (''max_size'', Predicate ''max_size'' SIZE ''Bounded''
       (''the worst-case extent is known, so a static buffer can hold it'') True False []),
     (''in_place'', Predicate ''in_place'' MUTATE ''InPlaceSlack''
       (''the field can be written without moving anything else, and writing it leaves no tag stale'') False False [\<lparr>dm_axis = AUTH, dm_required = bare ''Uncovered'', dm_exact = True\<rparr>]),
     (''in_place_dirty'', Predicate ''in_place_dirty'' MUTATE ''InPlaceSlack''
       (''the field can be written without moving anything else, accepting that a tag covering it must then be recomputed'') False False []),
     (''no_tag_invalidation'', Predicate ''no_tag_invalidation'' AUTH ''Uncovered''
       (''writing the field invalidates no authentication tag'') False True []),
     (''verify_gated'', Predicate ''verify_gated'' STAGE ''VerifyGated''
       (''no view into these bytes can be obtained before the tag verifies'') False True []),
     (''immutable'', Predicate ''immutable'' MUTATE ''Immutable''
       (''the field cannot be written at all'') False True []),
     (''stable_address'', Predicate ''stable_address'' ADDRESS ''Stable''
       (''a pointer to the field stays valid'') False False []),
     (''random_access'', Predicate ''random_access'' ACCESS ''Random''
       (''element N can be reached without walking the ones before it'') False False []),
     (''canonical'', Predicate ''canonical'' CANONICAL ''Canonical''
       (''exactly one byte sequence encodes a given value'') False False []),
     (''atomic'', Predicate ''atomic'' ATOMIC ''AtomicWord''
       (''the access fits in a single instruction'') False False []),
     (''memory_identical'', Predicate ''memory_identical'' REPR ''MemoryIdentical''
       (''the bytes are the value: no swap, shift, scale or decode stands between them'') False True []),
     (''uncovered'', Predicate ''uncovered'' AUTH ''Uncovered''
       (''no authentication tag covers these bytes'') False False []),
     (''aligned'', Predicate ''aligned'' ALIGN ''Aligned''
       (''the field starts on the requested byte boundary'') True False []),
     (''deterministic_writer'', Predicate ''deterministic_writer'' CANONICAL ''CanonicalGiven''
       (''a writer always emits the same bytes for the same value'') False False [])]"

definition DEFERRED_PREDICATES :: "(string \<times> string) list" where
  "DEFERRED_PREDICATES =
    [(''deterministic'',
       ''it asks about a codec'' @ [CHR 0x27] @ ''s property signature rather than a field'' @ [CHR 0x27] @ ''s capability vector, and nothing connects a field to the codec above it''),
     (''bounded_stack'',
       ''it needs a stack-depth model of the generated code, which the compiler does not build''),
     (''no_realloc'',
       ''it depends on a runtime value, so it is a SITU_CHECKED check rather than a compile-time discharge, and that machinery is not wired'')]"

section \<open>Requirements, diagnostics and outcomes\<close>

datatype requirement_kind = REQUIRE | ASSERT

record requirement =
  rq_kind :: requirement_kind
  rq_expr :: expr

datatype severity = ERROR | WARNING

record diagnostic =
  dg_severity :: severity
  dg_message :: string
  dg_primary :: "string option"
  dg_labels :: "(src_span \<times> string) list"
  dg_notes :: "string list"

datatype discharge_error = Refused diagnostic | EvalRefused diag | PyRaised exn

type_synonym 'a discharged = "discharge_error + 'a"

record outcome =
  oc_requirement :: requirement
  oc_satisfied :: bool
  oc_detail :: string
  oc_deferred :: "string option"
  oc_blame :: "string list"
  oc_diagnostic :: "diagnostic option"

definition outcome_of :: "requirement \<Rightarrow> bool \<Rightarrow> string \<Rightarrow> outcome" where
  "outcome_of rq ok detail =
    \<lparr>oc_requirement = rq, oc_satisfied = ok, oc_detail = detail, oc_deferred = None, oc_blame = [], oc_diagnostic = None\<rparr>"

definition is_error :: "outcome \<Rightarrow> bool" where
  "is_error out = (oc_deferred out = None \<and> \<not> oc_satisfied out \<and> rq_kind (oc_requirement out) = REQUIRE)"

definition severity_of :: "requirement \<Rightarrow> severity" where
  "severity_of rq = (if rq_kind rq = REQUIRE then ERROR else WARNING)"

text \<open>\<open>error(...)\<close>: a refusal with a label and notes.\<close>

definition refusal :: "string \<Rightarrow> string \<Rightarrow> string list \<Rightarrow> 'a discharged" where
  "refusal message label notes =
     Inl (Refused \<lparr>dg_severity = ERROR, dg_message = message, dg_primary = Some label, dg_labels = [], dg_notes = notes\<rparr>)"

definition raising :: "'a res \<Rightarrow> 'a discharged" where
  "raising r = (case r of Inl e \<Rightarrow> Inl (PyRaised e) | Inr x \<Rightarrow> Inr x)"

definition evaluating :: "'a checked \<Rightarrow> 'a discharged" where
  "evaluating r = (case r of Inl e \<Rightarrow> Inl (EvalRefused e) | Inr x \<Rightarrow> Inr x)"

definition source_text :: "expr \<Rightarrow> string discharged" where
  "source_text e = (case expr_to_source e False of None \<Rightarrow> Inl (PyRaised PyKeyError) | Some s \<Rightarrow> Inr s)"

section \<open>What cannot be decided\<close>

fun pending_reasons :: "expr \<Rightarrow> string list" where
  "pending_reasons (Call name args) =
     (case map_of DEFERRED_PREDICATES name of None \<Rightarrow> [] | Some reason \<Rightarrow> [reason]) @ concat (map pending_reasons args)"
| "pending_reasons (Binary op l r) = pending_reasons l @ pending_reasons r"
| "pending_reasons (Unary op operand) = pending_reasons operand"
| "pending_reasons e = []"

definition pending_reason :: "expr \<Rightarrow> string option" where
  "pending_reason e = (case pending_reasons e of [] \<Rightarrow> None | reason # _ \<Rightarrow> Some reason)"

section \<open>Arithmetic\<close>

definition arithmetic_detail :: "expr \<Rightarrow> env \<Rightarrow> string discharged" where
  "arithmetic_detail e env =
     (case e of
        Binary op l r \<Rightarrow>
          if op \<in> {''=='', ''!='', ''<'', ''>'', ''<='', ''>=''} then
            bindE (evaluating (evaluate l env)) (\<lambda>left.
            bindE (evaluating (evaluate r env)) (\<lambda>right.
            bindE (source_text l) (\<lambda>written.
              Inr (written @ '' is '' @ str_int left @ '', '' @ op @ '' '' @ str_int right @ '' required''))))
          else Inr ''evaluates to false''
      | _ \<Rightarrow> Inr ''evaluates to false'')"

definition discharge_arithmetic :: "requirement \<Rightarrow> env \<Rightarrow> outcome discharged" where
  "discharge_arithmetic rq env =
     bindE (evaluating (evaluate (rq_expr rq) env)) (\<lambda>v.
     bindE (arithmetic_detail (rq_expr rq) env) (\<lambda>detail.
       let out = outcome_of rq (v \<noteq> 0) detail in
       Inr (if oc_satisfied out then out
            else out\<lparr>oc_diagnostic := Some
              \<lparr>dg_severity = severity_of rq, dg_message = ''requirement not satisfied'', dg_primary = Some detail,
               dg_labels = [],
               dg_notes = [''a `require` is a build-time gate; use `assert` to record intent without failing the build (section 16)'']\<rparr>\<rparr>)))"

section \<open>Capabilities\<close>

definition render_value :: "cap_value \<Rightarrow> string" where
  "render_value v = (if params v = [] then base v else base v @ ''('' @ join_args (params v) @ '')'')"

definition discharge_no_alloc :: "requirement \<Rightarrow> string \<Rightarrow> string set \<Rightarrow> outcome" where
  "discharge_no_alloc rq path needy =
     (if \<not> (\<exists>one \<in> needy. one = path \<or> starts_path (path @ ''.'') one) then
        outcome_of rq True (''nothing under '' @ quoted path @ '' needs storage rung 1 cannot give'')
      else let detail = quoted path @ '' reaches a region whose codec expands without a bound, so its output extent cannot be known without transforming it'' in
        (outcome_of rq False detail)\<lparr>oc_diagnostic := Some
          \<lparr>dg_severity = severity_of rq, dg_message = ''`no_alloc('' @ path @ '')` does not hold'', dg_primary = None,
           dg_labels = [],
           dg_notes = [detail,
             ''that is case E of doc/decision/0031-where-allocation-is-unavoidable.md, and the one case no measure-then-allocate pass serves'',
             ''build it at `--layer edit`, or move the region out of what this requirement covers'']\<rparr>\<rparr>)"

definition first_param :: "cap_value \<Rightarrow> string res" where
  "first_param v = (case params v of [] \<Rightarrow> Inl PyIndexError | p # _ \<Rightarrow> Inr p)"

definition last_param :: "cap_value \<Rightarrow> string res" where
  "last_param v = (if params v = [] then Inl PyIndexError else Inr (last (params v)))"

definition within_max_size :: "cap_value \<Rightarrow> cap_value \<Rightarrow> bool res" where
  "within_max_size actual required =
     bindE (bindE (first_param required) int_of_string) (\<lambda>limit.
       if base actual = ''Unbounded'' then Inr False
       else if base actual = ''Fixed'' then bindE (bindE (first_param actual) int_of_string) (\<lambda>n. Inr (n \<le> limit))
       else bindE (bindE (last_param actual) int_of_string) (\<lambda>worst. Inr (worst \<le> limit)))"

definition required_value :: "predicate \<Rightarrow> expr list \<Rightarrow> cap_value discharged" where
  "required_value p args =
     (if \<not> pr_takes_argument p then Inr (pr_required p)
      else if length args \<noteq> 2 then
        refusal (quoted (pr_name p) @ '' takes a path and a value'')
          (''expected `'' @ pr_name p @ ''(X, n)`'') []
      else case args ! 1 of
        IntLiteral v t \<Rightarrow> Inr \<lparr>base = base (pr_required p), params = [str_int v]\<rparr>
      | _ \<Rightarrow> refusal (quoted (pr_name p) @ '' needs a literal second argument'') ''expected an integer'' [])"

text \<open>Whether one demand holds of a vector, given the value required of the predicate's own axis.\<close>

definition demand_required :: "predicate \<Rightarrow> cap_value \<Rightarrow> demand \<Rightarrow> cap_value" where
  "demand_required p primary d = (if dm_axis d = pr_axis p then primary else dm_required d)"

definition demand_met :: "predicate \<Rightarrow> cap_value \<Rightarrow> cap_vector \<Rightarrow> demand \<Rightarrow> bool res" where
  "demand_met p primary v d =
     (let required = demand_required p primary d; actual = vget v (dm_axis d) in
        if pr_name p = ''max_size'' then within_max_size actual required
        else if dm_exact d then Inr (base actual = base required)
        else is_at_least (dm_axis d) actual required)"

fun first_failing :: "predicate \<Rightarrow> cap_value \<Rightarrow> cap_vector \<Rightarrow> demand list \<Rightarrow> demand option res" where
  "first_failing p primary v [] = Inr None"
| "first_failing p primary v (d # ds) =
     bindE (demand_met p primary v d) (\<lambda>ok. if ok then first_failing p primary v ds else Inr (Some d))"

fun member_blame :: "resolved list \<Rightarrow> axis \<Rightarrow> cap_value \<Rightarrow> weakening list res" where
  "member_blame [] ax required = Inr []"
| "member_blame (e # es) ax required =
     bindE (is_at_least ax (vget (rs_vector e) ax) required) (\<lambda>ok.
     bindE (member_blame es ax required) (\<lambda>ws. Inr (if ok then ws else blame e ax @ ws)))"

fun radius_paths :: "resolved list \<Rightarrow> axis \<Rightarrow> cap_value \<Rightarrow> string \<Rightarrow> string list res" where
  "radius_paths [] ax required exclude = Inr []"
| "radius_paths (e # es) ax required exclude =
     bindE (if pl_path (rs_placement e) = exclude then Inr True
            else is_at_least ax (vget (rs_vector e) ax) required) (\<lambda>ok.
     bindE (radius_paths es ax required exclude) (\<lambda>ps.
       Inr (if ok then ps else pl_path (rs_placement e) # ps)))"

definition blast_radius :: "resolved_schema \<Rightarrow> axis \<Rightarrow> cap_value \<Rightarrow> string \<Rightarrow> string list res" where
  "blast_radius s ax required exclude =
     radius_paths (concat (map (\<lambda>(name, st). rst_entries st) (rss_structs s))) ax required exclude"

definition nearby :: "resolved_schema \<Rightarrow> string \<Rightarrow> string" where
  "nearby s path =
     (let known = filter (starts_path (path_head path @ ''.'')) (schema_paths s);
          listed = (if take 6 known \<noteq> [] then take 6 known else take 6 (sort (map fst (rss_structs s)))) in
        if listed \<noteq> [] then join_args listed else ''none'')"

text \<open>\<open>_capability_failure\<close>: what failed, why, how far it spread, what to do.\<close>

definition failure_notes :: "predicate \<Rightarrow> string \<Rightarrow> axis \<Rightarrow> cap_value \<Rightarrow> cap_value \<Rightarrow> weakening list \<Rightarrow> string list \<Rightarrow> string list" where
  "failure_notes p path ax actual required ws radius =
     [axis_value ax @ ''('' @ path @ '') is '' @ render_value actual @ '', required '' @ render_value required,
      quoted (pr_name p) @ '' asks that '' @ pr_summary p]
     @ (if ws = [] then [''caused by: the declaration itself; nothing upstream weakened it'']
        else map (\<lambda>w. ''caused by: '' @ rule_construct (weakening_rule w) @ '' -- '' @ effect_because (weakening_effect w)) ws)
     @ (if radius = [] then []
        else [str_int (int (length radius)) @ '' other field(s) share this weakness: '' @ join_args (take 4 radius)
              @ (if 4 < length radius then '', ...'' else [])])
     @ map (\<lambda>w. ''remedy: '' @ rule_remedy (weakening_rule w)) (filter (\<lambda>w. rule_remedy (weakening_rule w) \<noteq> []) ws)"

definition capability_failure :: "requirement \<Rightarrow> predicate \<Rightarrow> string \<Rightarrow> axis \<Rightarrow> cap_value \<Rightarrow> cap_value
    \<Rightarrow> weakening list \<Rightarrow> string list \<Rightarrow> diagnostic" where
  "capability_failure rq p path ax actual required ws radius =
    \<lparr>dg_severity = severity_of rq, dg_message = ''requirement not satisfied'',
     dg_primary = Some (axis_value ax @ '' is '' @ render_value actual),
     dg_labels = map (\<lambda>w. (weakening_span w, rule_name (weakening_rule w) @ '' applies here'')) ws,
     dg_notes = failure_notes p path ax actual required ws radius\<rparr>"

text \<open>The vector a path names, and how its failures are blamed: its own chain, or its members'.\<close>

definition path_vector :: "resolved_schema \<Rightarrow> string \<Rightarrow> (cap_vector \<times> (axis \<Rightarrow> cap_value \<Rightarrow> weakening list res)) discharged" where
  "path_vector s path =
     (case find_entry s path of
        Some e \<Rightarrow> Inr (rs_vector e, \<lambda>ax required. Inr (blame e ax))
      | None \<Rightarrow>
          (case find_struct s path of
             None \<Rightarrow> refusal (''unknown path '' @ quoted path) ''not a declared struct or field''
                      [''known paths: '' @ nearby s path]
           | Some st \<Rightarrow> Inr (rst_vector st, member_blame (rst_entries st))))"

definition discharge_capability :: "requirement \<Rightarrow> string \<Rightarrow> expr list \<Rightarrow> predicate \<Rightarrow> resolved_schema \<Rightarrow> string set
    \<Rightarrow> outcome discharged" where
  "discharge_capability rq name args p s needy =
     (let path = (case args of [] \<Rightarrow> None | arg # _ \<Rightarrow> path_text arg) in
      case path of
        None \<Rightarrow> refusal (quoted name @ '' takes a field or struct path'')
                  ''expected a name such as `Header` or `Header.seq`'' []
      | Some path \<Rightarrow>
          if name = ''no_alloc'' then Inr (discharge_no_alloc rq path needy)
          else
            bindE (path_vector s path) (\<lambda>(v, blamed).
            bindE (required_value p args) (\<lambda>primary.
            bindE (raising (first_failing p primary v (demands p))) (\<lambda>failed.
              case failed of
                None \<Rightarrow> Inr (outcome_of rq True
                  (axis_value (pr_axis p) @ ''('' @ path @ '') is '' @ render_value (vget v (pr_axis p))))
              | Some d \<Rightarrow>
                  let actual = vget v (dm_axis d); required = demand_required p primary d in
                  bindE (raising (blamed (dm_axis d) required)) (\<lambda>ws.
                  bindE (raising (blast_radius s (dm_axis d) required path)) (\<lambda>radius.
                    Inr ((outcome_of rq False
                        (axis_value (dm_axis d) @ ''('' @ path @ '') is '' @ render_value actual @ '', required '' @ render_value required))
                      \<lparr>oc_blame := map (\<lambda>w. rule_name (weakening_rule w) @ '': '' @ effect_because (weakening_effect w)) ws,
                       oc_diagnostic := Some (capability_failure rq p path (dm_axis d) actual required ws radius)\<rparr>)))))))"

section \<open>All requirements of a schema\<close>

definition discharge_one :: "resolved_schema \<Rightarrow> string set \<Rightarrow> requirement \<Rightarrow> outcome discharged" where
  "discharge_one s needy rq =
     (case pending_reason (rq_expr rq) of
        Some reason \<Rightarrow> Inr ((outcome_of rq False reason)\<lparr>oc_deferred := Some reason\<rparr>)
      | None \<Rightarrow>
          (case rq_expr rq of
             Call name args \<Rightarrow>
               (case map_of PREDICATES name of
                  Some p \<Rightarrow> discharge_capability rq name args p s needy
                | None \<Rightarrow> discharge_arithmetic rq (with_layout (rss_env s) (layout_lookup (rss_layouts s))))
           | _ \<Rightarrow> discharge_arithmetic rq (with_layout (rss_env s) (layout_lookup (rss_layouts s)))))"

fun discharge_all :: "resolved_schema \<Rightarrow> string set \<Rightarrow> requirement list \<Rightarrow> outcome list discharged" where
  "discharge_all s needy [] = Inr []"
| "discharge_all s needy (rq # rqs) =
     bindE (discharge_one s needy rq) (\<lambda>out.
       if is_error out then
         (case oc_diagnostic out of None \<Rightarrow> Inl (PyRaised PyAssertionError) | Some d \<Rightarrow> Inl (Refused d))
       else bindE (discharge_all s needy rqs) (\<lambda>outs. Inr (out # outs)))"

text \<open>\<open>warnings\<close>: the diagnostics of the outcomes that failed and were decided.\<close>

definition warnings :: "outcome list \<Rightarrow> diagnostic list" where
  "warnings outs = List.map_filter oc_diagnostic (filter (\<lambda>out. oc_deferred out = None \<and> \<not> oc_satisfied out) outs)"

section \<open>Outcomes\<close>

lemma outcome_of_simps [simp]:
  "oc_requirement (outcome_of rq ok detail) = rq" "oc_satisfied (outcome_of rq ok detail) = ok"
  "oc_deferred (outcome_of rq ok detail) = None" "oc_diagnostic (outcome_of rq ok detail) = None"
  by (simp_all add: outcome_of_def)

text \<open>An outcome answers its requirement, and a failure that was decided carries a diagnostic of its severity.\<close>

definition reported :: "requirement \<Rightarrow> outcome \<Rightarrow> bool" where
  "reported rq out \<longleftrightarrow> oc_requirement out = rq
     \<and> (oc_deferred out = None \<and> \<not> oc_satisfied out \<longrightarrow>
          (\<exists>d. oc_diagnostic out = Some d \<and> dg_severity d = severity_of rq \<and> dg_notes d \<noteq> []))"

lemma raising_Inr [simp]: "raising r = Inr x \<longleftrightarrow> r = Inr x"
  by (cases r) (simp_all add: raising_def)

lemma refusal_not_Inr [simp]: "refusal m l ns \<noteq> Inr x"
  by (simp add: refusal_def)

lemma arithmetic_reported:
  assumes "discharge_arithmetic rq env = Inr out"
  shows "reported rq out"
proof -
  obtain v detail where "evaluating (evaluate (rq_expr rq) env) = Inr v" "arithmetic_detail (rq_expr rq) env = Inr detail"
    using assms by (auto simp: discharge_arithmetic_def)
  with assms show ?thesis
    by (cases "v = 0") (auto simp: discharge_arithmetic_def reported_def Let_def)
qed

lemma no_alloc_reported: "reported rq (discharge_no_alloc rq path needy)"
  by (auto simp: discharge_no_alloc_def reported_def Let_def)

lemma capability_failure_reported:
  "dg_severity (capability_failure rq p path ax actual required ws radius) = severity_of rq"
  "dg_notes (capability_failure rq p path ax actual required ws radius) \<noteq> []"
  by (simp_all add: capability_failure_def failure_notes_def)



lemma discharge_capability_cases:
  assumes "discharge_capability rq name args p s needy = Inr out" and "name \<noteq> ''no_alloc''"
  obtains path v blamed primary where "args \<noteq> []" "path_text (hd args) = Some path" "path_vector s path = Inr (v, blamed)"
    "required_value p args = Inr primary" "first_failing p primary v (demands p) = Inr None"
    "out = outcome_of rq True (axis_value (pr_axis p) @ ''('' @ path @ '') is '' @ render_value (vget v (pr_axis p)))"
  | path v blamed primary d ws radius where "args \<noteq> []" "path_text (hd args) = Some path" "path_vector s path = Inr (v, blamed)"
    "required_value p args = Inr primary" "first_failing p primary v (demands p) = Inr (Some d)"
    "blamed (dm_axis d) (demand_required p primary d) = Inr ws"
    "oc_satisfied out = False" "oc_requirement out = rq" "oc_deferred out = None"
    "oc_diagnostic out = Some (capability_failure rq p path (dm_axis d) (vget v (dm_axis d)) (demand_required p primary d) ws radius)"
    "oc_blame out = map (\<lambda>w. rule_name (weakening_rule w) @ '': '' @ effect_because (weakening_effect w)) ws"
proof -
  obtain arg rest path where args: "args = arg # rest" "path_text arg = Some path"
    using assms by (auto simp: discharge_capability_def Let_def split: list.splits option.splits)
  obtain v blamed primary failed where at: "path_vector s path = Inr (v, blamed)" "required_value p args = Inr primary"
    "first_failing p primary v (demands p) = Inr failed"
    using assms args by (auto simp: discharge_capability_def Let_def)
  show thesis
  proof (cases failed)
    case None
    then show thesis using that(1) [of path v blamed primary] assms args at by (simp add: discharge_capability_def)
  next
    case (Some d)
    then obtain ws radius where "blamed (dm_axis d) (demand_required p primary d) = Inr ws"
      "blast_radius s (dm_axis d) (demand_required p primary d) path = Inr radius"
      using assms args at by (auto simp: discharge_capability_def Let_def)
    then show thesis using that(2) [of path v blamed primary d ws radius] Some assms args at
      by (auto simp: discharge_capability_def Let_def)
  qed
qed

lemma capability_reported:
  assumes "discharge_capability rq name args p s needy = Inr out"
  shows "reported rq out"
proof (cases "name = ''no_alloc''")
  case True
  then show ?thesis
    using assms no_alloc_reported by (auto simp: discharge_capability_def Let_def split: list.splits option.splits)
next
  case False
  from assms False show ?thesis
    by (cases rule: discharge_capability_cases) (auto simp: reported_def capability_failure_reported)
qed

lemma discharge_one_reported: "discharge_one s needy rq = Inr out \<Longrightarrow> reported rq out"
  by (auto simp: discharge_one_def reported_def capability_reported arithmetic_reported
      dest!: capability_reported arithmetic_reported split: option.splits expr.splits)

section \<open>The gate\<close>

text \<open>
  C6: a build goes through exactly when each requirement can be discharged by itself and every
  \<open>require\<close> that is decided is satisfied.  The discharge of a schema's requirements answers one outcome
  per requirement, in order and each as the requirement alone has it; it answers at all if and only if
  no requirement alone ends in a refusal or an exception (an unknown path, a parameter that does not
  read as a number) and no \<open>require\<close> is both decided and unsatisfied; a failed \<open>assert\<close> does not stop
  it.
\<close>

theorem discharge_gate:
  "discharge_all s needy rqs = Inr outs \<longleftrightarrow>
     list_all2 (\<lambda>rq out. discharge_one s needy rq = Inr out
       \<and> (rq_kind rq = REQUIRE \<longrightarrow> oc_deferred out \<noteq> None \<or> oc_satisfied out)) rqs outs"
proof (induction rqs arbitrary: outs)
  case Nil
  then show ?case by auto
next
  case (Cons rq rqs)
  have "is_error out \<longleftrightarrow> \<not> (rq_kind rq = REQUIRE \<longrightarrow> oc_deferred out \<noteq> None \<or> oc_satisfied out)"
    if "discharge_one s needy rq = Inr out" for out
    using discharge_one_reported [OF that] by (auto simp: is_error_def reported_def)
  with Cons show ?case
    by (cases outs; cases "discharge_one s needy rq") (auto split: option.splits)
qed

text \<open>
  C8: the first \<open>require\<close> that fails is what the build reports.  Where the requirements before it go
  through, the discharge ends with that requirement's own diagnostic, which is an error and explains
  itself: the assertion that a failure has a diagnostic never fails, and what stands after is not
  looked at.
\<close>

theorem first_failure_reported:
  assumes "discharge_all s needy before = Inr outs" and "discharge_one s needy rq = Inr out" and "is_error out"
  shows "\<exists>d. discharge_all s needy (before @ rq # after) = Inl (Refused d) \<and> oc_diagnostic out = Some d
    \<and> dg_severity d = ERROR \<and> dg_notes d \<noteq> []"
  using assms(1)
proof (induction before arbitrary: outs)
  case Nil
  have "reported rq out" using assms(2) by (rule discharge_one_reported)
  then show ?case using assms(2,3) by (auto simp: is_error_def reported_def severity_of_def)
next
  case (Cons earlier before)
  then obtain first others where "discharge_one s needy earlier = Inr first" "\<not> is_error first"
    "discharge_all s needy before = Inr others"
    by (cases "discharge_one s needy earlier") (auto split: if_splits option.splits)
  then show ?case using Cons.IH [of others] by auto
qed


section \<open>Predicates of a whole struct\<close>

lemma predicate_rows:
  "list_all (\<lambda>(name, p). pr_name p = name \<and> (pr_takes_argument p \<longleftrightarrow> name \<in> {''max_size'', ''aligned''})
     \<and> list_all (\<lambda>d. dm_required d = bare (base (dm_required d)) \<and> base (dm_required d) \<in> set (DOMAINS (dm_axis d))) (demands p))
   PREDICATES"
  by code_simp

lemma at_least_bare: "at_least ax x (bare r) \<longleftrightarrow> rk ax x \<le> rk ax (bare r)"
  by (auto simp: at_least_def both_params_def)

lemma struct_axis_members:
  assumes "\<forall>e \<in> set es. wf_vector (rs_vector e)" and "struct_vector l es = Inr v" and "ax \<notin> FORCED_AXES"
    and "r \<in> set (DOMAINS ax)"
  shows "is_at_least ax (vget v ax) (bare r) = Inr True \<longleftrightarrow>
    (\<forall>e \<in> set es. is_at_least ax (vget (rs_vector e) ax) (bare r) = Inr True)"
proof -
  have v: "wf_vector v" "rk ax (vget v ax) = Max (insert 0 ((\<lambda>e. rk ax (vget (rs_vector e) ax)) ` set es))"
    using struct_vector_value [OF assms(1), of l] assms(2,3) by auto
  have r: "wf_value ax (bare r)" using assms(4) by (simp add: wf_value_def)
  have "is_at_least ax (vget v ax) (bare r) = Inr (rk ax (vget v ax) \<le> rk ax (bare r))"
    using is_at_least_wf [OF wf_vectorD [OF v(1)] r] by (simp add: at_least_bare)
  moreover have "is_at_least ax (vget (rs_vector e) ax) (bare r) = Inr (rk ax (vget (rs_vector e) ax) \<le> rk ax (bare r))"
    if "e \<in> set es" for e
    using is_at_least_wf [OF wf_vectorD r] assms(1) that by (simp add: at_least_bare)
  ultimately show ?thesis by (simp add: v(2))
qed

text \<open>
  C9: a lower bound demanded of a struct is a lower bound on every member.  For each predicate without
  an argument and each of its demands that asks for at least a value, on an axis the struct's vector
  takes from its members, the demand holds of the struct if and only if it holds of every entry.
\<close>

theorem struct_demand_members:
  assumes "\<forall>e \<in> set es. wf_vector (rs_vector e)" and "struct_vector l es = Inr v"
    and "(name, p) \<in> set PREDICATES" and "\<not> pr_takes_argument p" and "d \<in> set (demands p)"
    and "\<not> dm_exact d" and "dm_axis d \<notin> FORCED_AXES"
  shows "demand_met p (pr_required p) v d = Inr True \<longleftrightarrow>
    (\<forall>e \<in> set es. demand_met p (pr_required p) (rs_vector e) d = Inr True)"
proof -
  have row: "pr_name p = name" "name \<noteq> ''max_size''"
    "\<forall>d \<in> set (demands p). dm_required d = bare (base (dm_required d)) \<and> base (dm_required d) \<in> set (DOMAINS (dm_axis d))"
    using predicate_rows assms(3,4) by (auto simp: list_all_iff)
  then have own: "pr_required p = bare (base (pr_required p))" "base (pr_required p) \<in> set (DOMAINS (pr_axis p))"
    by (simp_all add: demands_def)
  define r where "r = base (demand_required p (pr_required p) d)"
  have "demand_required p (pr_required p) d = bare r" "r \<in> set (DOMAINS (dm_axis d))"
    using row(3) own assms(5) by (simp_all add: demand_required_def r_def)
  moreover from this have "demand_met p (pr_required p) w d = is_at_least (dm_axis d) (vget w (dm_axis d)) (bare r)" for w
    using row(1,2) assms(6) by (simp add: demand_met_def Let_def)
  ultimately show ?thesis using struct_axis_members [OF assms(1,2,7)] by simp
qed

section \<open>A worked schema\<close>

text \<open>
  A struct with one byte that a checksum covers, a three-bit field, and a tail without an upper bound,
  neither of them covered; the entries state the sizes and the coverage, and the struct's vector is what
  resolution makes of them.
\<close>

definition sample_entries :: "resolved list" where
  "sample_entries =
    [\<lparr>rs_placement = (plain_placement ''m.a'' ''field'' (Some 0) 8 (Some 8))\<lparr>pl_covered_by := [''crc'']\<rparr>,
      rs_vector = [(SIZE, \<lparr>base = ''Fixed'', params = [render_size 8]\<rparr>), (AUTH, \<lparr>base = ''Covered'', params = [''crc'']\<rparr>)],
      rs_weakenings = []\<rparr>,
     \<lparr>rs_placement = plain_placement ''m.flag'' ''field'' (Some 8) 3 (Some 3),
      rs_vector = [(SIZE, \<lparr>base = ''Fixed'', params = [render_size 3]\<rparr>)], rs_weakenings = []\<rparr>,
     \<lparr>rs_placement = plain_placement ''m.rest'' ''field'' (Some 16) 0 None,
      rs_vector = [(SIZE, bare ''Unbounded'')], rs_weakenings = []\<rparr>]"

definition sample_layout :: struct_layout where
  "sample_layout = \<lparr>sl_name = ''m'', sl_size_bits = 16, sl_size_max_bits = None, sl_placements = map rs_placement sample_entries\<rparr>"

definition sample_vector :: cap_vector where
  "sample_vector =
    [(ACCESS, bare ''Random''), (MUTATE, bare ''InPlaceFixed''), (ADDRESS, bare ''Stable''), (REPR, bare ''MemoryIdentical''),
     (ATOMIC, bare ''AtomicWord''), (CANONICAL, bare ''Canonical''), (STAGE, bare ''CompileTime''), (SECRECY, bare ''Public''),
     (EFFECT, bare ''Pure''), (OFFSET, bare ''AbsoluteStatic''), (ALIGN, bare ''Aligned''),
     (SIZE, \<lparr>base = ''Fixed'', params = [''2'']\<rparr>), (AUTH, bare ''Uncovered'')]"

lemma sample_vector_resolved: "struct_vector sample_layout sample_entries = Inr sample_vector"
  by code_simp

definition sample_schema :: resolved_schema where
  "sample_schema =
    \<lparr>rss_structs = [(''m'',
       \<lparr>rst_name = ''m'', rst_layout = sample_layout, rst_entries = sample_entries, rst_vector = sample_vector\<rparr>)],
     rss_layouts = [(''m'', sample_layout)], rss_env = empty_env\<rparr>"

definition asked :: "requirement_kind \<Rightarrow> string \<Rightarrow> expr list \<Rightarrow> requirement" where
  "asked k name args = \<lparr>rq_kind = k, rq_expr = Call name args\<rparr>"

text \<open>What the discharge of one requirement answers: its verdict, or that it ends in an exception.\<close>

datatype verdict = Satisfied | Unsatisfied | Deferred | Crashes exn | NoAnswer

definition verdict_of :: "requirement \<Rightarrow> verdict" where
  "verdict_of rq =
     (case discharge_one sample_schema {} rq of
        Inl (PyRaised e) \<Rightarrow> Crashes e
      | Inl _ \<Rightarrow> NoAnswer
      | Inr out \<Rightarrow> if oc_deferred out \<noteq> None then Deferred else if oc_satisfied out then Satisfied else Unsatisfied)"

text \<open>
  a predicate asked of a struct reads what the struct's vector is forced to, not what the struct
  holds.  \<open>max_size\<close> of a struct whose tail has no upper bound is discharged from its least size, while
  the tail alone fails at any bound; \<open>uncovered\<close> holds of a struct in which a tag covers a member, and
  fails of the member; \<open>aligned\<close> holds of a struct at any boundary.  And \<open>max_size\<close> of a field of three
  bits ends in an exception of Python, its size being written \<open>3bit\<close>.
\<close>

theorem struct_predicates_forced:
  "struct_vector sample_layout sample_entries = Inr (rst_vector (the (find_struct sample_schema ''m'')))
   \<and> map verdict_of
       [asked REQUIRE ''max_size'' [NameRef ''m'', IntLiteral 2 ''2''],
        asked REQUIRE ''max_size'' [Access (NameRef ''m'') ''rest'', IntLiteral 64 ''64''],
        asked REQUIRE ''uncovered'' [NameRef ''m''],
        asked REQUIRE ''uncovered'' [Access (NameRef ''m'') ''a''],
        asked REQUIRE ''aligned'' [NameRef ''m'', IntLiteral 64 ''64''],
        asked REQUIRE ''max_size'' [Access (NameRef ''m'') ''flag'', IntLiteral 1 ''1'']]
     = [Satisfied, Unsatisfied, Satisfied, Unsatisfied, Satisfied, Crashes PyValueError]"
proof -
  have "rst_vector (the (find_struct sample_schema ''m'')) = sample_vector" by code_simp
  moreover have "map verdict_of
       [asked REQUIRE ''max_size'' [NameRef ''m'', IntLiteral 2 ''2''],
        asked REQUIRE ''max_size'' [Access (NameRef ''m'') ''rest'', IntLiteral 64 ''64''],
        asked REQUIRE ''uncovered'' [NameRef ''m''],
        asked REQUIRE ''uncovered'' [Access (NameRef ''m'') ''a''],
        asked REQUIRE ''aligned'' [NameRef ''m'', IntLiteral 64 ''64''],
        asked REQUIRE ''max_size'' [Access (NameRef ''m'') ''flag'', IntLiteral 1 ''1'']]
     = [Satisfied, Unsatisfied, Satisfied, Unsatisfied, Satisfied, Crashes PyValueError]"
    by code_simp
  ultimately show ?thesis by (simp add: sample_vector_resolved)
qed

lemma sample_schema_wf: "\<forall>e \<in> set sample_entries. wf_vector (rs_vector e)"
  by code_simp

theorem first_failure_reported_witness:
  "\<exists>d. discharge_all sample_schema {} ([asked ASSERT ''uncovered'' [Access (NameRef ''m'') ''a'']]
       @ asked REQUIRE ''uncovered'' [Access (NameRef ''m'') ''a''] # []) = Inl (Refused d) \<and> dg_severity d = ERROR"
proof -
  let ?a = "asked ASSERT ''uncovered'' [Access (NameRef ''m'') ''a'']"
  let ?r = "asked REQUIRE ''uncovered'' [Access (NameRef ''m'') ''a'']"
  have "case discharge_all sample_schema {} [?a] of Inl _ \<Rightarrow> False | Inr outs \<Rightarrow> True" by code_simp
  then obtain outs where outs: "discharge_all sample_schema {} [?a] = Inr outs" by (auto split: sum.splits)
  have "case discharge_one sample_schema {} ?r of Inl _ \<Rightarrow> False | Inr out \<Rightarrow> is_error out" by code_simp
  then obtain out where "discharge_one sample_schema {} ?r = Inr out" "is_error out" by (auto split: sum.splits)
  from first_failure_reported [OF outs this, of "[]"] show ?thesis by blast
qed



lemma answer_of: "case r of Inl e \<Rightarrow> False | Inr x \<Rightarrow> P x \<Longrightarrow> \<exists>x. r = Inr x \<and> P x"
  by (cases r) simp_all

theorem discharge_gate_witness:
  "\<exists>outs. discharge_all sample_schema {}
       [asked ASSERT ''uncovered'' [Access (NameRef ''m'') ''a''],
        asked REQUIRE ''max_size'' [Access (NameRef ''m'') ''a'', IntLiteral 1 ''1'']] = Inr outs
     \<and> map oc_satisfied outs = [False, True]"
proof -
  let ?a = "asked ASSERT ''uncovered'' [Access (NameRef ''m'') ''a'']"
    and ?r = "asked REQUIRE ''max_size'' [Access (NameRef ''m'') ''a'', IntLiteral 1 ''1'']"
  have "case discharge_one sample_schema {} ?a of Inl _ \<Rightarrow> False | Inr out \<Rightarrow> \<not> oc_satisfied out" by code_simp
  from answer_of [OF this] obtain oa where oa: "discharge_one sample_schema {} ?a = Inr oa" "\<not> oc_satisfied oa" by blast
  have "case discharge_one sample_schema {} ?r of Inl _ \<Rightarrow> False | Inr out \<Rightarrow> oc_satisfied out" by code_simp
  from answer_of [OF this] obtain ob where ob: "discharge_one sample_schema {} ?r = Inr ob" "oc_satisfied ob" by blast
  have "discharge_all sample_schema {} [?a, ?r] = Inr [oa, ob]"
    unfolding discharge_gate list_all2_Cons list_all2_Nil using oa ob by (simp add: asked_def del: discharge_all.simps)
  from this oa(2) ob(2) show ?thesis by (intro exI [of _ "[oa, ob]"]) (simp del: discharge_all.simps)
qed

theorem struct_demand_members_witness:
  "demand_met (the (map_of PREDICATES ''canonical'')) (bare ''Canonical'') sample_vector
     (hd (demands (the (map_of PREDICATES ''canonical'')))) = Inr True"
proof -
  let ?p = "the (map_of PREDICATES ''canonical'')"
  have "\<not> pr_takes_argument ?p" "\<not> dm_exact (hd (demands ?p))" "dm_axis (hd (demands ?p)) \<notin> FORCED_AXES"
    "pr_required ?p = bare ''Canonical''" "map_of PREDICATES ''canonical'' \<noteq> None"
    by code_simp+
  moreover have "(''canonical'', ?p) \<in> set PREDICATES"
    using \<open>map_of PREDICATES ''canonical'' \<noteq> None\<close> by (auto dest: map_of_SomeD)
  moreover have "hd (demands ?p) \<in> set (demands ?p)" by (simp add: demands_def)
  moreover have "\<forall>e \<in> set sample_entries. demand_met ?p (bare ''Canonical'') (rs_vector e) (hd (demands ?p)) = Inr True"
    by code_simp
  ultimately show ?thesis
    using struct_demand_members [OF sample_schema_wf sample_vector_resolved, of "''canonical''" ?p "hd (demands ?p)"] by simp
qed

end
