(* ===== verification/Layers.thy ===== *)
theory Layers
  imports Propagate_Rows
begin

text \<open>
  \<open>situc/layers.py\<close>: which rung of the layer ladder a schema needs.  A member is seen as the code
  sees it, by its class and by the attributes \<open>getattr\<close> finds on it: a name, a codec, the members
  nested in it, and the members its arms select (None for an arm that only refuses).
\<close>

section \<open>Schemas\<close>

datatype member = Member
  (member_class: string) (member_name: "string option") (member_codec: "string option")
  (nested: "member list") (arms: "member option list")

record layered_schema =
  ls_codecs :: "(string \<times> expansion) list"
  ls_structs :: "(string \<times> member list) list"
  ls_relations :: "attr list list"

definition LAYERS :: "string list" where
  "LAYERS = [''view'', ''edit'', ''relate'', ''frame'', ''converse'', ''drive'']"

definition unbounded_codecs :: "layered_schema \<Rightarrow> string set" where
  "unbounded_codecs s = set (map fst (filter (\<lambda>(name, e). e = UNBOUNDED) (ls_codecs s)))"

definition arm_members :: "member option list \<Rightarrow> member list" where
  "arm_members as = List.map_filter id as"

lemma arm_members_simps [simp]:
  "arm_members [] = []" "arm_members (None # as) = arm_members as" "arm_members (Some m # as) = m # arm_members as"
  by (simp_all add: arm_members_def List.map_filter_simps)

lemma arm_members_size: "size_list size (arm_members as) \<le> size_list (size_option size) as"
proof (induction as)
  case (Cons a as)
  then show ?case by (cases a) auto
qed simp

text \<open>\<open>_walk\<close>: every member, each followed by what is nested in it and by what its arms select.\<close>

function walk_members :: "member list \<Rightarrow> member list" where
  "walk_members [] = []"
| "walk_members (Member kls nm cd ms as # rest) =
     Member kls nm cd ms as # walk_members ms @ walk_members (arm_members as) @ walk_members rest"
  by pat_completeness auto

termination
proof (relation "measure (size_list size)", goal_cases)
  case (3 kls nm cd ms as rest)
  then show ?case using arm_members_size [of as] by simp
qed simp_all

definition storing_name :: "member \<Rightarrow> string option" where
  "storing_name m =
     (case member_name m of None \<Rightarrow> member_codec m | Some n \<Rightarrow> if n = [] then member_codec m else Some n)"

definition stores :: "string set \<Rightarrow> member \<Rightarrow> bool" where
  "stores unbounded m \<longleftrightarrow> member_class m \<in> {''Coded'', ''Sealed''}
     \<and> (case member_codec m of None \<Rightarrow> False | Some codec \<Rightarrow> codec \<in> unbounded)"

text \<open>\<open>struct.member\<close>, with \<open>None\<close> written as Python writes it.\<close>

definition region_path :: "string \<Rightarrow> member \<Rightarrow> string" where
  "region_path struct m = struct @ ''.'' @ (case storing_name m of None \<Rightarrow> ''None'' | Some n \<Rightarrow> n)"

definition allocating :: "layered_schema \<Rightarrow> string set" where
  "allocating s =
     (let unbounded = unbounded_codecs s in
        if unbounded = {} then {}
        else set (concat (map (\<lambda>(struct, ms). map (region_path struct) (filter (stores unbounded) (walk_members ms)))
          (ls_structs s))))"

definition layer_floor :: "layered_schema \<Rightarrow> string" where
  "layer_floor s = (if allocating s \<noteq> {} then ''edit'' else ''view'')"

definition layer_reach :: "layered_schema \<Rightarrow> string" where
  "layer_reach s =
     (if list_ex (\<lambda>attrs. attrs \<noteq> []) (ls_relations s) then ''drive''
      else if ls_relations s \<noteq> [] then ''relate'' else ''view'')"

definition starts :: "string \<Rightarrow> string \<Rightarrow> bool" where
  "starts prefix s = (take (length prefix) s = prefix)"

definition allocates :: "layered_schema \<Rightarrow> string \<Rightarrow> bool" where
  "allocates s path =
     (let needy = allocating s in
        if needy = {} then False
        else if path \<in> needy then True
        else \<exists>one \<in> needy. one = path \<or> starts (path @ ''.'') one)"

section \<open>Every member at any depth\<close>

text \<open>A member of a list of members, of the members one of them nests, or of the arms of one.\<close>

inductive within :: "member \<Rightarrow> member list \<Rightarrow> bool" where
  here: "m \<in> set ms \<Longrightarrow> within m ms"
| nests: "outer \<in> set ms \<Longrightarrow> within m (nested outer) \<Longrightarrow> within m ms"
| selects: "outer \<in> set ms \<Longrightarrow> within m (arm_members (arms outer)) \<Longrightarrow> within m ms"

inductive_cases within_NilE [elim!]: "within m []"

lemma within_mono: "within m ms \<Longrightarrow> set ms \<subseteq> set ns \<Longrightarrow> within m ns"
  by (induction rule: within.induct) (auto intro: within.intros)

lemma within_Cons:
  "within m (Member kls nm cd ms as # rest) \<longleftrightarrow>
     m = Member kls nm cd ms as \<or> within m ms \<or> within m (arm_members as) \<or> within m rest"
proof
  assume "within m (Member kls nm cd ms as # rest)"
  then show "m = Member kls nm cd ms as \<or> within m ms \<or> within m (arm_members as) \<or> within m rest"
    by (cases rule: within.cases) (auto intro: within.intros)
next
  assume "m = Member kls nm cd ms as \<or> within m ms \<or> within m (arm_members as) \<or> within m rest"
  then show "within m (Member kls nm cd ms as # rest)"
    using within.nests [of "Member kls nm cd ms as"] within.selects [of "Member kls nm cd ms as"]
    by (elim disjE) (auto intro: within.here within_mono)
qed

lemma walk_members_within: "m \<in> set (walk_members ms) \<longleftrightarrow> within m ms"
  by (induction ms rule: walk_members.induct) (auto simp: within_Cons)

lemma allocating_iff:
  "path \<in> allocating s \<longleftrightarrow>
     (\<exists>(struct, ms) \<in> set (ls_structs s). \<exists>m. within m ms \<and> stores (unbounded_codecs s) m \<and> path = region_path struct m)"
proof (cases "unbounded_codecs s = {}")
  case True
  then show ?thesis by (auto simp: allocating_def stores_def split: option.splits)
next
  case False
  then have "allocating s = (\<Union>(struct, ms) \<in> set (ls_structs s).
      region_path struct ` {m. within m ms \<and> stores (unbounded_codecs s) m})"
    by (auto simp: allocating_def Let_def walk_members_within)
  then show ?thesis by fastforce
qed

text \<open>
  C12: the floor of a schema is \<open>edit\<close> exactly when some struct holds, at any depth of nesting and in
  any arm of a variant, a coded or sealed region whose codec expands without a bound.
\<close>

theorem floor_edit_iff:
  "layer_floor s = ''edit'' \<longleftrightarrow>
     (\<exists>(struct, ms) \<in> set (ls_structs s). \<exists>m. within m ms \<and> member_class m \<in> {''Coded'', ''Sealed''}
        \<and> (\<exists>codec. member_codec m = Some codec \<and> (codec, UNBOUNDED) \<in> set (ls_codecs s)))"
proof -
  have "layer_floor s = ''edit'' \<longleftrightarrow> (\<exists>path. path \<in> allocating s)" by (auto simp: layer_floor_def)
  also have "\<dots> \<longleftrightarrow> (\<exists>(struct, ms) \<in> set (ls_structs s). \<exists>m. within m ms \<and> stores (unbounded_codecs s) m)"
    unfolding allocating_iff by blast
  also have "\<dots> \<longleftrightarrow> (\<exists>(struct, ms) \<in> set (ls_structs s). \<exists>m. within m ms \<and> member_class m \<in> {''Coded'', ''Sealed''}
        \<and> (\<exists>codec. member_codec m = Some codec \<and> (codec, UNBOUNDED) \<in> set (ls_codecs s)))"
    by (auto simp: stores_def unbounded_codecs_def image_iff split: option.splits) force+
  finally show ?thesis .
qed

text \<open>
  A region nested in another is listed under its struct and its own name alone, so asking about
  the region that contains it does not find it.  The schema below needs the rung \<open>edit\<close>; the struct
  allocates, and so does the path the region is listed under, but not the variant the region is an
  arm of, nor a struct with a field of that struct's type.
\<close>

definition squeezed :: layered_schema where
  "squeezed =
    \<lparr>ls_codecs = [(''squeeze'', UNBOUNDED)],
     ls_structs =
       [(''packed'', [Member ''Variant'' (Some ''held'') None []
           [Some (Member ''Coded'' (Some ''body'') (Some ''squeeze'') [Member ''Field'' (Some ''raw'') None [] []] []), None]]),
        (''outer'', [Member ''Field'' (Some ''one'') None [] []])],
     ls_relations = []\<rparr>"

theorem nested_region_missed:
  "layer_floor squeezed = ''edit'' \<and> allocates squeezed ''packed'' \<and> allocates squeezed ''packed.body''
     \<and> \<not> allocates squeezed ''packed.held'' \<and> \<not> allocates squeezed ''outer''"
  by code_simp

end
