(* ===== verification/Session.thy ===== *)
theory Session
  imports Situ_Prelude "HOL-Library.Multiset" "HOL-Library.Sublist"
begin

text \<open>
  \<open>walker/session.py\<close>: the two rungs that hold state.  A \<open>Reader\<close> turns a byte stream into whole
  messages; what it asks of \<open>walker/walk.py\<close> are three functions it is given here, each of them None
  where the walk refuses: to acquire a view of bytes, the least number of bytes a whole message
  takes, and the extent of the message.  A \<open>Conversation\<close> holds pending requests and is given the
  relation that says whether a response answers one.  That the reader's arguments are as many as its struct
  takes is taken for granted; otherwise acquiring raises \<open>Unsupplied\<close>.
\<close>

section \<open>Reader\<close>

record reader =
  buffer :: bytes
  ready :: nat

definition new_reader :: reader where
  "new_reader = \<lparr>buffer = [], ready = 0\<rparr>"

definition advance_reader :: "reader \<Rightarrow> reader" where
  "advance_reader r = (if ready r \<noteq> 0 then r\<lparr>buffer := drop (ready r) (buffer r), ready := 0\<rparr> else r)"

definition push :: "reader \<Rightarrow> bytes \<Rightarrow> reader" where
  "push r data = (let r' = advance_reader r in r'\<lparr>buffer := buffer r' @ data\<rparr>)"

text \<open>What \<open>next\<close> answers: nothing yet, a view of one message, or the refusal of its last acquisition.\<close>

datatype 'v answer = NotYet | Delivered 'v | RefusedView

definition next_message :: "(bytes \<Rightarrow> 'v option) \<Rightarrow> ('v \<Rightarrow> nat option) \<Rightarrow> ('v \<Rightarrow> nat option) \<Rightarrow> reader
    \<Rightarrow> reader \<times> 'v answer" where
  "next_message acquire frame_min struct_extent r =
     (let r = advance_reader r in
        if buffer r = [] then (r, NotYet)
        else case acquire (buffer r) of
          None \<Rightarrow> (r, NotYet)
        | Some probe \<Rightarrow>
            (case frame_min probe of
               None \<Rightarrow> (r, NotYet)
             | Some need \<Rightarrow>
                 if need = 0 \<or> length (buffer r) < need then (r, NotYet)
                 else case struct_extent probe of
                   None \<Rightarrow> (r, NotYet)
                 | Some need \<Rightarrow>
                     if need = 0 \<or> length (buffer r) < need then (r, NotYet)
                     else (r\<lparr>ready := need\<rparr>,
                           case acquire (take need (buffer r)) of None \<Rightarrow> RefusedView | Some v \<Rightarrow> Delivered v)))"

text \<open>
  A caller of the reader: each chunk that arrives is pushed, and messages are taken while there are
  any.  The loop is bounded by the bytes held, since a message takes at least one.
\<close>

fun drain :: "(bytes \<Rightarrow> 'v option) \<Rightarrow> ('v \<Rightarrow> nat option) \<Rightarrow> ('v \<Rightarrow> nat option) \<Rightarrow> nat \<Rightarrow> reader
    \<Rightarrow> reader \<times> 'v list" where
  "drain acquire frame_min struct_extent 0 r = (r, [])"
| "drain acquire frame_min struct_extent (Suc n) r =
     (case next_message acquire frame_min struct_extent r of
        (r', Delivered v) \<Rightarrow> (let (r'', vs) = drain acquire frame_min struct_extent n r' in (r'', v # vs))
      | (r', _) \<Rightarrow> (r', []))"

fun feed :: "(bytes \<Rightarrow> 'v option) \<Rightarrow> ('v \<Rightarrow> nat option) \<Rightarrow> ('v \<Rightarrow> nat option) \<Rightarrow> reader \<Rightarrow> bytes list
    \<Rightarrow> reader \<times> 'v list" where
  "feed acquire frame_min struct_extent r [] = (r, [])"
| "feed acquire frame_min struct_extent r (c # cs) =
     (let r = push r c;
          (r, vs) = drain acquire frame_min struct_extent (Suc (length (buffer r))) r;
          (r, ws) = feed acquire frame_min struct_extent r cs in (r, vs @ ws))"

section \<open>Conversation\<close>

record ('q, 'h) conversation =
  cap :: nat
  pending :: "('q \<times> 'h) list"

definition record_request :: "('q, 'h) conversation \<Rightarrow> 'q \<Rightarrow> 'h \<Rightarrow> ('q, 'h) conversation \<times> bool" where
  "record_request c request handle =
     (if cap c \<le> length (pending c) then (c, False)
      else (c\<lparr>pending := pending c @ [(request, handle)]\<rparr>, True))"

fun take_loop :: "('q \<Rightarrow> 'r \<Rightarrow> bool) \<Rightarrow> 'r \<Rightarrow> ('q \<times> 'h) list \<Rightarrow> ('q \<times> 'h) list \<Rightarrow> ('q \<times> 'h) list \<times> 'h option" where
  "take_loop relates response seen [] = (seen, None)"
| "take_loop relates response seen ((request, handle) # rest) =
     (if relates request response then (seen @ rest, Some handle)
      else take_loop relates response (seen @ [(request, handle)]) rest)"

definition take_response :: "('q \<Rightarrow> 'r \<Rightarrow> bool) \<Rightarrow> ('q, 'h) conversation \<Rightarrow> 'r \<Rightarrow> ('q, 'h) conversation \<times> 'h option" where
  "take_response relates c response =
     (let (left, answer) = take_loop relates response [] (pending c) in (c\<lparr>pending := left\<rparr>, answer))"

section \<open>One call of next\<close>

lemma advance_idle [simp]: "ready r = 0 \<Longrightarrow> advance_reader r = r"
  by (simp add: advance_reader_def)

lemma ready_advance [simp]: "ready (advance_reader r) = 0"
  by (simp add: advance_reader_def)

lemma advance_ready [simp]: "0 < n \<Longrightarrow> buffer (advance_reader (r\<lparr>ready := n\<rparr>)) = drop n (buffer r)"
  by (simp add: advance_reader_def)

lemma next_message_cases:
  obtains (not_yet) "next_message acquire frame_min struct_extent r = (advance_reader r, NotYet)"
  | (whole) n where "0 < n" "n \<le> length (buffer (advance_reader r))"
      "next_message acquire frame_min struct_extent r = ((advance_reader r)\<lparr>ready := n\<rparr>,
        (case acquire (take n (buffer (advance_reader r))) of None \<Rightarrow> RefusedView | Some v \<Rightarrow> Delivered v))"
proof (cases "buffer (advance_reader r) = [] \<or> acquire (buffer (advance_reader r)) = None")
  case True
  then show thesis by (intro not_yet) (auto simp: next_message_def Let_def)
next
  case False
  then obtain probe where probe: "buffer (advance_reader r) \<noteq> []" "acquire (buffer (advance_reader r)) = Some probe" by auto
  let ?short = "\<lambda>need. case need of None \<Rightarrow> True | Some n \<Rightarrow> n = 0 \<or> length (buffer (advance_reader r)) < n"
  show thesis
  proof (cases "?short (frame_min probe) \<or> ?short (struct_extent probe)")
    case True
    then show thesis using probe by (intro not_yet) (auto simp: next_message_def Let_def split: option.splits)
  next
    case False
    then obtain m n where "frame_min probe = Some m" "struct_extent probe = Some n" "m \<noteq> 0" "0 < n"
      "m \<le> length (buffer (advance_reader r))" "n \<le> length (buffer (advance_reader r))"
      by (auto split: option.splits)
    then show thesis using probe by (intro whole [of n]) (simp_all add: next_message_def Let_def)
  qed
qed

text \<open>
  C14: \<open>next\<close> hands out nothing that has not arrived and consumes nothing.  It leaves the bytes it found
  after dropping the message handed out before; where it answers a view, the view is of a non-empty
  run of bytes at the front of the buffer, the run that the following \<open>advance\<close> drops; and where it
  answers that there is nothing yet, no bytes are marked to be dropped.
\<close>

theorem next_message_safe:
  "let (r', answer) = next_message acquire frame_min struct_extent r in
     buffer r' = buffer (advance_reader r)
     \<and> (case answer of
          NotYet \<Rightarrow> ready r' = 0
        | Delivered v \<Rightarrow> 0 < ready r' \<and> ready r' \<le> length (buffer r') \<and> acquire (take (ready r') (buffer r')) = Some v
            \<and> take (ready r') (buffer r') @ buffer (advance_reader r') = buffer r'
        | RefusedView \<Rightarrow> 0 < ready r' \<and> ready r' \<le> length (buffer r'))"
proof (cases rule: next_message_cases [of acquire frame_min struct_extent r])
  case not_yet
  then show ?thesis by simp
next
  case (whole n)
  then show ?thesis by (cases "acquire (take n (buffer (advance_reader r)))") simp_all
qed

section \<open>A stream of whole messages\<close>

text \<open>
  What a walk of a self-delimiting struct answers: a message is not empty and is acquired as it stands;
  whatever follows it, its least size is at most its length and its extent is its length; and of a
  part of it no more than the least size, if anything, is answered, and that is not yet there.
\<close>

definition frames :: "(bytes \<Rightarrow> 'v option) \<Rightarrow> ('v \<Rightarrow> nat option) \<Rightarrow> ('v \<Rightarrow> nat option) \<Rightarrow> (bytes \<Rightarrow> 'v) \<Rightarrow> bytes \<Rightarrow> bool" where
  "frames acquire frame_min struct_extent view m \<longleftrightarrow> m \<noteq> [] \<and> acquire m = Some (view m)
     \<and> (\<forall>rest. \<exists>probe need. acquire (m @ rest) = Some probe \<and> frame_min probe = Some need
          \<and> 0 < need \<and> need \<le> length m \<and> struct_extent probe = Some (length m))
     \<and> (\<forall>p. strict_prefix p m \<longrightarrow> (\<forall>probe need. acquire p = Some probe \<longrightarrow> frame_min probe = Some need \<longrightarrow>
          need = 0 \<or> length p < need))"

lemma next_whole:
  assumes "frames acquire frame_min struct_extent view m" and "buffer (advance_reader r) = m @ rest"
  shows "next_message acquire frame_min struct_extent r = ((advance_reader r)\<lparr>ready := length m\<rparr>, Delivered (view m))"
proof -
  obtain probe need where at: "acquire (m @ rest) = Some probe" "frame_min probe = Some need" "0 < need" "need \<le> length m"
    "struct_extent probe = Some (length m)" "m \<noteq> []" "acquire m = Some (view m)"
    using assms(1) unfolding frames_def by blast
  then show ?thesis using assms(2) by (simp add: next_message_def Let_def)
qed

lemma next_partial:
  assumes "frames acquire frame_min struct_extent view m" and "strict_prefix (buffer (advance_reader r)) m"
  shows "next_message acquire frame_min struct_extent r = (advance_reader r, NotYet)"
  using assms unfolding frames_def next_message_def Let_def by (auto split: option.splits)

text \<open>Bytes that the stream of messages starts with: some of the messages, then less than the next one.\<close>

definition short :: "bytes list \<Rightarrow> bytes \<Rightarrow> bool" where
  "short ms b \<longleftrightarrow> (case ms of [] \<Rightarrow> b = [] | m # _ \<Rightarrow> length b < length m)"

lemma append_prefix_cases:
  assumes "b @ future = m @ rest"
  obtains more where "b = m @ more" "more @ future = rest" | "strict_prefix b m" "length b < length m"
proof (cases "length m \<le> length b")
  case True
  with assms obtain more where "b = m @ more" "more @ future = rest"
    by (metis append_eq_append_conv_if append_take_drop_id)
  then show thesis by (rule that(1))
next
  case False
  have "prefix b m \<or> prefix m b" using assms by (metis prefixI prefix_same_cases)
  then have "strict_prefix b m" using False by (metis leI prefix_length_le prefix_order.le_imp_less_or_eq)
  then show thesis using False by (intro that(2)) simp_all
qed

lemma drain_stream:
  assumes "\<forall>m \<in> set ms. frames acquire frame_min struct_extent view m"
    and "buffer (advance_reader r) @ future = concat ms" and "length (buffer (advance_reader r)) < n"
  shows "\<exists>k r'. drain acquire frame_min struct_extent n r = (r', map view (take k ms)) \<and> ready r' = 0
    \<and> buffer r' @ future = concat (drop k ms) \<and> short (drop k ms) (buffer r')"
  using assms
proof (induction ms arbitrary: r n)
  case Nil
  then obtain i where "n = Suc i" by (cases n) auto
  then show ?case using Nil by (intro exI [of _ 0] exI [of _ "advance_reader r"]) (simp add: next_message_def short_def)
next
  case (Cons m ms)
  then obtain i where n: "n = Suc i" by (cases n) auto
  have m: "frames acquire frame_min struct_extent view m" using Cons.prems(1) by simp
  have "buffer (advance_reader r) @ future = m @ concat ms" using Cons.prems(2) by simp
  then show ?case
  proof (cases rule: append_prefix_cases)
    case (1 more)
    let ?r = "(advance_reader r)\<lparr>ready := length m\<rparr>"
    have "m \<noteq> []" using m by (simp add: frames_def)
    then have "buffer (advance_reader ?r) = more" using 1(1) by simp
    moreover have "length more < i" using 1(1) Cons.prems(3) n \<open>m \<noteq> []\<close> by (cases m) auto
    ultimately obtain k r' where "drain acquire frame_min struct_extent i ?r = (r', map view (take k ms))" "ready r' = 0"
      "buffer r' @ future = concat (drop k ms)" "short (drop k ms) (buffer r')"
      using Cons.IH [of ?r i] Cons.prems(1) 1(2) by auto
    then show ?thesis
      using next_whole [OF m 1(1)] n by (intro exI [of _ "Suc k"] exI [of _ r']) simp
  next
    case 2
    then show ?thesis
      using next_partial [OF m 2(1)] n Cons.prems(2)
      by (intro exI [of _ 0] exI [of _ "advance_reader r"]) (simp add: short_def)
  qed
qed

lemma feed_stream:
  assumes "\<forall>m \<in> set ms. frames acquire frame_min struct_extent view m"
    and "ready r = 0" and "buffer r @ concat cs = concat ms" and "short ms (buffer r)"
  shows "\<exists>r'. feed acquire frame_min struct_extent r cs = (r', map view ms) \<and> buffer r' = [] \<and> ready r' = 0"
  using assms
proof (induction cs arbitrary: r ms)
  case Nil
  then have "ms = []" by (cases ms) (auto simp: short_def)
  then show ?case using Nil by simp
next
  case (Cons c cs)
  let ?r = "push r c"
  have pushed: "ready ?r = 0" "buffer ?r = buffer r @ c" using Cons.prems(2) by (simp_all add: push_def Let_def)
  then have "buffer (advance_reader ?r) @ concat cs = concat ms" using Cons.prems(3) by simp
  then obtain k r' where drained: "drain acquire frame_min struct_extent (Suc (length (buffer ?r))) ?r = (r', map view (take k ms))"
    "ready r' = 0" "buffer r' @ concat cs = concat (drop k ms)" "short (drop k ms) (buffer r')"
    using drain_stream [OF Cons.prems(1), of ?r "concat cs" "Suc (length (buffer ?r))"] pushed by auto
  have "\<forall>m \<in> set (drop k ms). frames acquire frame_min struct_extent view m"
    using Cons.prems(1) by (meson in_set_dropD)
  from Cons.IH [OF this drained(2,3,4)] obtain r'' where
    "feed acquire frame_min struct_extent r' cs = (r'', map view (drop k ms))" "buffer r'' = []" "ready r'' = 0" by blast
  then show ?case
    using drained(1) by (simp add: Let_def) (metis append_take_drop_id map_append)
qed

text \<open>
  C13: every message of a stream is delivered, whole and in order, however the stream is cut.  For
  messages of which the walk measures the length whatever follows them, asking for no more than the
  message has, and for no part of one a least size that is already there, pushing any chunks whose
  concatenation is the messages' and taking what there is after each of them delivers the view of
  every message, and leaves nothing.  (A walk may ask for more than a message needs; a stream of such
  messages is not covered.)
\<close>

theorem reader_delivers:
  assumes "\<forall>m \<in> set ms. frames acquire frame_min struct_extent view m" and "concat cs = concat ms"
  shows "\<exists>r. feed acquire frame_min struct_extent new_reader cs = (r, map view ms) \<and> buffer r = []"
proof -
  have "short ms []" using assms(1) by (cases ms) (auto simp: short_def frames_def)
  then show ?thesis
    using feed_stream [OF assms(1), of new_reader cs] assms(2) by (auto simp: new_reader_def)
qed

text \<open>
  Messages of a length byte and that many bytes more, cut where no message ends.
\<close>

definition counted_extent :: "bytes \<Rightarrow> nat option" where
  "counted_extent b = (case b of [] \<Rightarrow> None | x # _ \<Rightarrow> Some (Suc (unat x)))"

lemma counted_frames:
  assumes "unat x = length body"
  shows "frames Some counted_extent counted_extent id (x # body)"
proof -
  have "need = 0 \<or> length p < need" if "strict_prefix p (x # body)" "counted_extent p = Some need" for p need
    using that assms prefix_length_less [of p "x # body"] by (cases p) (auto simp: counted_extent_def strict_prefix_def)
  then show ?thesis using assms by (auto simp: frames_def counted_extent_def)
qed

theorem reader_delivers_witness:
  "\<exists>r. feed Some counted_extent counted_extent new_reader [[2, 10], [11, 1], [], [12]] = (r, [[2, 10, 11], [1, 12]])"
  using reader_delivers [of "[[2, 10, 11], [1, 12]]" Some counted_extent counted_extent id "[[2, 10], [11, 1], [], [12]]"]
  by (auto simp: counted_frames)

section \<open>Matching responses\<close>

lemma take_loop_value:
  "take_loop relates response seen ps =
     (case find (\<lambda>(q, _). relates q response) ps of
        None \<Rightarrow> (seen @ ps, None)
      | Some (q, h) \<Rightarrow>
          (seen @ takeWhile (\<lambda>(q, _). \<not> relates q response) ps @ tl (dropWhile (\<lambda>(q, _). \<not> relates q response) ps), Some h))"
  by (induction ps arbitrary: seen) (auto split: option.splits)

lemma take_none:
  assumes "take_response relates c response = (c', None)"
  shows "c' = c \<and> (\<forall>p \<in> set (pending c). \<not> relates (fst p) response)"
proof (cases "find (\<lambda>(q, _). relates q response) (pending c)")
  case None
  then have "\<forall>p \<in> set (pending c). \<not> relates (fst p) response" by (auto simp: find_None_iff)
  then show ?thesis using assms None by (auto simp: take_response_def take_loop_value)
next
  case (Some p)
  then show ?thesis using assms by (cases p) (simp add: take_response_def take_loop_value)
qed

lemma take_some:
  assumes "take_response relates c response = (c', Some h)"
  obtains before q after where "pending c = before @ (q, h) # after" "relates q response"
    "\<forall>p \<in> set before. \<not> relates (fst p) response" "c' = c\<lparr>pending := before @ after\<rparr>"
proof (cases "find (\<lambda>(q, _). relates q response) (pending c)")
  case None
  then show thesis using assms by (simp add: take_response_def take_loop_value)
next
  case (Some p)
  obtain q g where p: "p = (q, g)" by (cases p)
  let ?P = "\<lambda>(q, _). \<not> relates q response"
  have found: "\<And>ps. find (\<lambda>(q, _). relates q response) ps = Some (q, g) \<Longrightarrow>
      ps = takeWhile ?P ps @ (q, g) # tl (dropWhile ?P ps) \<and> relates q response"
    subgoal for ps by (induction ps) (auto split: if_splits)
    done
  have "\<forall>p \<in> set (takeWhile ?P (pending c)). \<not> relates (fst p) response"
    by (auto dest: set_takeWhileD)
  moreover have "g = h" "c' = c\<lparr>pending := takeWhile ?P (pending c) @ tl (dropWhile ?P (pending c))\<rparr>"
    using assms Some p by (simp_all add: take_response_def take_loop_value)
  ultimately show thesis using found [of "pending c"] Some p that by blast
qed

text \<open>
  a response is matched to the earliest request it answers, which is forgotten.  \<open>take\<close> answers
  None, and forgets nothing, exactly when no pending request is answered; otherwise the pending
  requests are some that are not answered, the one whose handle is returned, and the rest, and what
  stays pending is the same without that one.
\<close>

theorem take_response_first:
  "case take_response relates c response of
     (c', None) \<Rightarrow> c' = c \<and> (\<forall>(q, h) \<in> set (pending c). \<not> relates q response)
   | (c', Some h) \<Rightarrow> (\<exists>before q after. pending c = before @ (q, h) # after \<and> relates q response
       \<and> (\<forall>(q', h') \<in> set before. \<not> relates q' response) \<and> c' = c\<lparr>pending := before @ after\<rparr>)"
proof (cases "snd (take_response relates c response)")
  case None
  then have "take_response relates c response = (fst (take_response relates c response), None)" by (metis prod.collapse)
  then show ?thesis using take_none [of relates c response] by (fastforce split: prod.splits)
next
  case (Some h)
  then have taken: "take_response relates c response = (fst (take_response relates c response), Some h)" by (metis prod.collapse)
  show ?thesis
  proof (rule take_some [OF taken])
    fix before q after
    assume "pending c = before @ (q, h) # after" "relates q response" "\<forall>p \<in> set before. \<not> relates (fst p) response"
      "fst (take_response relates c response) = c\<lparr>pending := before @ after\<rparr>"
    then show ?thesis using taken by (subst taken) (simp add: case_prod_beta, blast)
  qed
qed

theorem take_response_first_witness:
  "\<exists>before q after. [(1, 10), (2, 20), (2, 30)] = before @ (q, 20::nat) # after \<and> q = (2::nat)
     \<and> pending (fst (take_response (=) \<lparr>cap = 3, pending = [(1, 10), (2, 20), (2, 30)]\<rparr> 2)) = before @ after"
proof -
  let ?c = "\<lparr>cap = 3, pending = [(1::nat, 10::nat), (2, 20), (2, 30)]\<rparr>"
  have "take_response (=) ?c 2 = (?c\<lparr>pending := [(1, 10), (2, 30)]\<rparr>, Some 20)"
    by (simp add: take_response_def)
  then show ?thesis using take_response_first [where relates = "(=)" and c = ?c and response = 2] by fastforce
qed

text \<open>A conversation from its start, with the handles recorded and the handles answered so far.\<close>

inductive converses :: "('q \<Rightarrow> 'r \<Rightarrow> bool) \<Rightarrow> nat \<Rightarrow> 'h list \<Rightarrow> 'h list \<Rightarrow> ('q, 'h) conversation \<Rightarrow> bool"
  for relates n where
  opened: "converses relates n [] [] \<lparr>cap = n, pending = []\<rparr>"
| recorded: "converses relates n hs ts c \<Longrightarrow> record_request c q h = (c', True) \<Longrightarrow> converses relates n (hs @ [h]) ts c'"
| turned_away: "converses relates n hs ts c \<Longrightarrow> record_request c q h = (c', False) \<Longrightarrow> converses relates n hs ts c'"
| answered: "converses relates n hs ts c \<Longrightarrow> take_response relates c response = (c', Some h) \<Longrightarrow> converses relates n hs (ts @ [h]) c'"
| unanswered: "converses relates n hs ts c \<Longrightarrow> take_response relates c response = (c', None) \<Longrightarrow> converses relates n hs ts c'"

text \<open>
  C15: in every conversation the table holds no more than its bound, and every recorded handle is either
  answered once or still pending: the handles recorded are, as a multiset, those answered and those
  pending, so that no handle is answered twice, invented or lost.
\<close>

theorem conversation_accounts:
  assumes "converses relates n hs ts c"
  shows "cap c = n \<and> length (pending c) \<le> n \<and> mset hs = mset ts + mset (map snd (pending c))"
  using assms
proof (induction rule: converses.induct)
  case opened
  then show ?case by simp
next
  case (recorded hs ts c q h c')
  then show ?case by (auto simp: record_request_def split: if_splits)
next
  case (turned_away hs ts c q h c')
  then show ?case by (auto simp: record_request_def split: if_splits)
next
  case (answered hs ts c response c' h)
  show ?case
  proof (rule take_some [OF answered.hyps(2)])
    fix before q after
    assume "pending c = before @ (q, h) # after" "c' = c\<lparr>pending := before @ after\<rparr>"
    then show ?thesis using answered.IH by auto
  qed
next
  case (unanswered hs ts c response c')
  then show ?case using take_none by metis
qed

text \<open>A conversation of one request, answered.\<close>

theorem conversation_accounts_witness:
  "converses (=) 2 [7::nat] [7] \<lparr>cap = 2, pending = [] :: (nat \<times> nat) list\<rparr>
   \<and> mset [7] = mset [7] + mset (map snd ([] :: (nat \<times> nat) list))"
proof
  have "converses (=) 2 ([] @ [7::nat]) [] \<lparr>cap = 2, pending = [(3::nat, 7)]\<rparr>"
    by (rule converses.recorded [OF converses.opened, where q = 3]) (simp add: record_request_def)
  from converses.answered [OF this, where response = 3 and h = 7 and c' = "\<lparr>cap = 2, pending = []\<rparr>"]
  show run: "converses (=) 2 [7::nat] [7] \<lparr>cap = 2, pending = [] :: (nat \<times> nat) list\<rparr>"
    by (simp add: take_response_def)
  show "mset [7] = mset [7] + mset (map snd ([] :: (nat \<times> nat) list))"
    using conversation_accounts [OF run] by simp
qed

end
