(* ===== verification/Walk_Varint.thy ===== *)
theory Walk_Varint
  imports Varint_Be Varint_Quic Varint_Marked Varint_Prefixed
begin

text \<open>
  The variable-length integers of a packed image, from the declaration to the reader: what
  \<open>parser.py\<close> accepts of a \<open>varint_type\<close>, what \<open>ast.py\<close> derives from it, the parameters \<open>pack.py\<close>
  writes into the image, the decoder of \<open>walker/walk.py\<close> that reads a buffer by those parameters
  alone, and the call \<open>codegen/varint.py\<close> spells for the generated reader.  What the lemmas show is
  that the walker and the generated code decode, measure and transform alike.

  A view is a buffer and the limit it may be read to, which \<open>acquire\<close> keeps inside the buffer;
  positions are natural numbers, so \<open>max(0, view.limit - start)\<close> is their difference.  None is
  \<open>Refused\<close>.
\<close>

section \<open>Declarations\<close>

datatype varint_encoding = LEB128 | BE128 | QUIC | DER | COMPACTSIZE | LENENC | CBOR | HPACK | BERTAG

record marked_form =
  code :: nat
  form :: marked

definition MARKED_FORMS :: "(varint_encoding \<times> marked_form) list" where
  "MARKED_FORMS =
    [(DER, \<lparr>code = 200, form = \<lparr>direct = 0x80, first = 0x81, widths = [1, 2, 3, 4, 5, 6, 7, 8], big = True, msk = 0xFF\<rparr>\<rparr>),
     (COMPACTSIZE, \<lparr>code = 201, form = \<lparr>direct = 0xFD, first = 0xFD, widths = [2, 4, 8], big = False, msk = 0xFF\<rparr>\<rparr>),
     (LENENC, \<lparr>code = 202, form = \<lparr>direct = 0xFB, first = 0xFC, widths = [2, 3, 8], big = False, msk = 0xFF\<rparr>\<rparr>),
     (CBOR, \<lparr>code = 203, form = \<lparr>direct = 24, first = 24, widths = [1, 2, 4, 8], big = True, msk = 0x1F\<rparr>\<rparr>)]"

record varint_decl =
  vd_encoding :: varint_encoding
  vd_max_bits :: int
  vd_minimal :: bool
  vd_zigzag :: bool
  vd_max_bytes :: "int option"
  vd_prefix :: "int option"

text \<open>\<open>max_bytes\<close>; the \<open>min\<close> over no width raises \<open>ValueError\<close>.\<close>

definition max_bytes :: "varint_decl \<Rightarrow> int res" where
  "max_bytes d =
     (if vd_encoding d = QUIC then Inr ((vd_max_bits d + 2) div 8)
      else case map_of MARKED_FORMS (vd_encoding d) of
        Some f \<Rightarrow>
          (case filter (\<lambda>w. vd_max_bits d \<le> int w * 8) (widths (form f)) of
             [] \<Rightarrow> Inl PyValueError | w # ws \<Rightarrow> Inr (1 + int (Min (set (w # ws)))))
      | None \<Rightarrow>
          if vd_encoding d \<in> {HPACK, BERTAG} then Inr (1 + (vd_max_bits d + 6) div 7)
          else case vd_max_bytes d of Some n \<Rightarrow> Inr n | None \<Rightarrow> Inr ((vd_max_bits d + 6) div 7))"

definition terminal_bits :: "varint_decl \<Rightarrow> int res" where
  "terminal_bits d =
     (if vd_encoding d = QUIC then Inr 0
      else case map_of MARKED_FORMS (vd_encoding d) of
        Some f \<Rightarrow> Inr (int (code f))
      | None \<Rightarrow>
          if vd_encoding d = BERTAG then Inr 204
          else if vd_encoding d = HPACK then
            (case vd_prefix d of None \<Rightarrow> Inl PyAssertionError | Some p \<Rightarrow> Inr (210 + p))
          else bindE (max_bytes d) (\<lambda>n. Inr (vd_max_bits d - 7 * (n - 1))))"

section \<open>What the parser accepts\<close>

datatype varint_refusal = BadMaxBytes | BadPrefix | BadMaxBits | NeedsPrefixIffHpack
  | QuicMaxBytes | QuicBits int | BertagBits int | MarkerSaysLength | TooFewBytes int | UnreachableByte

text \<open>\<open>_check_varint_width\<close>, and before it the ranges the properties are held to as they are read.\<close>

definition check_width :: "varint_decl \<Rightarrow> (exn + varint_refusal) option" where
  "check_width d =
     (if vd_encoding d = QUIC then
        (if vd_max_bytes d \<noteq> None then Some (Inr QuicMaxBytes)
         else if vd_max_bits d \<notin> {6, 14, 30, 62} then Some (Inr (QuicBits (vd_max_bits d))) else None)
      else if vd_encoding d = BERTAG \<and> vd_max_bits d mod 7 \<noteq> 0 then Some (Inr (BertagBits (vd_max_bits d)))
      else if map_of MARKED_FORMS (vd_encoding d) \<noteq> None \<or> vd_encoding d \<in> {HPACK, BERTAG} then
        (if vd_max_bytes d \<noteq> None then Some (Inr MarkerSaysLength) else None)
      else if vd_max_bytes d = None then None
      else case terminal_bits d of
        Inl e \<Rightarrow> Some (Inl e)
      | Inr left \<Rightarrow>
          if 8 < left then Some (Inr (TooFewBytes left)) else if left < 1 then Some (Inr UnreachableByte) else None)"

definition check_varint :: "varint_decl \<Rightarrow> (exn + varint_refusal) option" where
  "check_varint d =
     (if (case vd_max_bytes d of None \<Rightarrow> False | Some n \<Rightarrow> \<not> (1 \<le> n \<and> n \<le> 10)) then Some (Inr BadMaxBytes)
      else if (case vd_prefix d of None \<Rightarrow> False | Some p \<Rightarrow> \<not> (1 \<le> p \<and> p \<le> 8)) then Some (Inr BadPrefix)
      else if \<not> (1 \<le> vd_max_bits d \<and> vd_max_bits d \<le> 64) then Some (Inr BadMaxBits)
      else if (vd_encoding d = HPACK) \<noteq> (vd_prefix d \<noteq> None) then Some (Inr NeedsPrefixIffHpack)
      else check_width d)"

section \<open>The packed parameters\<close>

record varint_rules =
  vr_max_bytes :: nat
  vr_terminal :: nat
  vr_minimal :: bool
  vr_big :: bool
  vr_zigzag :: bool

definition pack_varint :: "varint_decl \<Rightarrow> varint_rules res" where
  "pack_varint d =
     bindE (max_bytes d) (\<lambda>n. bindE (terminal_bits d) (\<lambda>t.
       Inr \<lparr>vr_max_bytes = nat (min n 255), vr_terminal = nat (min t 255), vr_minimal = vd_minimal d,
            vr_big = (vd_encoding d \<noteq> LEB128), vr_zigzag = vd_zigzag d\<rparr>))"

section \<open>The walker's decoder\<close>

definition WALKER_MARKED :: "nat \<Rightarrow> marked option" where
  "WALKER_MARKED = map_of
    [(200, \<lparr>direct = 0x80, first = 0x81, widths = [1, 2, 3, 4, 5, 6, 7, 8], big = True, msk = 0xFF\<rparr>),
     (201, \<lparr>direct = 0xFD, first = 0xFD, widths = [2, 4, 8], big = False, msk = 0xFF\<rparr>),
     (202, \<lparr>direct = 0xFB, first = 0xFC, widths = [2, 3, 8], big = False, msk = 0xFF\<rparr>),
     (203, \<lparr>direct = 24, first = 24, widths = [1, 2, 4, 8], big = True, msk = 0x1F\<rparr>)]"

definition walker_BERTAG :: nat where "walker_BERTAG = 204"
definition walker_HPACK :: nat where "walker_HPACK = 210"

definition prefix_of :: "nat \<Rightarrow> nat option" where
  "prefix_of terminal =
     (if terminal = walker_BERTAG then Some 5
      else if walker_HPACK < terminal \<and> terminal \<le> walker_HPACK + 8 then Some (terminal - walker_HPACK) else None)"

fun decode_groups :: "nat \<Rightarrow> nat \<Rightarrow> bool \<Rightarrow> nat \<Rightarrow> int \<Rightarrow> bytes \<Rightarrow> (nat \<times> int) option" where
  "decode_groups mx terminal bg i acc [] = None"
| "decode_groups mx terminal bg i acc (b # bs) =
     (let byte = uint b in
        if bg \<and> terminal = 8 \<and> i + 1 = mx then Some (i + 1, push_bit 8 acc OR byte)
        else let acc = (if bg then push_bit 7 acc OR (byte AND 0x7F)
                        else if i * 7 < 64 then acc OR push_bit (i * 7) (byte AND 0x7F) else acc)
             in if byte AND 0x80 = 0 then Some (i + 1, acc) else decode_groups mx terminal bg (i + 1) acc bs)"

fun decode_prefixed :: "nat \<Rightarrow> int \<Rightarrow> nat \<Rightarrow> int \<Rightarrow> bytes \<Rightarrow> (nat \<times> int) option" where
  "decode_prefixed terminal ones i held [] = None"
| "decode_prefixed terminal ones i held (b # bs) =
     (let byte = uint b;
          held = (if terminal = walker_BERTAG then push_bit 7 held OR (byte AND 0x7F)
                  else held OR push_bit (7 * (i - 1)) (byte AND 0x7F))
      in if byte AND 0x80 = 0 then
           (let held = (if terminal \<noteq> walker_BERTAG then held + ones else held)
            in if drop_bit 64 held \<noteq> 0 then None else Some (i + 1, held))
         else if drop_bit 64 held \<noteq> 0 then None else decode_prefixed terminal ones (i + 1) held bs)"

definition decode_varint :: "bytes \<Rightarrow> nat \<Rightarrow> nat \<Rightarrow> nat \<Rightarrow> nat \<Rightarrow> bool \<Rightarrow> (nat \<times> int) option" where
  "decode_varint buffer limit start mx terminal bg =
     (let data = slice buffer start (min (limit - start) mx) in
      if bg \<and> terminal = 0 then
        (if data = [] \<or> length data < 2 ^ nat (drop_bit 6 (uint (data ! 0))) then None
         else let size = 2 ^ nat (drop_bit 6 (uint (data ! 0))) in
           Some (size, from_bytes True False (take size data) AND (push_bit (size * 8 - 2) 1 - 1)))
      else if bg \<and> WALKER_MARKED terminal \<noteq> None then
        (let f = the (WALKER_MARKED terminal) in
         if data = [] then None
         else let lead = uint (data ! 0) AND msk f in
           if lead < direct f then Some (1, lead)
           else if \<not> (0 \<le> lead - first f \<and> lead - first f < int (length (widths f)))
             \<or> length data < widths f ! nat (lead - first f) + 1 then None
           else let size = widths f ! nat (lead - first f) in
             Some (size + 1, from_bytes (big f) False (slice data 1 size)))
      else if bg \<and> prefix_of terminal \<noteq> None then
        (if data = [] then None
         else let ones = push_bit (the (prefix_of terminal)) 1 - 1 in
           if uint (data ! 0) AND ones \<noteq> ones then Some (1, uint (data ! 0) AND ones)
           else decode_prefixed terminal ones 1 0 (tl data))
      else decode_groups mx terminal bg 0 0 data)"

definition varint_transform :: "varint_rules \<Rightarrow> int \<Rightarrow> int" where
  "varint_transform r raw = (if vr_zigzag r then drop_bit 1 raw XOR - (raw AND 1) else raw)"

text \<open>The loop of \<open>_minimal_length\<close> over what is left of the value.\<close>

function count_groups :: "int \<Rightarrow> nat \<Rightarrow> nat" where
  "count_groups v count = (if 0x80 \<le> v then count_groups (drop_bit 7 v) (count + 1) else count)"
  by pat_completeness auto
termination
  by (relation "measure (\<lambda>(v, n). nat v)") (auto simp: int_drop_bit)

declare count_groups.simps [simp del]

definition minimal_length :: "varint_rules \<Rightarrow> int \<Rightarrow> nat" where
  "minimal_length r v =
     (let bg = vr_big r; terminal = vr_terminal r in
      if bg \<and> terminal = 0 then
        (if v < push_bit 30 1 then (if v < push_bit 6 1 then 1 else if v < push_bit 14 1 then 2 else 4) else 8)
      else if bg \<and> WALKER_MARKED terminal \<noteq> None then
        (let f = the (WALKER_MARKED terminal) in
         if v < direct f then 1
         else case find (\<lambda>n. v < push_bit (8 * n) 1) (widths f) of Some n \<Rightarrow> n + 1 | None \<Rightarrow> 0)
      else case (if bg then prefix_of terminal else None) of
        Some prefix \<Rightarrow>
          (let ones = push_bit prefix 1 - 1 in
           if v < ones then 1
           else let rest = (if terminal = walker_BERTAG then v else v - ones)
                in 1 + max 1 ((bit_length rest + 6) div 7))
      | None \<Rightarrow>
          (let count = count_groups v 1 in
           if bg \<and> terminal = 8 \<and> vr_max_bytes r < count then vr_max_bytes r else count))"

text \<open>\<open>varint_admissible\<close> with the decoding it refuses by, and the value the scalar reader answers.\<close>

definition read_varint :: "varint_rules \<Rightarrow> bytes \<Rightarrow> nat \<Rightarrow> nat \<Rightarrow> (nat \<times> int) option" where
  "read_varint r buffer limit start =
     (case decode_varint buffer limit start (vr_max_bytes r) (vr_terminal r) (vr_big r) of
        None \<Rightarrow> None
      | Some (consumed, raw) \<Rightarrow>
          if vr_minimal r \<and> consumed \<noteq> minimal_length r raw then None
          else Some (consumed, varint_transform r raw))"

section \<open>The call of the generated reader\<close>

text \<open>
  \<open>varint_stem\<close> with \<open>varint_limits\<close> and \<open>varint_measure\<close>: the function of the Python runtime that
  the generated code calls for a declaration, with its arguments.
\<close>

definition generated_get :: "varint_decl \<Rightarrow> nat \<Rightarrow> nat \<Rightarrow> bytes \<Rightarrow> nat \<Rightarrow> (int \<times> nat) option" where
  "generated_get d mx terminal data a =
     (case vd_encoding d of
        LEB128 \<Rightarrow> varint_get data a mx
      | BE128 \<Rightarrow> varint_be_get data a mx terminal
      | QUIC \<Rightarrow> varint_quic_get data a mx
      | DER \<Rightarrow> varint_der_get data a mx
      | COMPACTSIZE \<Rightarrow> varint_compactsize_get data a mx
      | LENENC \<Rightarrow> varint_lenenc_get data a mx
      | CBOR \<Rightarrow> varint_cbor_get data a mx
      | HPACK \<Rightarrow> varint_hpack_get data a (nat (the (vd_prefix d))) mx
      | BERTAG \<Rightarrow> varint_bertag_get data a mx)"

definition generated_len :: "varint_decl \<Rightarrow> nat \<Rightarrow> nat \<Rightarrow> int \<Rightarrow> nat" where
  "generated_len d mx terminal v =
     (case vd_encoding d of
        LEB128 \<Rightarrow> varint_len v
      | BE128 \<Rightarrow> varint_be_len v mx terminal
      | QUIC \<Rightarrow> varint_quic_len v
      | DER \<Rightarrow> varint_der_len v
      | COMPACTSIZE \<Rightarrow> varint_compactsize_len v
      | LENENC \<Rightarrow> varint_lenenc_len v
      | CBOR \<Rightarrow> varint_cbor_len v
      | HPACK \<Rightarrow> varint_hpack_len v (nat (the (vd_prefix d)))
      | BERTAG \<Rightarrow> varint_bertag_len v)"

text \<open>The accessor the generator writes around them; None is \<open>BoundsError\<close> or \<open>ConstraintError\<close>.\<close>

definition generated_read :: "varint_decl \<Rightarrow> nat \<Rightarrow> nat \<Rightarrow> bytes \<Rightarrow> nat \<Rightarrow> (nat \<times> int) option" where
  "generated_read d mx terminal data a =
     (if length data \<le> a then None
      else case generated_get d mx terminal data a of
        None \<Rightarrow> None
      | Some (raw, used) \<Rightarrow>
          if vd_minimal d \<and> used \<noteq> generated_len d mx terminal raw then None
          else Some (used, if vd_zigzag d then zigzag_decode raw else raw))"

section \<open>The decoders agree\<close>

lemma window:
  assumes "limit \<le> length buffer"
  shows "slice buffer start (min (limit - start) mx) = take mx (drop start (take limit buffer))"
  by (simp add: slice_def drop_take min.commute)

lemma take_drop_Suc:
  "take (Suc k) (drop i xs) = (if length xs \<le> i then [] else xs ! i # take k (drop (Suc i) xs))"
  by (simp add: Cons_nth_drop_Suc [symmetric] not_le)

lemma decode_groups_leb:
  "decode_groups mx terminal False i acc (take k (drop (a + i) data))
     = map_option prod.swap (varint_get_loop data a k i acc (i * 7))"
proof (induction k arbitrary: i acc)
  case (Suc k)
  from Suc.IH [of "Suc i"] show ?case by (simp add: take_drop_Suc Let_def add.commute)
qed simp

lemma decode_groups_be:
  "decode_groups mx terminal True i acc (take k (drop (a + i) data))
     = map_option prod.swap (varint_be_get_loop data a mx terminal k i acc)"
proof (induction k arbitrary: i acc)
  case (Suc k)
  from Suc.IH [of "Suc i"] show ?case by (simp add: take_drop_Suc Let_def)
qed simp

lemma drop_64_zero: "0 \<le> x \<Longrightarrow> drop_bit 64 x = 0 \<longleftrightarrow> x < (2 ^ 64 :: int)"
  by (auto simp: int_drop_bit zdiv_eq_0_iff)

lemma decode_prefixed_value:
  assumes "0 \<le> ones" and "0 \<le> held" and "a + i + k \<le> length data"
  shows "decode_prefixed terminal ones i held (take k (drop (a + i) data))
     = map_option prod.swap (prefixed_get_loop data a ones (terminal = walker_BERTAG) k i held)"
  using assms(2,3)
proof (induction k arbitrary: i held)
  case (Suc k)
  define byte where "byte = uint (data ! (a + i))"
  define grown where "grown = (if terminal = walker_BERTAG then push_bit 7 held OR (byte AND 0x7F)
                  else held OR push_bit (7 * (i - 1)) (byte AND 0x7F))"
  have grown: "0 \<le> grown" using Suc.prems(1) by (simp add: grown_def byte_def)
  have "take (Suc k) (drop (a + i) data) = data ! (a + i) # take k (drop (a + Suc i) data)"
    using Suc.prems(2) by (simp add: take_drop_Suc)
  moreover have "decode_prefixed terminal ones (Suc i) grown (take k (drop (a + Suc i) data))
     = map_option prod.swap (prefixed_get_loop data a ones (terminal = walker_BERTAG) k (Suc i) grown)"
    using Suc.prems(2) by (intro Suc.IH grown) simp
  moreover have "drop_bit 64 grown \<noteq> 0 \<Longrightarrow> drop_bit 64 (grown + ones) \<noteq> 0"
    using grown assms(1) by (simp add: drop_64_zero)
  moreover have "decode_prefixed terminal ones i held (data ! (a + i) # bs) =
      (if byte AND 0x80 = 0 then
         (if drop_bit 64 (if terminal \<noteq> walker_BERTAG then grown + ones else grown) \<noteq> 0 then None
          else Some (i + 1, if terminal \<noteq> walker_BERTAG then grown + ones else grown))
       else if drop_bit 64 grown \<noteq> 0 then None else decode_prefixed terminal ones (i + 1) grown bs)" for bs
    by (simp only: decode_prefixed.simps Let_def byte_def grown_def)
  moreover have "prefixed_get_loop data a ones (terminal = walker_BERTAG) (Suc k) i held =
      (if drop_bit 64 grown \<noteq> 0 then None
       else if byte AND 0x80 = 0 then
         (if drop_bit 64 (if terminal = walker_BERTAG then grown else grown + ones) \<noteq> 0 then None
          else Some (if terminal = walker_BERTAG then grown else grown + ones, i + 1))
       else prefixed_get_loop data a ones (terminal = walker_BERTAG) k (i + 1) grown)"
    by (simp only: prefixed_get_loop.simps Let_def byte_def grown_def)
  ultimately show ?case by (cases "terminal = walker_BERTAG") auto
qed simp

lemma decode_quic:
  assumes "limit \<le> length buffer"
  shows "decode_varint buffer limit start mx 0 True = map_option prod.swap (varint_quic_get (take limit buffer) start mx)"
proof -
  define data where "data = take limit buffer"
  define n :: nat where "n = 2 ^ nat (drop_bit 6 (uint (data ! start)))"
  have n: "0 < n" by (simp add: n_def)
  show ?thesis
  proof (cases "length data \<le> start \<or> mx < n \<or> length data < start + n")
    case True
    moreover have "take mx (drop start data) ! 0 = data ! start" if "0 < mx" "start < length data"
      using that by simp
    ultimately show ?thesis using n
      by (cases "mx = 0 \<or> length data \<le> start")
        (auto simp: decode_varint_def varint_quic_get_def window [OF assms] Let_def simp flip: data_def n_def)
  next
    case False
    then have fit: "start < length data" "n \<le> mx" "start + n \<le> length data" by auto
    have window: "slice buffer start (min (limit - start) mx) = take mx (drop start data)"
      using window [OF assms] by (simp add: data_def)
    have head: "take mx (drop start data) ! 0 = data ! start" "take mx (drop start data) \<noteq> []" "n \<le> length (take mx (drop start data))"
      using fit n by auto
    obtain j where j: "n = Suc j" using n by (cases n) auto
    have "take n (take mx (drop start data)) = data ! start # slice data (start + 1) (n - 1)"
      using fit by (simp add: j slice_def min_def take_drop_Suc)
    moreover have len: "length (slice data (start + 1) (n - 1)) = n - 1" using fit n by (simp add: slice_def)
    ultimately have val: "unsigned_from True (take n (take mx (drop start data)))
        = uint (data ! start) * 256 ^ (n - 1) + unsigned_from True (slice data (start + 1) (n - 1))"
      by (simp add: unsigned_from_big_Cons)
    define rest where "rest = unsigned_from True (slice data (start + 1) (n - 1))"
    have rest: "0 \<le> rest" "rest < 256 ^ (n - 1)"
      using unsigned_from_bounds [of True "slice data (start + 1) (n - 1)"] len
      by (simp_all add: rest_def power_mult)
    have "(2::int) ^ (n * 8 - 2) = 2 ^ (6 + 8 * (n - 1))" by (simp add: j)
    also have "\<dots> = 256 ^ (n - 1) * 64" by (simp add: power_add power_mult)
    finally have wide: "(2::int) ^ (n * 8 - 2) = 256 ^ (n - 1) * 64" .
    have "(uint (data ! start) * 256 ^ (n - 1) + rest) AND (push_bit (n * 8 - 2) 1 - 1)
        = (uint (data ! start) * 256 ^ (n - 1) + rest) mod (256 ^ (n - 1) * 64)"
      unfolding wide [symmetric] push_bit_eq_mult mult_1 int_and_mask by (rule refl)
    also have "\<dots> = uint (data ! start) mod 64 * 256 ^ (n - 1) + rest"
      using rest by (simp add: zmod_zmult2_eq div_mult_self3 mod_pos_pos_trivial)
    moreover have "\<not> min (length data - start) mx < n" using fit by auto
    ultimately show ?thesis
      using fit head val n quic_loop_value [of start 1 "n - 1" data]
      by (simp add: decode_varint_def varint_quic_get_def window Let_def int_and_3F rest_def flip: data_def n_def)
  qed
qed

lemma decode_marked:
  assumes "limit \<le> length buffer" and "WALKER_MARKED terminal = Some f" and "terminal \<noteq> 0" and "0 < mx"
  shows "decode_varint buffer limit start mx terminal True = map_option prod.swap (marked_get f (take limit buffer) start mx)"
proof -
  define data where "data = take limit buffer"
  define lead where "lead = uint (data ! start) AND msk f"
  define size where "size = widths f ! nat (lead - first f)"
  have window: "slice buffer start (min (limit - start) mx) = take mx (drop start data)"
    using window [OF assms(1)] by (simp add: data_def)
  show ?thesis
  proof (cases "length data \<le> start")
    case True
    then show ?thesis using assms(2,3)
      by (simp add: decode_varint_def marked_get_def window Let_def flip: data_def)
  next
    case False
    then have head: "take mx (drop start data) ! 0 = data ! start" "take mx (drop start data) \<noteq> []"
      "length (take mx (drop start data)) = min mx (length data - start)" using assms(4) by auto
    have "slice (take mx (drop start data)) 1 size = slice data (start + 1) size" if "size + 1 \<le> mx"
      using that by (simp add: slice_def drop_take min_def)
    then show ?thesis using False head assms(2,3)
      by (auto simp: decode_varint_def marked_get_def window Let_def simp flip: data_def lead_def size_def)
  qed
qed

lemma decode_prefix:
  assumes "limit \<le> length buffer" and "prefix_of terminal = Some p" and "WALKER_MARKED terminal = None"
    and "terminal \<noteq> 0" and "0 < mx"
  shows "decode_varint buffer limit start mx terminal True
    = map_option prod.swap (prefixed_get (take limit buffer) start p (terminal = walker_BERTAG) mx)"
proof -
  define data where "data = take limit buffer"
  define ones :: int where "ones = push_bit p 1 - 1"
  have ones: "0 \<le> ones" by (simp add: ones_def push_bit_eq_mult)
  have window: "slice buffer start (min (limit - start) mx) = take mx (drop start data)"
    using window [OF assms(1)] by (simp add: data_def)
  show ?thesis
  proof (cases "length data \<le> start")
    case True
    then show ?thesis using assms(2,3,4)
      by (simp add: decode_varint_def prefixed_get_def window Let_def flip: data_def)
  next
    case False
    then have head: "take mx (drop start data) ! 0 = data ! start" "take mx (drop start data) \<noteq> []" using assms(5) by auto
    have "tl (take mx (drop start data)) = take (min mx (length data - start) - 1) (drop (start + 1) data)"
      by (cases mx) (use False in \<open>auto simp: take_drop_Suc min_def\<close>)
    then have "decode_prefixed terminal ones 1 0 (tl (take mx (drop start data)))
        = map_option prod.swap (prefixed_get_loop data start ones (terminal = walker_BERTAG) (min mx (length data - start) - 1) 1 0)"
      using decode_prefixed_value [OF ones, of 0 start 1 "min mx (length data - start) - 1" data] False assms(5) by simp
    moreover have "2 ^ p - 1 = ones" by (simp add: ones_def push_bit_eq_mult)
    ultimately show ?thesis using False head assms(2,3,4)
      by (simp add: decode_varint_def prefixed_get_def window Let_def push_bit_eq_mult flip: data_def)
  qed
qed

lemma decode_low_groups:
  assumes "limit \<le> length buffer"
  shows "decode_varint buffer limit start mx terminal False = map_option prod.swap (varint_get (take limit buffer) start mx)"
  using decode_groups_leb [of mx terminal 0 0 mx start "take limit buffer"]
  by (simp add: decode_varint_def varint_get_def window [OF assms])

lemma decode_high_groups:
  assumes "limit \<le> length buffer" and "terminal \<noteq> 0" and "WALKER_MARKED terminal = None" and "prefix_of terminal = None"
  shows "decode_varint buffer limit start mx terminal True
    = map_option prod.swap (varint_be_get (take limit buffer) start mx terminal)"
  using decode_groups_be [of mx terminal 0 0 mx start "take limit buffer"] assms(2,3,4)
  by (simp add: decode_varint_def varint_be_get_def window [OF assms(1)])

section \<open>Accepted declarations\<close>

lemma forms:
  "WALKER_MARKED 200 = Some Varint_Marked.DER" "WALKER_MARKED 201 = Some Varint_Marked.COMPACTSIZE"
  "WALKER_MARKED 202 = Some Varint_Marked.LENENC" "WALKER_MARKED 203 = Some Varint_Marked.CBOR"
  by (simp_all add: WALKER_MARKED_def DER_def COMPACTSIZE_def LENENC_def CBOR_def)

lemma no_form: "WALKER_MARKED t \<noteq> None \<Longrightarrow> t \<in> {200, 201, 202, 203}"
  by (auto simp: WALKER_MARKED_def split: if_splits)

lemma no_prefix: "prefix_of t \<noteq> None \<Longrightarrow> 204 \<le> t"
  by (auto simp: prefix_of_def walker_BERTAG_def walker_HPACK_def split: if_splits)

text \<open>What the encoding and the packed parameters of a declaration are.\<close>

inductive packed_as :: "varint_decl \<Rightarrow> nat \<Rightarrow> nat \<Rightarrow> bool" for d where
  low: "vd_encoding d = LEB128 \<Longrightarrow> packed_as d mx t"
| high: "vd_encoding d = BE128 \<Longrightarrow> t \<in> {1..8} \<Longrightarrow> packed_as d mx t"
| quic: "vd_encoding d = QUIC \<Longrightarrow> packed_as d mx 0"
| der: "vd_encoding d = DER \<Longrightarrow> packed_as d mx 200"
| compactsize: "vd_encoding d = COMPACTSIZE \<Longrightarrow> packed_as d mx 201"
| lenenc: "vd_encoding d = LENENC \<Longrightarrow> packed_as d mx 202"
| cbor: "vd_encoding d = CBOR \<Longrightarrow> packed_as d mx 203"
| hpack: "vd_encoding d = HPACK \<Longrightarrow> vd_prefix d = Some p \<Longrightarrow> 1 \<le> p \<Longrightarrow> p \<le> 8 \<Longrightarrow> packed_as d mx (210 + nat p)"
| bertag: "vd_encoding d = BERTAG \<Longrightarrow> packed_as d mx 204"

lemma grouped_bits:
  "1 \<le> (b::int) \<Longrightarrow> b \<le> 64 \<Longrightarrow> 1 \<le> (b + 6) div 7 \<and> (b + 6) div 7 \<le> 10
     \<and> 1 \<le> b - 7 * ((b + 6) div 7 - 1) \<and> b - 7 * ((b + 6) div 7 - 1) \<le> 7"
  by presburger

lemma accepted_grouped:
  assumes "check_varint d = None" and "vd_encoding d \<in> {LEB128, BE128}"
  shows "\<exists>n t. max_bytes d = Inr n \<and> terminal_bits d = Inr t \<and> 1 \<le> n \<and> n \<le> 10 \<and> 1 \<le> t \<and> t \<le> 8"
proof -
  have enc: "vd_encoding d \<noteq> QUIC" "map_of MARKED_FORMS (vd_encoding d) = None" "vd_encoding d \<notin> {HPACK, BERTAG}"
    using assms(2) by (auto simp: MARKED_FORMS_def)
  have bits: "1 \<le> vd_max_bits d" "vd_max_bits d \<le> 64" "check_width d = None"
    "case vd_max_bytes d of None \<Rightarrow> True | Some n \<Rightarrow> 1 \<le> n \<and> n \<le> 10"
    using assms(1) by (auto simp: check_varint_def split: if_splits option.splits)
  show ?thesis
  proof (cases "vd_max_bytes d")
    case None
    then show ?thesis using enc grouped_bits [OF bits(1,2)] by (auto simp: max_bytes_def terminal_bits_def)
  next
    case (Some n)
    then have "max_bytes d = Inr n" "terminal_bits d = Inr (vd_max_bits d - 7 * (n - 1))"
      using enc by (auto simp: max_bytes_def terminal_bits_def)
    then show ?thesis using enc bits(3,4) Some by (auto simp: check_width_def split: if_splits)
  qed
qed

lemma accepted_marked:
  assumes "check_varint d = None" and "map_of MARKED_FORMS (vd_encoding d) = Some f"
  shows "\<exists>mx. max_bytes d = Inr (int mx) \<and> 0 < mx \<and> mx \<le> 255 \<and> terminal_bits d = Inr (int (code f))"
proof -
  let ?ws = "filter (\<lambda>w. vd_max_bits d \<le> int w * 8) (widths (form f))"
  have bits: "vd_max_bits d \<le> 64" using assms(1) by (auto simp: check_varint_def split: if_splits)
  have "8 \<in> set (widths (form f)) \<and> (\<forall>w \<in> set (widths (form f)). w \<le> 8)" and enc: "vd_encoding d \<noteq> QUIC"
    using assms(2) by (auto simp: MARKED_FORMS_def split: if_splits)
  then have ws: "8 \<in> set ?ws" "\<forall>w \<in> set ?ws. w \<le> 8" using bits by auto
  then obtain w rest where w: "?ws = w # rest" by (cases ?ws) auto
  have "Min (set (w # rest)) \<le> 8" using ws w by (metis List.finite_set Min_le)
  then show ?thesis using assms(2) enc w
    by (intro exI [of _ "1 + Min (set (w # rest))"]) (simp add: max_bytes_def terminal_bits_def)
qed

lemma accepted:
  assumes "check_varint d = None"
  obtains mx t where "max_bytes d = Inr (int mx)" "terminal_bits d = Inr (int t)" "0 < mx" "mx \<le> 255" "t \<le> 255"
    "packed_as d mx t"
proof -
  have bits: "1 \<le> vd_max_bits d" "vd_max_bits d \<le> 64" "check_width d = None"
    and prefix: "vd_encoding d = HPACK \<longleftrightarrow> vd_prefix d \<noteq> None" "\<And>p. vd_prefix d = Some p \<Longrightarrow> 1 \<le> p \<and> p \<le> 8"
    using assms by (auto simp: check_varint_def split: if_splits option.splits)
  consider (grouped) "vd_encoding d \<in> {LEB128, BE128}" | (quic) "vd_encoding d = QUIC"
    | (marked) f where "map_of MARKED_FORMS (vd_encoding d) = Some f" | (hpack) "vd_encoding d = HPACK"
    | (bertag) "vd_encoding d = BERTAG"
    by (cases "vd_encoding d") (auto simp: MARKED_FORMS_def)
  then show thesis
  proof cases
    case grouped
    with accepted_grouped [OF assms] obtain n t where nt: "max_bytes d = Inr n" "terminal_bits d = Inr t"
      "1 \<le> n" "n \<le> 10" "1 \<le> t" "t \<le> 8" by blast
    then have "nat t \<in> {1..8}" by (simp add: le_nat_iff)
    then have "packed_as d (nat n) (nat t)"
      using grouped packed_as.low [of d "nat n" "nat t"] packed_as.high [of d "nat t" "nat n"] by auto
    then show thesis using nt by (intro that [of "nat n" "nat t"]) simp_all
  next
    case quic
    then have "vd_max_bits d \<in> {6, 14, 30, 62}" using bits(3) by (auto simp: check_width_def split: if_splits)
    then show thesis using quic
      by (intro that [of "nat ((vd_max_bits d + 2) div 8)" 0])
        (auto simp: max_bytes_def terminal_bits_def intro: packed_as.intros)
  next
    case (marked f)
    then show thesis using accepted_marked [OF assms marked]
      by (auto simp: MARKED_FORMS_def split: if_splits intro: that packed_as.intros)
  next
    case hpack
    then obtain p where "vd_prefix d = Some p" "1 \<le> p" "p \<le> 8" using prefix by auto
    then show thesis using hpack bits(1,2)
      by (intro that [of "nat (1 + (vd_max_bits d + 6) div 7)" "210 + nat p"])
        (auto simp: max_bytes_def terminal_bits_def MARKED_FORMS_def intro: packed_as.intros)
  next
    case bertag
    then show thesis using bits(1,2)
      by (intro that [of "nat (1 + (vd_max_bits d + 6) div 7)" 204])
        (auto simp: max_bytes_def terminal_bits_def MARKED_FORMS_def intro: packed_as.intros)
  qed
qed

lemma packed_rules:
  assumes "max_bytes d = Inr (int mx)" "terminal_bits d = Inr (int t)" "mx \<le> 255" "t \<le> 255"
  shows "pack_varint d = Inr \<lparr>vr_max_bytes = mx, vr_terminal = t, vr_minimal = vd_minimal d,
    vr_big = (vd_encoding d \<noteq> LEB128), vr_zigzag = vd_zigzag d\<rparr>"
  using assms by (simp add: pack_varint_def)

lemma decode_as_generated:
  assumes "limit \<le> length buffer" and "0 < mx" and "packed_as d mx t"
  shows "decode_varint buffer limit start mx t (vd_encoding d \<noteq> LEB128)
    = map_option prod.swap (generated_get d mx t (take limit buffer) start)"
  using assms(3)
proof cases
  case low
  then show ?thesis by (simp add: generated_get_def decode_low_groups [OF assms(1)])
next
  case high
  then have "WALKER_MARKED t = None" "prefix_of t = None" "t \<noteq> 0" using no_form [of t] no_prefix [of t] by fastforce+
  then show ?thesis using high by (simp add: generated_get_def decode_high_groups [OF assms(1)])
next
  case quic
  then show ?thesis by (simp add: generated_get_def decode_quic [OF assms(1)])
next
  case der
  then show ?thesis using decode_marked [OF assms(1) forms(1) _ assms(2)] by (simp add: generated_get_def varint_der_get_def)
next
  case compactsize
  then show ?thesis using decode_marked [OF assms(1) forms(2) _ assms(2)] by (simp add: generated_get_def varint_compactsize_get_def)
next
  case lenenc
  then show ?thesis using decode_marked [OF assms(1) forms(3) _ assms(2)] by (simp add: generated_get_def varint_lenenc_get_def)
next
  case cbor
  then show ?thesis using decode_marked [OF assms(1) forms(4) _ assms(2)] by (simp add: generated_get_def varint_cbor_get_def)
next
  case (hpack p)
  then have "t \<notin> {200, 201, 202, 203}" by auto
  then have "WALKER_MARKED t = None" using no_form by blast
  moreover have "prefix_of t = Some (nat p)" "t \<noteq> walker_BERTAG" using hpack
    by (auto simp: prefix_of_def walker_HPACK_def walker_BERTAG_def)
  ultimately show ?thesis using hpack decode_prefix [OF assms(1) _ _ _ assms(2), of t "nat p"]
    by (simp add: generated_get_def varint_hpack_get_def)
next
  case bertag
  have "prefix_of 204 = Some 5" "WALKER_MARKED 204 = None" by (simp_all add: prefix_of_def walker_BERTAG_def WALKER_MARKED_def)
  then show ?thesis using bertag decode_prefix [OF assms(1) _ _ _ assms(2), of 204 5]
    by (simp add: generated_get_def varint_bertag_get_def walker_BERTAG_def)
qed

lemma count_groups_len: "count_groups v n = varint_len_loop v n"
  by (induction v n rule: count_groups.induct) (subst count_groups.simps, subst varint_len_loop.simps, simp)

lemma minimal_marked:
  assumes "WALKER_MARKED (vr_terminal r) = Some f" and "vr_terminal r \<noteq> 0" and "vr_big r"
  shows "minimal_length r v = marked_len f v"
  using assms by (simp add: minimal_length_def marked_len_def Let_def)

lemma minimal_as_generated:
  assumes "packed_as d mx t" and "vr_max_bytes r = mx" "vr_terminal r = t" "vr_big r = (vd_encoding d \<noteq> LEB128)"
  shows "minimal_length r v = generated_len d mx t v"
  using assms(1)
proof cases
  case low
  then show ?thesis using assms by (simp add: generated_len_def minimal_length_def varint_len_def count_groups_len)
next
  case high
  then have "WALKER_MARKED t = None" "prefix_of t = None" "t \<noteq> 0" using no_form [of t] no_prefix [of t] by fastforce+
  then show ?thesis using high assms by (simp add: generated_len_def minimal_length_def varint_be_len_def count_groups_len Let_def)
next
  case quic
  then show ?thesis using assms by (simp add: generated_len_def minimal_length_def varint_quic_len_def push_bit_eq_mult)
next
  case der
  then show ?thesis using assms minimal_marked [of r "Varint_Marked.DER"] forms by (simp add: generated_len_def varint_der_len_def)
next
  case compactsize
  then show ?thesis using assms minimal_marked [of r "Varint_Marked.COMPACTSIZE"] forms by (simp add: generated_len_def varint_compactsize_len_def)
next
  case lenenc
  then show ?thesis using assms minimal_marked [of r "Varint_Marked.LENENC"] forms by (simp add: generated_len_def varint_lenenc_len_def)
next
  case cbor
  then show ?thesis using assms minimal_marked [of r "Varint_Marked.CBOR"] forms by (simp add: generated_len_def varint_cbor_len_def)
next
  case (hpack p)
  then have "t \<notin> {200, 201, 202, 203}" by auto
  then have "WALKER_MARKED t = None" using no_form by blast
  moreover have "prefix_of t = Some (nat p)" "t \<noteq> walker_BERTAG" "t \<noteq> 0" using hpack
    by (auto simp: prefix_of_def walker_HPACK_def walker_BERTAG_def)
  ultimately show ?thesis using hpack assms by (simp add: generated_len_def minimal_length_def varint_hpack_len_def prefixed_len_def Let_def)
next
  case bertag
  have "prefix_of 204 = Some 5" "WALKER_MARKED 204 = None" by (simp_all add: prefix_of_def walker_BERTAG_def WALKER_MARKED_def)
  then show ?thesis using bertag assms
    by (simp add: generated_len_def minimal_length_def varint_bertag_len_def prefixed_len_def walker_BERTAG_def Let_def)
qed

lemma get_past_end: "0 < mx \<Longrightarrow> length data \<le> a \<Longrightarrow> generated_get d mx t data a = None"
  by (cases mx; cases "vd_encoding d")
    (simp_all add: generated_get_def varint_get_def varint_be_get_def varint_quic_get_def varint_der_get_def
      varint_compactsize_get_def varint_lenenc_get_def varint_cbor_get_def marked_get_def varint_hpack_get_def
      varint_bertag_get_def prefixed_get_def)

section \<open>The packed reader is the generated one\<close>

text \<open>
  C16: the walker reads a variable-length integer as the generated code does.  For every declaration
  the parser accepts the packer's parameters exist, and reading by them any buffer, from any start
  and up to any limit inside it, gives the count and the value the generated accessor gives over the
  bytes before the limit: the same encoding, the same refusals, the same minimality and the same
  transform, though the walker is handed three numbers and four flags in place of the declaration.
\<close>

theorem packed_varint_read:
  assumes "check_varint d = None" and "limit \<le> length buffer"
  shows "\<exists>r mx t. pack_varint d = Inr r \<and> max_bytes d = Inr (int mx) \<and> terminal_bits d = Inr (int t)
    \<and> read_varint r buffer limit start = generated_read d mx t (take limit buffer) start"
proof -
  obtain mx t where at: "max_bytes d = Inr (int mx)" "terminal_bits d = Inr (int t)" "0 < mx" "mx \<le> 255" "t \<le> 255"
    "packed_as d mx t" by (rule accepted [OF assms(1)])
  let ?r = "\<lparr>vr_max_bytes = mx, vr_terminal = t, vr_minimal = vd_minimal d,
    vr_big = (vd_encoding d \<noteq> LEB128), vr_zigzag = vd_zigzag d\<rparr>"
  have "minimal_length ?r v = generated_len d mx t v" for v
    by (rule minimal_as_generated [OF at(6)]) simp_all
  then have "read_varint ?r buffer limit start = generated_read d mx t (take limit buffer) start"
    using decode_as_generated [OF assms(2) at(3,6), of start] get_past_end [OF at(3), of "take limit buffer" start d t]
    by (auto simp: read_varint_def generated_read_def varint_transform_def zigzag_decode_def split: option.splits prod.splits)
  then show ?thesis using packed_rules [OF at(1,2,4,5)] at(1,2) by blast
qed

theorem packed_varint_read_witness:
  "\<exists>r mx t. pack_varint \<lparr>vd_encoding = BE128, vd_max_bits = 64, vd_minimal = True, vd_zigzag = False,
        vd_max_bytes = Some 9, vd_prefix = None\<rparr> = Inr r
    \<and> read_varint r [7, 0x82, 0x01] 3 1 = generated_read \<lparr>vd_encoding = BE128, vd_max_bits = 64, vd_minimal = True,
        vd_zigzag = False, vd_max_bytes = Some 9, vd_prefix = None\<rparr> mx t [7, 0x82, 0x01] 1"
proof -
  let ?d = "\<lparr>vd_encoding = BE128, vd_max_bits = 64, vd_minimal = True, vd_zigzag = False,
        vd_max_bytes = Some 9, vd_prefix = None\<rparr>"
  have "check_varint ?d = None" by code_simp
  from packed_varint_read [OF this, of 3 "[7, 0x82, 0x01]" 1] show ?thesis by auto
qed

end
