(* ===== verification/Walk_Scalar.thy ===== *)
theory Walk_Scalar
  imports Runtime_State Runtime_Numbers Image_Format
begin

text \<open>
  The fixed-width members of a packed image: how \<open>walker/walk.py\<close> reads and stores one, given where
  the member starts and how wide it is, and that it reads and stores what the Python runtime's
  \<open>View\<close> does for the generated code.  The host's byte order and what the struct's marker says of it
  (None where there is no marker, or the frame does not reach it) are arguments; None is \<open>Refused\<close>.
  Positions and widths are natural numbers, as they are wherever a width was measured.
\<close>

section \<open>Views\<close>

record walk_view =
  wk_buffer :: bytes
  wk_at :: nat
  wk_limit :: nat

definition LITTLE :: int where "LITTLE = 1"
definition NATIVE :: int where "NATIVE = 3"

text \<open>\<open>_order\<close>, as whether the first byte is the most significant.\<close>

definition member_order :: "bool \<Rightarrow> bool option \<Rightarrow> placement \<Rightarrow> bool option" where
  "member_order host_big marker p =
     (if p_marker_governed p then marker
      else if p_endian p = LITTLE then Some False
      else if p_endian p = NATIVE then Some host_big
      else Some True)"

definition LSB_FIRST :: int where "LSB_FIRST = 2"
definition BCD :: int where "BCD = push_bit 3 1"

definition bits_lsb :: "int \<Rightarrow> nat \<Rightarrow> nat \<Rightarrow> nat \<Rightarrow> int" where
  "bits_lsb block span skip width =
     drop_bit skip (from_bytes False False (order_bytes True span block)) AND (push_bit width 1 - 1)"

fun decoded_loop :: "nat \<Rightarrow> int \<Rightarrow> int \<Rightarrow> int" where
  "decoded_loop 0 v out = out"
| "decoded_loop (Suc shift) v out = decoded_loop shift v (out * 10 + (drop_bit (4 * shift) v AND 0xF))"

definition decoded :: "int \<Rightarrow> placement \<Rightarrow> int" where
  "decoded v p = (if p_text_flags p AND BCD = 0 then v else decoded_loop (nat (p_radix_digits p)) v 0)"

fun encoded_loop :: "nat \<Rightarrow> nat \<Rightarrow> int \<Rightarrow> int \<Rightarrow> int" where
  "encoded_loop 0 digit v acc = acc"
| "encoded_loop (Suc k) digit v acc =
     encoded_loop k (digit + 1) (v div 10) (acc OR push_bit (4 * digit) (v mod 10))"

definition encoded :: "int \<Rightarrow> placement \<Rightarrow> int" where
  "encoded v p = (if p_text_flags p AND BCD = 0 then v else encoded_loop (nat (p_radix_digits p)) 0 v 0)"

definition signed_value :: "int \<Rightarrow> nat \<Rightarrow> bool \<Rightarrow> int" where
  "signed_value v width is_signed =
     (if \<not> is_signed \<or> width = 0 then v
      else let sign = push_bit (width - 1) 1 in if v AND sign \<noteq> 0 then v - push_bit width 1 else v)"

definition range_of :: "nat \<Rightarrow> bool \<Rightarrow> int \<times> int" where
  "range_of width is_signed =
     (if is_signed then (- push_bit (width - 1) 1, push_bit (width - 1) 1 - 1) else (0, push_bit width 1 - 1))"

section \<open>Reading\<close>

definition read_at :: "bool \<Rightarrow> bool option \<Rightarrow> walk_view \<Rightarrow> placement \<Rightarrow> nat \<Rightarrow> nat \<Rightarrow> int option" where
  "read_at host_big marker v p start width =
     (if wk_limit v * 8 < wk_at v * 8 + (start + width) then None
      else if start mod 8 = 0 \<and> width mod 8 = 0 then
        (case member_order host_big marker p of
           None \<Rightarrow> None
         | Some order \<Rightarrow>
             let first = wk_at v + start div 8; raw = slice (wk_buffer v) first (width div 8) in
               Some (decoded (signed_value (from_bytes order False raw) width (p_signed p)) p))
      else
        let first = start div 8;
            last = (start + width + 8 - 1) div 8;
            block = from_bytes True False (slice (wk_buffer v) (wk_at v + first) (last - first));
            held = (if p_bit_order p = LSB_FIRST then bits_lsb block (last - first) (start - first * 8) width
                    else drop_bit (last * 8 - (start + width)) block AND (push_bit width 1 - 1))
        in Some (decoded (signed_value held width (p_signed p)) p))"

text \<open>The end of \<open>read_scalar\<close>, once the member is known to be a scalar of the message's bytes.\<close>

definition load_scalar :: "bool \<Rightarrow> bool option \<Rightarrow> walk_view \<Rightarrow> placement \<Rightarrow> nat \<Rightarrow> nat \<Rightarrow> int option" where
  "load_scalar host_big marker v p start width =
     (if width = 0 \<or> 64 < width then None
      else if wk_limit v * 8 < wk_at v * 8 + (start + width) then None
      else read_at host_big marker v p start width)"

section \<open>Storing\<close>

definition write_at :: "bool \<Rightarrow> bool option \<Rightarrow> walk_view \<Rightarrow> placement \<Rightarrow> nat \<Rightarrow> nat \<Rightarrow> int \<Rightarrow> walk_view option" where
  "write_at host_big marker v p start width val =
     (let raw = val AND (push_bit width 1 - 1) in
      if start mod 8 = 0 \<and> width mod 8 = 0 then
        (case member_order host_big marker p of
           None \<Rightarrow> None
         | Some order \<Rightarrow>
             Some (v\<lparr>wk_buffer := splice (wk_buffer v) (wk_at v + start div 8) (order_bytes order (width div 8) raw)\<rparr>))
      else
        let first = start div 8;
            last = (start + width + 8 - 1) div 8;
            span = slice (wk_buffer v) (wk_at v + first) (last - first)
        in if p_bit_order p = LSB_FIRST then
             (let skip = start - first * 8; mask = push_bit skip (push_bit width 1 - 1);
                  acc = (from_bytes False False span AND NOT mask) OR push_bit skip raw
              in Some (v\<lparr>wk_buffer := splice (wk_buffer v) (wk_at v + first) (order_bytes False (last - first) acc)\<rparr>))
           else
             (let after = last * 8 - (start + width); mask = push_bit after (push_bit width 1 - 1);
                  block = (from_bytes True False span AND NOT mask) OR push_bit after raw
              in Some (v\<lparr>wk_buffer := splice (wk_buffer v) (wk_at v + first) (order_bytes True (last - first) block)\<rparr>)))"

text \<open>The end of \<open>write_scalar\<close>: the width, the frame, the range, and the store.\<close>

definition store_scalar :: "bool \<Rightarrow> bool option \<Rightarrow> walk_view \<Rightarrow> placement \<Rightarrow> nat \<Rightarrow> nat \<Rightarrow> int \<Rightarrow> walk_view option" where
  "store_scalar host_big marker v p start width val =
     (if width = 0 \<or> 64 < width then None
      else if wk_limit v * 8 < wk_at v * 8 + start + width then None
      else let stored = encoded val p; (low, high) = range_of width (p_signed p) in
        if p_text_flags p AND BCD \<noteq> 0 then
          (if val < 0 \<or> high < stored then None else write_at host_big marker v p start width stored)
        else if \<not> (low \<le> val \<and> val \<le> high) then None
        else write_at host_big marker v p start width stored)"

section \<open>The runtime's view of the same bytes\<close>

text \<open>A message of the runtime over the walker's buffer, and its view at the same base.\<close>

definition as_message :: "walk_view \<Rightarrow> message" where
  "as_message v = new_message (wk_buffer v)"

definition as_view :: "walk_view \<Rightarrow> view" where
  "as_view v = new_view (as_message v) (wk_at v) (wk_limit v - wk_at v)"

text \<open>
  What the generated code asks of the runtime for a member: a whole-byte scalar is \<open>_read\<close> and
  \<open>_write\<close>, any other \<open>_bits\<close> and \<open>_set_bits\<close>.
\<close>

definition runtime_read :: "bool \<Rightarrow> walk_view \<Rightarrow> placement \<Rightarrow> nat \<Rightarrow> nat \<Rightarrow> int res" where
  "runtime_read order v p start width =
     (if start mod 8 = 0 \<and> width mod 8 = 0
      then view_read (as_message v) (as_view v) (start div 8) (width div 8) (p_signed p) order
      else view_bits (as_message v) (as_view v) start width (p_bit_order p \<noteq> LSB_FIRST) (p_signed p))"

lemma fresh_as_view [simp]: "fresh (as_message v) (as_view v)"
  by (simp add: fresh_def as_view_def new_view_def)

lemma as_view_at [simp]: "at (as_view v) = wk_at v"
  by (simp add: as_view_def new_view_def)

lemma as_message_buffer [simp]: "buffer (as_message v) = wk_buffer v"
  by (simp add: as_message_def new_message_def)

lemma decoded_loop_bcd: "decoded_loop n v out = bcd_decode_loop n v out"
  by (induction n arbitrary: out) auto

lemma encoded_loop_bcd: "encoded_loop n i v out = bcd_encode_loop n i out v"
  by (induction n arbitrary: i v out) auto

lemma decoded_bcd: "p_text_flags p AND BCD \<noteq> 0 \<Longrightarrow> decoded v p = bcd_decode v (nat (p_radix_digits p))"
  by (simp add: decoded_def decoded_loop_bcd bcd_decode_def)

lemma encoded_bcd: "p_text_flags p AND BCD \<noteq> 0 \<Longrightarrow> encoded v p = bcd_encode v (nat (p_radix_digits p))"
  by (simp add: encoded_def encoded_loop_bcd bcd_encode_def)

lemma signed_top:
  assumes "0 < w" and "0 \<le> (x::int)" and "x < 2 ^ w"
  shows "x AND push_bit (w - 1) 1 \<noteq> 0 \<longleftrightarrow> 2 ^ (w - 1) \<le> x"
    "drop_bit (w - 1) x \<noteq> 0 \<longleftrightarrow> 2 ^ (w - 1) \<le> x"
proof -
  obtain k where w: "w = Suc k" using assms(1) by (cases w) auto
  have "x div 2 ^ k = (if 2 ^ k \<le> x then 1 else 0)"
    using assms(2,3) int_div_pos_eq [of x "2 ^ k" 1 "x - 2 ^ k"] by (simp add: w)
  then show "drop_bit (w - 1) x \<noteq> 0 \<longleftrightarrow> 2 ^ (w - 1) \<le> x" "x AND push_bit (w - 1) 1 \<noteq> 0 \<longleftrightarrow> 2 ^ (w - 1) \<le> x"
    unfolding int_and_bit int_and_1 int_drop_bit by (simp_all add: w push_bit_eq_mult)
qed

lemma signed_from_bytes:
  assumes "8 * length raw = width" and "0 < width"
  shows "signed_value (from_bytes order False raw) width sgnd = from_bytes order sgnd raw"
proof -
  have "unsigned_from order raw < 2 ^ width" using unsigned_from_bounds(2) [of order raw] assms(1) by simp
  then show ?thesis
    using signed_top(1) [OF assms(2) unsigned_from_bounds(1), of order raw] assms
    by (simp add: signed_value_def from_bytes_def Let_def push_bit_eq_mult)
qed

lemma signed_held:
  assumes "0 < width" and "0 \<le> x" and "x < 2 ^ width"
  shows "signed_value x width sgnd = (if sgnd \<and> drop_bit (width - 1) x \<noteq> 0 then x - push_bit width 1 else x)"
  using signed_top [OF assms] assms(1) by (simp add: signed_value_def Let_def)

section \<open>Reading as the runtime reads\<close>

lemma last_byte: "0 < w \<Longrightarrow> (s + w + 8 - 1) div 8 = (s + w - 1) div 8 + (1::nat)"
  by (cases w) simp_all

lemma block_shift:
  assumes "0 < (w::nat)"
  shows "((s + w - 1) div 8 + 1) * 8 - (s + w) = ((s + w - 1) div 8 - s div 8 + 1) * 8 - (s - s div 8 * 8) - w"
  using field_bytes [OF assms, of s] by (simp add: algebra_simps)

lemma read_at_bits:
  assumes "\<not> (start mod 8 = 0 \<and> width mod 8 = 0)" and "0 < width"
    and "wk_at v * 8 + (start + width) \<le> wk_limit v * 8" and "wk_limit v \<le> length (wk_buffer v)"
  shows "\<exists>x. view_bits (as_message v) (as_view v) start width (p_bit_order p \<noteq> LSB_FIRST) (p_signed p) = Inr x
    \<and> read_at host_big marker v p start width = Some (decoded x p)"
proof -
  define msb where "msb = (p_bit_order p \<noteq> LSB_FIRST)"
  define first where "first = start div 8"
  define lst where "lst = (start + width - 1) div 8"
  have bytes: "first \<le> lst" "(start + width + 8 - 1) div 8 = lst + 1"
    using field_bytes(1) [OF assms(2), of start] last_byte [OF assms(2), of start] by (simp_all add: first_def lst_def)
  have "8 * wk_at v + start + width \<le> 8 * length (wk_buffer v)" using assms(3,4) by linarith
  then obtain x where x: "view_bits (as_message v) (as_view v) start width msb False = Inr x" "0 \<le> x" "x < 2 ^ width"
    using view_bits_value [OF fresh_as_view assms(2), of v start msb] by auto
  have "8 * lst \<le> start + width - 1" by (simp add: lst_def)
  then have "lst < length (wk_buffer v) - wk_at v" using assms(2-4) by linarith
  then have len: "length (slice (wk_buffer v) (wk_at v + first) (lst + 1 - first)) = lst + 1 - first"
    using bytes(1) by (simp add: slice_def)
  let ?raw = "\<lambda>msb. from_bytes msb False (slice (wk_buffer v) (wk_at v + first) (lst + 1 - first))"
  have "view_bits (as_message v) (as_view v) start width msb False =
      Inr (drop_bit (if msb then (lst - first + 1) * 8 - (start - first * 8) - width else start - first * 8) (?raw msb)
        AND (push_bit width 1 - 1))"
    by (simp only: view_bits_def Let_def view_check_fresh [OF fresh_as_view] bindE_simps first_def lst_def
        as_view_at as_message_buffer simp_thms if_False)
  then have x_def: "x = drop_bit (if msb then (lst - first + 1) * 8 - (start - first * 8) - width else start - first * 8) (?raw msb)
        AND (push_bit width 1 - 1)"
    using x(1) by simp
  have reversed: "from_bytes False False (order_bytes True (lst + 1 - first) (?raw True)) = ?raw False"
    using order_bytes_unsigned_from [OF len [symmetric], of True] by (simp only: from_bytes_unsigned)
  have "x = (if p_bit_order p = LSB_FIRST then bits_lsb (?raw True) (lst + 1 - first) (start - first * 8) width
      else drop_bit ((lst + 1) * 8 - (start + width)) (?raw True) AND (push_bit width 1 - 1))"
    unfolding bits_lsb_def reversed block_shift [OF assms(2), of start, folded first_def lst_def]
    by (simp add: x_def msb_def)
  then have "read_at host_big marker v p start width = Some (decoded (signed_value x width (p_signed p)) p)"
    using assms(3) unfolding read_at_def Let_def if_not_P [OF assms(1)] bytes(2) first_def [symmetric]
    by (simp only: not_less [symmetric] if_False)
  then show ?thesis
    using view_bits_signed [OF fresh_as_view, of v start width msb "p_signed p"] x
    by (simp add: signed_held [OF assms(2) x(2,3)] msb_def)
qed

lemma read_at_bytes:
  assumes "start mod 8 = 0 \<and> width mod 8 = 0" and "0 < width" and "member_order host_big marker p = Some order"
    and "wk_at v * 8 + (start + width) \<le> wk_limit v * 8" and "wk_limit v \<le> length (wk_buffer v)"
  shows "\<exists>x. view_read (as_message v) (as_view v) (start div 8) (width div 8) (p_signed p) order = Inr x
    \<and> read_at host_big marker v p start width = Some (decoded x p)"
proof -
  let ?raw = "slice (wk_buffer v) (wk_at v + start div 8) (width div 8)"
  have "start = start div 8 * 8" "width = width div 8 * 8" using assms(1) by auto
  then have "8 * length ?raw = width" using assms(4,5) by (simp add: slice_def)
  then show ?thesis
    using assms(1-4) signed_from_bytes [of ?raw width order "p_signed p"]
    by (simp add: read_at_def view_read_def view_check_fresh Let_def)
qed

section \<open>Storing as the runtime stores\<close>

lemma order_bytes_mask: "order_bytes big n (x AND (push_bit (8 * n) 1 - 1)) = order_bytes big n x"
proof -
  have "le_bytes n (x mod 256 ^ n) = le_bytes n x"
    by (metis le_bytes_le_int le_int_le_bytes length_le_bytes)
  moreover have "x AND (push_bit (8 * n) 1 - 1) = x mod 256 ^ n"
    unfolding push_bit_eq_mult mult_1 int_and_mask by (simp add: power_mult)
  ultimately show ?thesis by (simp add: order_bytes_def)
qed

lemma write_at_bits:
  assumes "\<not> (start mod 8 = 0 \<and> width mod 8 = 0)" and "0 < width"
    and "view_set_bits (as_message v) (as_view v) start width val (p_bit_order p \<noteq> LSB_FIRST) = Inr m'"
  shows "write_at host_big marker v p start width val = Some (v\<lparr>wk_buffer := buffer m'\<rparr>)"
proof -
  define first where "first = start div 8"
  define lst where "lst = (start + width - 1) div 8"
  have bytes: "first \<le> lst" "(start + width + 8 - 1) div 8 = lst + 1" "lst + 1 - first = lst - first + 1"
    using field_bytes(1) [OF assms(2), of start] last_byte [OF assms(2), of start]
    by (simp_all only: first_def lst_def) (simp add: Suc_diff_le)
  define msb where "msb = (p_bit_order p \<noteq> LSB_FIRST)"
  define shift where "shift = (if msb then (lst - first + 1) * 8 - (start - first * 8) - width else start - first * 8)"
  define new where "new = (from_bytes msb False (slice (wk_buffer v) (wk_at v + first) (lst + 1 - first))
      AND NOT (push_bit shift (push_bit width 1 - 1))) OR push_bit shift (val AND (push_bit width 1 - 1))"
  have "view_set_bits (as_message v) (as_view v) start width val msb =
      bindE (to_bytes msb False (lst - first + 1) new) (\<lambda>bs.
      bindE (slice_store (wk_buffer v) (wk_at v + first) (lst + 1 - first) bs) (\<lambda>buf. Inr ((as_message v)\<lparr>buffer := buf\<rparr>)))"
    by (simp only: view_set_bits_def Let_def view_check_fresh [OF fresh_as_view] bindE_simps first_def lst_def
        shift_def new_def as_view_at as_message_buffer)
  then have "buffer m' = splice (wk_buffer v) (wk_at v + first) (order_bytes msb (lst - first + 1) new)"
    using assms(3) by (auto simp: to_bytes_def slice_store_def msb_def split: if_splits)
  moreover have "write_at host_big marker v p start width val =
      Some (v\<lparr>wk_buffer := splice (wk_buffer v) (wk_at v + first) (order_bytes msb (lst - first + 1) new)\<rparr>)"
    unfolding write_at_def Let_def if_not_P [OF assms(1)] bytes(2,3) first_def [symmetric] new_def shift_def
      block_shift [OF assms(2), of start, folded first_def lst_def]
    by (simp add: msb_def)
  ultimately show ?thesis by simp
qed

text \<open>What a store leaves: its value, read as the member's kind says, and every other bit.\<close>

definition stores_field :: "bool \<Rightarrow> bool option \<Rightarrow> walk_view \<Rightarrow> placement \<Rightarrow> nat \<Rightarrow> nat \<Rightarrow> int \<Rightarrow> walk_view \<Rightarrow> bool" where
  "stores_field host_big marker v p start width val v' \<longleftrightarrow> v' = v\<lparr>wk_buffer := wk_buffer v'\<rparr>
     \<and> length (wk_buffer v') = length (wk_buffer v)
     \<and> read_at host_big marker v' p start width = Some (decoded (signed_value (val mod 2 ^ width) width (p_signed p)) p)
     \<and> (\<forall>k < 8 * length (wk_buffer v). k < 8 * wk_at v + start \<or> 8 * wk_at v + start + width \<le> k \<longrightarrow>
          buf_bit (p_bit_order p \<noteq> LSB_FIRST) (wk_buffer v') k = buf_bit (p_bit_order p \<noteq> LSB_FIRST) (wk_buffer v) k)"

lemma write_bits_field:
  assumes "\<not> (start mod 8 = 0 \<and> width mod 8 = 0)" and "0 < width"
    and "wk_at v * 8 + (start + width) \<le> wk_limit v * 8" and "wk_limit v \<le> length (wk_buffer v)"
    and "write_at host_big marker v p start width val = Some v'"
  shows "stores_field host_big marker v p start width val v'"
proof -
  let ?msb = "p_bit_order p \<noteq> LSB_FIRST"
  have room: "8 * at (as_view v) + start + width \<le> 8 * length (buffer (as_message v))" using assms(3,4) by simp
  obtain m' where m': "view_set_bits (as_message v) (as_view v) start width val ?msb = Inr m'"
    "m' = (as_message v)\<lparr>buffer := buffer m'\<rparr>" "length (buffer m') = length (buffer (as_message v))"
    "\<And>k. k < 8 * length (buffer (as_message v)) \<Longrightarrow> buf_bit ?msb (buffer m') k \<longleftrightarrow>
       (if 8 * at (as_view v) + start \<le> k \<and> k < 8 * at (as_view v) + start + width
        then bit val (field_index ?msb 0 width (k - (8 * at (as_view v) + start)))
        else buf_bit ?msb (buffer (as_message v)) k)"
    using view_set_bits_store [OF fresh_as_view assms(2) room] by metis
  define buf where "buf = buffer m'"
  have v': "v' = v\<lparr>wk_buffer := buf\<rparr>"
    using write_at_bits [OF assms(1,2) m'(1), of host_big marker] assms(5) by (simp add: buf_def)
  have "m' = (as_message v)\<lparr>buffer := buf\<rparr>" using m'(2) by (simp only: buf_def)
  then have same: "as_message v' = m'" "as_view v' = as_view v"
    by (simp_all add: v' as_message_def as_view_def new_view_def new_message_def)
  note stored = m'(3,4) [folded buf_def]
  have held: "view_bits m' (as_view v') start width ?msb False = Inr (val mod 2 ^ width)"
    using view_bits_after_set_same [OF fresh_as_view assms(2) room m'(1)] by (simp add: same(2))
  have "wk_at v' * 8 + (start + width) \<le> wk_limit v' * 8" "wk_limit v' \<le> length (wk_buffer v')"
    using assms(3,4) stored(1) by (simp_all add: v')
  from read_at_bits [OF assms(1,2) this, of p host_big marker] obtain x where
    x: "view_bits m' (as_view v') start width ?msb (p_signed p) = Inr x" "read_at host_big marker v' p start width = Some (decoded x p)"
    using same(1) by auto
  have "fresh m' (as_view v')" using fresh_as_view [of v'] by (simp add: same(1))
  then have "x = signed_value (val mod 2 ^ width) width (p_signed p)"
    using x(1) held signed_held [OF assms(2), of "val mod 2 ^ width" "p_signed p"]
      view_bits_signed [of m' "as_view v'" start width ?msb "p_signed p"] by simp
  moreover have "\<forall>k < 8 * length (wk_buffer v). k < 8 * wk_at v + start \<or> 8 * wk_at v + start + width \<le> k \<longrightarrow>
      buf_bit ?msb buf k = buf_bit ?msb (wk_buffer v) k"
    using stored(2) by simp
  ultimately show ?thesis
    unfolding stores_field_def using x(2) stored(1) by (simp add: v')
qed

lemma write_bytes_field:
  assumes "start mod 8 = 0 \<and> width mod 8 = 0" and "0 < width"
    and "wk_at v * 8 + (start + width) \<le> wk_limit v * 8" and "wk_limit v \<le> length (wk_buffer v)"
    and "write_at host_big marker v p start width val = Some v'"
  shows "stores_field host_big marker v p start width val v'"
proof -
  define n where "n = width div 8"
  define first where "first = wk_at v + start div 8"
  have w: "width = 8 * n" "8 * first = 8 * wk_at v + start" using assms(1) by (auto simp: n_def first_def)
  have fit: "first + n \<le> length (wk_buffer v)" using assms(3,4) w by linarith
  have "write_at host_big marker v p start width val = (case member_order host_big marker p of
      None \<Rightarrow> None | Some order \<Rightarrow> Some (v\<lparr>wk_buffer := splice (wk_buffer v) first (order_bytes order n (val AND (push_bit (8 * n) 1 - 1)))\<rparr>))"
    unfolding write_at_def Let_def if_P [OF assms(1)] n_def [symmetric] first_def [symmetric] by (simp only: w(1))
  then obtain order where order: "member_order host_big marker p = Some order"
    and "v' = v\<lparr>wk_buffer := splice (wk_buffer v) first (order_bytes order n (val AND (push_bit (8 * n) 1 - 1)))\<rparr>"
    using assms(5) by (cases "member_order host_big marker p") simp_all
  then have v': "v' = v\<lparr>wk_buffer := splice (wk_buffer v) first (order_bytes order n val)\<rparr>"
    by (simp only: order_bytes_mask)
  have "slice (wk_buffer v') first n = order_bytes order n val"
    using slice_splice_same [of first "order_bytes order n val" "wk_buffer v"] fit by (simp add: v')
  then have "read_at host_big marker v' p start width = Some (decoded (signed_value (val mod 2 ^ width) width (p_signed p)) p)"
    using assms(1,3) order by (simp add: read_at_def v' Let_def unsigned_from_order_bytes w(1) flip: first_def n_def)
  moreover have "buf_bit m (wk_buffer v') k = buf_bit m (wk_buffer v) k"
    if "k < 8 * length (wk_buffer v)" "k < 8 * wk_at v + start \<or> 8 * wk_at v + start + width \<le> k" for m k
    using that fit w by (auto simp: v' buf_bit_splice [where n = n])
  ultimately show ?thesis using fit by (simp add: stores_field_def v')
qed

lemma write_at_field:
  assumes "0 < width" and "wk_at v * 8 + (start + width) \<le> wk_limit v * 8" and "wk_limit v \<le> length (wk_buffer v)"
    and "write_at host_big marker v p start width val = Some v'"
  shows "stores_field host_big marker v p start width val v'"
proof (cases "start mod 8 = 0 \<and> width mod 8 = 0")
  case True
  then show ?thesis by (rule write_bytes_field [OF _ assms])
next
  case False
  then show ?thesis by (rule write_bits_field [OF _ assms])
qed

lemma signed_in_range:
  assumes "0 < width" and "fst (range_of width sgnd) \<le> x" and "x \<le> snd (range_of width sgnd)"
  shows "signed_value (x mod 2 ^ width) width sgnd = x"
proof -
  obtain k where k: "width = Suc k" using assms(1) by (cases width) auto
  define h where "h = (2::int) ^ k"
  have h: "0 < h" "2 ^ width = 2 * h" by (simp_all add: h_def k)
  have top: "(x mod 2 ^ width) AND push_bit (width - 1) 1 \<noteq> 0 \<longleftrightarrow> h \<le> x mod 2 ^ width"
    using signed_top(1) [OF assms(1), of "x mod 2 ^ width"] by (simp add: h_def k)
  show ?thesis
  proof (cases sgnd)
    case True
    then have x: "- h \<le> x" "x < h" using assms(2,3) by (simp_all add: range_of_def k h_def push_bit_eq_mult)
    have "x mod (2 * h) = (if x < 0 then x + 2 * h else x)"
      using x h(1) mod_pos_pos_trivial [of "x + 2 * h" "2 * h"] by (simp add: mod_pos_pos_trivial)
    then show ?thesis using True x h top assms(1) by (auto simp: signed_value_def Let_def push_bit_eq_mult)
  next
    case False
    then show ?thesis using assms(2,3) by (simp add: signed_value_def range_of_def push_bit_eq_mult mod_pos_pos_trivial)
  qed
qed

section \<open>Properties\<close>

text \<open>
  C17: the walker reads a fixed-width member as the generated code does.  For a member inside the
  frame, wherever it starts and however wide it is, in either byte order and either bit numbering,
  signed or not, the walker answers what the runtime's \<open>_read\<close> or \<open>_bits\<close> answers over the same
  bytes, decoded where the member is packed decimal.
\<close>

theorem scalar_read_as_runtime:
  assumes "0 < width" and "wk_at v * 8 + (start + width) \<le> wk_limit v * 8" and "wk_limit v \<le> length (wk_buffer v)"
    and "member_order host_big marker p = Some order"
  shows "\<exists>x. runtime_read order v p start width = Inr x \<and> read_at host_big marker v p start width =
    Some (if p_text_flags p AND BCD \<noteq> 0 then bcd_decode x (nat (p_radix_digits p)) else x)"
proof -
  have kinds: "decoded x p = (if p_text_flags p AND BCD \<noteq> 0 then bcd_decode x (nat (p_radix_digits p)) else x)" for x
    using decoded_bcd [of p x] by (auto simp: decoded_def)
  show ?thesis
  proof (cases "start mod 8 = 0 \<and> width mod 8 = 0")
    case True
    show ?thesis using read_at_bytes [OF True assms(1,4,2,3)]
      unfolding runtime_read_def if_P [OF True] kinds by blast
  next
    case False
    show ?thesis using read_at_bits [OF False assms(1,2,3), of p host_big marker]
      unfolding runtime_read_def if_not_P [OF False] kinds by blast
  qed
qed

text \<open>
  C18: what the walker stores it reads back, and it stores nowhere else.  A store that is not refused,
  of a value that in a packed decimal member has no more digits than the member, leaves the frame and
  the buffer's length as they were and every bit outside the member as it was, and the member then
  reads as the value stored.
\<close>

theorem stored_scalar_read_back:
  assumes "store_scalar host_big marker v p start width val = Some v'" and "wk_limit v \<le> length (wk_buffer v)"
    and "p_text_flags p AND BCD \<noteq> 0 \<Longrightarrow> val < 10 ^ nat (p_radix_digits p)"
  shows "load_scalar host_big marker v' p start width = Some val
    \<and> v' = v\<lparr>wk_buffer := wk_buffer v'\<rparr> \<and> length (wk_buffer v') = length (wk_buffer v)
    \<and> (\<forall>k < 8 * length (wk_buffer v). k < 8 * wk_at v + start \<or> 8 * wk_at v + start + width \<le> k \<longrightarrow>
        buf_bit (p_bit_order p \<noteq> LSB_FIRST) (wk_buffer v') k = buf_bit (p_bit_order p \<noteq> LSB_FIRST) (wk_buffer v) k)"
proof -
  let ?sgnd = "p_signed p"
  have width: "0 < width" "width \<le> 64" and room: "wk_at v * 8 + (start + width) \<le> wk_limit v * 8"
    and stored: "write_at host_big marker v p start width (encoded val p) = Some v'"
    and fits: "if p_text_flags p AND BCD \<noteq> 0 then 0 \<le> val \<and> encoded val p \<le> snd (range_of width ?sgnd)
      else fst (range_of width ?sgnd) \<le> val \<and> val \<le> snd (range_of width ?sgnd)"
    using assms(1) by (auto simp: store_scalar_def Let_def split: if_splits prod.splits)
  have field: "stores_field host_big marker v p start width (encoded val p) v'"
    by (rule write_at_field [OF width(1) room assms(2) stored])
  have kept: "wk_at v' = wk_at v" "wk_limit v' = wk_limit v"
    using field unfolding stores_field_def by (metis walk_view.select_convs(2,3) walk_view.surjective walk_view.update_convs(1))+
  have low: "fst (range_of width ?sgnd) \<le> 0" by (simp add: range_of_def push_bit_eq_mult)
  have "decoded (signed_value (encoded val p mod 2 ^ width) width ?sgnd) p = val"
  proof (cases "p_text_flags p AND BCD \<noteq> 0")
    case True
    have packed: "encoded val p = bcd_enc (nat (p_radix_digits p)) val" using encoded_bcd [OF True] by (simp add: bcd_encode_enc)
    then have "0 \<le> encoded val p" by (simp add: bcd_enc_nonneg)
    then have "signed_value (encoded val p mod 2 ^ width) width ?sgnd = encoded val p"
      using signed_in_range [OF width(1), of ?sgnd "encoded val p"] low fits True by simp
    moreover have "val mod 10 ^ nat (p_radix_digits p) = val"
      using assms(3) [OF True] fits True by (simp add: mod_pos_pos_trivial)
    ultimately show ?thesis using packed decoded_bcd [OF True] by (simp add: bcd_decode_dec bcd_dec_enc)
  next
    case False
    then show ?thesis using signed_in_range [OF width(1), of ?sgnd val] fits by (simp add: encoded_def decoded_def)
  qed
  then have "load_scalar host_big marker v' p start width = Some val"
    using field width room kept by (simp add: load_scalar_def stores_field_def)
  then show ?thesis using field by (simp add: stores_field_def)
qed

text \<open>Five signed bits from the third on, numbered from the least significant bit; and two packed digits.\<close>

definition plain_member :: placement where
  "plain_member = \<lparr>p_kind = 0, p_endian = 1, p_bit_order = 2, p_flags = SIGNED, p_offset_bits = 3, p_size_bits = 5,
     p_size_max_bits = 5, p_element_bits = 0, p_array_count = 0, p_size_code = 0, p_type_struct = 0, p_located_code = 0,
     p_repeat_code = 0, p_radix = 0, p_text_flags = 0, p_radix_digits = 0, p_since = 0, p_repeat_cap = 0, p_pad_to = 0\<rparr>"

definition two_digits :: placement where
  "two_digits = plain_member\<lparr>p_flags := 0, p_text_flags := 8, p_radix_digits := 2\<rparr>"

definition three_bytes :: walk_view where
  "three_bytes = \<lparr>wk_buffer = [0xFF, 0x0F, 0xAA], wk_at = 0, wk_limit = 3\<rparr>"

theorem scalar_read_as_runtime_witness:
  "\<exists>x. runtime_read False three_bytes plain_member 6 5 = Inr x \<and> read_at False None three_bytes plain_member 6 5 = Some x"
proof -
  have "member_order False None plain_member = Some False" "wk_at three_bytes * 8 + (6 + 5) \<le> wk_limit three_bytes * 8"
    "wk_limit three_bytes \<le> length (wk_buffer three_bytes)" "p_text_flags plain_member AND BCD = 0"
    by code_simp+
  then show ?thesis using scalar_read_as_runtime [of 5 three_bytes 6 False None plain_member False] by simp
qed

theorem stored_scalar_read_back_witness:
  "\<exists>v'. store_scalar False None three_bytes plain_member 6 5 (- 7) = Some v'
    \<and> load_scalar False None v' plain_member 6 5 = Some (- 7)"
proof -
  have "store_scalar False None three_bytes plain_member 6 5 (- 7) \<noteq> None"
    "wk_limit three_bytes \<le> length (wk_buffer three_bytes)" "p_text_flags plain_member AND BCD = 0"
    by code_simp+
  then show ?thesis using stored_scalar_read_back [of False None three_bytes plain_member 6 5 "- 7"] by auto
qed

text \<open>
  What the condition on digits keeps out: a packed decimal value with more digits than the member is
  not refused, and its last digits are stored, where every other member's value is checked against
  the range.
\<close>

lemma decimal_store_truncates:
  "\<exists>v'. store_scalar False None three_bytes two_digits 8 8 145 = Some v'
    \<and> load_scalar False None v' two_digits 8 8 = Some 45"
proof -
  have "store_scalar False None three_bytes two_digits 8 8 145 \<noteq> None"
    "case store_scalar False None three_bytes two_digits 8 8 145 of None \<Rightarrow> False
      | Some v' \<Rightarrow> load_scalar False None v' two_digits 8 8 = Some 45"
    by code_simp+
  then show ?thesis by auto
qed

end
