(* ===== verification/Walk_Text.thy ===== *)
theory Walk_Text
  imports Runtime_Scan Runtime_Numbers Runtime_Scaled Walk_Scalar
begin

text \<open>
  The members of a packed image that are written as text: how \<open>walker/walk.py\<close> finds where a
  delimited member ends, and how it reads the digits of a whole number and of a scaled one, each
  given where the member starts; and that it answers what the Python runtime answers for the
  generated code.  The runtime also holds a number to the range of its type, which the walker leaves
  to the packed constraints, so its answer is the walker's restricted to that range.  None is
  \<open>Refused\<close>.
\<close>

section \<open>Delimited members\<close>

definition NO_RULE :: int where "NO_RULE = 0xFFFFFFFF"

definition longest_at :: "bytes list \<Rightarrow> bytes \<Rightarrow> nat \<Rightarrow> nat" where
  "longest_at delims data i = Max (insert 0 (set (map length (filter (\<lambda>one. slice data i (length one) = one) delims))))"

text \<open>The loop of \<open>scan\<close>: the offset and the length of what ended it, None where nothing did.\<close>

function walk_scan_loop :: "bytes list \<Rightarrow> int \<Rightarrow> int \<Rightarrow> bytes \<Rightarrow> nat \<Rightarrow> nat \<Rightarrow> bool \<Rightarrow> (nat \<times> nat) option res" where
  "walk_scan_loop delims quote escape data shortest i quoted =
     (if length data < i + shortest then Inr None
      else if length data \<le> i then Inl PyIndexError
      else let byte = uint (data ! i) in
        if escape \<noteq> NO_RULE \<and> byte = escape then walk_scan_loop delims quote escape data shortest (i + 2) quoted
        else if quote \<noteq> NO_RULE \<and> byte = quote then walk_scan_loop delims quote escape data shortest (i + 1) (\<not> quoted)
        else if \<not> quoted \<and> longest_at delims data i \<noteq> 0 then Inr (Some (i, longest_at delims data i))
        else walk_scan_loop delims quote escape data shortest (i + 1) quoted)"
  by pat_completeness auto
termination
  by (relation "measure (\<lambda>(delims, quote, escape, data, shortest, i, quoted). Suc (length data) - i)") auto

declare walk_scan_loop.simps [simp del]

definition walk_scan :: "walk_view \<Rightarrow> bytes list \<Rightarrow> int \<Rightarrow> int \<Rightarrow> int \<Rightarrow> nat \<Rightarrow> (nat \<times> bool \<times> nat) option res" where
  "walk_scan v delims quote escape cap offset =
     (if delims = [] then Inr None
      else let start = wk_at v + offset;
               limit = (if cap \<noteq> NO_RULE then min (wk_limit v - start) (nat cap) else wk_limit v - start)
           in bindE (walk_scan_loop delims quote escape (slice (wk_buffer v) start limit) (Min (set (map length delims))) 0 False)
                (\<lambda>r. Inr (Some (case r of None \<Rightarrow> (limit, False, 0) | Some (i, took) \<Rightarrow> (i, True, took)))))"

section \<open>Whole numbers\<close>

definition digit_of :: "int \<Rightarrow> byte \<Rightarrow> int option" where
  "digit_of radix b =
     (let c = uint b;
          digit = (if 0x30 \<le> c \<and> c \<le> 0x39 then Some (c - 0x30)
                   else if 0x61 \<le> c \<and> c \<le> 0x66 then Some (c - 0x61 + 10)
                   else if 0x41 \<le> c \<and> c \<le> 0x46 then Some (c - 0x41 + 10)
                   else None)
      in case digit of None \<Rightarrow> None | Some d \<Rightarrow> if radix \<le> d then None else Some d)"

fun digits_loop :: "int \<Rightarrow> int \<Rightarrow> bytes \<Rightarrow> int option" where
  "digits_loop radix acc [] = Some acc"
| "digits_loop radix acc (b # bs) =
     (case digit_of radix b of None \<Rightarrow> None | Some d \<Rightarrow> digits_loop radix (acc * radix + d) bs)"

text \<open>\<open>digits_of\<close>, given where the content starts and how long it is, and the parse of what it holds.\<close>

definition digits_of :: "walk_view \<Rightarrow> nat \<Rightarrow> nat \<Rightarrow> bytes option" where
  "digits_of v offset content =
     (let data = slice (wk_buffer v) (wk_at v + offset) content in if data = [] then None else Some data)"

definition walk_parse_digits :: "int \<Rightarrow> bool \<Rightarrow> bytes option \<Rightarrow> int option" where
  "walk_parse_digits radix is_signed held =
     (if radix < 2 \<or> 16 < radix then None
      else case held of None \<Rightarrow> None
      | Some data \<Rightarrow>
          let negative = (is_signed \<and> take 1 data = [0x2D]);
              data = (if negative then drop 1 data else data)
          in if negative \<and> data = [] then None
             else case digits_loop radix 0 data of None \<Rightarrow> None
             | Some val \<Rightarrow> if negative then (if val = 0 then None else Some (- val)) else Some val)"

section \<open>Scaled numbers\<close>

text \<open>A run of decimal digits: the number so far, the digits counted, and what follows them.\<close>

fun fraction_digits :: "int \<Rightarrow> nat \<Rightarrow> bytes \<Rightarrow> int \<times> nat \<times> bytes" where
  "fraction_digits acc n [] = (acc, n, [])"
| "fraction_digits acc n (b # bs) =
     (if 0x30 \<le> uint b \<and> uint b \<le> 0x39 then fraction_digits (acc * 10 + (uint b - 0x30)) (n + 1) bs else (acc, n, b # bs))"

fun exponent_run :: "int \<Rightarrow> nat \<Rightarrow> bytes \<Rightarrow> (int \<times> nat \<times> bytes) option" where
  "exponent_run acc n [] = Some (acc, n, [])"
| "exponent_run acc n (b # bs) =
     (if 0x30 \<le> uint b \<and> uint b \<le> 0x39 then
        (if 1000000000 < acc then None else exponent_run (acc * 10 + (uint b - 0x30)) (n + 1) bs)
      else Some (acc, n, b # bs))"

definition walk_fraction :: "int \<Rightarrow> bytes \<Rightarrow> (int \<times> nat \<times> bytes) option" where
  "walk_fraction magnitude data =
     (case data of [] \<Rightarrow> Some (magnitude, 0, [])
      | b # bs \<Rightarrow>
          if b = 0x2E then (case fraction_digits magnitude 0 bs of (m, n, rest) \<Rightarrow> if n = 0 then None else Some (m, n, rest))
          else Some (magnitude, 0, data))"

definition walk_exponent :: "bytes \<Rightarrow> (int \<times> bytes) option" where
  "walk_exponent data =
     (case data of [] \<Rightarrow> Some (0, [])
      | b # bs \<Rightarrow>
          if b = 0x65 \<or> b = 0x45 then
            (let down = (take 1 bs = [0x2D]); bs = (if take 1 bs = [0x2B] \<or> take 1 bs = [0x2D] then drop 1 bs else bs)
             in case exponent_run 0 0 bs of None \<Rightarrow> None
                | Some (e, n, rest) \<Rightarrow> if n = 0 then None else Some (if down then - e else e, rest))
          else Some (0, data))"

definition walk_parse_scaled :: "bool \<Rightarrow> bytes \<Rightarrow> (int \<times> int) option" where
  "walk_parse_scaled is_signed data =
     (if data = [] then None
      else let negative = (take 1 data = [0x2D]);
               data = (if negative then drop 1 data else data)
           in case fraction_digits 0 0 data of (m, n, rest) \<Rightarrow>
             if n = 0 then None
             else case walk_fraction m rest of None \<Rightarrow> None
             | Some (m, fraction, rest) \<Rightarrow>
                 (case walk_exponent rest of None \<Rightarrow> None
                  | Some (exponent, rest) \<Rightarrow>
                      if rest \<noteq> [] then None
                      else let scale = exponent - int fraction in
                        if scale < - 0x80000000 \<or> 0x7FFFFFFF < scale then None
                        else let val = (if negative then - m else m) in
                          if \<not> is_signed \<and> val < 0 then None else Some (val, scale)))"

section \<open>Digits\<close>

lemma digit_of_iff:
  assumes "radix \<le> 16"
  shows "digit_of (int radix) b = (if is_digit radix b then digit_val b else None)"
  using assms by (auto simp: digit_of_def is_digit_def digit_val_def Let_def)

lemma digits_loop_value:
  assumes "radix \<le> 16"
  shows "digits_loop (int radix) acc bs = (if list_all (is_digit radix) bs then Some (text_value radix acc bs) else None)"
proof (induction bs arbitrary: acc)
  case (Cons b bs)
  show ?case
  proof (cases "is_digit radix b")
    case True
    then obtain d where "digit_val b = Some d" by (auto simp: is_digit_def split: option.splits)
    then show ?thesis using True Cons.IH by (simp add: digit_of_iff [OF assms] text_value_def)
  next
    case False
    then show ?thesis by (simp add: digit_of_iff [OF assms])
  qed
qed (simp add: text_value_def)

lemma text_value_nonneg:
  assumes "list_all (is_digit radix) bs" and "0 \<le> acc"
  shows "0 \<le> text_value radix acc bs"
  using assms
proof (induction bs arbitrary: acc)
  case (Cons b bs)
  then have "0 \<le> acc * int radix + the (digit_val b)" using is_digit_props(6) [of radix b] by simp
  then show ?case using Cons.IH [of "acc * int radix + the (digit_val b)"] Cons.prems(1) by (simp add: text_value_def)
qed (simp add: text_value_def)

lemma minus_no_digit: "\<not> is_digit radix 0x2D"
  using is_digit_props(4) by blast

text \<open>
  C21: the walker reads a whole number in text as the runtime does.  For every radix the schema can
  state, the runtime's answer over the same bytes is the walker's where that lies in the range of
  the type and Python's own limit on digits is kept, and None otherwise; signed and unsigned, with
  the same refusals of an empty run, a foreign byte, a lone sign and a negative zero.
\<close>

theorem digits_read_as_runtime:
  assumes "2 \<le> radix" and "radix \<le> 16" and "lo \<le> 0" and "0 \<le> hi"
  shows "parse_int data radix lo hi =
      (if too_long radix (if take 1 data = [0x2D] then drop 1 data else data) then None
       else case walk_parse_digits (int radix) True (if data = [] then None else Some data) of
         Some x \<Rightarrow> if lo \<le> x \<and> x \<le> hi then Some x else None | None \<Rightarrow> None)
    \<and> parse_uint data radix hi =
      (if too_long radix data then None
       else case walk_parse_digits (int radix) False (if data = [] then None else Some data) of
         Some x \<Rightarrow> if x \<le> hi then Some x else None | None \<Rightarrow> None)"
proof -
  have unsigned: "parse_uint raw radix limit = (if raw \<noteq> [] \<and> \<not> too_long radix raw then
      (case digits_loop (int radix) 0 raw of Some x \<Rightarrow> if x \<le> limit then Some x else None | None \<Rightarrow> None) else None)"
    and nonneg: "digits_loop (int radix) 0 raw = Some x \<Longrightarrow> 0 \<le> x" for raw limit x
    using parse_uint_eq [OF assms(1,2), of raw limit] digits_loop_value [OF assms(2), of 0 raw] text_value_nonneg [of radix raw 0]
    by (auto split: if_splits)
  have radix: "\<not> (int radix < 2 \<or> 16 < int radix)" using assms(1,2) by simp
  show ?thesis
  proof
    show "parse_uint data radix hi =
      (if too_long radix data then None
       else case walk_parse_digits (int radix) False (if data = [] then None else Some data) of
         Some x \<Rightarrow> if x \<le> hi then Some x else None | None \<Rightarrow> None)"
      using radix by (auto simp: unsigned walk_parse_digits_def split: option.splits)
    show "parse_int data radix lo hi =
      (if too_long radix (if take 1 data = [0x2D] then drop 1 data else data) then None
       else case walk_parse_digits (int radix) True (if data = [] then None else Some data) of
         Some x \<Rightarrow> if lo \<le> x \<and> x \<le> hi then Some x else None | None \<Rightarrow> None)"
      using radix assms(3,4) nonneg [of data] nonneg [of "drop 1 data"]
      by (cases "take 1 data = [0x2D]")
        (auto simp: parse_int_def unsigned walk_parse_digits_def Let_def split: option.splits if_splits)
  qed
qed

theorem digits_read_as_runtime_witness:
  "parse_int [0x2D, 0x31, 0x32] 10 (- 128) 127 = Some (- 12) \<and> walk_parse_digits 10 True (Some [0x2D, 0x31, 0x32]) = Some (- 12)"
proof -
  have walked: "walk_parse_digits 10 True (Some [0x2D, 0x31, 0x32]) = Some (- 12)" by code_simp
  moreover have "\<not> too_long 10 [0x31, 0x32]" by code_simp
  ultimately show ?thesis
    using digits_read_as_runtime [where data = "[0x2D, 0x31, 0x32]" and radix = 10 and lo = "- 128" and hi = 127] by simp
qed

section \<open>Scaled numbers as the runtime's\<close>

lemma fraction_digits_value:
  "fraction_digits acc n bs = (dec_value acc (takeWhile is_dec bs), n + length (takeWhile is_dec bs), dropWhile is_dec bs)"
  by (induction bs arbitrary: acc n) (auto simp: dec_value_def is_dec_def)

text \<open>An index of the runtime's scan is where the walker's rest begins.\<close>

lemma drop_back: "drop (length raw - length (drop k raw)) raw = drop k raw"
  by (cases "k \<le> length raw") simp_all

lemma dec_run_rest_drop: "drop (i + length (dec_run raw i)) raw = dropWhile is_dec (drop i raw)"
  by (metis add.commute dec_run_def drop_drop dropWhile_eq_drop)

lemma exponent_run_scan:
  "exponent_run x n (drop i raw) = (case exp_loop raw i x of None \<Rightarrow> None | Some (j, e) \<Rightarrow> Some (e, n + (j - i), drop j raw))
    \<and> (case exp_loop raw i x of None \<Rightarrow> True | Some (j, e) \<Rightarrow> i \<le> j)"
proof (induction raw i x arbitrary: n rule: exp_loop.induct)
  case (1 raw i x)
  show ?case
  proof (cases "dec_at raw i")
    case True
    then have at: "drop i raw = raw ! i # drop (i + 1) raw" "is_dec (raw ! i)"
      by (simp_all add: dec_at_iff Cons_nth_drop_Suc)
    show ?thesis
    proof (cases "1000000000 < x")
      case True
      then show ?thesis using at \<open>dec_at raw i\<close> by (simp add: exp_loop.simps [of raw i] is_dec_def)
    next
      case False
      note IH = 1(1) [OF \<open>dec_at raw i\<close> False, of "n + 1"]
      show ?thesis using IH at False \<open>dec_at raw i\<close>
        by (auto simp: exp_loop.simps [of raw i] is_dec_def split: option.splits)
    qed
  next
    case False
    then have "drop i raw = [] \<or> (\<exists>b bs. drop i raw = b # bs \<and> \<not> is_dec b)"
      by (cases "i < length raw") (auto simp: dec_at_iff Cons_nth_drop_Suc [symmetric])
    then show ?thesis using False by (auto simp: exp_loop.simps [of raw i] is_dec_def)
  qed
qed

lemma fraction_scan:
  "walk_fraction m (drop i raw) = (case scan_fraction raw i m of None \<Rightarrow> None
      | Some (j, m', f) \<Rightarrow> Some (m', nat f, drop j raw))
    \<and> (case scan_fraction raw i m of None \<Rightarrow> True | Some (j, m', f) \<Rightarrow> 0 \<le> f)"
proof (cases "byte_at raw i [0x2E]")
  case True
  then have "drop i raw = 0x2E # drop (i + 1) raw"
    by (auto simp: byte_at_def Cons_nth_drop_Suc [symmetric])
  then show ?thesis using True
    by (auto simp: walk_fraction_def scan_fraction_def frac_loop_run fraction_digits_value Let_def dec_run_def
        dec_run_rest_drop [of "i + 1" raw, unfolded dec_run_def, simplified])
next
  case False
  then show ?thesis
    by (auto simp: byte_at_drop walk_fraction_def scan_fraction_def split: list.splits)
qed

lemma exponent_scan:
  "walk_exponent (drop i raw) = (case scan_exponent raw i of None \<Rightarrow> None | Some (j, e) \<Rightarrow> Some (e, drop j raw))"
proof (cases "byte_at raw i [0x65, 0x45]")
  case True
  then have e: "drop i raw = raw ! i # drop (i + 1) raw" "raw ! i = 0x65 \<or> raw ! i = 0x45"
    by (auto simp: byte_at_def Cons_nth_drop_Suc [symmetric])
  have sign: "take 1 (drop (i + 1) raw) = [b] \<longleftrightarrow> byte_at raw (i + 1) [b]" for b
    by (cases "drop (i + 1) raw") (simp_all only: byte_at_drop, auto)
  have signs: "byte_at raw (i + 1) [0x2B, 0x2D] \<longleftrightarrow> byte_at raw (i + 1) [0x2B] \<or> byte_at raw (i + 1) [0x2D]"
    by (auto simp: byte_at_def)
  define first where "first = (if byte_at raw (i + 1) [0x2B, 0x2D] then i + 1 + 1 else i + 1)"
  have rest: "(if byte_at raw (i + 1) [0x2B] \<or> byte_at raw (i + 1) [0x2D] then drop 1 (drop (i + 1) raw) else drop (i + 1) raw)
      = drop first raw"
    unfolding signs [symmetric] by (simp add: first_def)
  have "walk_exponent (drop i raw) = (case exponent_run 0 0 (drop first raw) of None \<Rightarrow> None
      | Some (x, n, left) \<Rightarrow> if n = 0 then None else Some (if byte_at raw (i + 1) [0x2D] then - x else x, left))"
    unfolding walk_exponent_def e(1) list.case Let_def sign rest using e(2) by auto
  moreover have "scan_exponent raw i = (case exp_loop raw first 0 of None \<Rightarrow> None
      | Some (j, x) \<Rightarrow> if j = first then None else Some (j, if byte_at raw (i + 1) [0x2D] then - x else x))"
    unfolding scan_exponent_def if_P [OF True] Let_def first_def [symmetric] by (rule refl)
  ultimately show ?thesis
    using exponent_run_scan [of 0 0 first raw] by (auto split: option.splits)
next
  case False
  then show ?thesis by (auto simp: byte_at_drop walk_exponent_def scan_exponent_def split: list.splits)
qed

text \<open>The runtime's scan never passes the end of the bytes.\<close>

lemma dec_run_length: "length (dec_run raw i) \<le> length raw - i"
  by (metis dec_run_def length_drop length_takeWhile_le)

lemma exp_loop_bound: "exp_loop raw i x = Some (j, e) \<Longrightarrow> i \<le> length raw \<Longrightarrow> j \<le> length raw"
proof (induction raw i x rule: exp_loop.induct)
  case (1 raw i x)
  show ?case
  proof (cases "dec_at raw i")
    case True
    then have "\<not> 1000000000 < x" using 1(2) by (auto simp: exp_loop.simps [of raw i])
    then show ?thesis using 1 True by (simp add: exp_loop.simps [of raw i] dec_at_def)
  qed (use 1 in \<open>simp add: exp_loop.simps [of raw i]\<close>)
qed

lemma scan_fraction_bound:
  assumes "scan_fraction raw i m = Some (j, m', f)" and "i \<le> length raw"
  shows "j \<le> length raw"
  using assms dec_run_length [of raw "i + 1"]
  by (auto simp: scan_fraction_def frac_loop_run byte_at_def Let_def split: if_splits)

lemma scan_exponent_bound:
  assumes "scan_exponent raw i = Some (j, e)" and "i \<le> length raw"
  shows "j \<le> length raw"
  using assms
  by (auto simp: scan_exponent_def byte_at_def Let_def split: if_splits option.splits dest!: exp_loop_bound)

text \<open>Both readers after the sign, over the same parts.\<close>

lemma scaled_after_sign:
  assumes "is_signed \<or> lo = 0"
  shows "scan_scaled negative raw lo hi =
    (case (case fraction_digits 0 0 raw of (m, n, rest) \<Rightarrow>
             if n = 0 then None
             else case walk_fraction m rest of None \<Rightarrow> None
             | Some (m, fraction, rest) \<Rightarrow>
                 (case walk_exponent rest of None \<Rightarrow> None
                  | Some (exponent, rest) \<Rightarrow>
                      if rest \<noteq> [] then None
                      else let scale = exponent - int fraction in
                        if scale < - 0x80000000 \<or> 0x7FFFFFFF < scale then None
                        else let val = (if negative then - m else m) in
                          if \<not> is_signed \<and> val < 0 then None else Some (val, scale))) of
       Some (x, scale) \<Rightarrow> if lo \<le> x \<and> x \<le> hi then Some (x, scale) else None | None \<Rightarrow> None)"
proof -
  define run where "run = dec_run raw 0"
  have run: "fraction_digits 0 0 raw = (dec_value 0 run, length run, drop (length run) raw)"
    using dec_run_rest_drop [of 0 raw] by (simp add: fraction_digits_value run_def dec_run_def)
  have loop: "int_loop raw 0 0 = (length run, dec_value 0 run)"
    by (simp add: int_loop_run run_def)
  have bound: "length run \<le> length raw" using dec_run_length [of raw 0] by (simp add: run_def)
  note fraction = fraction_scan [of "dec_value 0 run" "length run" raw]
  show ?thesis
  proof (cases "scan_fraction raw (length run) (dec_value 0 run)")
    case None
    then show ?thesis using fraction by (simp add: scan_scaled_def run loop)
  next
    case (Some p)
    obtain j m f where p: "scan_fraction raw (length run) (dec_value 0 run) = Some (j, m, f)" using Some by (cases p) auto
    have f: "0 \<le> f" and walked: "walk_fraction (dec_value 0 run) (drop (length run) raw) = Some (m, nat f, drop j raw)"
      using fraction p by simp_all
    have j: "j \<le> length raw" by (rule scan_fraction_bound [OF p bound])
    show ?thesis
    proof (cases "scan_exponent raw j")
      case None
      then show ?thesis using p walked by (simp add: scan_scaled_def run loop exponent_scan)
    next
      case (Some q)
      obtain k e where q: "scan_exponent raw j = Some (k, e)" using Some by (cases q) auto
      have "drop k raw = [] \<longleftrightarrow> k = length raw" using scan_exponent_bound [OF q j] by auto
      then show ?thesis
        using p q walked f assms by (auto simp: scan_scaled_def run loop exponent_scan Let_def)
    qed
  qed
qed

text \<open>
  C20: the walker reads a scaled number in text as the runtime does: the significand and the power of
  ten of every run of bytes are the runtime's, where the significand lies in the range of the type.
\<close>

theorem scaled_read_as_runtime:
  assumes "is_signed \<or> lo = 0"
  shows "parse_scaled data lo hi =
    (case walk_parse_scaled is_signed data of
       Some (x, scale) \<Rightarrow> if lo \<le> x \<and> x \<le> hi then Some (x, scale) else None | None \<Rightarrow> None)"
proof (cases "data = []")
  case True
  then show ?thesis by (simp add: parse_scaled_def walk_parse_scaled_def)
next
  case False
  show ?thesis
    unfolding parse_scaled_def walk_parse_scaled_def if_not_P [OF False] Let_def
    by (rule scaled_after_sign [OF assms, unfolded Let_def])
qed

theorem scaled_read_as_runtime_witness:
  "parse_scaled [0x31, 0x32, 0x2E, 0x35, 0x65, 0x33] (- 1000) 1000 = Some (125, 2)
    \<and> walk_parse_scaled True [0x31, 0x32, 0x2E, 0x35, 0x65, 0x33] = Some (125, 2)"
proof -
  have "walk_parse_scaled True [0x31, 0x32, 0x2E, 0x35, 0x65, 0x33] = Some (125, 2)" by code_simp
  then show ?thesis
    using scaled_read_as_runtime [where data = "[0x31, 0x32, 0x2E, 0x35, 0x65, 0x33]" and lo = "- 1000" and hi = 1000 and is_signed = True]
    by simp
qed

section \<open>Delimited members as the runtime's\<close>

definition rule_byte :: "int \<Rightarrow> int" where
  "rule_byte rule = (if rule = NO_RULE then NO_BYTE else rule)"

lemma rule_byte_iff: "rule_byte rule \<noteq> NO_BYTE \<and> uint (b :: byte) = rule_byte rule \<longleftrightarrow> rule \<noteq> NO_RULE \<and> uint b = rule"
proof -
  have "uint b \<noteq> - 1" using uint_ge_0 [of b] by linarith
  then show ?thesis by (auto simp: rule_byte_def NO_BYTE_def NO_RULE_def)
qed

lemma longest_at_one: "longest_at [delim] raw i = (if slice raw i (length delim) = delim then length delim else 0)"
  by (simp add: longest_at_def)

lemma longest_at_0: "longest_at delims raw i = 0 \<longleftrightarrow> (\<forall>d \<in> set delims. d \<noteq> [] \<longrightarrow> \<not> stands d raw i)"
proof -
  have "longest_at delims raw i = 0 \<longleftrightarrow> (\<forall>n \<in> insert 0 (length ` {d \<in> set delims. slice raw i (length d) = d}). n \<le> 0)"
    unfolding longest_at_def by (subst le_zero_eq [symmetric], subst Max_le_iff) auto
  then show ?thesis by (auto simp: stands_def)
qed

lemma longest_at_is:
  assumes "d \<in> set delims" and "stands d raw i" and "\<And>e. e \<in> set delims \<Longrightarrow> stands e raw i \<Longrightarrow> length e \<le> length d"
  shows "longest_at delims raw i = length d"
  unfolding longest_at_def by (rule Max_eqI) (use assms in \<open>auto simp: stands_def\<close>)

text \<open>One delimiter, with quoting: the two loops go byte by byte together.\<close>

lemma walk_loop_one:
  assumes "delim \<noteq> []"
  shows "walk_scan_loop [delim] quote escape raw (length delim) i quoted =
    bindE (scan_loop raw (length raw) delim (rule_byte quote) (rule_byte escape) i quoted)
      (\<lambda>r. Inr (if r < length raw then Some (r, length delim) else None))"
proof (induction "[delim]" quote escape raw "length delim" i quoted rule: walk_scan_loop.induct)
  case (1 quote escape raw i quoted)
  note walk = walk_scan_loop.simps [of "[delim]" quote escape raw "length delim" i quoted]
  note run = scan_loop.simps [of raw "length raw" delim "rule_byte quote" "rule_byte escape" i quoted]
  show ?case
  proof (cases "length raw < i + length delim")
    case True
    then show ?thesis by (simp add: walk run)
  next
    case False
    have i: "\<not> length raw \<le> i" using False assms by (cases delim) auto
    have reach: "\<not> \<not> i + length delim \<le> length raw" using False by simp
    note both = walk run if_not_P [OF False] if_not_P [OF reach] if_not_P [OF i] Let_def rule_byte_iff longest_at_one
    show ?thesis
    proof (cases "escape \<noteq> NO_RULE \<and> uint (raw ! i) = escape")
      case True
      show ?thesis unfolding both if_P [OF True] by (rule 1(1) [OF False i refl True])
    next
      case escape: False
      show ?thesis
      proof (cases "quote \<noteq> NO_RULE \<and> uint (raw ! i) = quote")
        case True
        show ?thesis unfolding both if_not_P [OF escape] if_P [OF True] by (rule 1(2) [OF False i refl escape True])
      next
        case quote: False
        show ?thesis
        proof (cases "\<not> quoted \<and> slice raw i (length delim) = delim")
          case True
          then show ?thesis unfolding both if_not_P [OF escape] if_not_P [OF quote] using assms i by simp
        next
          case step: False
          then have "\<not> (\<not> quoted \<and> longest_at [delim] raw i \<noteq> 0)" by (auto simp: longest_at_one)
          note IH = 1(3) [OF False i refl escape quote this]
          show ?thesis
            unfolding both if_not_P [OF escape] if_not_P [OF quote] if_not_P [OF step]
            using IH step by auto
        qed
      qed
    qed
  qed
qed

text \<open>Alternatives, with no quoting: the first place where one stands, and the longest there.\<close>

lemma walk_loop_any:
  assumes "[] \<notin> set delims" and "delims \<noteq> []" and "\<And>j. j < i \<Longrightarrow> longest_at delims raw j = 0"
  shows "\<exists>r. walk_scan_loop delims NO_RULE NO_RULE raw (Min (set (map length delims))) i False = Inr r
    \<and> (case r of None \<Rightarrow> \<forall>j. longest_at delims raw j = 0
       | Some (j, took) \<Rightarrow> took = longest_at delims raw j \<and> took \<noteq> 0 \<and> (\<forall>k < j. longest_at delims raw k = 0))"
  using assms(3)
proof (induction "length raw - i" arbitrary: i rule: less_induct)
  case less
  let ?shortest = "Min (set (map length delims))"
  note walk = walk_scan_loop.simps [of delims NO_RULE NO_RULE raw ?shortest i False]
  have short: "?shortest \<le> length d" if "d \<in> set delims" for d using that by simp
  have "?shortest \<in> length ` set delims" using assms(2) Min_in [of "set (map length delims)"] by simp
  then have pos: "0 < ?shortest" using assms(1) by (cases "?shortest") auto
  show ?case
  proof (cases "length raw < i + ?shortest")
    case True
    have "longest_at delims raw j = 0" for j
    proof (cases "j < i")
      case False
      have "\<not> stands d raw j" if "d \<in> set delims" for d
      proof
        assume "stands d raw j"
        then have "j + length d \<le> length raw" using stands_extent [of d raw j] that assms(1) by auto
        then show False using short [OF that] True False by linarith
      qed
      then show ?thesis by (simp add: longest_at_0)
    qed (rule less.prems)
    then show ?thesis unfolding walk if_P [OF True] by simp
  next
    case False
    then have i: "\<not> length raw \<le> i" using pos by linarith
    show ?thesis
    proof (cases "longest_at delims raw i = 0")
      case True
      have "longest_at delims raw j = 0" if "j < i + 1" for j
        using that less.prems True by (cases "j = i") simp_all
      then show ?thesis
        using less.hyps [of "i + 1"] i True unfolding walk if_not_P [OF False] if_not_P [OF i] Let_def by auto
    next
      case found: False
      then show ?thesis
        using less.prems unfolding walk if_not_P [OF False] if_not_P [OF i] Let_def by auto
    qed
  qed
qed

lemma scan_any_is:
  assumes "[] \<notin> set delims"
    and "case r of None \<Rightarrow> \<forall>j. longest_at delims (take limit data) j = 0
       | Some (j, took) \<Rightarrow> took = longest_at delims (take limit data) j \<and> took \<noteq> 0
           \<and> (\<forall>k < j. longest_at delims (take limit data) k = 0)"
  shows "scan_any data limit delims = (case r of None \<Rightarrow> (limit, 0) | Some (j, took) \<Rightarrow> (j, took))"
proof -
  obtain off took where res: "scan_any data limit delims = (off, took)" by (cases "scan_any data limit delims")
  note best = scan_any_best [of limit delims data, unfolded res prod.case]
  show ?thesis
  proof (cases "took = 0")
    case True
    then have "longest_at delims (take limit data) j = 0" for j using best by (simp add: longest_at_0)
    then show ?thesis using assms(2) True best res by (cases r) auto
  next
    case False
    then obtain d where d: "d \<in> set delims" "length d = took" "stands d (take limit data) off"
      and least: "\<forall>e \<in> set delims. \<forall>i. e \<noteq> [] \<and> stands e (take limit data) i \<longrightarrow> off \<le> i \<and> (i = off \<longrightarrow> length e \<le> took)"
      using best by auto
    have ne: "d \<noteq> []" using d(1) assms(1) by auto
    have long: "longest_at delims (take limit data) off = took"
      unfolding d(2) [symmetric] by (rule longest_at_is [OF d(1,3)]) (use least d(2) assms(1) in auto)
    obtain j n where r: "r = Some (j, n)" and n: "n = longest_at delims (take limit data) j" "n \<noteq> 0"
      and first: "\<forall>k < j. longest_at delims (take limit data) k = 0"
      using assms(2) long False by (cases r) (auto split: prod.splits)
    have "\<not> off < j" using first long False by auto
    moreover obtain e where "e \<in> set delims" "e \<noteq> []" "stands e (take limit data) j"
      using n longest_at_0 [of delims "take limit data" j] by auto
    then have "off \<le> j" using least by blast
    ultimately have "j = off" by simp
    then show ?thesis using r n long res by simp
  qed
qed

text \<open>
  C19: the walker finds the end of a delimited member where the runtime finds it: with one delimiter
  under every rule of quoting and escaping, and with alternatives; where it stands, whether it was
  terminated and how long what ended it was are the runtime's answer over the bytes from the
  member's start, within the frame and the member's cap.
\<close>

theorem delimited_read_as_runtime:
  assumes "wk_limit v \<le> length (wk_buffer v)" and "[] \<notin> set (delim # delims)"
  shows "let start = wk_at v + offset; data = drop start (wk_buffer v);
             limit = (if cap \<noteq> NO_RULE then min (wk_limit v - start) (nat cap) else wk_limit v - start)
         in walk_scan v [delim] quote escape cap offset =
              bindE (scan data limit delim (rule_byte quote) (rule_byte escape))
                (\<lambda>r. Inr (Some (r, r < limit, if r < limit then length delim else 0)))
          \<and> walk_scan v (delim # delims) NO_RULE NO_RULE cap offset =
              (case scan_any data limit (delim # delims) of (r, took) \<Rightarrow> Inr (Some (r, took \<noteq> 0, took)))"
proof -
  define start where "start = wk_at v + offset"
  define data where "data = drop start (wk_buffer v)"
  define limit where "limit = (if cap \<noteq> NO_RULE then min (wk_limit v - start) (nat cap) else wk_limit v - start)"
  define raw where "raw = take limit data"
  have len: "length raw = limit" using assms(1) by (auto simp: raw_def data_def limit_def)
  have cut: "slice (wk_buffer v) start limit = raw" by (simp add: slice_def raw_def data_def)
  have ne: "delim \<noteq> []" using assms(2) by auto
  note walk = walk_scan_def [of v _ _ _ cap offset, unfolded Let_def, folded start_def, folded limit_def, unfolded cut]
  have one: "walk_scan v [delim] quote escape cap offset =
      bindE (scan data limit delim (rule_byte quote) (rule_byte escape))
        (\<lambda>r. Inr (Some (r, r < limit, if r < limit then length delim else 0)))"
  proof -
    have loop: "scan data limit delim (rule_byte quote) (rule_byte escape)
        = scan_loop raw limit delim (rule_byte quote) (rule_byte escape) 0 False"
    proof (cases "limit < length delim")
      case True
      then show ?thesis by (simp add: scan_def scan_loop.simps [of raw limit])
    next
      case False
      have "uint b \<noteq> NO_BYTE" for b :: byte unfolding NO_BYTE_def using uint_ge_0 [of b] by linarith
      then show ?thesis
        using False ne scan_loop_plain [of limit raw delim NO_BYTE NO_BYTE 0] len
        by (auto simp: scan_def raw_def [symmetric] Let_def split: option.splits)
    qed
    obtain r where r: "scan_loop raw limit delim (rule_byte quote) (rule_byte escape) 0 False = Inr r" "r \<le> limit"
      using scan_loop_total [of limit raw delim 0 "rule_byte quote" "rule_byte escape" False] len ne by auto
    show ?thesis
      unfolding walk using r walk_loop_one [OF ne, of quote escape raw 0 False] len by (simp add: loop)
  qed
  have any: "walk_scan v (delim # delims) NO_RULE NO_RULE cap offset =
      (case scan_any data limit (delim # delims) of (r, took) \<Rightarrow> Inr (Some (r, took \<noteq> 0, took)))"
  proof -
    obtain r where r: "walk_scan_loop (delim # delims) NO_RULE NO_RULE raw (Min (set (map length (delim # delims)))) 0 False = Inr r"
      and best: "case r of None \<Rightarrow> \<forall>j. longest_at (delim # delims) raw j = 0
        | Some (j, took) \<Rightarrow> took = longest_at (delim # delims) raw j \<and> took \<noteq> 0
            \<and> (\<forall>k < j. longest_at (delim # delims) raw k = 0)"
      using walk_loop_any [OF assms(2), of 0 raw] by auto
    note run = scan_any_is [OF assms(2) best [unfolded raw_def]]
    have took: "n \<noteq> 0" if "r = Some (j, n)" for j n using best that by simp
    show ?thesis
      unfolding walk r run by (cases r) (auto dest: took)
  qed
  show ?thesis using one any unfolding Let_def start_def data_def limit_def by blast
qed

theorem delimited_read_as_runtime_witness:
  "walk_scan \<lparr>wk_buffer = [0x22, 0x2C, 0x22, 0x2C, 0x31], wk_at = 0, wk_limit = 5\<rparr> [[0x2C]] 0x22 NO_RULE NO_RULE 0
      = Inr (Some (3, True, 1))
    \<and> walk_scan \<lparr>wk_buffer = [0x31, 0x0D, 0x0A, 0x2C], wk_at = 0, wk_limit = 4\<rparr> [[0x2C], [0x0D], [0x0D, 0x0A]] NO_RULE NO_RULE NO_RULE 0
      = Inr (Some (1, True, 2))"
proof -
  have "scan [0x22, 0x2C, 0x22, 0x2C, 0x31] 5 [0x2C] 0x22 NO_BYTE = Inr 3" by code_simp
  moreover have "scan_any [0x31, 0x0D, 0x0A, 0x2C] 4 [[0x2C], [0x0D], [0x0D, 0x0A]] = (1, 2)" by code_simp
  ultimately show ?thesis
    using delimited_read_as_runtime [where v = "\<lparr>wk_buffer = [0x22, 0x2C, 0x22, 0x2C, 0x31], wk_at = 0, wk_limit = 5\<rparr>"
        and delim = "[0x2C]" and delims = "[]" and offset = 0 and cap = NO_RULE and quote = "0x22" and escape = NO_RULE]
      delimited_read_as_runtime [where v = "\<lparr>wk_buffer = [0x31, 0x0D, 0x0A, 0x2C], wk_at = 0, wk_limit = 4\<rparr>"
        and delim = "[0x2C]" and delims = "[[0x0D], [0x0D, 0x0A]]" and offset = 0 and cap = NO_RULE and quote = 0 and escape = 0]
    by (simp add: Let_def rule_byte_def NO_RULE_def)
qed

end
