(* ===== verification/Spec2Isabelle.thy ===== *)
theory Spec2Isabelle
  imports Runtime_State Varint_Leb Varint_Be Varint_Quic Varint_Marked Varint_Prefixed
    Runtime_Scan Runtime_Numbers Runtime_Scaled Runtime_Unicode Capability Revision Expr_Relations
    Block_Codes Bytecode_Sound Image_Roundtrip
    Expr_Printable Requirements Layers Session
    Walk_Varint Walk_Scalar Walk_Text
begin

text \<open>
  A verification library for situ, a schema language for binary formats: its compiler (\<open>situc/\<close>),
  the walker that reads packed images (\<open>walker/\<close>) and the Python runtime that generated code stands
  on (\<open>runtime/python/situ_runtime.py\<close>).

  \<^bold>\<open>How the parts fit together.\<close>  The compiler scans and parses a schema, places every member, derives
  for each placement a vector of capabilities by a table of rules, and discharges the \<open>require\<close>s of
  the schema against those vectors.  It then either generates code, which calls the runtime, or packs
  the resolved schema into an image, a file of tables with expressions compiled to bytecode, which
  the walker loads and interprets.  A message is read the same way by both; that is what most of
  the equivalences below are about.

  \<^bold>\<open>The runtime\<close> (\<open>runtime/python/situ_runtime.py\<close>)

  \<^item> \<open>Situ_Prelude\<close>: bytes, \<open>int.from_bytes\<close> and \<open>int.to_bytes\<close>, slices and stores, bit operations on
    unbounded integers, and exceptions as values of a sum (\<open>exn\<close>, \<open>res\<close>, \<open>bindE\<close>).
  \<^item> \<open>Runtime_State\<close>: \<open>Message\<close>, \<open>View\<close>, \<open>Gate\<close>, \<open>Register\<close>, \<open>acquire\<close>.  A bit field round trips and
    leaves its neighbours alone; a stale view stays stale.
  \<^item> \<open>Codec_Interface\<close>: the locale \<open>varint_codec\<close> with the laws of a variable-length integer and what
    follows from them; interpreted on the runtime's own functions in \<open>Varint_Leb\<close>, \<open>Varint_Be\<close>,
    \<open>Varint_Quic\<close>, \<open>Varint_Marked\<close> and \<open>Varint_Prefixed\<close>, which hold the ten encodings.
  \<^item> \<open>Runtime_Scan\<close>, \<open>Runtime_Numbers\<close>, \<open>Runtime_Scaled\<close>, \<open>Runtime_Unicode\<close>: delimiter scans and clamped
    offsets, numbers as text and packed decimal, scaled numbers, and the text encodings against
    Unicode's definitions of them.

  \<^bold>\<open>The compiler: expressions\<close>

  \<^item> \<open>Lexer\<close>, \<open>Lex_Facts\<close> (\<open>lexer.py\<close>): the scanner, total by the length of what is left, and
    that its tokens cover the source in order, each of the shape its kind says, with nothing between
    them but what an inductive grammar of blanks and comments generates.
  \<^item> \<open>Expr_Syntax\<close>, \<open>Expr_Interval\<close>, \<open>Expr_Sound\<close>, \<open>Expr_Relations\<close> (\<open>ast.py\<close>, \<open>expr.py\<close>): the tree,
    \<open>evaluate\<close>, \<open>interval_of\<close> with every operator's rule and refusal, and \<open>relational_floor\<close>; the
    interval of an accepted expression holds its value in every message, and such an expression
    has a value.  Where a path spells both a field and an enum member or a constant the compiler's
    own functions differ on which is meant; \<open>unshadowed\<close> and \<open>named_apart\<close> keep those expressions out,
    and \<open>shadowed_call_folds\<close> and \<open>clashing_name_floor\<close> show why.
  \<^item> \<open>Unparse\<close>, \<open>Lex_Emit\<close>, \<open>Expr_Parser\<close>, \<open>Expr_Descent\<close>, \<open>Expr_Tokens\<close>, \<open>Expr_Roundtrip\<close>,
    \<open>Expr_Printable\<close> (\<open>unparse.py\<close>, the expression part of \<open>parser.py\<close>): printing and parsing, and
    that printing then parsing gives the tree back.  The descent carries a fuel of twenty times
    the tokens and fifteen; \<open>parse_expression_returns\<close> shows it is never spent.
  \<^item> \<open>Bytecode\<close>, \<open>Bytecode_Sound\<close> (\<open>pack.py\<close>, \<open>walker/vm.py\<close>): the compiler to bytecode and the machine;
    a packed program answers what the expression is worth, where the worth of an operator is what
    \<open>expr.py\<close> says of its spelling and owes nothing to the packer's opcode tables.

  \<^bold>\<open>The compiler: types, codecs and capabilities\<close>

  \<^item> \<open>Scalar_Types\<close> (\<open>types.py\<close>), \<open>Kernel_Math\<close>, \<open>Block_Codes\<close> (\<open>codegen/kernel_math.py\<close>), \<open>Checksum\<close>
    (\<open>pack.py\<close>, \<open>walker/derived.py\<close>): scalars and literals; CRCs, block codes and field tables; the
    checksum the walker computes from a packed row is that of the reference register.
  \<^item> \<open>Capability\<close>, \<open>Revision\<close> (\<open>capability.py\<close>, \<open>revision.py\<close>): the axes, the order and the meet of
    vectors as greatest lower bound; the comparison of two revisions.
  \<^item> \<open>Propagate_Rows\<close>, \<open>Propagate_Table\<close>, \<open>Propagate\<close> (\<open>propagate.py\<close>): the conditions, the sixty-five
    rows and \<open>apply\<close>.  No row strengthens an axis, and every loss has a reason in the blame chain.
  \<^item> \<open>Resolve\<close> (\<open>resolve.py\<close>, lookups of \<open>layout.py\<close>): a struct's entries, the meet into struct-typed
    fields, the vector of a whole struct, \<open>[require_aligned]\<close>.
  \<^item> \<open>Requirements\<close> (\<open>requirements.py\<close>): predicates, demands, blame, and the gate: a build goes through
    exactly when every requirement can be discharged by itself and no decided \<open>require\<close> fails.
  \<^item> \<open>Layers\<close> (\<open>layers.py\<close>): the lowest rung that can emit a schema.

  \<^bold>\<open>The packed image and the walker\<close>

  \<^item> \<open>Image_Format\<close>, \<open>Image_Roundtrip\<close> (\<open>pack.py\<close>, \<open>walker/image.py\<close>): records, sections, the string pool
    and the loader; what is assembled is found again and a cut image is refused.
  \<^item> \<open>Walk_Varint\<close>, \<open>Walk_Scalar\<close>, \<open>Walk_Text\<close> (\<open>walker/walk.py\<close>, and for the varints \<open>ast.py\<close>,
    \<open>parser.py\<close>, \<open>pack.py\<close>, \<open>codegen/varint.py\<close>): how the walker reads and stores one member, given
    where it starts, and that it answers what the runtime answers the generated code.
  \<^item> \<open>Session\<close> (\<open>walker/session.py\<close>): the reader that frames a stream and the table of pending
    requests, over a walk given as functions.  Every message of a stream is delivered, however
    the stream is cut, where the walk asks for no more than a message has; and no recorded request
    is lost or answered twice.

  \<^bold>\<open>Conventions.\<close>  Python integers are \<open>int\<close>, lengths and positions that cannot be negative are \<open>nat\<close>,
  a byte is an \<open>8 word\<close>.  A raise is a value on the left of a sum or None, an assertion that can
  fail is \<open>PyAssertionError\<close>.  Dictionaries that the code iterates over are lists of pairs.  Loops are
  structural recursion on what bounds them, or \<open>function\<close> with a measure.  Diagnostics keep what
  the code decides by (the kind of a refusal; severity, words and blame of a discharge) and not
  the rendered text; spans of expressions are left out.  A placement keeps the attributes that
  propagation, resolution and discharge read.

  \<^bold>\<open>Bounds.\<close>  Source characters are code points below 256.  Python's recursion limit and memory are not
  modelled; its limit of 4300 digits on conversions from decimal text is.  Python's codecs (for
  literals under a declared encoding) are a parameter with named hypotheses.

  \<^bold>\<open>Not modelled.\<close>  The syntax of declarations, members and attributes, and with it well-formedness
  (\<open>wellformed.py\<close>), the layout solver (\<open>layout.py\<close>), traversal, relations, invariants, names,
  namespaces and imports: they read the whole declaration tree, and what they hand on (placements,
  resolved structs, expressions) is where the model starts.  The offset chain of \<open>walker/walk.py\<close> and
  its reports.  The generators of C, C++, Rust, Python and Lua, whose output would need a semantics
  of the target language.  Command line, language server, advice, documentation and rendering, which
  are input and output.  The runtimes in other languages, editors, tools, tests and examples.
\<close>

end
